(* ===== verification/Prelude.thy ===== *)
theory Prelude
  imports
    Main
    "HOL-Library.Word"
    "HOL-Library.Monad_Syntax"
    "HOL-Library.Multiset"
begin

unbundle bit_operations_syntax

text \<open>
  Shared vocabulary of the development: the names of the machine integers of the kernel, the
  wrap-around of 64-bit arithmetic on natural numbers, the total-correctness predicate
  \<open>ok\<close> for computations that may not return, single bits of bytes, little-endian words in a
  byte buffer, and the list lemmas the components share.
\<close>

section \<open>Machine integers\<close>

type_synonym u8 = "8 word"
type_synonym u16 = "16 word"
type_synonym u32 = "32 word"
type_synonym u64 = "64 word"

text \<open>
  Page numbers and physical addresses are \<open>uint64_t\<close>; where a component reasons about them
  as numbers they are natural numbers below \<open>2 ^ 64\<close> and every addition and subtraction that
  can leave that range is written with its wrap-around.
\<close>

definition add64 :: "nat \<Rightarrow> nat \<Rightarrow> nat" where
  "add64 a b = (a + b) mod 2 ^ 64"

definition sub64 :: "nat \<Rightarrow> nat \<Rightarrow> nat" where
  "sub64 a b = (a + (2 ^ 64 - b mod 2 ^ 64)) mod 2 ^ 64"

lemma add64_nowrap: "a + b < 2 ^ 64 \<Longrightarrow> add64 a b = a + b"
  by (simp add: add64_def)

lemma sub64_nowrap: "b \<le> a \<Longrightarrow> a < 2 ^ 64 \<Longrightarrow> sub64 a b = a - b"
proof -
  assume "b \<le> a" "a < 2 ^ 64"
  then have "a + (2 ^ 64 - b mod 2 ^ 64) = (a - b) + 2 ^ 64" by simp
  then show ?thesis using \<open>a < 2 ^ 64\<close> unfolding sub64_def by (simp add: less_imp_diff_less)
qed

lemma add64_less [simp]: "add64 a b < 2 ^ 64"
  by (simp add: add64_def)

lemma sub64_less [simp]: "sub64 a b < 2 ^ 64"
  by (simp add: sub64_def)

lemma unat_eq_unat [simp]: "unat a = unat b \<longleftrightarrow> a = b"
  by (simp add: word_unat_eq_iff)

lemma unat_less_32: "unat (x :: u32) < 2 ^ 32"
  using unsigned_less [of x, where 'a = nat] by simp

lemma div_1024_less: "unat (x :: u32) div 1024 < 4194304"
proof (rule less_mult_imp_div_less)
  have "(4194304 :: nat) * 1024 = 2 ^ 32" by simp
  then show "unat x < 4194304 * 1024" using unat_less_32 [of x] by metis
qed

section \<open>Computations that may not return\<close>

text \<open>
  A kernel routine that can panic (a failed \<open>KASSERT\<close>), sleep for ever on a lock that the only
  running task holds, or step outside an array is a function into \<open>option\<close>: \<^const>\<open>None\<close> means that
  the call does not return. \<open>ok m Q\<close> says that \<open>m\<close> does return and that its result satisfies
  \<open>Q\<close>; it composes along the \<^const>\<open>Option.bind\<close> of the \<open>do\<close> blocks.
\<close>

definition ok :: "'a option \<Rightarrow> ('a \<Rightarrow> bool) \<Rightarrow> bool" where
  "ok m Q \<longleftrightarrow> (\<exists>x. m = Some x \<and> Q x)"

named_theorems ok_intros

lemma ok_Some [simp]: "ok (Some x) Q = Q x"
  by (simp add: ok_def)

lemma ok_None [simp]: "\<not> ok None Q"
  by (simp add: ok_def)

lemma ok_bind [simp]: "ok (Option.bind m f) Q = ok m (\<lambda>x. ok (f x) Q)"
  by (cases m) simp_all

lemma ok_if [simp]: "ok (if b then m else n) Q = (if b then ok m Q else ok n Q)"
  by simp

lemma ok_let [simp]: "ok (let x = a in f x) Q = (let x = a in ok (f x) Q)"
  by (simp add: Let_def)

lemma ok_conseq: "ok m P \<Longrightarrow> (\<And>x. P x \<Longrightarrow> Q x) \<Longrightarrow> ok m Q"
  by (auto simp: ok_def)

lemma ok_elim: "ok m P \<Longrightarrow> (\<And>x. m = Some x \<Longrightarrow> P x \<Longrightarrow> thesis) \<Longrightarrow> thesis"
  by (auto simp: ok_def)

lemma ok_returns: "ok m Q \<Longrightarrow> \<exists>x. m = Some x"
  by (auto simp: ok_def)

lemma ok_result: "ok m Q \<Longrightarrow> m = Some x \<Longrightarrow> Q x"
  by (auto simp: ok_def)

lemma ok_the: "ok m Q \<longleftrightarrow> m \<noteq> None \<and> Q (the m)"
  by (auto simp: ok_def)

section \<open>Bits of a byte\<close>

text \<open>The masks \<open>1 << (n % 8)\<close> with which the bitmaps set, clear and test one bit.\<close>

definition byte_mask :: "nat \<Rightarrow> u8" where
  "byte_mask n = push_bit (n mod 8) 1"

lemma bit_byte_mask [simp]: "bit (byte_mask n) i \<longleftrightarrow> i = n mod 8"
  by (auto simp: byte_mask_def bit_simps)

lemma and_mask_eq_0: "(x AND byte_mask n = 0) \<longleftrightarrow> \<not> bit x (n mod 8)"
proof
  assume "x AND byte_mask n = 0"
  then have "\<not> bit (x AND byte_mask n) (n mod 8)" by simp
  then show "\<not> bit x (n mod 8)" by (simp only: bit_and_iff bit_byte_mask) simp
next
  assume "\<not> bit x (n mod 8)"
  then show "x AND byte_mask n = 0"
    by (intro bit_word_eqI) (auto simp only: bit_and_iff bit_byte_mask bit_0_eq bot_apply bot_bool_def)
qed

lemma bit_or_mask: "bit (x OR byte_mask n) i \<longleftrightarrow> bit x i \<or> i = n mod 8"
  by (auto simp: bit_simps)

lemma bit_and_not_mask: "bit (x AND NOT (byte_mask n)) i \<longleftrightarrow> bit x i \<and> i \<noteq> n mod 8"
  by (cases "i < 8") (auto simp: bit_simps dest: bit_imp_le_length)

lemma div_mod_8_eq: "(p :: nat) div 8 = q div 8 \<Longrightarrow> p mod 8 = q mod 8 \<Longrightarrow> p = q"
  by (metis div_mult_mod_eq)

section \<open>Little-endian fields in a byte buffer\<close>

definition rd16 :: "(nat \<Rightarrow> u8) \<Rightarrow> nat \<Rightarrow> u16" where
  "rd16 d p = ucast (d p) OR push_bit 8 (ucast (d (p + 1)))"

definition wr16 :: "(nat \<Rightarrow> u8) \<Rightarrow> nat \<Rightarrow> u16 \<Rightarrow> nat \<Rightarrow> u8" where
  "wr16 d p v = d(p := ucast v, p + 1 := ucast (drop_bit 8 v))"

definition rd32 :: "(nat \<Rightarrow> u8) \<Rightarrow> nat \<Rightarrow> u32" where
  "rd32 d p = ucast (d p) OR push_bit 8 (ucast (d (p + 1))) OR
     push_bit 16 (ucast (d (p + 2))) OR push_bit 24 (ucast (d (p + 3)))"

definition wr32 :: "(nat \<Rightarrow> u8) \<Rightarrow> nat \<Rightarrow> u32 \<Rightarrow> nat \<Rightarrow> u8" where
  "wr32 d p v = d(p := ucast v, p + 1 := ucast (drop_bit 8 v),
     p + 2 := ucast (drop_bit 16 v), p + 3 := ucast (drop_bit 24 v))"

lemma rd16_wr16_same [simp]: "rd16 (wr16 d p v) p = v"
proof (rule bit_word_eqI)
  fix n assume "n < LENGTH(16)"
  then show "bit (rd16 (wr16 d p v) p) n = bit v n"
    by (cases "n < 8") (auto simp: rd16_def wr16_def bit_simps)
qed

lemma rd32_wr32_same [simp]: "rd32 (wr32 d p v) p = v"
proof (rule bit_word_eqI)
  fix n assume n: "n < LENGTH(32)"
  consider "n < 8" | "8 \<le> n" "n < 16" | "16 \<le> n" "n < 24" | "24 \<le> n" "n < 32" using n by fastforce
  then show "bit (rd32 (wr32 d p v) p) n = bit v n"
    by cases (auto simp: rd32_def wr32_def bit_simps)
qed

lemma rd32_cong: "(\<And>i. p \<le> i \<Longrightarrow> i < p + 4 \<Longrightarrow> d i = e i) \<Longrightarrow> rd32 d p = rd32 e p"
  by (simp add: rd32_def)

lemma rd16_cong: "(\<And>i. p \<le> i \<Longrightarrow> i < p + 2 \<Longrightarrow> d i = e i) \<Longrightarrow> rd16 d p = rd16 e p"
  by (simp add: rd16_def)

lemma wr32_other: "i < p \<or> p + 4 \<le> i \<Longrightarrow> wr32 d p v i = d i"
  by (auto simp: wr32_def)

lemma wr16_other: "i < p \<or> p + 2 \<le> i \<Longrightarrow> wr16 d p v i = d i"
  by (auto simp: wr16_def)

lemma rd32_wr32_other: "q + 4 \<le> p \<or> p + 4 \<le> q \<Longrightarrow> rd32 (wr32 d p v) q = rd32 d q"
  by (rule rd32_cong, rule wr32_other) linarith

end
