(* ===== verification/Bio.thy ===== *)
theory Bio
  imports Prelude
begin

text \<open>
  The storage interface (\<open>kernel/storage.c\<close>, the two transfer functions) and the buffer cache
  \<open>kernel/xv6bio.c\<close>. A block is 1024 bytes, two sectors; it is a function of the byte offset, and
  only the offsets below 1024 are bytes of the block. The sector is the unit that the device writes
  atomically: \<open>wtrace\<close> records, command by command, the sectors each write put on the medium, which
  is what a crash cuts off. The device itself is not part of the sources: \<open>io_fault\<close> says which
  requests fail and which sectors a failing request still moves.

  \<open>struct xv6buf\<close> pointers are indices into \<open>bufs\<close>, the array \<open>bcache.buf\<close> whose size
  \<open>XV6FS_NBUF\<close> is a build option and here the length of the list. The LRU ring is the list of
  indices from \<open>head.next\<close> to \<open>head.prev\<close>; a hash chain is the list of its indices. One task runs
  file-system code at a time, so a sleep lock that is held is never released while its next
  acquirer waits: acquiring it does not return.
\<close>

unbundle bit_operations_syntax

section \<open>Storage\<close>

type_synonym block = "nat \<Rightarrow> u8"

type_synonym sector_write = "nat \<times> bool \<times> block"

definition put_sector :: "sector_write \<Rightarrow> (nat \<Rightarrow> block) \<Rightarrow> nat \<Rightarrow> block" where
  "put_sector w d = (case w of (b, h, x) \<Rightarrow> d(b := (\<lambda>i. if (512 \<le> i) = h then x i else d b i)))"

definition put_sectors :: "sector_write list \<Rightarrow> (nat \<Rightarrow> block) \<Rightarrow> nat \<Rightarrow> block" where
  "put_sectors ws d = fold put_sector ws d"

definition run_sectors :: "nat \<Rightarrow> nat \<Rightarrow> (nat \<Rightarrow> block) \<Rightarrow> sector_write list" where
  "run_sectors b n buf = concat (map (\<lambda>k. [(b + k, False, buf k), (b + k, True, buf k)]) [0..<n])"

record storage_device =
  block_count :: nat
  read_only :: bool
  has_write :: bool

record disk =
  sdev :: "storage_device option"
  dsk :: "nat \<Rightarrow> block"
  io_fault :: "nat \<Rightarrow> nat \<Rightarrow> (nat \<times> bool \<Rightarrow> bool) option"
  io_seq :: nat
  wtrace :: "sector_write list list"

text \<open>\<open>buf\<close> is the memory the caller passes, as a sequence of blocks; the request covers \<open>n\<close> blocks
  from block \<open>b\<close>, that is the sectors from \<open>2 * b\<close>.\<close>

definition storage_read_blocks ::
    "nat \<Rightarrow> nat \<Rightarrow> (nat \<Rightarrow> block) \<Rightarrow> 'a disk_scheme \<Rightarrow> int \<times> (nat \<Rightarrow> block) \<times> 'a disk_scheme" where
  "storage_read_blocks b n buf s =
     (case sdev s of
        None \<Rightarrow> (-1, buf, s)
      | Some dev \<Rightarrow>
          if n = 0 then (-1, buf, s)
          else if 2 * b + 2 * n > block_count dev then (-1, buf, s)
          else let s1 = s\<lparr>io_seq := io_seq s + 1\<rparr> in
            (case io_fault s (io_seq s) (2 * n) of
               None \<Rightarrow> (0, (\<lambda>k. if k < n then dsk s (b + k) else buf k), s1)
             | Some f \<Rightarrow>
                 (-1, (\<lambda>k. if k < n then (\<lambda>i. if f (b + k, 512 \<le> i) then dsk s (b + k) i else buf k i)
                          else buf k), s1)))"

definition storage_write_blocks ::
    "nat \<Rightarrow> nat \<Rightarrow> (nat \<Rightarrow> block) \<Rightarrow> 'a disk_scheme \<Rightarrow> int \<times> 'a disk_scheme" where
  "storage_write_blocks b n buf s =
     (case sdev s of
        None \<Rightarrow> (-1, s)
      | Some dev \<Rightarrow>
          if n = 0 \<or> read_only dev \<or> \<not> has_write dev then (-1, s)
          else if 2 * b + 2 * n > block_count dev then (-1, s)
          else
            (case io_fault s (io_seq s) (2 * n) of
               None \<Rightarrow>
                 let ws = run_sectors b n buf
                 in (0, s\<lparr>dsk := put_sectors ws (dsk s), io_seq := io_seq s + 1, wtrace := wtrace s @ [ws]\<rparr>)
             | Some f \<Rightarrow>
                 let ws = filter (\<lambda>(c, h, x). f (c, h)) (run_sectors b n buf)
                 in (-1, s\<lparr>dsk := put_sectors ws (dsk s), io_seq := io_seq s + 1, wtrace := wtrace s @ [ws]\<rparr>)))"

section \<open>Buffers\<close>

record buf =
  b_valid :: bool
  b_dev :: u32
  b_blockno :: u32
  b_locked :: bool
  b_refcnt :: u32
  b_data :: block

record bcache = disk +
  bufs :: "buf list"
  lru :: "nat list"
  htab :: "nat \<Rightarrow> nat list"

definition bupd :: "nat \<Rightarrow> (buf \<Rightarrow> buf) \<Rightarrow> 'a bcache_scheme \<Rightarrow> 'a bcache_scheme" where
  "bupd i f s = s\<lparr>bufs := (bufs s)[i := f (bufs s ! i)]\<rparr>"

definition xv6_sleep_lock :: "nat \<Rightarrow> 'a bcache_scheme \<Rightarrow> 'a bcache_scheme option" where
  "xv6_sleep_lock i s =
     (if b_locked (bufs s ! i) then None else Some (bupd i (\<lambda>b. b\<lparr>b_locked := True\<rparr>) s))"

definition xv6_sleep_unlock :: "nat \<Rightarrow> 'a bcache_scheme \<Rightarrow> 'a bcache_scheme" where
  "xv6_sleep_unlock i s = bupd i (\<lambda>b. b\<lparr>b_locked := False\<rparr>) s"

text \<open>The result of a failing transfer is only logged.\<close>

definition xv6fs_disk_read :: "nat \<Rightarrow> 'a bcache_scheme \<Rightarrow> 'a bcache_scheme" where
  "xv6fs_disk_read i s =
     (case storage_read_blocks (unat (b_blockno (bufs s ! i))) 1 (\<lambda>_. b_data (bufs s ! i)) s of
        (ret, mem, s1) \<Rightarrow> bupd i (\<lambda>b. b\<lparr>b_data := mem 0\<rparr>) s1)"

definition xv6fs_disk_write :: "nat \<Rightarrow> 'a bcache_scheme \<Rightarrow> 'a bcache_scheme" where
  "xv6fs_disk_write i s =
     snd (storage_write_blocks (unat (b_blockno (bufs s ! i))) 1 (\<lambda>_. b_data (bufs s ! i)) s)"

definition xv6bio_read_run ::
    "u32 \<Rightarrow> nat \<Rightarrow> (nat \<Rightarrow> block) \<Rightarrow> 'a bcache_scheme \<Rightarrow> int \<times> (nat \<Rightarrow> block) \<times> 'a bcache_scheme" where
  "xv6bio_read_run blockno nblocks mem s =
     (if nblocks = 0 then (-1, mem, s)
      else case storage_read_blocks (unat blockno) nblocks mem s of
        (ret, mem', s1) \<Rightarrow> (if ret \<noteq> 0 then -1 else 0, mem', s1))"

definition xv6bio_write_run ::
    "u32 \<Rightarrow> nat \<Rightarrow> (nat \<Rightarrow> block) \<Rightarrow> 'a bcache_scheme \<Rightarrow> int \<times> 'a bcache_scheme" where
  "xv6bio_write_run blockno nblocks mem s =
     (if nblocks = 0 then (-1, s)
      else case storage_write_blocks (unat blockno) nblocks mem s of
        (ret, s1) \<Rightarrow> (if ret \<noteq> 0 then -1 else 0, s1))"

definition XV6FS_NBUF_HASH :: "'a bcache_scheme \<Rightarrow> nat" where
  "XV6FS_NBUF_HASH s = length (bufs s) div 2"

definition XV6FS_BHASH :: "'a bcache_scheme \<Rightarrow> u32 \<Rightarrow> u32 \<Rightarrow> nat" where
  "XV6FS_BHASH s dev blockno =
     unat (((blockno * 2654435761) XOR dev) AND (of_nat (XV6FS_NBUF_HASH s) - 1))"

definition bhash_remove :: "nat \<Rightarrow> 'a bcache_scheme \<Rightarrow> 'a bcache_scheme" where
  "bhash_remove i s = s\<lparr>htab := (\<lambda>h. remove1 i (htab s h))\<rparr>"

definition bhash_insert :: "nat \<Rightarrow> 'a bcache_scheme \<Rightarrow> 'a bcache_scheme" where
  "bhash_insert i s =
     (let h = XV6FS_BHASH s (b_dev (bufs s ! i)) (b_blockno (bufs s ! i))
      in s\<lparr>htab := (htab s)(h := i # htab s h)\<rparr>)"

definition bhash_find :: "u32 \<Rightarrow> u32 \<Rightarrow> 'a bcache_scheme \<Rightarrow> nat option" where
  "bhash_find dev blockno s =
     find (\<lambda>i. b_dev (bufs s ! i) = dev \<and> b_blockno (bufs s ! i) = blockno)
       (htab s (XV6FS_BHASH s dev blockno))"

definition xv6bio_range_cached :: "u32 \<Rightarrow> u32 \<Rightarrow> nat \<Rightarrow> 'a bcache_scheme \<Rightarrow> bool" where
  "xv6bio_range_cached dev blockno nblocks s =
     list_ex (\<lambda>i. case bhash_find dev (blockno + of_nat i) s of
                    Some b \<Rightarrow> b_valid (bufs s ! b) | None \<Rightarrow> False) [0..<nblocks]"

text \<open>Each buffer is linked in at the head, so the ring ends up in reverse order of the array.\<close>

definition init_buf :: "nat \<Rightarrow> 'a bcache_scheme \<Rightarrow> 'a bcache_scheme" where
  "init_buf i s =
     (bupd i (\<lambda>b. b\<lparr>b_locked := False, b_valid := False, b_refcnt := 0, b_dev := 0xffffffff,
                    b_blockno := 0xffffffff\<rparr>) s)\<lparr>lru := i # lru s\<rparr>"

definition xv6bio_init :: "'a bcache_scheme \<Rightarrow> 'a bcache_scheme" where
  "xv6bio_init s = fold init_buf [0..<length (bufs s)] (s\<lparr>lru := [], htab := (\<lambda>_. [])\<rparr>)"

definition bget :: "u32 \<Rightarrow> u32 \<Rightarrow> 'a bcache_scheme \<Rightarrow> (nat \<times> 'a bcache_scheme) option" where
  "bget dev blockno s =
     (case bhash_find dev blockno s of
        Some i \<Rightarrow>
          do { s1 \<leftarrow> xv6_sleep_lock i (bupd i (\<lambda>b. b\<lparr>b_refcnt := b_refcnt b + 1\<rparr>) s);
               Some (i, s1) }
      | None \<Rightarrow>
          (case find (\<lambda>i. b_refcnt (bufs s ! i) = 0) (rev (lru s)) of
             Some i \<Rightarrow>
               do { s1 \<leftarrow> xv6_sleep_lock i
                      (bhash_insert i
                        (bupd i (\<lambda>b. b\<lparr>b_dev := dev, b_blockno := blockno, b_valid := False, b_refcnt := 1\<rparr>)
                          (bhash_remove i s)));
                    Some (i, s1) }
           | None \<Rightarrow> None))"

definition xv6bread :: "u32 \<Rightarrow> u32 \<Rightarrow> 'a bcache_scheme \<Rightarrow> (nat \<times> 'a bcache_scheme) option" where
  "xv6bread dev blockno s =
     do { (i, s1) \<leftarrow> bget dev blockno s;
          if b_valid (bufs s1 ! i) then Some (i, s1)
          else Some (i, bupd i (\<lambda>b. b\<lparr>b_valid := True\<rparr>) (xv6fs_disk_read i s1)) }"

definition xv6bwrite :: "nat \<Rightarrow> 'a bcache_scheme \<Rightarrow> 'a bcache_scheme" where
  "xv6bwrite i s = xv6fs_disk_write i s"

definition xv6brelse :: "nat \<Rightarrow> 'a bcache_scheme \<Rightarrow> 'a bcache_scheme" where
  "xv6brelse i s =
     (let s1 = bupd i (\<lambda>b. b\<lparr>b_refcnt := b_refcnt b - 1\<rparr>) (xv6_sleep_unlock i s)
      in if b_refcnt (bufs s1 ! i) = 0 then s1\<lparr>lru := i # remove1 i (lru s1)\<rparr> else s1)"

definition xv6bpin :: "nat \<Rightarrow> 'a bcache_scheme \<Rightarrow> 'a bcache_scheme" where
  "xv6bpin i s = bupd i (\<lambda>b. b\<lparr>b_refcnt := b_refcnt b + 1\<rparr>) s"

definition xv6bunpin :: "nat \<Rightarrow> 'a bcache_scheme \<Rightarrow> 'a bcache_scheme" where
  "xv6bunpin i s = bupd i (\<lambda>b. b\<lparr>b_refcnt := b_refcnt b - 1\<rparr>) s"

fun fill_loop :: "u32 \<Rightarrow> u32 \<Rightarrow> (nat \<Rightarrow> block) \<Rightarrow> nat list \<Rightarrow> 'a bcache_scheme \<Rightarrow> 'a bcache_scheme option" where
  "fill_loop dev blockno src [] s = Some s"
| "fill_loop dev blockno src (k # ks) s =
     do { (i, s1) \<leftarrow> bget dev (blockno + of_nat k) s;
          fill_loop dev blockno src ks
            (xv6brelse i (if b_valid (bufs s1 ! i) then s1
                          else bupd i (\<lambda>b. b\<lparr>b_data := src k, b_valid := True\<rparr>) s1)) }"

definition xv6bio_fill_cache ::
    "u32 \<Rightarrow> u32 \<Rightarrow> nat \<Rightarrow> (nat \<Rightarrow> block) \<Rightarrow> 'a bcache_scheme \<Rightarrow> 'a bcache_scheme option" where
  "xv6bio_fill_cache dev blockno nblocks src s = fill_loop dev blockno src [0..<nblocks] s"

section \<open>Sectors\<close>

lemma put_sectors_append: "put_sectors (xs @ ys) d = put_sectors ys (put_sectors xs d)"
  by (simp add: put_sectors_def)

lemma put_sectors_Nil [simp]: "put_sectors [] d = d"
  by (simp add: put_sectors_def)

lemma put_sectors_Cons [simp]: "put_sectors (w # ws) d = put_sectors ws (put_sector w d)"
  by (simp add: put_sectors_def)

lemma put_sectors_other: "b \<notin> fst ` set ws \<Longrightarrow> put_sectors ws d b = d b"
  by (induction ws arbitrary: d) (auto simp: put_sector_def)

lemma run_sectors_0 [simp]: "run_sectors b 0 x = []"
  by (simp add: run_sectors_def)

lemma run_sectors_Suc: "run_sectors b (Suc n) x = run_sectors b n x @ [(b + n, False, x n), (b + n, True, x n)]"
  by (simp add: run_sectors_def)

lemma set_run_sectors: "set (run_sectors b n x) = {(b + k, h, x k) | k h. k < n}"
  by (auto simp: run_sectors_def)

text \<open>A complete transfer puts exactly the blocks of the run.\<close>

lemma put_run_sectors:
  "put_sectors (run_sectors b n x) d = (\<lambda>c. if b \<le> c \<and> c < b + n then x (c - b) else d c)"
proof (induction n)
  case (Suc n)
  have "put_sectors (run_sectors b (Suc n) x) d =
      (\<lambda>c. if b \<le> c \<and> c < b + n then x (c - b) else d c)(b + n := x n)"
    by (simp add: run_sectors_Suc put_sectors_append Suc put_sector_def) (auto simp: fun_eq_iff)
  then show ?case by (auto simp: fun_eq_iff less_Suc_eq)
qed (auto simp: fun_eq_iff)

text \<open>Whatever part of a transfer reaches the medium, every half block on it is old or new.\<close>

lemma put_sub_sectors:
  assumes "set ws \<subseteq> set (run_sectors b n x)"
  shows "put_sectors ws d c i = d c i \<or> (b \<le> c \<and> c < b + n \<and> put_sectors ws d c i = x (c - b) i)"
  using assms
proof (induction ws arbitrary: d)
  case (Cons w ws)
  from Cons.prems have "w \<in> set (run_sectors b n x)" by simp
  then obtain k h where w: "w = (b + k, h, x k)" and k: "k < n" by (auto simp: set_run_sectors)
  have "put_sector w d c i = d c i \<or> (c = b + k \<and> put_sector w d c i = x k i)"
    by (auto simp: w put_sector_def)
  then show ?case using Cons.IH [of "put_sector w d"] Cons.prems k by auto
qed simp

section \<open>The invariant of the cache\<close>

definition incache :: "'a bcache_scheme \<Rightarrow> nat \<Rightarrow> bool" where
  "incache s i \<longleftrightarrow> (\<exists>h. i \<in> set (htab s h))"

definition chains :: "u32 \<Rightarrow> 'a bcache_scheme \<Rightarrow> bool" where
  "chains D s \<longleftrightarrow>
     (\<forall>h. distinct (htab s h)) \<and>
     (\<forall>h. \<forall>i \<in> set (htab s h). i < length (bufs s) \<and> b_dev (bufs s ! i) = D \<and>
        h = XV6FS_BHASH s D (b_blockno (bufs s ! i))) \<and>
     (\<forall>i j. incache s i \<longrightarrow> incache s j \<longrightarrow> b_blockno (bufs s ! i) = b_blockno (bufs s ! j) \<longrightarrow> i = j)"

lemma slot_iff:
  assumes "chains D s"
  shows "bhash_find D b s = Some i \<longleftrightarrow> incache s i \<and> b_blockno (bufs s ! i) = b"
proof
  assume "bhash_find D b s = Some i"
  then show "incache s i \<and> b_blockno (bufs s ! i) = b"
    by (auto simp: bhash_find_def find_Some_iff incache_def intro: nth_mem)
next
  assume r: "incache s i \<and> b_blockno (bufs s ! i) = b"
  then have i: "i \<in> set (htab s (XV6FS_BHASH s D b))" "b_dev (bufs s ! i) = D"
    using assms by (auto simp: chains_def incache_def)
  have "bhash_find D b s \<noteq> None" unfolding bhash_find_def find_None_iff using i r by blast
  then obtain j where j: "bhash_find D b s = Some j" by blast
  then have "incache s j \<and> b_blockno (bufs s ! j) = b"
    by (auto simp: bhash_find_def find_Some_iff incache_def intro: nth_mem)
  then have "j = i" using assms r unfolding chains_def by metis
  then show "bhash_find D b s = Some i" using j by simp
qed

text \<open>
  \<open>D\<close> is the device number of the mounted file system, \<open>P\<close> the set of pinned blocks and \<open>X\<close> the
  blocks whose cached copy may differ from the disk although it is neither locked nor pinned (the
  log area, which is also written past the cache).
\<close>

definition buf_ok :: "u32 set \<Rightarrow> u32 set \<Rightarrow> (nat \<Rightarrow> block) \<Rightarrow> bool \<Rightarrow> buf \<Rightarrow> bool" where
  "buf_ok X P d hashed x \<longleftrightarrow>
     b_refcnt x = of_bool (b_locked x) + of_bool (hashed \<and> b_blockno x \<in> P) \<and>
     (\<not> hashed \<longrightarrow> \<not> b_locked x \<and> \<not> b_valid x) \<and>
     (hashed \<and> b_blockno x \<in> P \<longrightarrow> b_valid x) \<and>
     (b_valid x \<longrightarrow> \<not> b_locked x \<longrightarrow> b_blockno x \<notin> P \<union> X \<longrightarrow> b_data x = d (unat (b_blockno x)))"

definition binv :: "u32 \<Rightarrow> u32 set \<Rightarrow> u32 set \<Rightarrow> 'a bcache_scheme \<Rightarrow> bool" where
  "binv D X P s \<longleftrightarrow> chains D s \<and> distinct (lru s) \<and> set (lru s) = {..<length (bufs s)} \<and>
     (\<forall>b \<in> P. bhash_find D b s \<noteq> None) \<and>
     (\<forall>i < length (bufs s). buf_ok X P (dsk s) (incache s i) (bufs s ! i))"

lemma refcnt_zero_iff:
  "buf_ok X P d h x \<Longrightarrow> b_refcnt x = 0 \<longleftrightarrow> \<not> b_locked x \<and> \<not> (h \<and> b_blockno x \<in> P)"
  by (cases "b_locked x"; cases "h \<and> b_blockno x \<in> P") (simp_all add: buf_ok_def)

text \<open>What a client sees: the contents of a block, the blocks it holds locked, a pointer to a locked
  buffer.\<close>

definition view :: "u32 \<Rightarrow> u32 set \<Rightarrow> 'a bcache_scheme \<Rightarrow> u32 \<Rightarrow> block" where
  "view D X s b =
     (if b \<in> X then (\<lambda>_. 0)
      else case bhash_find D b s of
             Some i \<Rightarrow> if b_valid (bufs s ! i) then b_data (bufs s ! i) else dsk s (unat b)
           | None \<Rightarrow> dsk s (unat b))"

definition held :: "u32 \<Rightarrow> 'a bcache_scheme \<Rightarrow> u32 set" where
  "held D s = {b. \<exists>i. bhash_find D b s = Some i \<and> b_locked (bufs s ! i)}"

definition bptr :: "u32 \<Rightarrow> 'a bcache_scheme \<Rightarrow> nat \<Rightarrow> u32 \<Rightarrow> bool" where
  "bptr D s i b \<longleftrightarrow> bhash_find D b s = Some i \<and> b_locked (bufs s ! i) \<and> b_valid (bufs s ! i)"

text \<open>The part of the state an operation of the cache that reads the disk may change.\<close>

definition only_cache :: "'a bcache_scheme \<Rightarrow> 'a bcache_scheme \<Rightarrow> bool" where
  "only_cache s t \<longleftrightarrow> t = s\<lparr>bufs := bufs t, lru := lru t, htab := htab t, io_seq := io_seq t\<rparr> \<and>
     length (bufs t) = length (bufs s)"

lemma only_cacheD:
  assumes "only_cache s t"
  shows "dsk t = dsk s" "sdev t = sdev s" "io_fault t = io_fault s" "wtrace t = wtrace s"
    "bcache.more t = bcache.more s" "length (bufs t) = length (bufs s)"
proof -
  have t: "t = s\<lparr>bufs := bufs t, lru := lru t, htab := htab t, io_seq := io_seq t\<rparr>"
    using assms by (simp add: only_cache_def)
  show "dsk t = dsk s" "sdev t = sdev s" "io_fault t = io_fault s" "wtrace t = wtrace s"
    "bcache.more t = bcache.more s"
    by (subst t, simp)+
  show "length (bufs t) = length (bufs s)" using assms by (simp add: only_cache_def)
qed

lemma only_cache_refl [simp]: "only_cache s s"
  by (simp add: only_cache_def)

lemma only_cache_trans: "only_cache s t \<Longrightarrow> only_cache t u \<Longrightarrow> only_cache s u"
  by (cases s; cases t; cases u) (simp add: only_cache_def)

lemma only_cache_bupd [simp]: "only_cache s (bupd i f s)"
  by (simp add: only_cache_def bupd_def)

lemma only_cache_lru [simp]: "only_cache s (s\<lparr>lru := l\<rparr>)"
  by (simp add: only_cache_def)

lemma only_cache_htab [simp]: "only_cache s (s\<lparr>htab := l\<rparr>)"
  by (simp add: only_cache_def)

section \<open>Changing one buffer\<close>

lemma bupd_fields [simp]:
  "dsk (bupd i f s) = dsk s" "lru (bupd i f s) = lru s" "htab (bupd i f s) = htab s"
  "length (bufs (bupd i f s)) = length (bufs s)" "sdev (bupd i f s) = sdev s"
  "io_fault (bupd i f s) = io_fault s" "wtrace (bupd i f s) = wtrace s" "io_seq (bupd i f s) = io_seq s"
  "i \<noteq> j \<Longrightarrow> bufs (bupd i f s) ! j = bufs s ! j"
  by (simp_all add: bupd_def)

lemma bupd_same [simp]: "i < length (bufs s) \<Longrightarrow> bufs (bupd i f s) ! i = f (bufs s ! i)"
  by (simp add: bupd_def)

lemma bupd_bupd [simp]: "bupd i f (bupd i g s) = bupd i (\<lambda>x. f (g x)) s"
  by (cases "i < length (bufs s)") (simp_all add: bupd_def list_update_beyond)

lemma bufs_bupd: "i < length (bufs s) \<Longrightarrow> bufs (bupd i f s) ! j = (if j = i then f (bufs s ! i) else bufs s ! j)"
  by (simp add: bupd_def)

lemma bhash_cong: "length (bufs t) = length (bufs s) \<Longrightarrow> XV6FS_BHASH t = XV6FS_BHASH s"
  unfolding XV6FS_BHASH_def XV6FS_NBUF_HASH_def by simp

lemma bhash_simps [simp]:
  "XV6FS_BHASH (bupd i f s) = XV6FS_BHASH s" "XV6FS_BHASH (s\<lparr>htab := x\<rparr>) = XV6FS_BHASH s"
  "XV6FS_BHASH (s\<lparr>lru := y\<rparr>) = XV6FS_BHASH s"
  "length xs = length (bufs s) \<Longrightarrow> XV6FS_BHASH (s\<lparr>bufs := xs\<rparr>) = XV6FS_BHASH s"
  by (rule bhash_cong, simp)+

lemma incache_bupd [simp]: "incache (bupd i f s) = incache s"
  by (rule ext) (simp add: incache_def)

text \<open>Updates that keep the identity of the buffer.\<close>

definition keeps :: "'a bcache_scheme \<Rightarrow> nat \<Rightarrow> (buf \<Rightarrow> buf) \<Rightarrow> bool" where
  "keeps s i f \<longleftrightarrow> b_dev (f (bufs s ! i)) = b_dev (bufs s ! i) \<and> b_blockno (f (bufs s ! i)) = b_blockno (bufs s ! i)"

lemma keeps_nth:
  assumes "keeps s i f"
  shows "b_dev (bufs (bupd i f s) ! j) = b_dev (bufs s ! j)" "b_blockno (bufs (bupd i f s) ! j) = b_blockno (bufs s ! j)"
proof -
  have "bufs (bupd i f s) ! j = bufs s ! j" if "\<not> i < length (bufs s)" for j
    using that by (simp add: bupd_def list_update_beyond)
  then show "b_dev (bufs (bupd i f s) ! j) = b_dev (bufs s ! j)" "b_blockno (bufs (bupd i f s) ! j) = b_blockno (bufs s ! j)"
    using assms by (cases "i < length (bufs s)"; simp add: keeps_def bufs_bupd)+
qed

lemma find_bupd: "keeps s i f \<Longrightarrow> bhash_find D b (bupd i f s) = bhash_find D b s"
  by (simp add: bhash_find_def keeps_nth)

lemma chains_bupd: "keeps s i f \<Longrightarrow> chains D (bupd i f s) = chains D s"
  by (simp add: chains_def keeps_nth)

lemma bfindD:
  assumes "binv D X P s" and "bhash_find D b s = Some i"
  shows "i < length (bufs s)" "incache s i" "b_blockno (bufs s ! i) = b" "b_dev (bufs s ! i) = D"
    "buf_ok X P (dsk s) True (bufs s ! i)"
proof -
  have c: "chains D s" using assms(1) by (simp add: binv_def)
  show i: "incache s i" "b_blockno (bufs s ! i) = b" using assms(2) by (simp_all add: slot_iff [OF c])
  then show l: "i < length (bufs s)" "b_dev (bufs s ! i) = D" using c by (auto simp: chains_def incache_def)
  show "buf_ok X P (dsk s) True (bufs s ! i)" using assms(1) i l by (auto simp: binv_def)
qed

lemma find_inj:
  assumes "binv D X P s" "bhash_find D b s = Some i" "bhash_find D c s = Some i"
  shows "b = c"
  using bfindD(3) [OF assms(1,2)] bfindD(3) [OF assms(1,3)] by simp

text \<open>The one lemma about the invariant under a change of buffer \<open>i\<close>, which caches block \<open>b\<close>: the
  pinned set and the stale set may change at \<open>b\<close> only.\<close>

lemma binv_bupd:
  assumes "binv D X P s" and "bhash_find D b s = Some i" and "keeps s i f"
    and "\<And>c. c \<noteq> b \<Longrightarrow> c \<in> P' \<longleftrightarrow> c \<in> P" and "\<And>c. c \<noteq> b \<Longrightarrow> c \<in> X \<Longrightarrow> c \<in> X'"
    and "buf_ok X' P' (dsk s) True (f (bufs s ! i))"
  shows "binv D X' P' (bupd i f s)"
proof -
  note i = bfindD [OF assms(1,2)]
  have other: "b_blockno (bufs s ! j) \<noteq> b" if "j \<noteq> i" "incache s j" for j
    using that i assms(1) unfolding binv_def chains_def by metis
  have "buf_ok X' P' (dsk s) (incache s j) (bufs (bupd i f s) ! j)" if j: "j < length (bufs s)" for j
  proof (cases "j = i")
    case False
    have "buf_ok X P (dsk s) (incache s j) (bufs s ! j)" using assms(1) j by (simp add: binv_def)
    then show ?thesis using False other [OF False] assms(4,5)
      by (cases "incache s j") (auto simp: buf_ok_def)
  qed (use i assms(6) in simp)
  moreover have "\<forall>c \<in> P'. bhash_find D c s \<noteq> None"
    using assms(1,2,4) by (metis binv_def option.distinct(1))
  ultimately show ?thesis using assms(1,3) by (simp add: binv_def chains_bupd find_bupd)
qed

lemma view_bupd:
  assumes "binv D X P s" and "bhash_find D b s = Some i" and "keeps s i f"
  shows "view D X (bupd i f s) = (view D X s)(b := if b \<in> X then (\<lambda>_. 0)
     else if b_valid (f (bufs s ! i)) then b_data (f (bufs s ! i)) else dsk s (unat b))"
proof (rule ext)
  fix c
  note i = bfindD [OF assms(1,2)]
  have "j \<noteq> i" if "bhash_find D c s = Some j" "c \<noteq> b" for j
    using that find_inj [OF assms(1,2)] by auto
  then show "view D X (bupd i f s) c = ((view D X s)(b := if b \<in> X then (\<lambda>_. 0)
     else if b_valid (f (bufs s ! i)) then b_data (f (bufs s ! i)) else dsk s (unat b))) c"
    using assms(2) i(1) by (auto simp: view_def find_bupd [OF assms(3)] split: option.split)
qed

lemma held_bupd:
  assumes "binv D X P s" and "bhash_find D b s = Some i" and "keeps s i f"
  shows "held D (bupd i f s) = (if b_locked (f (bufs s ! i)) then insert b (held D s) else held D s - {b})"
proof -
  note i = bfindD [OF assms(1,2)]
  have "c \<in> held D (bupd i f s) \<longleftrightarrow> (if c = b then b_locked (f (bufs s ! i)) else c \<in> held D s)" for c
  proof (cases "c = b")
    case True
    then show ?thesis using assms(2) i(1) by (simp add: held_def find_bupd [OF assms(3)])
  next
    case False
    have "j \<noteq> i" if "bhash_find D c s = Some j" for j
      using that find_inj [OF assms(1,2)] False by auto
    then show ?thesis using False
      by (cases "bhash_find D c s") (simp_all add: held_def find_bupd [OF assms(3)])
  qed
  then show ?thesis by (intro set_eqI) simp
qed

lemma bptr_bupd:
  assumes "binv D X P s" and "bhash_find D b s = Some i" and "keeps s i f" and "c \<noteq> b"
  shows "bptr D (bupd i f s) j c = bptr D s j c"
proof -
  have "j \<noteq> i" if "bhash_find D c s = Some j" using that find_inj [OF assms(1,2)] assms(4) by auto
  then show ?thesis by (auto simp: bptr_def find_bupd [OF assms(3)])
qed

section \<open>Getting a buffer\<close>

lemma held_card_buffers:
  assumes "binv D X P s"
  shows "card {i. i < length (bufs s) \<and> b_refcnt (bufs s ! i) \<noteq> 0} \<le> card (held D s) + card P"
proof -
  let ?U = "{i. i < length (bufs s) \<and> b_refcnt (bufs s ! i) \<noteq> 0}"
  have c: "chains D s" using assms by (simp add: binv_def)
  have u: "incache s i \<and> b_blockno (bufs s ! i) \<in> held D s \<union> P" if "i \<in> ?U" for i
  proof -
    have o: "buf_ok X P (dsk s) (incache s i) (bufs s ! i)" using assms that by (simp add: binv_def)
    moreover have "b_blockno (bufs s ! i) \<in> held D s" if "incache s i" "b_locked (bufs s ! i)"
      using that slot_iff [OF c, of "b_blockno (bufs s ! i)" i] by (auto simp: held_def)
    ultimately show ?thesis using that by (auto simp: buf_ok_def)
  qed
  have uniq: "i = j" if "incache s i" "incache s j" "b_blockno (bufs s ! i) = b_blockno (bufs s ! j)" for i j
    using c that unfolding chains_def by simp
  have "inj_on (\<lambda>i. b_blockno (bufs s ! i)) ?U"
    by (rule inj_onI) (rule uniq, simp_all add: u)
  moreover have "(\<lambda>i. b_blockno (bufs s ! i)) ` ?U \<subseteq> held D s \<union> P" using u by blast
  ultimately have "card ?U \<le> card (held D s \<union> P)"
    by (rule card_inj_on_le) (rule finite)
  then show ?thesis using card_Un_le [of "held D s" P] by linarith
qed

lemma victim_exists:
  assumes "binv D X P s" and "card (held D s) + card P < length (bufs s)"
  obtains i where "find (\<lambda>i. b_refcnt (bufs s ! i) = 0) (rev (lru s)) = Some i"
    and "i < length (bufs s)" and "b_refcnt (bufs s ! i) = 0"
proof (cases "find (\<lambda>i. b_refcnt (bufs s ! i) = 0) (rev (lru s))")
  case None
  then have "{i. i < length (bufs s) \<and> b_refcnt (bufs s ! i) \<noteq> 0} = {..<length (bufs s)}"
    using assms(1) by (auto simp: find_None_iff binv_def)
  then show ?thesis using held_card_buffers [OF assms(1)] assms(2) by simp
next
  case (Some i)
  then have i: "i \<in> set (lru s)" "b_refcnt (bufs s ! i) = 0"
    by (auto simp: find_Some_iff) (metis length_rev nth_mem set_rev)
  then show ?thesis using that [OF Some] assms(1) by (simp add: binv_def)
qed

definition recycle :: "u32 \<Rightarrow> u32 \<Rightarrow> nat \<Rightarrow> 'a bcache_scheme \<Rightarrow> 'a bcache_scheme" where
  "recycle dev b i s = bupd i (\<lambda>x. x\<lparr>b_locked := True\<rparr>)
     (bhash_insert i (bupd i (\<lambda>x. x\<lparr>b_dev := dev, b_blockno := b, b_valid := False, b_refcnt := 1\<rparr>)
       (bhash_remove i s)))"

lemma recycle_eq:
  assumes "i < length (bufs s)"
  shows "recycle D b i s = (bupd i (\<lambda>x. x\<lparr>b_dev := D, b_blockno := b, b_valid := False, b_refcnt := 1,
        b_locked := True\<rparr>) s)\<lparr>htab := (\<lambda>h. remove1 i (htab s h))(XV6FS_BHASH s D b :=
        i # remove1 i (htab s (XV6FS_BHASH s D b)))\<rparr>"
  using assms unfolding recycle_def bhash_insert_def bhash_remove_def Let_def
  by (simp add: bupd_def)

lemma recycle_fields:
  assumes "i < length (bufs s)"
  shows "dsk (recycle D b i s) = dsk s" "lru (recycle D b i s) = lru s"
    "length (bufs (recycle D b i s)) = length (bufs s)"
    "only_cache s (recycle D b i s)"
    "bufs (recycle D b i s) ! j = (if j = i then (bufs s ! i)\<lparr>b_dev := D, b_blockno := b, b_valid := False,
        b_refcnt := 1, b_locked := True\<rparr> else bufs s ! j)"
    "XV6FS_BHASH (recycle D b i s) = XV6FS_BHASH s"
    "htab (recycle D b i s) h = (if h = XV6FS_BHASH s D b then i # remove1 i (htab s h) else remove1 i (htab s h))"
  using assms by (simp_all add: recycle_eq only_cache_def bupd_def)

lemma recycle_chains:
  assumes c: "chains D s" and i: "i < length (bufs s)" and none: "bhash_find D b s = None"
  shows "chains D (recycle D b i s)" "incache (recycle D b i s) j \<longleftrightarrow> j = i \<or> incache s j"
    "bhash_find D c (recycle D b i s) =
      (if c = b then Some i else if bhash_find D c s = Some i then None else bhash_find D c s)"
proof -
  let ?t = "recycle D b i s"
  note f = recycle_fields [OF i, of D b]
  have d: "distinct (htab s h)" for h using c by (simp add: chains_def)
  have st: "set (htab ?t h) = (if h = XV6FS_BHASH s D b then insert i (set (htab s h) - {i}) else set (htab s h) - {i})" for h
    using d by (simp add: f)
  show inc: "incache ?t j \<longleftrightarrow> j = i \<or> incache s j" for j
  proof (cases "j = i")
    case True
    have "i \<in> set (htab ?t (XV6FS_BHASH s D b))" by (simp add: st)
    then show ?thesis using True unfolding incache_def by blast
  next
    case False
    then have "j \<in> set (htab ?t h) \<longleftrightarrow> j \<in> set (htab s h)" for h by (simp add: st)
    then show ?thesis using False by (simp add: incache_def)
  qed
  have nob: "b_blockno (bufs s ! j) \<noteq> b" if "incache s j" for j
    using none slot_iff [OF c, of b j] that by auto
  have A: "distinct (htab ?t h)" for h using d by (simp add: f)
  have B: "j < length (bufs ?t) \<and> b_dev (bufs ?t ! j) = D \<and> h = XV6FS_BHASH ?t D (b_blockno (bufs ?t ! j))"
    if "j \<in> set (htab ?t h)" for h j
  proof (cases "j = i")
    case True
    then show ?thesis using that i unfolding st f(3,5,6) by (simp split: if_splits)
  next
    case False
    then have "j \<in> set (htab s h)" using that unfolding st by (simp split: if_splits)
    then show ?thesis using False c unfolding f(3,5,6) chains_def by simp
  qed
  have C: "j = k" if "incache ?t j" "incache ?t k" "b_blockno (bufs ?t ! j) = b_blockno (bufs ?t ! k)" for j k
  proof -
    have u: "incache s j \<Longrightarrow> incache s k \<Longrightarrow> b_blockno (bufs s ! j) = b_blockno (bufs s ! k) \<Longrightarrow> j = k"
      using c unfolding chains_def by simp
    show ?thesis using that nob [of j] nob [of k] u unfolding inc f(5)
      by (cases "j = i"; cases "k = i") simp_all
  qed
  show ct: "chains D ?t"
    unfolding chains_def by (intro conjI allI ballI impI) (simp_all add: A B C)
  have eq: "bhash_find D c ?t = Some j \<longleftrightarrow>
      (if c = b then Some i else if bhash_find D c s = Some i then None else bhash_find D c s) = Some j" for j
    unfolding slot_iff [OF ct] inc f(5) using slot_iff [OF c, of c j] slot_iff [OF c, of c i] nob [of j]
    by (cases "j = i"; cases "c = b") auto
  show "bhash_find D c ?t =
      (if c = b then Some i else if bhash_find D c s = Some i then None else bhash_find D c s)"
    using eq by (metis not_Some_eq)
qed

lemma bget_hit:
  assumes "bhash_find D b s = Some i" and "b \<notin> held D s" and "i < length (bufs s)"
  shows "bget D b s = Some (i, bupd i (\<lambda>x. x\<lparr>b_refcnt := b_refcnt x + 1, b_locked := True\<rparr>) s)"
  using assms by (simp add: bget_def held_def xv6_sleep_lock_def)

lemma bget_miss:
  assumes "bhash_find D b s = None" and "find (\<lambda>i. b_refcnt (bufs s ! i) = 0) (rev (lru s)) = Some i"
    and "i < length (bufs s)" and "\<not> b_locked (bufs s ! i)"
  shows "bget D b s = Some (i, recycle D b i s)"
  using assms by (simp add: bget_def xv6_sleep_lock_def recycle_def bhash_insert_def bhash_remove_def Let_def bupd_def)

text \<open>What any operation on the buffer of block \<open>b\<close> leaves of the other buffers: those in use stay
  where they are, the others may only be thrown out.\<close>

definition others_kept :: "u32 \<Rightarrow> u32 \<Rightarrow> 'a bcache_scheme \<Rightarrow> 'a bcache_scheme \<Rightarrow> bool" where
  "others_kept D b s t \<longleftrightarrow>
     (\<forall>c j. c \<noteq> b \<longrightarrow> bhash_find D c t = Some j \<longrightarrow> bhash_find D c s = Some j \<and> bufs t ! j = bufs s ! j) \<and>
     (\<forall>c j. c \<noteq> b \<longrightarrow> bhash_find D c s = Some j \<longrightarrow> b_refcnt (bufs s ! j) \<noteq> 0 \<longrightarrow> bhash_find D c t = Some j)"

lemma others_keptD1:
  "others_kept D b s t \<Longrightarrow> c \<noteq> b \<Longrightarrow> bhash_find D c t = Some j \<Longrightarrow>
    bhash_find D c s = Some j \<and> bufs t ! j = bufs s ! j"
  unfolding others_kept_def by blast

lemma others_keptD2:
  "others_kept D b s t \<Longrightarrow> c \<noteq> b \<Longrightarrow> bhash_find D c s = Some j \<Longrightarrow> b_refcnt (bufs s ! j) \<noteq> 0 \<Longrightarrow>
    bhash_find D c t = Some j \<and> bufs t ! j = bufs s ! j"
  unfolding others_kept_def by blast

lemma others_kept_bupd:
  assumes "binv D X P s" and "bhash_find D b s = Some i" and "keeps s i f"
  shows "others_kept D b s (bupd i f s)"
proof -
  have "j \<noteq> i" if "bhash_find D c s = Some j" "c \<noteq> b" for c j
    using that find_inj [OF assms(1,2)] by auto
  then have "bufs (bupd i f s) ! j = bufs s ! j" if "bhash_find D c s = Some j" "c \<noteq> b" for c j
    using that by (metis bupd_fields(9))
  then show ?thesis unfolding others_kept_def find_bupd [OF assms(3)] by simp
qed

lemma others_kept_bptr:
  assumes "binv D X P s" and "others_kept D b s t" and "bptr D s j c" and "c \<noteq> b"
  shows "bptr D t j c"
proof -
  have j: "bhash_find D c s = Some j" "b_locked (bufs s ! j)" "b_valid (bufs s ! j)"
    using assms(3) by (simp_all add: bptr_def)
  have "b_refcnt (bufs s ! j) \<noteq> 0"
    using refcnt_zero_iff [OF bfindD(5) [OF assms(1) j(1)]] j(2) by simp
  from others_keptD2 [OF assms(2,4) j(1) this] show ?thesis using j by (simp add: bptr_def)
qed

lemma recycle_binv:
  assumes "binv D X P s" and "bhash_find D b s = None" and "i < length (bufs s)" and "b_refcnt (bufs s ! i) = 0"
  shows "binv D X P (recycle D b i s)" "view D X (recycle D b i s) = view D X s"
    "held D (recycle D b i s) = insert b (held D s)" "others_kept D b s (recycle D b i s)"
proof -
  let ?t = "recycle D b i s"
  note f = recycle_fields [OF assms(3), of D b]
  have c: "chains D s" using assms(1) by (simp add: binv_def)
  note r = recycle_chains [OF c assms(3,2)]
  have bP: "b \<notin> P" using assms(1,2) unfolding binv_def by metis
  have oki: "buf_ok X P (dsk s) (incache s i) (bufs s ! i)" using assms(1,3) by (simp add: binv_def)
  then have un: "\<not> b_locked (bufs s ! i)" "incache s i \<longrightarrow> b_blockno (bufs s ! i) \<notin> P"
    using assms(4) refcnt_zero_iff [OF oki] by simp_all
  have vic: "c \<notin> P \<and> (b_valid (bufs s ! i) \<longrightarrow> c \<notin> X \<longrightarrow> b_data (bufs s ! i) = dsk s (unat c))"
    if "bhash_find D c s = Some i" for c
    using that un oki by (auto simp: slot_iff [OF c] buf_ok_def)
  have "buf_ok X P (dsk s) (incache ?t j) (bufs ?t ! j)" if "j < length (bufs s)" for j
  proof (cases "j = i")
    case True
    then show ?thesis using bP by (simp add: r f buf_ok_def)
  next
    case False
    then show ?thesis using assms(1) that by (simp add: r f binv_def)
  qed
  moreover have "bhash_find D p ?t \<noteq> None" if "p \<in> P" for p
    using that vic [of p] assms(1) by (auto simp: r binv_def)
  ultimately show "binv D X P ?t" using assms(1) by (simp add: binv_def f r)
  show "view D X ?t = view D X s"
    by (rule ext) (use vic assms(2) in \<open>auto simp: view_def r f split: option.split\<close>)
  have "q \<in> held D ?t \<longleftrightarrow> q \<in> insert b (held D s)" for q
    by (cases "bhash_find D q s") (use un assms(2) in \<open>auto simp: held_def r f split: if_splits\<close>)
  then show "held D ?t = insert b (held D s)" by (intro set_eqI) simp
  show "others_kept D b s ?t"
    unfolding others_kept_def by (simp add: r f) (use assms(4) in auto)
qed

lemma bget_ok:
  assumes "binv D X P s" and "b \<notin> held D s" and "card (held D s) + card P < length (bufs s)"
  shows "ok (bget D b s) (\<lambda>(i, t). binv D X P t \<and> bhash_find D b t = Some i \<and> b_locked (bufs t ! i) \<and>
    held D t = insert b (held D s) \<and> view D X t = view D X s \<and> only_cache s t \<and> others_kept D b s t \<and>
    (case bhash_find D b s of
       Some j \<Rightarrow> j = i \<and> b_valid (bufs t ! i) = b_valid (bufs s ! i) \<and> b_data (bufs t ! i) = b_data (bufs s ! i)
     | None \<Rightarrow> \<not> b_valid (bufs t ! i)))"
proof (cases "bhash_find D b s")
  case None
  obtain i where i: "find (\<lambda>i. b_refcnt (bufs s ! i) = 0) (rev (lru s)) = Some i" "i < length (bufs s)"
      "b_refcnt (bufs s ! i) = 0"
    using victim_exists [OF assms(1,3)] by blast
  have "buf_ok X P (dsk s) (incache s i) (bufs s ! i)" using assms(1) i(2) by (simp add: binv_def)
  then have "\<not> b_locked (bufs s ! i)" using i(3) by (simp add: refcnt_zero_iff)
  then have "bget D b s = Some (i, recycle D b i s)" by (rule bget_miss [OF None i(1,2)])
  moreover have "chains D s" using assms(1) by (simp add: binv_def)
  ultimately show ?thesis
    using recycle_binv [OF assms(1) None i(2,3)] recycle_chains(3) [OF _ i(2) None] None
    by (simp add: recycle_fields [OF i(2)])
next
  case (Some i)
  let ?f = "\<lambda>x. x\<lparr>b_refcnt := b_refcnt x + 1, b_locked := True\<rparr>"
  note i = bfindD [OF assms(1) Some]
  have k: "keeps s i ?f" by (simp add: keeps_def)
  have ul: "\<not> b_locked (bufs s ! i)" using assms(2) Some by (auto simp: held_def)
  have "binv D X P (bupd i ?f s)"
    by (rule binv_bupd [OF assms(1) Some k]) (use i(5) ul in \<open>auto simp: buf_ok_def\<close>)
  moreover have "view D X (bupd i ?f s) = view D X s"
    unfolding view_bupd [OF assms(1) Some k] using Some by (auto simp: fun_eq_iff view_def)
  ultimately show ?thesis
    using bget_hit [OF Some assms(2) i(1)] Some i(1) held_bupd [OF assms(1) Some k]
      others_kept_bupd [OF assms(1) Some k] find_bupd [OF k, of D b]
    by simp
qed

section \<open>What the operations do\<close>

text \<open>Updates outside the buffers do not matter to the invariant.\<close>

lemma find_cong: "bufs t = bufs s \<Longrightarrow> htab t = htab s \<Longrightarrow> bhash_find D b t = bhash_find D b s"
  by (simp add: bhash_find_def bhash_cong [of t s])

lemma incache_cong: "htab t = htab s \<Longrightarrow> incache t = incache s"
  by (simp add: incache_def fun_eq_iff)

lemma chains_cong: "bufs t = bufs s \<Longrightarrow> htab t = htab s \<Longrightarrow> chains D t = chains D s"
  by (simp add: chains_def bhash_cong [of t s] incache_cong [of t s])

lemma binv_dsk:
  assumes "binv D X P s" and "bufs t = bufs s" and "htab t = htab s" and "distinct (lru t)" and "set (lru t) = set (lru s)"
    and "\<And>c i. bhash_find D c s = Some i \<Longrightarrow> b_valid (bufs s ! i) \<Longrightarrow> \<not> b_locked (bufs s ! i) \<Longrightarrow>
      c \<notin> P \<Longrightarrow> c \<notin> X' \<Longrightarrow> b_data (bufs s ! i) = dsk t (unat c)"
  shows "binv D X' P t"
proof -
  have c: "chains D s" using assms(1) by (simp add: binv_def)
  have "buf_ok X' P (dsk t) (incache s i) (bufs s ! i)" if "i < length (bufs s)" for i
  proof -
    have o: "buf_ok X P (dsk s) (incache s i) (bufs s ! i)" using assms(1) that by (simp add: binv_def)
    then show ?thesis using assms(6) [of "b_blockno (bufs s ! i)" i]
      by (auto simp: buf_ok_def slot_iff [OF c])
  qed
  then show ?thesis using assms(1-5)
    by (simp add: binv_def chains_cong [OF assms(2,3)] find_cong [OF assms(2,3)] incache_cong [OF assms(3)])
qed

lemma binv_mono: "binv D X P s \<Longrightarrow> X \<subseteq> Y \<Longrightarrow> binv D Y P s"
  by (auto simp: binv_def buf_ok_def)

lemma binv_cong:
  "bufs t = bufs s \<Longrightarrow> htab t = htab s \<Longrightarrow> lru t = lru s \<Longrightarrow> dsk t = dsk s \<Longrightarrow> binv D X P t = binv D X P s"
  by (simp add: binv_def chains_cong [of t s] find_cong [of t s] incache_cong [of t s])

lemma view_cong: "bufs t = bufs s \<Longrightarrow> htab t = htab s \<Longrightarrow> dsk t = dsk s \<Longrightarrow> view D X t = view D X s"
  by (rule ext) (simp add: view_def find_cong [of t s] split: option.split)

lemma held_cong: "bufs t = bufs s \<Longrightarrow> htab t = htab s \<Longrightarrow> held D t = held D s"
  by (simp add: held_def find_cong [of t s])

lemma bptr_cong: "bufs t = bufs s \<Longrightarrow> htab t = htab s \<Longrightarrow> bptr D t = bptr D s"
  by (rule ext)+ (simp add: bptr_def find_cong [of t s])

lemma others_kept_cong: "bufs u = bufs t \<Longrightarrow> htab u = htab t \<Longrightarrow> others_kept D b s u = others_kept D b s t"
  unfolding others_kept_def find_cong [of u t] by presburger

lemma others_kept_trans:
  assumes "binv D X P t" and "others_kept D b s t" and "others_kept D b t u"
  shows "others_kept D b s u"
  unfolding others_kept_def
proof (intro conjI allI impI)
  fix c j assume "c \<noteq> b" "bhash_find D c u = Some j"
  from others_keptD1 [OF assms(3) this] others_keptD1 [OF assms(2) \<open>c \<noteq> b\<close>]
  show "bhash_find D c s = Some j" "bufs u ! j = bufs s ! j" by auto
next
  fix c j assume "c \<noteq> b" "bhash_find D c s = Some j" "b_refcnt (bufs s ! j) \<noteq> 0"
  from others_keptD2 [OF assms(2) this] others_keptD2 [OF assms(3) \<open>c \<noteq> b\<close>] this(3)
  show "bhash_find D c u = Some j" by auto
qed

lemma outside_simps [simp]:
  "bhash_find D b (s\<lparr>io_seq := k\<rparr>) = bhash_find D b s" "binv D X P (s\<lparr>io_seq := k\<rparr>) = binv D X P s"
  "view D X (s\<lparr>io_seq := k\<rparr>) = view D X s" "held D (s\<lparr>io_seq := k\<rparr>) = held D s"
  "bptr D (s\<lparr>io_seq := k\<rparr>) = bptr D s" "others_kept D b r (s\<lparr>io_seq := k\<rparr>) = others_kept D b r s"
  "bhash_find D b (s\<lparr>wtrace := w\<rparr>) = bhash_find D b s" "binv D X P (s\<lparr>wtrace := w\<rparr>) = binv D X P s"
  "view D X (s\<lparr>wtrace := w\<rparr>) = view D X s" "held D (s\<lparr>wtrace := w\<rparr>) = held D s"
  "bptr D (s\<lparr>wtrace := w\<rparr>) = bptr D s" "others_kept D b r (s\<lparr>wtrace := w\<rparr>) = others_kept D b r s"
  "bhash_find D b (s\<lparr>lru := l\<rparr>) = bhash_find D b s" "view D X (s\<lparr>lru := l\<rparr>) = view D X s"
  "held D (s\<lparr>lru := l\<rparr>) = held D s" "bptr D (s\<lparr>lru := l\<rparr>) = bptr D s"
  "others_kept D b r (s\<lparr>lru := l\<rparr>) = others_kept D b r s"
  "bhash_find D b (s\<lparr>dsk := d\<rparr>) = bhash_find D b s" "held D (s\<lparr>dsk := d\<rparr>) = held D s"
  "bptr D (s\<lparr>dsk := d\<rparr>) = bptr D s" "others_kept D b r (s\<lparr>dsk := d\<rparr>) = others_kept D b r s"
  by (rule find_cong binv_cong view_cong held_cong bptr_cong others_kept_cong; simp)+

text \<open>The stale set only masks the view.\<close>

lemma view_mask: "view D X s b = (if b \<in> X then (\<lambda>_. 0) else view D {} s b)"
  by (simp add: view_def)

lemma view_eq_mono: "view D X t = view D X s \<Longrightarrow> X \<subseteq> Y \<Longrightarrow> view D Y t = view D Y s"
  by (rule ext) (metis subsetD view_mask)

lemma bptr_view: "bptr D s i b \<Longrightarrow> view D X s b = (if b \<in> X then (\<lambda>_. 0) else b_data (bufs s ! i))"
  by (simp add: bptr_def view_def)

lemma bptr_held: "bptr D s i b \<Longrightarrow> b \<in> held D s"
  by (auto simp: bptr_def held_def)

text \<open>Requests for a single block succeed on this device.\<close>

definition singles_ok :: "'a disk_scheme \<Rightarrow> bool" where
  "singles_ok s \<longleftrightarrow> (\<forall>k. io_fault s k 2 = None) \<and>
     (case sdev s of Some dev \<Rightarrow> \<not> read_only dev \<and> has_write dev | None \<Rightarrow> False)"

definition on_dev :: "'a disk_scheme \<Rightarrow> nat \<Rightarrow> bool" where
  "on_dev s b \<longleftrightarrow> (case sdev s of Some dev \<Rightarrow> 2 * b + 2 \<le> block_count dev | None \<Rightarrow> False)"

lemma only_cache_dev:
  "only_cache s t \<Longrightarrow> singles_ok t = singles_ok s" "only_cache s t \<Longrightarrow> on_dev t = on_dev s"
  by (simp_all add: singles_ok_def on_dev_def only_cacheD fun_eq_iff)

lemma read_single:
  assumes "singles_ok s" and "on_dev s b"
  shows "storage_read_blocks b 1 m s = (0, (\<lambda>k. if k < 1 then dsk s (b + k) else m k), s\<lparr>io_seq := io_seq s + 1\<rparr>)"
  using assms by (auto simp: storage_read_blocks_def singles_ok_def on_dev_def split: option.splits)

lemma write_single:
  assumes "singles_ok s" and "on_dev s b"
  shows "storage_write_blocks b 1 m s =
     (0, s\<lparr>dsk := (dsk s)(b := m 0), io_seq := io_seq s + 1, wtrace := wtrace s @ [run_sectors b 1 m]\<rparr>)"
proof -
  have "put_sectors (run_sectors b 1 m) (dsk s) = (dsk s)(b := m 0)"
    by (auto simp: put_run_sectors fun_eq_iff)
  then show ?thesis using assms
    by (auto simp: storage_write_blocks_def singles_ok_def on_dev_def Let_def split: option.splits)
qed

lemma bread_ok:
  assumes "binv D X P s" and "b \<notin> held D s" and "card (held D s) + card P < length (bufs s)"
    and "singles_ok s" and "on_dev s (unat b)"
  shows "ok (xv6bread D b s) (\<lambda>(i, t). binv D X P t \<and> bptr D t i b \<and> b_data (bufs t ! i) = view D {} s b \<and>
    held D t = insert b (held D s) \<and> view D X t = view D X s \<and> only_cache s t \<and> others_kept D b s t)"
proof -
  from bget_ok [OF assms(1-3)] obtain i t where bg: "bget D b s = Some (i, t)"
    and t: "binv D X P t" "bhash_find D b t = Some i" "b_locked (bufs t ! i)"
      "held D t = insert b (held D s)" "view D X t = view D X s" "only_cache s t" "others_kept D b s t"
    and c: "case bhash_find D b s of
       Some j \<Rightarrow> j = i \<and> b_valid (bufs t ! i) = b_valid (bufs s ! i) \<and> b_data (bufs t ! i) = b_data (bufs s ! i)
     | None \<Rightarrow> \<not> b_valid (bufs t ! i)"
    by (auto simp: ok_def)
  note i = bfindD [OF t(1,2)]
  show ?thesis
  proof (cases "b_valid (bufs t ! i)")
    case True
    then have "b_data (bufs t ! i) = view D {} s b" using c by (auto simp: view_def split: option.splits)
    then show ?thesis using True bg t by (simp add: xv6bread_def bptr_def)
  next
    case False
    let ?f = "\<lambda>x. x\<lparr>b_data := dsk t (unat b), b_valid := True\<rparr>"
    let ?u = "bupd i ?f t"
    have k: "keeps t i ?f" by (simp add: keeps_def)
    have dev: "singles_ok t" "on_dev t (unat b)" using assms(4,5) t(6) by (simp_all add: only_cache_dev)
    have rd: "xv6bread D b s = Some (i, ?u\<lparr>io_seq := io_seq t + 1\<rparr>)"
      using bg False by (simp add: xv6bread_def xv6fs_disk_read_def read_single [OF dev, unfolded One_nat_def] i bupd_def)
    have "binv D X P ?u"
      by (rule binv_bupd [OF t(1,2) k]) (use i(5) t(3) in \<open>auto simp: buf_ok_def\<close>)
    moreover have "view D {} s b = dsk s (unat b)"
      using c False by (auto simp: view_def split: option.splits)
    moreover have "view D X ?u = view D X t"
      unfolding view_bupd [OF t(1,2) k] using t(2) False by (auto simp: view_def fun_eq_iff)
    moreover have "others_kept D b s ?u"
      by (rule others_kept_trans [OF t(1) t(7) others_kept_bupd [OF t(1,2) k]])
    moreover have "held D ?u = held D t" using held_bupd [OF t(1,2) k] t(3,4) by simp
    moreover have "bptr D ?u i b" using t(2,3) find_bupd [OF k, of D b] i(1) by (simp add: bptr_def)
    moreover have "only_cache s (?u\<lparr>io_seq := io_seq t + 1\<rparr>)"
      by (rule only_cache_trans [OF t(6)]) (simp add: only_cache_def bupd_def)
    ultimately show ?thesis unfolding rd using t(4,5) i(1) only_cacheD(1) [OF t(6)] by simp
  qed
qed

lemma coherent:
  assumes "binv D X P s" and "bhash_find D c s = Some i" and "b_valid (bufs s ! i)" and "\<not> b_locked (bufs s ! i)"
    and "c \<notin> P" and "c \<notin> X"
  shows "b_data (bufs s ! i) = dsk s (unat c)"
  using bfindD(3,5) [OF assms(1,2)] assms(3-6) by (auto simp: buf_ok_def)

lemma binv_lru:
  "binv D X P s \<Longrightarrow> distinct l \<Longrightarrow> set l = set (lru s) \<Longrightarrow> binv D X P (s\<lparr>lru := l\<rparr>)"
  by (rule binv_dsk [of D X P s]) (auto intro: coherent)

lemma brelse_eq:
  assumes "i < length (bufs s)"
  obtains l where "xv6brelse i s = (bupd i (\<lambda>x. x\<lparr>b_locked := False, b_refcnt := b_refcnt x - 1\<rparr>) s)\<lparr>lru := l\<rparr>"
    and "l = lru s \<or> l = i # remove1 i (lru s)"
proof -
  let ?t = "bupd i (\<lambda>x. x\<lparr>b_locked := False, b_refcnt := b_refcnt x - 1\<rparr>) s"
  have "xv6brelse i s = ?t\<lparr>lru := lru s\<rparr> \<or> xv6brelse i s = ?t\<lparr>lru := i # remove1 i (lru s)\<rparr>"
    using assms by (simp add: xv6brelse_def xv6_sleep_unlock_def Let_def)
  then show thesis using that by blast
qed

lemma brelse_ok:
  assumes "binv D X P s" and "bptr D s i b" and "b \<in> P \<or> b \<in> X \<or> b_data (bufs s ! i) = dsk s (unat b)"
  shows "binv D X P (xv6brelse i s)" "held D (xv6brelse i s) = held D s - {b}"
    "view D Y (xv6brelse i s) = view D Y s" "only_cache s (xv6brelse i s)"
    "others_kept D b s (xv6brelse i s)" "bhash_find D c (xv6brelse i s) = bhash_find D c s"
    "b_data (bufs (xv6brelse i s) ! i) = b_data (bufs s ! i)" "b_valid (bufs (xv6brelse i s) ! i)"
    "c \<noteq> b \<Longrightarrow> bptr D (xv6brelse i s) j c = bptr D s j c"
proof -
  let ?f = "\<lambda>x. x\<lparr>b_locked := False, b_refcnt := b_refcnt x - 1\<rparr>"
  have p: "bhash_find D b s = Some i" "b_locked (bufs s ! i)" "b_valid (bufs s ! i)"
    using assms(2) by (simp_all add: bptr_def)
  note i = bfindD [OF assms(1) p(1)]
  have k: "keeps s i ?f" by (simp add: keeps_def)
  obtain l where r: "xv6brelse i s = (bupd i ?f s)\<lparr>lru := l\<rparr>" and l: "l = lru s \<or> l = i # remove1 i (lru s)"
    using brelse_eq [OF i(1)] by blast
  have lru: "distinct (lru s)" "set (lru s) = {..<length (bufs s)}" using assms(1) by (simp_all add: binv_def)
  have "buf_ok X P (dsk s) True (?f (bufs s ! i))"
    using i(3,5) p assms(3) by (auto simp: buf_ok_def)
  then have "binv D X P (bupd i ?f s)" by (intro binv_bupd [OF assms(1) p(1) k]) simp_all
  moreover have "distinct l" "set l = set (lru s)"
    using l lru i(1) by (elim disjE; simp add: insert_absorb)+
  ultimately show "binv D X P (xv6brelse i s)" unfolding r by (intro binv_lru) simp_all
  show "held D (xv6brelse i s) = held D s - {b}" by (simp add: r held_bupd [OF assms(1) p(1) k])
  have y: "view D {} (bupd i ?f s) = view D {} s"
    by (rule ext) (use p i(1) in \<open>auto simp: view_def find_bupd [OF k] bufs_bupd split: option.splits\<close>)
  show "view D Y (xv6brelse i s) = view D Y s" unfolding r using view_eq_mono [OF y] by simp
  show "only_cache s (xv6brelse i s)" by (simp add: r only_cache_def bupd_def)
  show "others_kept D b s (xv6brelse i s)" by (simp add: r others_kept_bupd [OF assms(1) p(1) k])
  show "bhash_find D c (xv6brelse i s) = bhash_find D c s" by (simp add: r find_bupd [OF k])
  show "b_data (bufs (xv6brelse i s) ! i) = b_data (bufs s ! i)" "b_valid (bufs (xv6brelse i s) ! i)"
    using i(1) p by (simp_all add: r)
  show "c \<noteq> b \<Longrightarrow> bptr D (xv6brelse i s) j c = bptr D s j c" by (simp add: r bptr_bupd [OF assms(1) p(1) k])
qed

text \<open>Stores through the pointer to a locked buffer.\<close>

definition bset :: "nat \<Rightarrow> block \<Rightarrow> 'a bcache_scheme \<Rightarrow> 'a bcache_scheme" where
  "bset i d s = bupd i (\<lambda>x. x\<lparr>b_data := d\<rparr>) s"

lemma bptr_same:
  assumes "binv D X P s" and "bptr D s i b" and "keeps s i f" and "b_locked (f (bufs s ! i))" and "b_valid (f (bufs s ! i))"
  shows "bptr D (bupd i f s) = bptr D s"
proof (intro ext)
  fix j c
  have p: "bhash_find D b s = Some i" using assms(2) by (simp add: bptr_def)
  show "bptr D (bupd i f s) j c = bptr D s j c"
  proof (cases "c = b")
    case True
    then show ?thesis using assms(2-5) bfindD(1) [OF assms(1) p]
      by (auto simp: bptr_def find_bupd [OF assms(3)])
  qed (rule bptr_bupd [OF assms(1) p assms(3)])
qed

lemma bset_ok:
  assumes "binv D X P s" and "bptr D s i b"
  shows "binv D X P (bset i d s)" "held D (bset i d s) = held D s" "bptr D (bset i d s) = bptr D s"
    "view D X (bset i d s) = (if b \<in> X then view D X s else (view D X s)(b := d))"
    "only_cache s (bset i d s)" "others_kept D b s (bset i d s)" "b_data (bufs (bset i d s) ! i) = d"
    "bhash_find D c (bset i d s) = bhash_find D c s"
proof -
  let ?f = "\<lambda>x. x\<lparr>b_data := d\<rparr>"
  have p: "bhash_find D b s = Some i" "b_locked (bufs s ! i)" "b_valid (bufs s ! i)"
    using assms(2) by (simp_all add: bptr_def)
  note i = bfindD [OF assms(1) p(1)]
  have k: "keeps s i ?f" by (simp add: keeps_def)
  have "buf_ok X P (dsk s) True (?f (bufs s ! i))" using i(5) p by (auto simp: buf_ok_def)
  then show "binv D X P (bset i d s)"
    unfolding bset_def by (intro binv_bupd [OF assms(1) p(1) k]) simp_all
  show "held D (bset i d s) = held D s"
    using bptr_held [OF assms(2)] p(2) by (auto simp: bset_def held_bupd [OF assms(1) p(1) k])
  show "bptr D (bset i d s) = bptr D s"
    unfolding bset_def by (rule bptr_same [OF assms k]) (use p in simp_all)
  show "view D X (bset i d s) = (if b \<in> X then view D X s else (view D X s)(b := d))"
    using p(3) by (auto simp: bset_def view_bupd [OF assms(1) p(1) k] fun_eq_iff view_def)
  show "only_cache s (bset i d s)" "others_kept D b s (bset i d s)" "b_data (bufs (bset i d s) ! i) = d"
    "bhash_find D c (bset i d s) = bhash_find D c s"
    using i(1) by (simp_all add: bset_def others_kept_bupd [OF assms(1) p(1) k] find_bupd [OF k])
qed

lemma bpin_ok:
  assumes "binv D X P s" and "bptr D s i b" and "b \<notin> P"
  shows "binv D X (insert b P) (xv6bpin i s)" "held D (xv6bpin i s) = held D s" "bptr D (xv6bpin i s) = bptr D s"
    "view D Y (xv6bpin i s) = view D Y s" "only_cache s (xv6bpin i s)" "others_kept D b s (xv6bpin i s)"
    "b_data (bufs (xv6bpin i s) ! i) = b_data (bufs s ! i)"
proof -
  let ?f = "\<lambda>x. x\<lparr>b_refcnt := b_refcnt x + 1\<rparr>"
  have p: "bhash_find D b s = Some i" "b_locked (bufs s ! i)" "b_valid (bufs s ! i)"
    using assms(2) by (simp_all add: bptr_def)
  note i = bfindD [OF assms(1) p(1)]
  have k: "keeps s i ?f" by (simp add: keeps_def)
  have "buf_ok X (insert b P) (dsk s) True (?f (bufs s ! i))"
    using i(3,5) p assms(3) by (simp add: buf_ok_def)
  then show "binv D X (insert b P) (xv6bpin i s)"
    unfolding xv6bpin_def by (intro binv_bupd [OF assms(1) p(1) k]) simp_all
  show "held D (xv6bpin i s) = held D s"
    using bptr_held [OF assms(2)] p(2) by (auto simp: xv6bpin_def held_bupd [OF assms(1) p(1) k])
  show "bptr D (xv6bpin i s) = bptr D s"
    unfolding xv6bpin_def by (rule bptr_same [OF assms(1,2) k]) (use p in simp_all)
  have y: "view D {} (bupd i ?f s) = view D {} s"
    by (rule ext) (use p i(1) in \<open>auto simp: view_def find_bupd [OF k] bufs_bupd split: option.splits\<close>)
  show "view D Y (xv6bpin i s) = view D Y s" unfolding xv6bpin_def using view_eq_mono [OF y] by simp
  show "only_cache s (xv6bpin i s)" "others_kept D b s (xv6bpin i s)" "b_data (bufs (xv6bpin i s) ! i) = b_data (bufs s ! i)"
    using i(1) by (simp_all add: xv6bpin_def others_kept_bupd [OF assms(1) p(1) k])
qed

lemma bunpin_ok:
  assumes "binv D X P s" and "bptr D s i b" and "b \<in> P"
  shows "binv D X (P - {b}) (xv6bunpin i s)" "held D (xv6bunpin i s) = held D s" "bptr D (xv6bunpin i s) = bptr D s"
    "view D Y (xv6bunpin i s) = view D Y s" "only_cache s (xv6bunpin i s)" "others_kept D b s (xv6bunpin i s)"
    "b_data (bufs (xv6bunpin i s) ! i) = b_data (bufs s ! i)"
    "bhash_find D c (xv6bunpin i s) = bhash_find D c s"
proof -
  let ?f = "\<lambda>x. x\<lparr>b_refcnt := b_refcnt x - 1\<rparr>"
  have p: "bhash_find D b s = Some i" "b_locked (bufs s ! i)" "b_valid (bufs s ! i)"
    using assms(2) by (simp_all add: bptr_def)
  note i = bfindD [OF assms(1) p(1)]
  have k: "keeps s i ?f" by (simp add: keeps_def)
  have "buf_ok X (P - {b}) (dsk s) True (?f (bufs s ! i))"
    using i(3,5) p assms(3) by (simp add: buf_ok_def)
  then show "binv D X (P - {b}) (xv6bunpin i s)"
    unfolding xv6bunpin_def by (intro binv_bupd [OF assms(1) p(1) k]) simp_all
  show "held D (xv6bunpin i s) = held D s"
    using bptr_held [OF assms(2)] p(2) by (auto simp: xv6bunpin_def held_bupd [OF assms(1) p(1) k])
  show "bptr D (xv6bunpin i s) = bptr D s"
    unfolding xv6bunpin_def by (rule bptr_same [OF assms(1,2) k]) (use p in simp_all)
  have y: "view D {} (bupd i ?f s) = view D {} s"
    by (rule ext) (use p i(1) in \<open>auto simp: view_def find_bupd [OF k] bufs_bupd split: option.splits\<close>)
  show "view D Y (xv6bunpin i s) = view D Y s" unfolding xv6bunpin_def using view_eq_mono [OF y] by simp
  show "only_cache s (xv6bunpin i s)" "others_kept D b s (xv6bunpin i s)"
      "b_data (bufs (xv6bunpin i s) ! i) = b_data (bufs s ! i)"
      "bhash_find D c (xv6bunpin i s) = bhash_find D c s"
    using i(1) by (simp_all add: xv6bunpin_def others_kept_bupd [OF assms(1) p(1) k] find_bupd [OF k])
qed

text \<open>Writing a buffer through makes its block coherent.\<close>

lemma bwrite_eq:
  assumes "binv D X P s" and "bptr D s i b" and "singles_ok s" and "on_dev s (unat b)"
  shows "xv6bwrite i s = s\<lparr>dsk := (dsk s)(unat b := b_data (bufs s ! i)), io_seq := io_seq s + 1,
    wtrace := wtrace s @ [run_sectors (unat b) 1 (\<lambda>_. b_data (bufs s ! i))]\<rparr>"
proof -
  have "bhash_find D b s = Some i" using assms(2) by (simp add: bptr_def)
  then have "b_blockno (bufs s ! i) = b" by (rule bfindD(3) [OF assms(1)])
  then show ?thesis
    by (simp add: xv6bwrite_def xv6fs_disk_write_def write_single [OF assms(3,4), unfolded One_nat_def])
qed

lemma bwrite_ok:
  assumes "binv D X P s" and "bptr D s i b" and "singles_ok s" and "on_dev s (unat b)"
  shows "binv D (X - {b}) P (xv6bwrite i s)" "held D (xv6bwrite i s) = held D s" "bptr D (xv6bwrite i s) = bptr D s"
    "view D Y (xv6bwrite i s) = view D Y s" "dsk (xv6bwrite i s) (unat b) = b_data (bufs s ! i)"
    "bufs (xv6bwrite i s) = bufs s" "others_kept D b s (xv6bwrite i s)"
proof -
  note w = bwrite_eq [OF assms]
  have p: "bhash_find D b s = Some i" "b_locked (bufs s ! i)" "b_valid (bufs s ! i)"
    using assms(2) by (simp_all add: bptr_def)
  show "held D (xv6bwrite i s) = held D s" "bptr D (xv6bwrite i s) = bptr D s" "bufs (xv6bwrite i s) = bufs s"
    "dsk (xv6bwrite i s) (unat b) = b_data (bufs s ! i)"
    by (simp_all add: w)
  show "others_kept D b s (xv6bwrite i s)" by (simp add: w others_kept_def)
  show "binv D (X - {b}) P (xv6bwrite i s)"
  proof (rule binv_dsk [OF assms(1)])
    fix c j
    assume a: "bhash_find D c s = Some j" "b_valid (bufs s ! j)" "\<not> b_locked (bufs s ! j)" "c \<notin> P" "c \<notin> X - {b}"
    then have "c \<noteq> b" using p by auto
    then show "b_data (bufs s ! j) = dsk (xv6bwrite i s) (unat c)"
      using a coherent [OF assms(1) a(1-4)] by (simp add: w)
  qed (use assms(1) in \<open>simp_all add: w binv_def\<close>)
  show "view D Y (xv6bwrite i s) = view D Y s"
    by (rule ext) (use p in \<open>auto simp: view_def w split: option.split\<close>)
qed

text \<open>A transfer past the cache.\<close>

lemma write_run_cases:
  obtains (ok) "xv6bio_write_run b n m s = (0, s\<lparr>dsk := put_sectors (run_sectors (unat b) n m) (dsk s),
      io_seq := io_seq s + 1, wtrace := wtrace s @ [run_sectors (unat b) n m]\<rparr>)"
  | (part) ws where "set ws \<subseteq> set (run_sectors (unat b) n m)"
      "xv6bio_write_run b n m s = (-1, s\<lparr>dsk := put_sectors ws (dsk s), io_seq := io_seq s + 1, wtrace := wtrace s @ [ws]\<rparr>)"
  | (none) "xv6bio_write_run b n m s = (-1, s)"
proof (cases "storage_write_blocks (unat b) n m s")
  case (Pair r t)
  let ?ws = "run_sectors (unat b) n m"
  have "(r = -1 \<and> t = s) \<or>
      (r = 0 \<and> t = s\<lparr>dsk := put_sectors ?ws (dsk s), io_seq := io_seq s + 1, wtrace := wtrace s @ [?ws]\<rparr>) \<or>
      (\<exists>f. r = -1 \<and> t = (let ws = filter f ?ws
        in s\<lparr>dsk := put_sectors ws (dsk s), io_seq := io_seq s + 1, wtrace := wtrace s @ [ws]\<rparr>))"
    using Pair by (auto simp: storage_write_blocks_def Let_def split: option.splits if_splits)
  then consider "n \<noteq> 0" "r = -1" "t = s" | "n = 0"
    | "n \<noteq> 0" "r = 0" "t = s\<lparr>dsk := put_sectors ?ws (dsk s), io_seq := io_seq s + 1, wtrace := wtrace s @ [?ws]\<rparr>"
    | f where "n \<noteq> 0" "r = -1" "t = (let ws = filter f ?ws
        in s\<lparr>dsk := put_sectors ws (dsk s), io_seq := io_seq s + 1, wtrace := wtrace s @ [ws]\<rparr>)"
    by blast
  then show thesis
  proof cases
    case (4 f)
    then show ?thesis using Pair
      by (intro part [of "filter f ?ws"]) (auto simp: Let_def xv6bio_write_run_def)
  qed (use Pair none ok in \<open>simp_all add: xv6bio_write_run_def\<close>)
qed

lemma read_run_cases:
  obtains (ok) k where "xv6bio_read_run b n m s = (0, (\<lambda>k. if k < n then dsk s (unat b + k) else m k), s\<lparr>io_seq := k\<rparr>)"
  | (fail) m' k where "xv6bio_read_run b n m s = (-1, m', s\<lparr>io_seq := k\<rparr>)"
proof (cases "storage_read_blocks (unat b) n m s")
  case (fields r m' t)
  have "(r = 0 \<and> m' = (\<lambda>k. if k < n then dsk s (unat b + k) else m k) \<and> t = s\<lparr>io_seq := io_seq s + 1\<rparr>) \<or>
      (r = -1 \<and> (\<exists>k. t = s\<lparr>io_seq := k\<rparr>))"
  proof -
    have "\<exists>k. s = s\<lparr>io_seq := k\<rparr>" by (rule exI [of _ "io_seq s"]) simp
    then show ?thesis using fields
      by (auto simp: storage_read_blocks_def Let_def split: option.splits if_splits)
  qed
  then consider "n \<noteq> 0" "r = 0" "m' = (\<lambda>k. if k < n then dsk s (unat b + k) else m k)" "t = s\<lparr>io_seq := io_seq s + 1\<rparr>"
    | k where "n \<noteq> 0" "r = -1" "t = s\<lparr>io_seq := k\<rparr>" | "n = 0"
    by blast
  then show thesis
  proof cases
    case 1
    then show ?thesis using fields ok [of "io_seq s + 1"] by (simp add: xv6bio_read_run_def)
  next
    case (2 k)
    then show ?thesis using fields fail [of m' k] by (simp add: xv6bio_read_run_def)
  next
    case 3
    then show ?thesis using fail [of m "io_seq s"] by (simp add: xv6bio_read_run_def)
  qed
qed

lemma range_uncached_view:
  assumes "\<not> xv6bio_range_cached D b n s" and "k < n" and "unat b + k < 2 ^ 32"
  shows "view D {} s (b + of_nat k) = dsk s (unat b + k)"
proof -
  have u: "unat (b + of_nat k) = unat b + k"
    using assms(3) by (simp add: unat_word_ariths unat_of_nat)
  have "case bhash_find D (b + of_nat k) s of Some i \<Rightarrow> \<not> b_valid (bufs s ! i) | None \<Rightarrow> True"
    using assms(1,2) by (auto simp: xv6bio_range_cached_def list_ex_iff split: option.splits)
  then show ?thesis by (auto simp: view_def u split: option.splits)
qed

text \<open>C29. Cache transparency of a direct read: when \<open>xv6bio_range_cached\<close> reports no valid cached
  block in a range of the device and the transfer past the cache succeeds, every block of the memory
  it fills is the current contents of that block.\<close>

theorem direct_read_coherent:
  assumes "\<not> xv6bio_range_cached D b n s" and "unat b + n \<le> 2 ^ 32"
    and "xv6bio_read_run b n m s = (0, m', t)"
  shows "\<forall>k < n. m' k = view D {} s (b + of_nat k)"
proof (intro allI impI)
  fix k assume k: "k < n"
  have "m' k = dsk s (unat b + k)"
    by (rule read_run_cases [of b n m s]) (use assms(3) k in auto)
  then show "m' k = view D {} s (b + of_nat k)"
    using range_uncached_view [OF assms(1) k] assms(2) k by simp
qed

section \<open>Crash states\<close>

text \<open>A crash keeps the completed write commands and any part of the sectors of the next one.\<close>

fun crashes :: "(nat \<Rightarrow> block) \<Rightarrow> sector_write list list \<Rightarrow> (nat \<Rightarrow> block) set" where
  "crashes d [] = {d}"
| "crashes d (c # cs) = {put_sectors ws d | ws. set ws \<subseteq> set c} \<union> crashes (put_sectors c d) cs"

lemma crashes_append: "crashes d (xs @ ys) = crashes d xs \<union> crashes (put_sectors (concat xs) d) ys"
proof (induction xs arbitrary: d)
  case Nil
  have "d \<in> crashes d ys" by (cases ys) (auto intro: exI [of _ "[]"])
  then show ?case by auto
qed (simp add: put_sectors_append Un_assoc)

text \<open>\<open>within S s t\<close>: the writes that lead from \<open>s\<close> to \<open>t\<close> never leave \<open>S\<close>, wherever a crash cuts them off.\<close>

definition within :: "(nat \<Rightarrow> block) set \<Rightarrow> 'a disk_scheme \<Rightarrow> 'b disk_scheme \<Rightarrow> bool" where
  "within S s t \<longleftrightarrow> (\<exists>cs. wtrace t = wtrace s @ cs \<and> dsk t = put_sectors (concat cs) (dsk s) \<and> crashes (dsk s) cs \<subseteq> S)"

lemma within_refl: "wtrace t = wtrace s \<Longrightarrow> dsk t = dsk s \<Longrightarrow> dsk s \<in> S \<Longrightarrow> within S s t"
  unfolding within_def by (rule exI [of _ "[]"]) simp

lemma within_trans:
  assumes "within S s t" and "within S t u"
  shows "within S s u"
proof -
  obtain cs where c: "wtrace t = wtrace s @ cs" "dsk t = put_sectors (concat cs) (dsk s)" "crashes (dsk s) cs \<subseteq> S"
    using assms(1) by (auto simp: within_def)
  obtain ds where d: "wtrace u = wtrace t @ ds" "dsk u = put_sectors (concat ds) (dsk t)" "crashes (dsk t) ds \<subseteq> S"
    using assms(2) by (auto simp: within_def)
  show ?thesis unfolding within_def
    by (rule exI [of _ "cs @ ds"]) (use c d in \<open>simp add: crashes_append put_sectors_append\<close>)
qed

lemma within_mono: "within S s t \<Longrightarrow> S \<subseteq> T \<Longrightarrow> within T s t"
  unfolding within_def by blast

lemma crashes_start: "d \<in> crashes d cs"
  by (cases cs) (auto intro: exI [of _ "[]"])

lemma crashes_end: "put_sectors (concat cs) d \<in> crashes d cs"
  by (induction cs arbitrary: d) (auto simp: put_sectors_append)

lemma within_ends: "within S s t \<Longrightarrow> dsk s \<in> S" "within S s t \<Longrightarrow> dsk t \<in> S"
  unfolding within_def using crashes_start crashes_end by (metis subsetD)+

lemma within_cmd:
  assumes "wtrace t = wtrace s @ [c]" and "dsk t = put_sectors c (dsk s)"
    and "\<And>ws. set ws \<subseteq> set c \<Longrightarrow> put_sectors ws (dsk s) \<in> S"
  shows "within S s t"
  unfolding within_def by (rule exI [of _ "[c]"]) (use assms in auto)

text \<open>Writes that touch the blocks of \<open>A\<close> only.\<close>

definition only_blocks :: "nat set \<Rightarrow> (nat \<Rightarrow> block) \<Rightarrow> (nat \<Rightarrow> block) set" where
  "only_blocks A d = {e. \<forall>c. c \<notin> A \<longrightarrow> e c = d c}"

lemma only_blocks_refl [simp]: "d \<in> only_blocks A d"
  by (simp add: only_blocks_def)

lemma only_blocks_put: "e \<in> only_blocks A d \<Longrightarrow> fst ` set ws \<subseteq> A \<Longrightarrow> put_sectors ws e \<in> only_blocks A d"
proof -
  assume e: "e \<in> only_blocks A d" and w: "fst ` set ws \<subseteq> A"
  have "put_sectors ws e c = d c" if "c \<notin> A" for c
  proof -
    have "c \<notin> fst ` set ws" using that w by blast
    then show ?thesis using e that by (simp add: put_sectors_other only_blocks_def)
  qed
  then show ?thesis by (simp add: only_blocks_def)
qed

lemma only_blocks_trans: "e \<in> only_blocks A d \<Longrightarrow> only_blocks A e \<subseteq> only_blocks A d"
  by (auto simp: only_blocks_def)

lemma within_only_trans:
  assumes "within (only_blocks A (dsk s)) s t" and "within (only_blocks A (dsk t)) t u"
  shows "within (only_blocks A (dsk s)) s u"
  by (rule within_trans [OF assms(1) within_mono [OF assms(2) only_blocks_trans]]) (rule within_ends(2) [OF assms(1)])

lemma run_sectors_blocks: "fst ` set (run_sectors b n x) = {b..<b + n}"
  by (induction n) (auto simp: run_sectors_Suc)

lemma within_run:
  assumes "wtrace t = wtrace s @ [ws]" and "dsk t = put_sectors ws (dsk s)"
    and "set ws \<subseteq> set (run_sectors b n x)" and "{b..<b + n} \<subseteq> A"
  shows "within (only_blocks A (dsk s)) s t"
proof (rule within_cmd [OF assms(1,2)])
  fix vs assume "set vs \<subseteq> set ws"
  then have "fst ` set vs \<subseteq> fst ` set (run_sectors b n x)" using assms(3) by blast
  then show "put_sectors vs (dsk s) \<in> only_blocks A (dsk s)"
    using assms(4) unfolding run_sectors_blocks by (intro only_blocks_put) auto
qed

text \<open>A block that is written alone: each half is old or new, whatever part of the write happens.\<close>

lemma put_half:
  assumes "set ws \<subseteq> set (run_sectors b 1 x)"
  shows "(\<forall>i < 512. put_sectors ws d b i = d b i) \<or> (\<forall>i < 512. put_sectors ws d b i = x 0 i)"
  using assms
proof (induction ws arbitrary: d)
  case (Cons w ws)
  then have "w = (b, False, x 0) \<or> w = (b, True, x 0)" by (auto simp: set_run_sectors)
  moreover have "set ws \<subseteq> set (run_sectors b 1 x)" using Cons.prems by simp
  ultimately show ?case using Cons.IH [of "put_sector w d"] by (auto simp: put_sector_def)
qed simp

section \<open>Initial state and cache fill\<close>

lemma init_buf_fields:
  "lru (init_buf i s) = i # lru s" "htab (init_buf i s) = htab s" "dsk (init_buf i s) = dsk s"
  "length (bufs (init_buf i s)) = length (bufs s)"
  "i < length (bufs s) \<Longrightarrow> bufs (init_buf i s) ! j = (if j = i then (bufs s ! i)\<lparr>b_locked := False, b_valid := False,
     b_refcnt := 0, b_dev := 0xffffffff, b_blockno := 0xffffffff\<rparr> else bufs s ! j)"
  by (simp_all add: init_buf_def bufs_bupd)

lemma init_loop:
  "k \<le> length (bufs s) \<Longrightarrow> lru (fold init_buf [0..<k] s) = rev [0..<k] @ lru s \<and>
     htab (fold init_buf [0..<k] s) = htab s \<and> dsk (fold init_buf [0..<k] s) = dsk s \<and>
     length (bufs (fold init_buf [0..<k] s)) = length (bufs s) \<and>
     (\<forall>i < k. \<not> b_valid (bufs (fold init_buf [0..<k] s) ! i) \<and> \<not> b_locked (bufs (fold init_buf [0..<k] s) ! i) \<and>
        b_refcnt (bufs (fold init_buf [0..<k] s) ! i) = 0)"
proof (induction k)
  case (Suc k)
  then have IH: "lru (fold init_buf [0..<k] s) = rev [0..<k] @ lru s"
     "htab (fold init_buf [0..<k] s) = htab s" "dsk (fold init_buf [0..<k] s) = dsk s"
     "length (bufs (fold init_buf [0..<k] s)) = length (bufs s)"
     "\<forall>i < k. \<not> b_valid (bufs (fold init_buf [0..<k] s) ! i) \<and> \<not> b_locked (bufs (fold init_buf [0..<k] s) ! i) \<and>
        b_refcnt (bufs (fold init_buf [0..<k] s) ! i) = 0"
    by simp_all
  then show ?case using Suc.prems
    by (auto simp: init_buf_fields less_Suc_eq)
qed simp

lemma bio_init_ok: "binv D X {} (xv6bio_init s)" "view D {} (xv6bio_init s) b = dsk s (unat b)"
  "held D (xv6bio_init s) = {}" "dsk (xv6bio_init s) = dsk s" "length (bufs (xv6bio_init s)) = length (bufs s)"
proof -
  let ?t = "xv6bio_init s"
  note L = init_loop [of "length (bufs s)" "s\<lparr>lru := [], htab := (\<lambda>_. [])\<rparr>", simplified, folded xv6bio_init_def]
  have find: "bhash_find D b ?t = None" for b by (simp add: bhash_find_def L)
  have inc: "\<not> incache ?t i" for i by (simp add: incache_def L)
  then show "binv D X {} ?t" using L by (auto simp: binv_def chains_def buf_ok_def incache_def)
  show "view D {} ?t b = dsk s (unat b)" "held D ?t = {}" by (simp_all add: view_def held_def find L)
  show "dsk ?t = dsk s" "length (bufs ?t) = length (bufs s)" by (simp_all add: L)
qed

lemma clean_view:
  assumes "binv D X P s" and "b \<notin> held D s" and "b \<notin> P" and "b \<notin> X"
  shows "view D {} s b = dsk s (unat b)"
  using assms coherent [OF assms(1)] by (auto simp: view_def held_def split: option.splits)

lemma pinned_cached:
  assumes "binv D X P s" and "c \<in> P"
  obtains j where "bhash_find D c s = Some j" "b_valid (bufs s ! j)" "b_refcnt (bufs s ! j) \<noteq> 0"
proof -
  have "bhash_find D c s \<noteq> None" using assms by (simp add: binv_def)
  then obtain j where j: "bhash_find D c s = Some j" by blast
  note f = bfindD [OF assms(1) j]
  have "b_refcnt (bufs s ! j) \<noteq> 0" using refcnt_zero_iff [OF f(5)] f(3) assms(2) by simp
  moreover have "b_valid (bufs s ! j)" using f(3,5) assms(2) by (simp add: buf_ok_def)
  ultimately show thesis using that j by blast
qed

lemma bread_hit_find:
  assumes "binv D X P s" and "b \<notin> held D s" and "bhash_find D b s = Some j" and "b_valid (bufs s ! j)"
    and "xv6bread D b s = Some (i, t)"
  shows "i = j" "bhash_find D c t = bhash_find D c s"
proof -
  let ?f = "\<lambda>x. x\<lparr>b_refcnt := b_refcnt x + 1, b_locked := True\<rparr>"
  note j = bfindD [OF assms(1,3)]
  have k: "keeps s j ?f" by (simp add: keeps_def)
  have "xv6bread D b s = Some (j, bupd j ?f s)"
    using bget_hit [OF assms(3,2) j(1)] assms(4) j(1) by (simp add: xv6bread_def)
  then show "i = j" "bhash_find D c t = bhash_find D c s" using assms(5) find_bupd [OF k] by auto
qed

lemma fill_step:
  assumes "binv D X P s" and "b \<notin> held D s" and "card (held D s) + card P < length (bufs s)" and "x = dsk s (unat b)"
  shows "ok (bget D b s) (\<lambda>(i, s1).
     let t = xv6brelse i (if b_valid (bufs s1 ! i) then s1 else bupd i (\<lambda>y. y\<lparr>b_data := x, b_valid := True\<rparr>) s1)
     in binv D X P t \<and> view D X t = view D X s \<and> held D t = held D s \<and> only_cache s t)"
proof -
  from bget_ok [OF assms(1-3)] obtain i t where bg: "bget D b s = Some (i, t)"
    and t: "binv D X P t" "bhash_find D b t = Some i" "b_locked (bufs t ! i)"
      "held D t = insert b (held D s)" "view D X t = view D X s" "only_cache s t"
    and c: "case bhash_find D b s of
       Some j \<Rightarrow> j = i \<and> b_valid (bufs t ! i) = b_valid (bufs s ! i) \<and> b_data (bufs t ! i) = b_data (bufs s ! i)
     | None \<Rightarrow> \<not> b_valid (bufs t ! i)"
    by (auto simp: ok_def)
  note i = bfindD [OF t(1,2)]
  have hs: "held D t - {b} = held D s" using t(4) assms(2) by simp
  show ?thesis
  proof (cases "b_valid (bufs t ! i)")
    case True
    have p: "bptr D t i b" using True t by (simp add: bptr_def)
    have "b_data (bufs t ! i) = view D {} s b" using c True by (auto simp: view_def split: option.splits)
    then have cl: "b \<in> P \<or> b \<in> X \<or> b_data (bufs t ! i) = dsk t (unat b)"
      using clean_view [OF assms(1,2)] only_cacheD(1) [OF t(6)] by auto
    note r = brelse_ok [OF t(1) p cl]
    show ?thesis unfolding bg ok_Some Let_def using True r(1,2) r(3) [of X] t(5) hs only_cache_trans [OF t(6) r(4)] by simp
  next
    case False
    let ?f = "\<lambda>y. y\<lparr>b_data := x, b_valid := True\<rparr>"
    let ?u = "bupd i ?f t"
    have k: "keeps t i ?f" by (simp add: keeps_def)
    have u: "binv D X P ?u"
      by (rule binv_bupd [OF t(1,2) k]) (use i(5) t(3) in \<open>auto simp: buf_ok_def\<close>)
    have p: "bptr D ?u i b" using t(2,3) find_bupd [OF k, of D b] i(1) by (simp add: bptr_def)
    have xd: "x = dsk t (unat b)" using assms(4) only_cacheD(1) [OF t(6)] by simp
    then have cl: "b \<in> P \<or> b \<in> X \<or> b_data (bufs ?u ! i) = dsk ?u (unat b)" using i(1) by simp
    note r = brelse_ok [OF u p cl]
    have "held D ?u = held D t" using held_bupd [OF t(1,2) k] t(3,4) by simp
    moreover have "view D X ?u = view D X t"
      unfolding view_bupd [OF t(1,2) k] using t(2) False xd by (auto simp: view_def fun_eq_iff)
    moreover have "only_cache s (xv6brelse i ?u)"
      using only_cache_trans [OF only_cache_trans [OF t(6) only_cache_bupd] r(4)] .
    ultimately show ?thesis unfolding bg ok_Some Let_def using False r(1,2) r(3) [of X] t(5) hs by simp
  qed
qed

lemma fill_loop_ok:
  assumes "binv D X P s" and "card (held D s) + card P < length (bufs s)"
    and "\<forall>k \<in> set ks. b + of_nat k \<notin> held D s \<and> src k = dsk s (unat (b + of_nat k))"
  shows "ok (fill_loop D b src ks s) (\<lambda>t. binv D X P t \<and> view D X t = view D X s \<and> held D t = held D s \<and> only_cache s t)"
  using assms
proof (induction ks arbitrary: s)
  case (Cons k ks)
  have "ok (bget D (b + of_nat k) s) (\<lambda>(i, s1).
     let t = xv6brelse i (if b_valid (bufs s1 ! i) then s1 else bupd i (\<lambda>y. y\<lparr>b_data := src k, b_valid := True\<rparr>) s1)
     in binv D X P t \<and> view D X t = view D X s \<and> held D t = held D s \<and> only_cache s t)"
    using Cons.prems by (intro fill_step) simp_all
  then obtain i s1 where g: "bget D (b + of_nat k) s = Some (i, s1)"
    and "let t = xv6brelse i (if b_valid (bufs s1 ! i) then s1 else bupd i (\<lambda>y. y\<lparr>b_data := src k, b_valid := True\<rparr>) s1)
     in binv D X P t \<and> view D X t = view D X s \<and> held D t = held D s \<and> only_cache s t"
    by (auto simp: ok_def)
  then obtain t where
    t: "t = xv6brelse i (if b_valid (bufs s1 ! i) then s1 else bupd i (\<lambda>y. y\<lparr>b_data := src k, b_valid := True\<rparr>) s1)"
      "binv D X P t" "view D X t = view D X s" "held D t = held D s" "only_cache s t"
    unfolding Let_def by blast
  have "ok (fill_loop D b src ks t) (\<lambda>u. binv D X P u \<and> view D X u = view D X t \<and> held D u = held D t \<and> only_cache t u)"
    by (rule Cons.IH [OF t(2)]) (use Cons.prems t only_cacheD [OF t(5)] in simp_all)
  then show ?case unfolding fill_loop.simps g bind.simps prod.case t(1) [symmetric]
    by (rule ok_conseq) (use t only_cache_trans [OF t(5)] in simp)
qed simp

text \<open>C30. Filling the cache with what a direct read delivered changes no block that a client can see:
  if the memory holds the blocks of the disk and none of them is locked, \<open>xv6bio_fill_cache\<close> returns,
  keeps the cache invariant, and every block keeps its contents, even a block that was modified
  and not yet written back.\<close>

theorem fill_cache_transparent:
  assumes "binv D X P s" and "card (held D s) + card P < length (bufs s)"
    and "\<forall>k < n. b + of_nat k \<notin> held D s \<and> src k = dsk s (unat (b + of_nat k))"
  shows "\<exists>t. xv6bio_fill_cache D b n src s = Some t \<and> binv D X P t \<and> view D X t = view D X s \<and>
    held D t = held D s \<and> dsk t = dsk s"
proof -
  have "ok (xv6bio_fill_cache D b n src s)
      (\<lambda>t. binv D X P t \<and> view D X t = view D X s \<and> held D t = held D s \<and> only_cache s t)"
    unfolding xv6bio_fill_cache_def by (rule fill_loop_ok) (use assms in auto)
  then show ?thesis by (auto simp: ok_def only_cacheD)
qed


section \<open>Witnesses\<close>

text \<open>A device of 64 sectors and a cache of four buffers.\<close>

definition bio_ex :: bcache where
  "bio_ex = \<lparr>sdev = Some \<lparr>block_count = 64, read_only = False, has_write = True\<rparr>, dsk = (\<lambda>b i. of_nat b),
     io_fault = (\<lambda>_ _. None), io_seq = 0, wtrace = [],
     bufs = replicate 4 \<lparr>b_valid = True, b_dev = 0, b_blockno = 0, b_locked = True, b_refcnt = 7, b_data = (\<lambda>_. 0)\<rparr>,
     lru = [], htab = (\<lambda>_. [])\<rparr>"

definition bio_ex0 :: bcache where
  "bio_ex0 = xv6bio_init bio_ex"

lemma fold_init_more: "sdev (fold init_buf ks s) = sdev s \<and> io_fault (fold init_buf ks s) = io_fault s"
  by (induction ks arbitrary: s) (simp_all add: init_buf_def)

lemma bio_ex0_ok: "binv 1 {} {} bio_ex0" "held 1 bio_ex0 = {}" "singles_ok bio_ex0" "b < 32 \<Longrightarrow> on_dev bio_ex0 b"
  "length (bufs bio_ex0) = 4" "dsk bio_ex0 = (\<lambda>b i. of_nat b)"
proof -
  show "binv 1 {} {} bio_ex0" "held 1 bio_ex0 = {}" "length (bufs bio_ex0) = 4" "dsk bio_ex0 = (\<lambda>b i. of_nat b)"
    by (simp_all add: bio_ex0_def bio_init_ok) (simp_all add: bio_ex_def)
  have "sdev bio_ex0 = sdev bio_ex" "io_fault bio_ex0 = io_fault bio_ex"
    unfolding bio_ex0_def xv6bio_init_def by (simp_all add: fold_init_more)
  then show "singles_ok bio_ex0" "b < 32 \<Longrightarrow> on_dev bio_ex0 b"
    by (simp_all add: singles_ok_def on_dev_def bio_ex_def)
qed


theorem fill_cache_transparent_witness:
  "\<exists>t. xv6bio_fill_cache 1 5 3 (\<lambda>k i. of_nat (5 + k)) bio_ex0 = Some t \<and> held 1 t = {}"
proof -
  have "unat (5 + of_nat k :: u32) = 5 + k" if "k < 3" for k :: nat
    using that by (simp add: unat_word_ariths unat_of_nat)
  then show ?thesis
    using fill_cache_transparent [OF bio_ex0_ok(1), of 3 5 "\<lambda>k i. of_nat (5 + k)"] by (auto simp: bio_ex0_ok)
qed

theorem direct_read_coherent_witness:
  "\<exists>m t. xv6bio_read_run 5 3 (\<lambda>_ _. 0) bio_ex0 = (0, m, t) \<and> m 2 = view 1 {} bio_ex0 (5 + of_nat 2)"
proof -
  have nc: "\<not> xv6bio_range_cached 1 5 3 bio_ex0"
  proof -
    have "bhash_find 1 b bio_ex0 = None" for b
    proof -
      have "htab bio_ex0 = (\<lambda>_. [])"
        using init_loop [of 4 "bio_ex\<lparr>lru := [], htab := (\<lambda>_. [])\<rparr>"]
        unfolding bio_ex0_def xv6bio_init_def by (simp add: bio_ex_def)
      then show ?thesis by (simp add: bhash_find_def)
    qed
    then show ?thesis by (simp add: xv6bio_range_cached_def list_ex_iff)
  qed
  have "\<exists>m t. xv6bio_read_run 5 3 (\<lambda>_ _. 0) bio_ex0 = (0, m, t)"
  proof -
    have "sdev bio_ex0 = sdev bio_ex" "io_fault bio_ex0 = io_fault bio_ex"
      unfolding bio_ex0_def xv6bio_init_def by (simp_all add: fold_init_more)
    then show ?thesis by (simp add: xv6bio_read_run_def storage_read_blocks_def bio_ex_def Let_def)
  qed
  then obtain m t where r: "xv6bio_read_run 5 3 (\<lambda>_ _. 0) bio_ex0 = (0, m, t)" by blast
  then show ?thesis using direct_read_coherent [OF nc _ r] by auto
qed

end
