(* ===== verification/Log.thy ===== *)
theory Log
  imports Bio
begin

text \<open>
  The write-ahead log of the file system, \<open>kernel/xv6log.c\<close>. The header in memory is the list \<open>lh\<close>
  of the block numbers \<open>lh.block[0..lh.n)\<close> (entries from \<open>lh.n\<close> on are never read); the header on
  disk is the block \<open>lg_start\<close> with \<open>n\<close> at offset 0 and the numbers from offset 4 on, little-endian.
  The staging buffer \<open>g_stage\<close> is a sequence of blocks, absent when its pages could not be allocated.
  A failed \<open>KASSERT\<close>, an index past the 126 entries of the header and a sleep that only another task
  could end are \<^const>\<open>None\<close>.
\<close>

unbundle bit_operations_syntax

definition XV6FS_LOGBLOCKS :: nat where
  "XV6FS_LOGBLOCKS = 126"

definition XV6LOG_BATCH_MAX :: nat where
  "XV6LOG_BATCH_MAX = XV6FS_LOGBLOCKS"

record xlog = bcache +
  lg_start :: u32
  lg_outstanding :: int
  lg_reserved :: int
  lg_committing :: bool
  lg_dev :: u32
  lh :: "u32 list"
  g_stage :: "(nat \<Rightarrow> block) option"
  g_stage_valid :: bool
  g_commits :: u64
  g_log_blocks :: u64
  g_install_runs :: u64

section \<open>Installing the log at the home locations\<close>

definition count_run :: "'a xlog_scheme \<Rightarrow> 'a xlog_scheme" where
  "count_run s = s\<lparr>g_install_runs := g_install_runs s + 1\<rparr>"

definition stage_block :: "nat \<Rightarrow> 'a xlog_scheme \<Rightarrow> block" where
  "stage_block k s = (case g_stage s of Some m \<Rightarrow> m k | None \<Rightarrow> (\<lambda>_. 0))"

definition unpin_unless :: "bool \<Rightarrow> nat \<Rightarrow> 'a xlog_scheme \<Rightarrow> 'a xlog_scheme" where
  "unpin_unless recovering i s = (if recovering then s else xv6bunpin i s)"

text \<open>The cached copy of the destination of log entry \<open>tail\<close> is updated and released; without the
  staging buffer the log block is read back and the destination is written at once.\<close>

definition install_block :: "u32 list \<Rightarrow> bool \<Rightarrow> bool \<Rightarrow> nat \<Rightarrow> 'a xlog_scheme \<Rightarrow> 'a xlog_scheme option" where
  "install_block xs recovering staged tail s =
     do { (d, s1) \<leftarrow> xv6bread (lg_dev s) (xs ! tail) s;
          s2 \<leftarrow> (if staged then Some (bset d (stage_block tail s1) s1)
                else do { (l, s3) \<leftarrow> xv6bread (lg_dev s1) (lg_start s1 + of_nat tail + 1) s1;
                          Some (xv6brelse l (bset d (b_data (bufs s3 ! l)) s3)) });
          let s4 = (if staged then s2 else xv6bwrite d s2);
          Some (xv6brelse d (unpin_unless recovering d s4)) }"

function extend_run ::
    "u32 list \<Rightarrow> bool \<Rightarrow> nat \<Rightarrow> nat \<Rightarrow> 'a xlog_scheme \<Rightarrow> (nat \<times> 'a xlog_scheme) option" where
  "extend_run xs recovering tail run s =
     (if tail + run < length xs \<and> xs ! (tail + run) = xs ! tail + of_nat run then
        do { (nb, s1) \<leftarrow> xv6bread (lg_dev s) (xs ! (tail + run)) s;
             extend_run xs recovering tail (run + 1)
               (xv6brelse nb (unpin_unless recovering nb (bset nb (stage_block (tail + run) s1) s1))) }
      else Some (run, s))"
  by pat_completeness auto
termination
  by (relation "measure (\<lambda>(xs, recovering, tail, run, s). length xs - (tail + run))") auto

declare extend_run.simps [simp del]

lemma extend_run_ge: "extend_run xs recovering tail run s = Some (r, t) \<Longrightarrow> run \<le> r"
proof (induction xs recovering tail run s arbitrary: r t rule: extend_run.induct)
  case (1 xs recovering tail run s)
  show ?case
  proof (cases "tail + run < length xs \<and> xs ! (tail + run) = xs ! tail + of_nat run")
    case True
    with 1(2) obtain nb s1 where "xv6bread (lg_dev s) (xs ! (tail + run)) s = Some (nb, s1)"
      "extend_run xs recovering tail (run + 1)
        (xv6brelse nb (unpin_unless recovering nb (bset nb (stage_block (tail + run) s1) s1))) = Some (r, t)"
      by (subst (asm) extend_run.simps) (auto simp: bind_eq_Some_conv)
    with 1(1) [OF True this(1) refl] show ?thesis by simp
  next
    case False
    then show ?thesis using 1(2) by (subst (asm) extend_run.simps) auto
  qed
qed

text \<open>When the run cannot be written with one command, its blocks are written one by one.\<close>

fun rewrite_run :: "u32 list \<Rightarrow> nat \<Rightarrow> nat list \<Rightarrow> 'a xlog_scheme \<Rightarrow> 'a xlog_scheme option" where
  "rewrite_run xs tail [] s = Some s"
| "rewrite_run xs tail (k # ks) s =
     do { (rb, s1) \<leftarrow> xv6bread (lg_dev s) (xs ! (tail + k)) s;
          rewrite_run xs tail ks (xv6brelse rb (xv6bwrite rb s1)) }"

definition write_run :: "u32 list \<Rightarrow> nat \<Rightarrow> nat \<Rightarrow> 'a xlog_scheme \<Rightarrow> 'a xlog_scheme option" where
  "write_run xs tail run s =
     (case xv6bio_write_run (xs ! tail) run (\<lambda>k. stage_block (tail + k) s) s of
        (ret, s1) \<Rightarrow> if ret \<noteq> 0 then rewrite_run xs tail [0..<run] s1 else Some s1)"

function install_loop :: "u32 list \<Rightarrow> bool \<Rightarrow> bool \<Rightarrow> nat \<Rightarrow> 'a xlog_scheme \<Rightarrow> 'a xlog_scheme option" where
  "install_loop xs recovering staged tail s =
     (if tail < length xs then
        do { s1 \<leftarrow> install_block xs recovering staged tail s;
             if \<not> staged then install_loop xs recovering staged (tail + 1) (count_run s1)
             else do { (run, s2) \<leftarrow> extend_run xs recovering tail 1 s1;
                       s3 \<leftarrow> write_run xs tail run (count_run s2);
                       install_loop xs recovering staged (tail + run) s3 } }
      else Some s)"
  by pat_completeness auto
termination
  by (relation "measure (\<lambda>(xs, recovering, staged, tail, s). length xs - tail)")
    (auto dest: extend_run_ge)

declare install_loop.simps [simp del]

definition install_trans :: "bool \<Rightarrow> 'a xlog_scheme \<Rightarrow> 'a xlog_scheme option" where
  "install_trans recovering s =
     (case (case g_stage s of
              None \<Rightarrow> (False, s)
            | Some m \<Rightarrow>
                if lh s = [] then (False, s)
                else if \<not> recovering \<and> g_stage_valid s then (True, s)
                else case xv6bio_read_run (lg_start s + 1) (length (lh s)) m s of
                       (ret, m', s1) \<Rightarrow> (ret = 0, s1\<lparr>g_stage := Some m'\<rparr>)) of
        (staged, s2) \<Rightarrow>
          do { s3 \<leftarrow> install_loop (lh s2) recovering staged 0 s2;
               Some (s3\<lparr>g_stage_valid := False\<rparr>) })"

section \<open>The header on disk\<close>

definition head_n :: "block \<Rightarrow> int" where
  "head_n d = sint (rd32 d 0)"

definition head_block :: "block \<Rightarrow> nat \<Rightarrow> u32" where
  "head_block d i = rd32 d (4 + 4 * i)"

definition read_head :: "'a xlog_scheme \<Rightarrow> 'a xlog_scheme option" where
  "read_head s =
     do { (i, s1) \<leftarrow> xv6bread (lg_dev s) (lg_start s) s;
          let d = b_data (bufs s1 ! i);
          if head_n d > int XV6FS_LOGBLOCKS then None
          else Some (xv6brelse i (s1\<lparr>lh := map (head_block d) [0..<nat (head_n d)]\<rparr>)) }"

definition put_head :: "u32 list \<Rightarrow> block \<Rightarrow> block" where
  "put_head xs d = fold (\<lambda>i e. wr32 e (4 + 4 * i) (xs ! i)) [0..<length xs] (wr32 d 0 (of_nat (length xs)))"

definition write_head :: "'a xlog_scheme \<Rightarrow> 'a xlog_scheme option" where
  "write_head s =
     do { (i, s1) \<leftarrow> xv6bread (lg_dev s) (lg_start s) s;
          Some (xv6brelse i (xv6bwrite i (bset i (put_head (lh s1) (b_data (bufs s1 ! i))) s1))) }"

definition recover_from_log :: "'a xlog_scheme \<Rightarrow> 'a xlog_scheme option" where
  "recover_from_log s =
     do { s1 \<leftarrow> read_head s;
          s2 \<leftarrow> install_trans True s1;
          write_head (s2\<lparr>lh := []\<rparr>) }"

definition xv6log_recover :: "'a xlog_scheme \<Rightarrow> 'a xlog_scheme option" where
  "xv6log_recover s = recover_from_log s"

text \<open>\<open>mem\<close> is the result of \<open>pmm_alloc\<close> for the staging buffer.\<close>

definition xv6log_init :: "u32 \<Rightarrow> u32 \<Rightarrow> (nat \<Rightarrow> block) option \<Rightarrow> 'a xlog_scheme \<Rightarrow> 'a xlog_scheme option" where
  "xv6log_init dev logstart mem s =
     (let s1 = s\<lparr>lg_start := logstart, lg_dev := dev, lg_outstanding := 0, lg_reserved := 0,
                 lg_committing := False, lh := [], g_stage_valid := False\<rparr>;
          s2 = (if g_stage s1 = None then s1\<lparr>g_stage := mem\<rparr> else s1)
      in recover_from_log s2)"

section \<open>Commit\<close>

text \<open>\<open>shift_down v k xs\<close> is the inner loop of the insertion sort with \<open>j = k - 1\<close>; block numbers are
  compared as signed integers.\<close>

fun shift_down :: "u32 \<Rightarrow> nat \<Rightarrow> u32 list \<Rightarrow> u32 list" where
  "shift_down v 0 xs = xs[0 := v]"
| "shift_down v (Suc k) xs =
     (if sint (xs ! k) > sint v then shift_down v k (xs[Suc k := xs ! k]) else xs[Suc k := v])"

definition insert_step :: "nat \<Rightarrow> u32 list \<Rightarrow> u32 list" where
  "insert_step i xs = shift_down (xs ! i) i xs"

definition sort_blocks :: "u32 list \<Rightarrow> u32 list" where
  "sort_blocks xs = fold insert_step [1..<length xs] xs"

definition sort_log_blocks :: "'a xlog_scheme \<Rightarrow> 'a xlog_scheme" where
  "sort_log_blocks s = s\<lparr>lh := sort_blocks (lh s)\<rparr>"

definition stage_put :: "nat \<Rightarrow> block \<Rightarrow> 'a xlog_scheme \<Rightarrow> 'a xlog_scheme" where
  "stage_put k d s = s\<lparr>g_stage := map_option (\<lambda>m. m(k := d)) (g_stage s)\<rparr>"

fun gather_loop :: "nat list \<Rightarrow> 'a xlog_scheme \<Rightarrow> 'a xlog_scheme option" where
  "gather_loop [] s = Some s"
| "gather_loop (k # ks) s =
     do { (i, s1) \<leftarrow> xv6bread (lg_dev s) (lh s ! k) s;
          gather_loop ks (xv6brelse i (stage_put k (b_data (bufs s1 ! i)) s1)) }"

definition write_log_block :: "nat \<Rightarrow> 'a xlog_scheme \<Rightarrow> 'a xlog_scheme option" where
  "write_log_block k s =
     do { (to, s1) \<leftarrow> xv6bread (lg_dev s) (lg_start s + of_nat k + 1) s;
          (src, s2) \<leftarrow> xv6bread (lg_dev s1) (lh s1 ! k) s1;
          Some (xv6brelse to (xv6brelse src (xv6bwrite to (bset to (b_data (bufs s2 ! src)) s2)))) }"

fun write_log_loop :: "nat list \<Rightarrow> 'a xlog_scheme \<Rightarrow> 'a xlog_scheme option" where
  "write_log_loop [] s = Some s"
| "write_log_loop (k # ks) s = do { s1 \<leftarrow> write_log_block k s; write_log_loop ks s1 }"

definition write_log :: "'a xlog_scheme \<Rightarrow> 'a xlog_scheme option" where
  "write_log s =
     (if g_stage s \<noteq> None \<and> lh s \<noteq> [] then
        do { s1 \<leftarrow> gather_loop [0..<length (lh s)] s;
             case xv6bio_write_run (lg_start s1 + 1) (length (lh s1)) (\<lambda>k. stage_block k s1) s1 of
               (ret, s2) \<Rightarrow>
                 if ret = 0 then Some (s2\<lparr>g_stage_valid := True\<rparr>)
                 else write_log_loop [0..<length (lh s2)] (s2\<lparr>g_stage_valid := False\<rparr>) }
      else write_log_loop [0..<length (lh s)] s)"

definition commit :: "'a xlog_scheme \<Rightarrow> 'a xlog_scheme option" where
  "commit s =
     (if lh s \<noteq> [] then
        do { s1 \<leftarrow> write_log (sort_log_blocks
                (s\<lparr>g_commits := g_commits s + 1, g_log_blocks := g_log_blocks s + of_nat (length (lh s))\<rparr>));
             s2 \<leftarrow> write_head s1;
             s3 \<leftarrow> install_trans False s2;
             write_head (s3\<lparr>lh := []\<rparr>) }
      else Some s)"

section \<open>Transactions\<close>

definition clamp_need :: "int \<Rightarrow> int" where
  "clamp_need max_blocks =
     (let need = (if max_blocks < 1 then 1 else max_blocks)
      in if need > int XV6FS_LOGBLOCKS then int XV6FS_LOGBLOCKS else need)"

definition log_n :: "'a xlog_scheme \<Rightarrow> int" where
  "log_n s = int (length (lh s))"

definition xv6log_room_hint :: "int option \<Rightarrow> 'a xlog_scheme \<Rightarrow> bool" where
  "xv6log_room_hint arg s =
     (let need = (case arg of Some n \<Rightarrow> n | None \<Rightarrow> int XV6FS_LOGBLOCKS)
      in if lg_committing s then False
         else if lg_outstanding s = 0 \<and> log_n s > 0 then True
         else if log_n s + lg_reserved s + need > int XV6FS_LOGBLOCKS then False
         else log_n s = 0 \<or> log_n s + lg_reserved s + need \<le> int XV6LOG_BATCH_MAX)"

definition can_enter :: "int \<Rightarrow> 'a xlog_scheme \<Rightarrow> bool" where
  "can_enter need s \<longleftrightarrow> \<not> lg_committing s \<and> log_n s + lg_reserved s + need \<le> int XV6FS_LOGBLOCKS \<and>
     (log_n s = 0 \<or> log_n s + lg_reserved s + need \<le> int XV6LOG_BATCH_MAX)"

definition can_commit :: "'a xlog_scheme \<Rightarrow> bool" where
  "can_commit s \<longleftrightarrow> \<not> lg_committing s \<and> lg_outstanding s = 0 \<and> log_n s > 0"

definition run_commit :: "'a xlog_scheme \<Rightarrow> 'a xlog_scheme option" where
  "run_commit s = do { s1 \<leftarrow> commit (s\<lparr>lg_committing := True\<rparr>); Some (s1\<lparr>lg_committing := False\<rparr>) }"

definition xv6log_commit_if_idle :: "'a xlog_scheme \<Rightarrow> 'a xlog_scheme option" where
  "xv6log_commit_if_idle s = (if can_commit s then run_commit s else Some s)"

definition xv6log_flush :: "'a xlog_scheme \<Rightarrow> 'a xlog_scheme option" where
  "xv6log_flush s = xv6log_commit_if_idle s"

partial_function (option) begin_loop :: "int \<Rightarrow> 'a xlog_scheme \<Rightarrow> 'a xlog_scheme option" where
  "begin_loop need s =
     (if can_enter need s then
        Some (s\<lparr>lg_outstanding := lg_outstanding s + 1, lg_reserved := lg_reserved s + need\<rparr>)
      else if can_commit s then do { s1 \<leftarrow> run_commit s; begin_loop need s1 }
      else None)"

definition xv6log_begin_op :: "int \<Rightarrow> 'a xlog_scheme \<Rightarrow> 'a xlog_scheme option" where
  "xv6log_begin_op max_blocks s = begin_loop (clamp_need max_blocks) s"

definition xv6log_end_op :: "int \<Rightarrow> 'a xlog_scheme \<Rightarrow> 'a xlog_scheme option" where
  "xv6log_end_op max_blocks s =
     (let r = lg_reserved s - clamp_need max_blocks;
          s1 = s\<lparr>lg_outstanding := lg_outstanding s - 1, lg_reserved := (if r < 0 then 0 else r)\<rparr>
      in if lg_committing s1 then None else Some s1)"

definition xv6log_write :: "nat \<Rightarrow> 'a xlog_scheme \<Rightarrow> 'a xlog_scheme option" where
  "xv6log_write i s =
     (if \<not> length (lh s) < XV6FS_LOGBLOCKS then None
      else if \<not> lg_outstanding s \<ge> 1 then None
      else if b_blockno (bufs s ! i) \<in> set (lh s) then Some s
      else Some ((xv6bpin i s)\<lparr>lh := lh s @ [b_blockno (bufs s ! i)]\<rparr>))"

text \<open>The numbers the report prints, if any: commits, blocks, blocks per commit, runs, blocks per run.\<close>

definition xv6log_commit_report :: "'a xlog_scheme \<Rightarrow> (u64 \<times> u64 \<times> u64 \<times> u64 \<times> u64) option \<times> 'a xlog_scheme" where
  "xv6log_commit_report s =
     (let c = g_commits s; b = g_log_blocks s; r = g_install_runs s;
          s1 = s\<lparr>g_commits := 0, g_log_blocks := 0, g_install_runs := 0\<rparr>
      in if c = 0 then (None, s1) else (Some (c, b, b div c, r, if r \<noteq> 0 then b div r else 0), s1))"

section \<open>Encoding of the header\<close>

lemma head_cong:
  assumes "\<And>i. i < 512 \<Longrightarrow> d i = e i"
  shows "head_n d = head_n e" "k < 126 \<Longrightarrow> head_block d k = head_block e k"
proof -
  have "rd32 d 0 = rd32 e 0" by (rule rd32_cong, rule assms) simp
  then show "head_n d = head_n e" by (simp add: head_n_def)
  show "head_block d k = head_block e k" if "k < 126"
    unfolding head_block_def by (rule rd32_cong, rule assms) (use that in simp)
qed

lemma put_head_loop:
  "rd32 (fold (\<lambda>i e. wr32 e (4 + 4 * i) (xs ! i)) [0..<n] d) 0 = rd32 d 0 \<and>
   (\<forall>k < n. rd32 (fold (\<lambda>i e. wr32 e (4 + 4 * i) (xs ! i)) [0..<n] d) (4 + 4 * k) = xs ! k)"
  by (induction n) (auto simp: rd32_wr32_other less_Suc_eq)

lemma head_n_put: "length xs < 2 ^ 31 \<Longrightarrow> head_n (put_head xs d) = int (length xs)"
  using put_head_loop [of xs "length xs" "wr32 d 0 (of_nat (length xs))"]
  by (simp add: head_n_def put_head_def signed_of_nat signed_take_bit_int_eq_self)

lemma head_block_put: "k < length xs \<Longrightarrow> head_block (put_head xs d) k = xs ! k"
  using put_head_loop [of xs "length xs" "wr32 d 0 (of_nat (length xs))"]
  by (simp add: head_block_def put_head_def)

lemma head_blocks_put: "map (head_block (put_head xs d)) [0..<length xs] = xs"
  by (rule nth_equalityI) (simp_all add: head_block_put)

section \<open>Sorting the log\<close>

definition block_le :: "u32 \<Rightarrow> u32 \<Rightarrow> bool" where
  "block_le a b \<longleftrightarrow> sint a \<le> sint b"

lemma shift_down_spec:
  assumes "k < length xs" and "sorted_wrt block_le (take k xs)"
  shows "length (shift_down v k xs) = length xs \<and> drop (Suc k) (shift_down v k xs) = drop (Suc k) xs \<and>
    mset (take (Suc k) (shift_down v k xs)) = add_mset v (mset (take k xs)) \<and>
    sorted_wrt block_le (take (Suc k) (shift_down v k xs))"
  using assms
proof (induction v k xs rule: shift_down.induct)
  case (1 v xs)
  then show ?case by (cases xs) simp_all
next
  case (2 v k xs)
  have k: "k < length xs" using 2(2) by simp
  have tk: "take (Suc k) xs = take k xs @ [xs ! k]" using k by (rule take_Suc_conv_app_nth)
  then have srt: "sorted_wrt block_le (take k xs)" "\<forall>x \<in> set (take k xs). block_le x (xs ! k)"
    using 2(3) by (simp_all add: sorted_wrt_append)
  show ?case
  proof (cases "sint (xs ! k) > sint v")
    case True
    let ?ys = "xs[Suc k := xs ! k]"
    let ?r = "shift_down v k ?ys"
    have t: "take k ?ys = take k xs" by simp
    have "length ?r = length ?ys \<and> drop (Suc k) ?r = drop (Suc k) ?ys \<and>
      mset (take (Suc k) ?r) = add_mset v (mset (take k ?ys)) \<and> sorted_wrt block_le (take (Suc k) ?r)"
      by (rule 2(1) [OF True]) (use k srt t in simp_all)
    then have r: "length ?r = length xs" "drop (Suc k) ?r = drop (Suc k) ?ys"
      "mset (take (Suc k) ?r) = add_mset v (mset (take k xs))" "sorted_wrt block_le (take (Suc k) ?r)"
      unfolding t by simp_all
    have at: "?r ! Suc k = xs ! k" 
    proof -
      have "drop (Suc k) ?r ! 0 = drop (Suc k) ?ys ! 0" using r(2) by simp
      then show ?thesis using r(1) 2(2) by simp
    qed
    have d: "drop (Suc (Suc k)) ?r = drop (Suc (Suc k)) xs"
    proof -
      have "tl (drop (Suc k) ?r) = tl (drop (Suc k) ?ys)" using r(2) by simp
      then show ?thesis by (simp add: tl_drop drop_Suc [symmetric])
    qed
    have tt: "take (Suc (Suc k)) ?r = take (Suc k) ?r @ [xs ! k]"
      using take_Suc_conv_app_nth [of "Suc k" ?r] r(1) 2(2) at by simp
    have "\<forall>x \<in> set (take (Suc k) ?r). block_le x (xs ! k)"
    proof -
      have "set (take (Suc k) ?r) = insert v (set (take k xs))" using r(3) by (metis set_mset_add_mset_insert set_mset_mset)
      then show ?thesis using srt(2) True by (auto simp: block_le_def)
    qed
    then show ?thesis using True r d by (simp add: tt tk sorted_wrt_append)
  next
    case False
    have "take (Suc (Suc k)) (xs[Suc k := v]) = take (Suc k) xs @ [v]"
      using take_Suc_conv_app_nth [of "Suc k" "xs[Suc k := v]"] 2(2) by simp
    moreover have "block_le x v" if "x \<in> set (take (Suc k) xs)" for x
      using that srt(2) False unfolding tk block_le_def by auto
    ultimately show ?thesis using False 2(3) by (simp add: sorted_wrt_append)
  qed
qed

lemma insert_step_spec:
  assumes "k < length xs" and "sorted_wrt block_le (take k xs)"
  shows "mset (insert_step k xs) = mset xs" "sorted_wrt block_le (take (Suc k) (insert_step k xs))"
proof -
  let ?r = "insert_step k xs"
  have s: "drop (Suc k) ?r = drop (Suc k) xs" "mset (take (Suc k) ?r) = add_mset (xs ! k) (mset (take k xs))"
    "sorted_wrt block_le (take (Suc k) ?r)"
    using shift_down_spec [OF assms, of "xs ! k"] by (simp_all add: insert_step_def)
  have split: "mset l = mset (take (Suc k) l) + mset (drop (Suc k) l)" for l :: "u32 list"
    by (metis append_take_drop_id mset_append)
  have "mset ?r = mset (take (Suc k) xs) + mset (drop (Suc k) xs)"
    unfolding split [of ?r] s(1,2) take_Suc_conv_app_nth [OF assms(1)] by simp
  then show "mset ?r = mset xs" using split [of xs] by simp
  show "sorted_wrt block_le (take (Suc k) ?r)" by (rule s(3))
qed

lemma sort_loop:
  "k \<le> length xs \<Longrightarrow> 1 \<le> k \<Longrightarrow>
    mset (fold insert_step [1..<k] xs) = mset xs \<and> sorted_wrt block_le (take k (fold insert_step [1..<k] xs))"
proof (induction k)
  case (Suc k)
  show ?case
  proof (cases "k = 0")
    case True
    then show ?thesis using Suc.prems by (cases xs) simp_all
  next
    case False
    define ys where "ys = fold insert_step [1..<k] xs"
    have IH: "mset ys = mset xs" "sorted_wrt block_le (take k ys)" using Suc False by (simp_all add: ys_def)
    then have "length ys = length xs" by (metis size_mset)
    then have "k < length ys" using Suc.prems by simp
    moreover have "fold insert_step [1..<Suc k] xs = insert_step k ys" using False by (simp add: ys_def)
    ultimately show ?thesis using insert_step_spec [OF _ IH(2)] IH(1) by simp
  qed
qed simp

lemma sort_blocks_spec: "mset (sort_blocks xs) = mset xs \<and> sorted_wrt block_le (sort_blocks xs)"
proof (cases "xs = []")
  case False
  then have "1 \<le> length xs" by (cases xs) simp_all
  from sort_loop [OF order_refl this]
  have a: "mset (sort_blocks xs) = mset xs" "sorted_wrt block_le (take (length xs) (sort_blocks xs))"
    by (simp_all add: sort_blocks_def)
  moreover have "length (sort_blocks xs) = length xs" using a(1) by (metis size_mset)
  ultimately show ?thesis by simp
qed (simp add: sort_blocks_def)

text \<open>C39. \<open>sort_log_blocks\<close> sorts: the header keeps exactly its block numbers, in ascending order of
  their signed value.\<close>

theorem sort_log_blocks_correct:
  "mset (lh (sort_log_blocks s)) = mset (lh s) \<and> sorted_wrt block_le (lh (sort_log_blocks s))"
  by (simp add: sort_log_blocks_def sort_blocks_spec)

end
