(* ===== verification/LogCommit.thy ===== *)
theory LogCommit
  imports Log
begin

text \<open>
  What the steps of a commit and of a recovery do to the cache and to the disk: functional
  specifications of the loops of \<open>kernel/xv6log.c\<close>, each together with the set of disk states a crash
  can leave behind.
\<close>

section \<open>Frames\<close>

text \<open>The log area after the header, and the blocks that can be logged.\<close>

definition log_data :: "'a xlog_scheme \<Rightarrow> u32 set" where
  "log_data s = (\<lambda>k. lg_start s + of_nat k + 1) ` {..<126}"

definition home :: "'a xlog_scheme \<Rightarrow> u32 \<Rightarrow> bool" where
  "home s b \<longleftrightarrow> unat b < 2 ^ 31 \<and> on_dev s (unat b) \<and>
     (unat b < unat (lg_start s) \<or> unat (lg_start s) + 126 < unat b)"

definition wf_log :: "'a xlog_scheme \<Rightarrow> bool" where
  "wf_log s \<longleftrightarrow> unat (lg_start s) + 126 < 2 ^ 31 \<and> singles_ok s \<and>
     (\<forall>k \<le> 126. on_dev s (unat (lg_start s) + k)) \<and> 130 < length (bufs s)"

definition lkept :: "'a xlog_scheme \<Rightarrow> 'a xlog_scheme \<Rightarrow> bool" where
  "lkept s t \<longleftrightarrow> lg_start t = lg_start s \<and> lg_dev t = lg_dev s \<and> lh t = lh s \<and>
     lg_outstanding t = lg_outstanding s \<and> lg_reserved t = lg_reserved s \<and> lg_committing t = lg_committing s \<and>
     sdev t = sdev s \<and> io_fault t = io_fault s \<and> length (bufs t) = length (bufs s) \<and> xlog.more t = xlog.more s"

definition same_stage :: "'a xlog_scheme \<Rightarrow> 'a xlog_scheme \<Rightarrow> bool" where
  "same_stage s t \<longleftrightarrow> g_stage t = g_stage s \<and> g_stage_valid t = g_stage_valid s"

lemma lkept_refl [simp]: "lkept s s" and same_stage_refl [simp]: "same_stage s s"
  by (simp_all add: lkept_def same_stage_def)

lemma lkept_trans [trans]: "lkept s t \<Longrightarrow> lkept t u \<Longrightarrow> lkept s u"
  by (simp add: lkept_def)

lemma same_stage_trans [trans]: "same_stage s t \<Longrightarrow> same_stage t u \<Longrightarrow> same_stage s u"
  by (simp add: same_stage_def)

lemma same_stage_block: "same_stage s t \<Longrightarrow> stage_block k t = stage_block k s"
  by (simp add: same_stage_def stage_block_def)

lemma only_cache_log:
  assumes "only_cache s (t :: 'a xlog_scheme)"
  shows "lkept s t" "same_stage s t"
proof -
  have t: "t = s\<lparr>bufs := bufs t, lru := lru t, htab := htab t, io_seq := io_seq t\<rparr>"
    using assms by (simp add: only_cache_def)
  have "lg_start t = lg_start s" "lg_dev t = lg_dev s" "lh t = lh s" "xlog.more t = xlog.more s"
     "lg_outstanding t = lg_outstanding s" "lg_reserved t = lg_reserved s" "lg_committing t = lg_committing s"
    by (subst t, simp)+
  then show "lkept s t" using only_cacheD [OF assms] by (simp add: lkept_def)
  have "g_stage t = g_stage s" "g_stage_valid t = g_stage_valid s" by (subst t, simp)+
  then show "same_stage s t" by (simp add: same_stage_def)
qed

text \<open>The cache does not see the fields of the log.\<close>

lemma log_fields_simps [simp]:
  fixes s :: "'a xlog_scheme"
  shows
  "bhash_find D b (s\<lparr>lg_start := v_lg_start\<rparr>) = bhash_find D b s" "binv D X P (s\<lparr>lg_start := v_lg_start\<rparr>) = binv D X P s"
  "view D X (s\<lparr>lg_start := v_lg_start\<rparr>) = view D X s" "held D (s\<lparr>lg_start := v_lg_start\<rparr>) = held D s" "bptr D (s\<lparr>lg_start := v_lg_start\<rparr>) = bptr D s"
  "bhash_find D b (s\<lparr>lg_outstanding := v_lg_outstanding\<rparr>) = bhash_find D b s" "binv D X P (s\<lparr>lg_outstanding := v_lg_outstanding\<rparr>) = binv D X P s"
  "view D X (s\<lparr>lg_outstanding := v_lg_outstanding\<rparr>) = view D X s" "held D (s\<lparr>lg_outstanding := v_lg_outstanding\<rparr>) = held D s" "bptr D (s\<lparr>lg_outstanding := v_lg_outstanding\<rparr>) = bptr D s"
  "bhash_find D b (s\<lparr>lg_reserved := v_lg_reserved\<rparr>) = bhash_find D b s" "binv D X P (s\<lparr>lg_reserved := v_lg_reserved\<rparr>) = binv D X P s"
  "view D X (s\<lparr>lg_reserved := v_lg_reserved\<rparr>) = view D X s" "held D (s\<lparr>lg_reserved := v_lg_reserved\<rparr>) = held D s" "bptr D (s\<lparr>lg_reserved := v_lg_reserved\<rparr>) = bptr D s"
  "bhash_find D b (s\<lparr>lg_committing := v_lg_committing\<rparr>) = bhash_find D b s" "binv D X P (s\<lparr>lg_committing := v_lg_committing\<rparr>) = binv D X P s"
  "view D X (s\<lparr>lg_committing := v_lg_committing\<rparr>) = view D X s" "held D (s\<lparr>lg_committing := v_lg_committing\<rparr>) = held D s" "bptr D (s\<lparr>lg_committing := v_lg_committing\<rparr>) = bptr D s"
  "bhash_find D b (s\<lparr>lh := v_lh\<rparr>) = bhash_find D b s" "binv D X P (s\<lparr>lh := v_lh\<rparr>) = binv D X P s"
  "view D X (s\<lparr>lh := v_lh\<rparr>) = view D X s" "held D (s\<lparr>lh := v_lh\<rparr>) = held D s" "bptr D (s\<lparr>lh := v_lh\<rparr>) = bptr D s"
  "bhash_find D b (s\<lparr>g_stage := v_g_stage\<rparr>) = bhash_find D b s" "binv D X P (s\<lparr>g_stage := v_g_stage\<rparr>) = binv D X P s"
  "view D X (s\<lparr>g_stage := v_g_stage\<rparr>) = view D X s" "held D (s\<lparr>g_stage := v_g_stage\<rparr>) = held D s" "bptr D (s\<lparr>g_stage := v_g_stage\<rparr>) = bptr D s"
  "bhash_find D b (s\<lparr>g_stage_valid := v_g_stage_valid\<rparr>) = bhash_find D b s" "binv D X P (s\<lparr>g_stage_valid := v_g_stage_valid\<rparr>) = binv D X P s"
  "view D X (s\<lparr>g_stage_valid := v_g_stage_valid\<rparr>) = view D X s" "held D (s\<lparr>g_stage_valid := v_g_stage_valid\<rparr>) = held D s" "bptr D (s\<lparr>g_stage_valid := v_g_stage_valid\<rparr>) = bptr D s"
  "bhash_find D b (s\<lparr>g_commits := v_g_commits\<rparr>) = bhash_find D b s" "binv D X P (s\<lparr>g_commits := v_g_commits\<rparr>) = binv D X P s"
  "view D X (s\<lparr>g_commits := v_g_commits\<rparr>) = view D X s" "held D (s\<lparr>g_commits := v_g_commits\<rparr>) = held D s" "bptr D (s\<lparr>g_commits := v_g_commits\<rparr>) = bptr D s"
  "bhash_find D b (s\<lparr>g_log_blocks := v_g_log_blocks\<rparr>) = bhash_find D b s" "binv D X P (s\<lparr>g_log_blocks := v_g_log_blocks\<rparr>) = binv D X P s"
  "view D X (s\<lparr>g_log_blocks := v_g_log_blocks\<rparr>) = view D X s" "held D (s\<lparr>g_log_blocks := v_g_log_blocks\<rparr>) = held D s" "bptr D (s\<lparr>g_log_blocks := v_g_log_blocks\<rparr>) = bptr D s"
  "bhash_find D b (s\<lparr>g_install_runs := v_g_install_runs\<rparr>) = bhash_find D b s" "binv D X P (s\<lparr>g_install_runs := v_g_install_runs\<rparr>) = binv D X P s"
  "view D X (s\<lparr>g_install_runs := v_g_install_runs\<rparr>) = view D X s" "held D (s\<lparr>g_install_runs := v_g_install_runs\<rparr>) = held D s" "bptr D (s\<lparr>g_install_runs := v_g_install_runs\<rparr>) = bptr D s"
  by (rule find_cong binv_cong view_cong held_cong bptr_cong; simp)+

lemma lkept_wf: "lkept s t \<Longrightarrow> wf_log t = wf_log s" and lkept_home: "lkept s t \<Longrightarrow> home t = home s"
  and lkept_data: "lkept s t \<Longrightarrow> log_data t = log_data s" and lkept_dev: "lkept s t \<Longrightarrow> on_dev t = on_dev s"
  by (simp_all add: lkept_def wf_log_def home_def log_data_def singles_ok_def on_dev_def fun_eq_iff)

text \<open>Nothing locked, room in the cache.\<close>

definition quiet :: "u32 set \<Rightarrow> u32 set \<Rightarrow> 'a xlog_scheme \<Rightarrow> bool" where
  "quiet X P s \<longleftrightarrow> binv (lg_dev s) X P s \<and> held (lg_dev s) s = {} \<and> wf_log s \<and> card P \<le> 126"

text \<open>The cached copy of a block, if there is one, or in any case.\<close>

definition cval :: "'a xlog_scheme \<Rightarrow> u32 \<Rightarrow> block \<Rightarrow> bool" where
  "cval s b x \<longleftrightarrow> (\<forall>i. bhash_find (lg_dev s) b s = Some i \<longrightarrow> b_valid (bufs s ! i) \<longrightarrow> b_data (bufs s ! i) = x)"

definition chas :: "'a xlog_scheme \<Rightarrow> u32 \<Rightarrow> block \<Rightarrow> bool" where
  "chas s b x \<longleftrightarrow> (\<exists>i. bhash_find (lg_dev s) b s = Some i \<and> b_valid (bufs s ! i) \<and> b_data (bufs s ! i) = x)"

lemma chas_cval: "chas s b x \<Longrightarrow> cval s b x"
  by (auto simp: chas_def cval_def)

lemma chas_view: "chas s b x \<Longrightarrow> view (lg_dev s) {} s b = x"
  by (auto simp: chas_def view_def)

lemma cval_kept:
  "others_kept (lg_dev s) b s t \<Longrightarrow> lg_dev t = lg_dev s \<Longrightarrow> c \<noteq> b \<Longrightarrow> cval s c y \<Longrightarrow> cval t c y"
  unfolding cval_def by (metis others_keptD1)

lemma chas_kept:
  assumes "others_kept (lg_dev s) b s t" "lg_dev t = lg_dev s" "c \<noteq> b"
    "bhash_find (lg_dev s) c t = bhash_find (lg_dev s) c s" "chas s c y"
  shows "chas t c y"
  using assms unfolding chas_def by (metis others_keptD1)

lemma quiet_bread:
  assumes "quiet X P s" and "on_dev s (unat b)"
  obtains i t where "xv6bread (lg_dev s) b s = Some (i, t)" "binv (lg_dev s) X P t" "bptr (lg_dev s) t i b"
    "b_data (bufs t ! i) = view (lg_dev s) {} s b" "held (lg_dev s) t = {b}" "view (lg_dev s) X t = view (lg_dev s) X s"
    "only_cache s t" "others_kept (lg_dev s) b s t" "lkept s t" "same_stage s t"
proof -
  have q: "binv (lg_dev s) X P s" "b \<notin> held (lg_dev s) s" "card (held (lg_dev s) s) + card P < length (bufs s)" "singles_ok s"
    using assms(1) by (auto simp: quiet_def wf_log_def)
  from bread_ok [OF q assms(2)] obtain i t where r: "xv6bread (lg_dev s) b s = Some (i, t)"
    "binv (lg_dev s) X P t" "bptr (lg_dev s) t i b" "b_data (bufs t ! i) = view (lg_dev s) {} s b"
    "held (lg_dev s) t = insert b (held (lg_dev s) s)" "view (lg_dev s) X t = view (lg_dev s) X s"
    "only_cache s t" "others_kept (lg_dev s) b s t"
    by (auto simp: ok_def)
  then show thesis using that only_cache_log [OF r(7)] assms(1) by (simp add: quiet_def)
qed

section \<open>Updating the cached copy of a destination\<close>

definition touch :: "bool \<Rightarrow> u32 \<Rightarrow> nat \<Rightarrow> 'a xlog_scheme \<Rightarrow> 'a xlog_scheme option" where
  "touch recovering b k s =
     do { (d, s1) \<leftarrow> xv6bread (lg_dev s) b s;
          Some (xv6brelse d (unpin_unless recovering d (bset d (stage_block k s1) s1))) }"

lemma install_block_staged: "install_block xs recovering True tail s = touch recovering (xs ! tail) tail s"
  by (simp add: install_block_def touch_def)

definition touched :: "bool \<Rightarrow> u32 set \<Rightarrow> u32 set \<Rightarrow> u32 \<Rightarrow> block \<Rightarrow> 'a xlog_scheme \<Rightarrow> 'a xlog_scheme \<Rightarrow> bool" where
  "touched recovering X P b x s t \<longleftrightarrow>
     quiet (insert b X) (if recovering then P else P - {b}) t \<and> only_cache s t \<and> cval t b x \<and>
     (\<forall>c y. c \<noteq> b \<longrightarrow> cval s c y \<longrightarrow> cval t c y) \<and>
     (\<not> recovering \<longrightarrow> chas t b x \<and> (\<forall>c y. c \<noteq> b \<longrightarrow> chas s c y \<longrightarrow> chas t c y))"

lemma touch_ok:
  assumes "quiet X P s" and "on_dev s (unat b)" and "\<not> recovering \<Longrightarrow> b \<in> P"
  shows "ok (touch recovering b k s) (touched recovering X P b (stage_block k s) s)"
proof -
  let ?D = "lg_dev s" and ?x = "stage_block k s"
  from quiet_bread [OF assms(1,2)] obtain i s1 where r: "xv6bread ?D b s = Some (i, s1)"
    and s1: "binv ?D X P s1" "bptr ?D s1 i b" "held ?D s1 = {b}" "only_cache s s1" "others_kept ?D b s s1"
      "same_stage s s1" by metis
  have x: "stage_block k s1 = ?x" using s1(6) by (simp add: stage_block_def same_stage_def)
  note b = bset_ok [OF s1(1,2), where d = ?x]
  define s2 where "s2 = bset i ?x s1"
  note b = b [folded s2_def]
  have p2: "bptr ?D s2 i b" using b(3) s1(2) by simp
  define P' where "P' = (if recovering then P else P - {b})"
  define s3 where "s3 = unpin_unless recovering i s2"
  have s3: "binv ?D X P' s3" "held ?D s3 = held ?D s2" "bptr ?D s3 = bptr ?D s2" "only_cache s2 s3"
      "others_kept ?D b s2 s3" "b_data (bufs s3 ! i) = b_data (bufs s2 ! i)" "bhash_find ?D c s3 = bhash_find ?D c s2" for c
    using b(1) bunpin_ok [OF b(1) p2] assms(3)
    by (cases recovering; simp add: s3_def unpin_unless_def P'_def others_kept_def)+
  have p3: "bptr ?D s3 i b" using s3(3) p2 by simp
  have i3: "binv ?D (insert b X) P' s3" by (rule binv_mono [OF s3(1)]) blast
  define t where "t = xv6brelse i s3"
  note e = brelse_ok [OF i3 p3 disjI2 [OF disjI1 [OF insertI1]], folded t_def]
  have oc: "only_cache s t"
    using only_cache_trans [OF only_cache_trans [OF only_cache_trans [OF s1(4) b(5)] s3(4)] e(4)] by simp
  have lk: "lkept s t" using oc by (rule only_cache_log)
  then have dev: "lg_dev t = ?D" by (simp add: lkept_def)
  have ok12: "others_kept ?D b s s2" by (rule others_kept_trans [OF s1(1) s1(5) b(6)])
  have ok13: "others_kept ?D b s s3" by (rule others_kept_trans [OF b(1) ok12 s3(5)])
  have okt: "others_kept ?D b s t" by (rule others_kept_trans [OF s3(1) ok13 e(5)])
  have bt: "bhash_find ?D b t = Some i" "b_valid (bufs t ! i)" "b_data (bufs t ! i) = ?x"
    using e(6) [of b] e(7,8) p3 s3(6) b(7) by (simp_all add: bptr_def)
  have "card P' \<le> 126" using assms(1) by (auto simp: P'_def quiet_def intro: le_trans [OF card_Diff1_le])
  then have "quiet (insert b X) P' t"
    using e(1,2) s3(2) b(2) s1(3) assms(1) dev lkept_wf [OF lk] by (simp add: quiet_def)
  moreover have "chas t c y" if nr: "\<not> recovering" and cb: "c \<noteq> b" and cs: "chas s c y" for c y
  proof (rule chas_kept [OF okt dev cb _ cs])
    have q: "binv ?D X P s" "b \<notin> held ?D s" using assms(1) by (simp_all add: quiet_def)
    obtain j where j: "bhash_find ?D b s = Some j" "b_valid (bufs s ! j)"
      using pinned_cached [OF q(1) assms(3) [OF nr]] by blast
    show "bhash_find ?D c t = bhash_find ?D c s"
      using bread_hit_find(2) [OF q j r] e(6) [of c] s3(7) [of c] b(8) [of c] by simp
  qed
  ultimately show ?thesis
    using r bt cval_kept [OF okt dev] oc
    by (auto simp: touch_def touched_def x s2_def [symmetric] s3_def [symmetric] t_def [symmetric] P'_def [symmetric]
        cval_def chas_def dev)
qed

section \<open>A run of consecutive destinations\<close>

definition wf_blocks :: "'a xlog_scheme \<Rightarrow> u32 list \<Rightarrow> bool" where
  "wf_blocks s xs \<longleftrightarrow> distinct xs \<and> length xs \<le> 126 \<and> (\<forall>b \<in> set xs. home s b)"

lemma wf_blocks_kept: "lkept s t \<Longrightarrow> wf_blocks t xs = wf_blocks s xs"
  by (simp add: wf_blocks_def lkept_home)

lemma wf_blocks_nth: "wf_blocks s xs \<Longrightarrow> k < length xs \<Longrightarrow> home s (xs ! k) \<and> on_dev s (unat (xs ! k))"
  by (simp add: wf_blocks_def home_def)

definition pins :: "bool \<Rightarrow> u32 list \<Rightarrow> nat \<Rightarrow> u32 set" where
  "pins recovering xs t = (if recovering then {} else set (drop t xs))"

lemma pins_Suc:
  assumes "distinct xs" and "t < length xs"
  shows "pins recovering xs (Suc t) = (if recovering then pins recovering xs t else pins recovering xs t - {xs ! t})"
    and "\<not> recovering \<Longrightarrow> xs ! t \<in> pins recovering xs t"
proof -
  have d: "drop t xs = xs ! t # drop (Suc t) xs" by (rule Cons_nth_drop_Suc [OF assms(2), symmetric])
  have "distinct (drop t xs)" using assms(1) by simp
  then have "xs ! t \<notin> set (drop (Suc t) xs)" unfolding d by simp
  then show "pins recovering xs (Suc t) = (if recovering then pins recovering xs t else pins recovering xs t - {xs ! t})"
    and "\<not> recovering \<Longrightarrow> xs ! t \<in> pins recovering xs t"
    unfolding pins_def d by auto
qed

text \<open>\<open>L k\<close> is the contents logged for entry \<open>k\<close>. The first \<open>r\<close> destinations from \<open>tail\<close> on are
  updated in the cache and not yet on disk.\<close>

definition run_state :: "bool \<Rightarrow> u32 set \<Rightarrow> u32 list \<Rightarrow> (nat \<Rightarrow> block) \<Rightarrow> nat \<Rightarrow> nat \<Rightarrow> 'a xlog_scheme \<Rightarrow> bool" where
  "run_state recovering X xs L tail r s \<longleftrightarrow>
     quiet (X \<union> (\<lambda>k. xs ! (tail + k)) ` {..<r}) (pins recovering xs (tail + r)) s \<and>
     (\<forall>k < r. cval s (xs ! (tail + k)) (L (tail + k))) \<and>
     (\<not> recovering \<longrightarrow> (\<forall>k < r. chas s (xs ! (tail + k)) (L (tail + k))))"

lemma run_step:
  assumes "run_state recovering X xs L tail r s" and "wf_blocks s xs" and "tail + r < length xs"
    and "stage_block (tail + r) s = L (tail + r)"
  shows "ok (touch recovering (xs ! (tail + r)) (tail + r) s)
    (\<lambda>t. run_state recovering X xs L tail (Suc r) t \<and> only_cache s t)"
proof -
  let ?b = "xs ! (tail + r)" and ?P = "pins recovering xs (tail + r)"
  have d: "distinct xs" using assms(2) by (simp add: wf_blocks_def)
  have "ok (touch recovering ?b (tail + r) s)
      (touched recovering (X \<union> (\<lambda>k. xs ! (tail + k)) ` {..<r}) ?P ?b (stage_block (tail + r) s) s)"
    by (rule touch_ok) (use assms(1) wf_blocks_nth [OF assms(2,3)] pins_Suc(2) [OF d assms(3)] in \<open>simp_all add: run_state_def\<close>)
  then show ?thesis
  proof (rule ok_conseq)
    fix t assume "touched recovering (X \<union> (\<lambda>k. xs ! (tail + k)) ` {..<r}) ?P ?b (stage_block (tail + r) s) s t"
    then have t: "quiet (insert ?b (X \<union> (\<lambda>k. xs ! (tail + k)) ` {..<r})) (if recovering then ?P else ?P - {?b}) t"
      "only_cache s t" "cval t ?b (L (tail + r))" "\<And>c y. c \<noteq> ?b \<Longrightarrow> cval s c y \<Longrightarrow> cval t c y"
      "\<not> recovering \<Longrightarrow> chas t ?b (L (tail + r))" "\<And>c y. \<not> recovering \<Longrightarrow> c \<noteq> ?b \<Longrightarrow> chas s c y \<Longrightarrow> chas t c y"
      using assms(4) by (auto simp: touched_def)
    have ne: "xs ! (tail + k) \<noteq> ?b" if "k < r" for k
      using that d assms(3) by (simp add: nth_eq_iff_index_eq)
    have "quiet (X \<union> (\<lambda>k. xs ! (tail + k)) ` {..<Suc r}) (pins recovering xs (tail + Suc r)) t"
      using t(1) pins_Suc(1) [OF d assms(3), of recovering] by (simp add: lessThan_Suc)
    moreover have "cval t (xs ! (tail + k)) (L (tail + k))" if "k < Suc r" for k
      using that t(3,4) ne assms(1) by (cases "k = r") (simp_all add: run_state_def)
    moreover have "chas t (xs ! (tail + k)) (L (tail + k))" if "k < Suc r" "\<not> recovering" for k
      using that t(5,6) ne assms(1) by (cases "k = r") (simp_all add: run_state_def)
    ultimately show "run_state recovering X xs L tail (Suc r) t \<and> only_cache s t"
      using t(2) by (simp add: run_state_def)
  qed
qed

lemma extend_run_step:
  "extend_run xs recovering tail run s =
     (if tail + run < length xs \<and> xs ! (tail + run) = xs ! tail + of_nat run
      then do { s1 \<leftarrow> touch recovering (xs ! (tail + run)) (tail + run) s; extend_run xs recovering tail (run + 1) s1 }
      else Some (run, s))"
  by (subst extend_run.simps) (simp add: touch_def case_prod_unfold)

lemma extend_run_ok:
  assumes "run_state recovering X xs L tail run s" and "wf_blocks s xs" and "tail + run \<le> length xs"
    and "\<forall>k < length xs. stage_block k s = L k" and "\<forall>k < run. xs ! (tail + k) = xs ! tail + of_nat k"
  shows "ok (extend_run xs recovering tail run s) (\<lambda>(r, t). run_state recovering X xs L tail r t \<and> only_cache s t \<and>
    run \<le> r \<and> tail + r \<le> length xs \<and> (\<forall>k < r. xs ! (tail + k) = xs ! tail + of_nat k))"
  using assms
proof (induction "length xs - (tail + run)" arbitrary: run s)
  case 0
  then have "\<not> tail + run < length xs" by simp
  then show ?case using 0 by (subst extend_run_step) simp
next
  case (Suc m)
  show ?case
  proof (cases "tail + run < length xs \<and> xs ! (tail + run) = xs ! tail + of_nat run")
    case True
    have st: "ok (touch recovering (xs ! (tail + run)) (tail + run) s)
        (\<lambda>t. run_state recovering X xs L tail (Suc run) t \<and> only_cache s t)"
      by (rule run_step) (use Suc.prems True in auto)
    have "ok (extend_run xs recovering tail (run + 1) t) (\<lambda>(r, u). run_state recovering X xs L tail r u \<and> only_cache s u \<and>
        run \<le> r \<and> tail + r \<le> length xs \<and> (\<forall>k < r. xs ! (tail + k) = xs ! tail + of_nat k))"
      if t: "run_state recovering X xs L tail (Suc run) t" "only_cache s t" for t
    proof -
      note lk = only_cache_log [OF t(2)]
      have "ok (extend_run xs recovering tail (Suc run) t) (\<lambda>(r, u). run_state recovering X xs L tail r u \<and> only_cache t u \<and>
        Suc run \<le> r \<and> tail + r \<le> length xs \<and> (\<forall>k < r. xs ! (tail + k) = xs ! tail + of_nat k))"
        by (rule Suc.hyps(1))
          (use Suc.hyps(2) Suc.prems True t wf_blocks_kept [OF lk(1)] lk(2)
            in \<open>auto simp: same_stage_def stage_block_def less_Suc_eq\<close>)
      then show ?thesis
        by simp (erule ok_conseq, use only_cache_trans [OF t(2)] in auto)
    qed
    then show ?thesis using True st by (subst extend_run_step) (auto elim: ok_conseq)
  next
    case False
    then show ?thesis using Suc.prems by (subst extend_run_step) auto
  qed
qed

section \<open>Writing a run\<close>

text \<open>A result of writing destinations: which blocks now hold what, that only they were written, and the
  frame.\<close>

definition wrote :: "nat set \<Rightarrow> u32 set \<Rightarrow> (u32 \<times> block) set \<Rightarrow> 'a xlog_scheme \<Rightarrow> 'a xlog_scheme \<Rightarrow> bool" where
  "wrote A B W s t \<longleftrightarrow> within (only_blocks A (dsk s)) s t \<and> lkept s t \<and> same_stage s t \<and>
     (\<forall>(b, x) \<in> W. dsk t (unat b) = x) \<and> (\<forall>c. c \<notin> unat ` B \<longrightarrow> dsk t c = dsk s c)"

lemma wrote_cache: "only_cache s t \<Longrightarrow> wrote A {} {} s t"
  by (simp add: wrote_def only_cache_log only_cacheD within_refl)

lemma wrote_trans:
  assumes "wrote A B W s t" and "wrote A C V t u" and "\<And>b x. (b, x) \<in> W \<Longrightarrow> b \<notin> C"
  shows "wrote A (B \<union> C) (W \<union> V) s u"
proof -
  have "dsk u (unat b) = x" if "(b, x) \<in> W" for b x
  proof -
    have "unat b \<notin> unat ` C" using assms(3) [OF that] by auto
    then have "dsk u (unat b) = dsk t (unat b)" using assms(2) unfolding wrote_def by blast
    then show ?thesis using assms(1) that by (auto simp: wrote_def)
  qed
  then show ?thesis
    using assms(1,2) within_only_trans [of A s t u] lkept_trans [of s t u] same_stage_trans [of s t u]
    by (auto simp: wrote_def image_Un)
qed

lemma wrote_mono: "wrote A B W s t \<Longrightarrow> B \<subseteq> C \<Longrightarrow> V \<subseteq> W \<Longrightarrow> wrote A C V s t"
  unfolding wrote_def by (auto, blast)

lemma wrote_bwrite:
  assumes "binv (lg_dev s) X P s" and "bptr (lg_dev s) s i b" and "singles_ok s" and "on_dev s (unat b)" and "unat b \<in> A"
  shows "wrote A {b} {(b, b_data (bufs s ! i))} s (xv6bwrite i s)"
proof -
  let ?ws = "run_sectors (unat b) 1 (\<lambda>_. b_data (bufs s ! i))"
  note w = bwrite_eq [OF assms(1-4)]
  have d: "(dsk s)(unat b := b_data (bufs s ! i)) = put_sectors ?ws (dsk s)"
    by (rule ext) (simp add: put_run_sectors)
  have "within (only_blocks A (dsk s)) s (xv6bwrite i s)"
    by (rule within_run [where ws = ?ws and b = "unat b" and n = 1])
      (use assms(5) in \<open>auto simp: w d\<close>)
  then show ?thesis by (simp add: wrote_def w lkept_def same_stage_def)
qed

lemma rewrite_run_ok:
  assumes "quiet (X \<union> (\<lambda>k. xs ! (tail + k)) ` set ks) P s" and "wf_blocks s xs" and "distinct ks"
    and "\<forall>k \<in> set ks. tail + k < length xs \<and> chas s (xs ! (tail + k)) (L (tail + k))"
  shows "ok (rewrite_run xs tail ks s) (\<lambda>t. quiet X P t \<and>
    wrote (unat ` set xs) ((\<lambda>k. xs ! (tail + k)) ` set ks) ((\<lambda>k. (xs ! (tail + k), L (tail + k))) ` set ks) s t)"
  using assms
proof (induction ks arbitrary: s)
  case Nil
  then show ?case by (simp add: wrote_cache)
next
  case (Cons k ks)
  let ?D = "lg_dev s" and ?b = "xs ! (tail + k)" and ?Y = "X \<union> (\<lambda>k. xs ! (tail + k)) ` set (k # ks)"
  have tk: "tail + k < length xs" using Cons.prems(4) by simp
  have on: "on_dev s (unat ?b)" using wf_blocks_nth [OF Cons.prems(2) tk] by simp
  have A: "unat ?b \<in> unat ` set xs" using tk by simp
  from quiet_bread [OF Cons.prems(1) on] obtain i s1 where r: "xv6bread ?D ?b s = Some (i, s1)"
    and s1: "binv ?D ?Y P s1" "bptr ?D s1 i ?b" "b_data (bufs s1 ! i) = view ?D {} s ?b"
      "held ?D s1 = {?b}" "only_cache s s1" "others_kept ?D ?b s s1" "lkept s s1"
    by metis
  have data: "b_data (bufs s1 ! i) = L (tail + k)" 
    using s1(3) chas_view [of s ?b "L (tail + k)"] Cons.prems(4) by simp
  have D1: "lg_dev s1 = ?D" using s1(7) by (simp add: lkept_def)
  have dev1: "singles_ok s1" "on_dev s1 (unat ?b)"
    using Cons.prems(1) on lkept_wf [OF s1(7)] lkept_dev [OF s1(7)] by (simp_all add: quiet_def wf_log_def)
  define s2 where "s2 = xv6bwrite i s1"
  note w = bwrite_ok [OF s1(1,2) dev1, folded s2_def]
  have wr: "wrote (unat ` set xs) {?b} {(?b, L (tail + k))} s1 s2"
    using wrote_bwrite [of s1 ?Y P i ?b "unat ` set xs"] s1(1,2) dev1 A by (simp add: D1 data s2_def)
  have p2: "bptr ?D s2 i ?b" using w(3) s1(2) by simp
  define t where "t = xv6brelse i s2"
  have cl: "?b \<in> P \<or> ?b \<in> ?Y - {?b} \<or> b_data (bufs s2 ! i) = dsk s2 (unat ?b)" using w(5,6) by simp
  note e = brelse_ok [OF w(1) p2 cl, folded t_def]
  have wt: "wrote (unat ` set xs) {?b} {(?b, L (tail + k))} s t"
    using wrote_trans [OF wrote_trans [OF wrote_cache [OF s1(5)] wr] wrote_cache [OF e(4)]] by simp
  then have lk: "lkept s t" by (simp add: wrote_def)
  have Dt: "lg_dev t = ?D" using lk by (simp add: lkept_def)
  have "binv ?D (X \<union> (\<lambda>k. xs ! (tail + k)) ` set ks) P t" by (rule binv_mono [OF e(1)]) auto
  then have qt: "quiet (X \<union> (\<lambda>k. xs ! (tail + k)) ` set ks) P t"
    using Cons.prems(1) e(2) w(2) s1(4) lkept_wf [OF lk] by (simp add: quiet_def Dt)
  have ct: "chas t (xs ! (tail + j)) (L (tail + j))" if "j \<in> set ks" for j
  proof (rule chas_kept [where s = s and b = ?b])
    have ok2: "others_kept ?D ?b s s2" by (rule others_kept_trans [OF s1(1) s1(6) w(7)])
    show "others_kept ?D ?b s t" by (rule others_kept_trans [OF w(1) ok2 e(5)])
    have "j \<noteq> k" "tail + j < length xs" using that Cons.prems(3,4) by auto
    then show "xs ! (tail + j) \<noteq> ?b" using tk Cons.prems(2) by (simp add: wf_blocks_def nth_eq_iff_index_eq)
    have q: "binv ?D ?Y P s" "?b \<notin> held ?D s" using Cons.prems(1) by (simp_all add: quiet_def)
    obtain m where "bhash_find ?D ?b s = Some m" "b_valid (bufs s ! m)" using Cons.prems(4) by (auto simp: chas_def)
    from bread_hit_find(2) [OF q this r] have "bhash_find ?D c s1 = bhash_find ?D c s" for c .
    moreover have "bhash_find ?D c s2 = bhash_find ?D c s1" for c unfolding s2_def bwrite_eq [OF s1(1,2) dev1] by simp
    ultimately show "bhash_find ?D (xs ! (tail + j)) t = bhash_find ?D (xs ! (tail + j)) s" using e(6) by simp
    show "chas s (xs ! (tail + j)) (L (tail + j))" using that Cons.prems(4) by simp
  qed (rule Dt)
  have "ok (rewrite_run xs tail ks t) (\<lambda>u. quiet X P u \<and>
    wrote (unat ` set xs) ((\<lambda>k. xs ! (tail + k)) ` set ks) ((\<lambda>k. (xs ! (tail + k), L (tail + k))) ` set ks) t u)"
    by (rule Cons.IH [OF qt]) (use Cons.prems wf_blocks_kept [OF lk] ct in simp_all)
  then show ?case unfolding rewrite_run.simps r bind.simps prod.case s2_def [symmetric] t_def [symmetric]
  proof (rule ok_conseq)
    fix u assume u: "quiet X P u \<and>
      wrote (unat ` set xs) ((\<lambda>k. xs ! (tail + k)) ` set ks) ((\<lambda>k. (xs ! (tail + k), L (tail + k))) ` set ks) t u"
    have "?b \<notin> (\<lambda>k. xs ! (tail + k)) ` set ks"
      using Cons.prems(2-4) tk by (auto simp: wf_blocks_def nth_eq_iff_index_eq)
    then show "quiet X P u \<and> wrote (unat ` set xs) ((\<lambda>k. xs ! (tail + k)) ` set (k # ks))
        ((\<lambda>k. (xs ! (tail + k), L (tail + k))) ` set (k # ks)) s u"
      using u wrote_trans [OF wt, of "(\<lambda>k. xs ! (tail + k)) ` set ks"] by auto
  qed
qed

lemma run_unat:
  assumes "wf_blocks s xs" and "tail + r \<le> length xs" and "\<forall>k < r. xs ! (tail + k) = xs ! tail + of_nat k" and "k < r"
  shows "unat (xs ! (tail + k)) = unat (xs ! tail) + k"
proof -
  have "home s (xs ! tail)" using assms(1,2,4) by (simp add: wf_blocks_def)
  then have "unat (xs ! tail) < 2 ^ 31" by (simp add: home_def)
  moreover have "k < 126" using assms(1,2,4) by (simp add: wf_blocks_def)
  ultimately show ?thesis using assms(3,4) by (simp add: unat_word_ariths unat_of_nat)
qed

lemma write_run_faultless:
  assumes "\<forall>k n. io_fault s k n = None" and "singles_ok s" and "0 < n" and "on_dev s (unat b + n - 1)"
  shows "fst (xv6bio_write_run b n m s) = 0"
  using assms by (auto simp: xv6bio_write_run_def storage_write_blocks_def singles_ok_def on_dev_def Let_def split: option.splits)

text \<open>A failed command leaves only blocks of the run in doubt.\<close>

lemma write_run_ok:
  assumes "run_state recovering X xs L tail r s" and "wf_blocks s xs" and "0 < r" and "tail + r \<le> length xs"
    and "\<forall>k < r. xs ! (tail + k) = xs ! tail + of_nat k" and "\<forall>k < length xs. stage_block k s = L k"
    and "recovering \<Longrightarrow> \<forall>k n. io_fault s k n = None"
  shows "ok (write_run xs tail r s) (\<lambda>t. quiet X (pins recovering xs (tail + r)) t \<and>
    wrote (unat ` set xs) ((\<lambda>k. xs ! (tail + k)) ` {..<r}) ((\<lambda>k. (xs ! (tail + k), L (tail + k))) ` {..<r}) s t)"
proof -
  let ?B = "(\<lambda>k. xs ! (tail + k)) ` {..<r}" and ?P = "pins recovering xs (tail + r)" and ?D = "lg_dev s"
  let ?m = "\<lambda>k. stage_block (tail + k) s" and ?u = "unat (xs ! tail)"
  have un: "unat (xs ! (tail + k)) = ?u + k" if "k < r" for k by (rule run_unat [OF assms(2,4,5) that])
  have q: "quiet (X \<union> ?B) ?P s" using assms(1) by (simp add: run_state_def)
  have m: "?m k = L (tail + k)" if "k < r" for k using that assms(4,6) by simp
  have rng: "c \<in> unat ` ?B \<longleftrightarrow> ?u \<le> c \<and> c < ?u + r" for c
  proof
    assume "?u \<le> c \<and> c < ?u + r"
    then obtain k where "c = ?u + k" "k < r" using le_Suc_ex by auto
    then show "c \<in> unat ` ?B" using un [of k] by (metis image_eqI lessThan_iff)
  qed (use un in auto)
  have sub: "{?u..<?u + r} \<subseteq> unat ` set xs"
  proof
    fix c assume "c \<in> {?u..<?u + r}"
    then have "c \<in> unat ` ?B" using rng by simp
    then show "c \<in> unat ` set xs" using assms(4) by auto
  qed
  have run_ok: ?thesis if w: "xv6bio_write_run (xs ! tail) r ?m s = (0, s\<lparr>dsk := put_sectors (run_sectors ?u r ?m) (dsk s),
      io_seq := io_seq s + 1, wtrace := wtrace s @ [run_sectors ?u r ?m]\<rparr>)"
  proof -
    define t where "t = s\<lparr>dsk := put_sectors (run_sectors ?u r ?m) (dsk s),
      io_seq := io_seq s + 1, wtrace := wtrace s @ [run_sectors ?u r ?m]\<rparr>"
    have d: "dsk t c = (if ?u \<le> c \<and> c < ?u + r then ?m (c - ?u) else dsk s c)" for c
      by (simp add: t_def put_run_sectors)
    have dL: "dsk t (unat (xs ! (tail + k))) = L (tail + k)" if "k < r" for k
      using that un m by (simp add: d)
    have "binv ?D X ?P t"
    proof (rule binv_dsk)
      show "binv ?D (X \<union> ?B) ?P s" using q by (simp add: quiet_def)
      fix c i
      assume a: "bhash_find ?D c s = Some i" "b_valid (bufs s ! i)" "\<not> b_locked (bufs s ! i)" "c \<notin> ?P" "c \<notin> X"
      show "b_data (bufs s ! i) = dsk t (unat c)"
      proof (cases "c \<in> ?B")
        case True
        then obtain k where "k < r" "c = xs ! (tail + k)" by blast
        then show ?thesis using dL assms(1) a by (simp add: run_state_def cval_def)
      next
        case False
        then have "unat c \<notin> unat ` ?B" by auto
        then have "dsk t (unat c) = dsk s (unat c)" using rng by (auto simp: d)
        then show ?thesis using coherent [OF _ a(1-4)] q a(5) False by (auto simp: quiet_def)
      qed
    qed (use q in \<open>simp_all add: t_def quiet_def binv_def\<close>)
    moreover have lk: "lkept s t" "same_stage s t" by (simp_all add: t_def lkept_def same_stage_def)
    ultimately have "quiet X ?P t"
      using q lkept_wf [OF lk(1)] by (simp add: quiet_def) (simp add: t_def)
    moreover have "within (only_blocks (unat ` set xs) (dsk s)) s t"
      by (rule within_run [OF _ _ order_refl sub, of _ _ ?m]) (simp_all add: t_def)
    moreover have "dsk t c = dsk s c" if "c \<notin> unat ` ?B" for c using that rng by (auto simp: d)
    moreover have "xv6bio_write_run (xs ! tail) r ?m s = (0, t)" unfolding t_def by (rule w)
    ultimately show ?thesis using dL lk by (auto simp: write_run_def wrote_def)
  qed
  have fall: ?thesis if nr: "\<not> recovering" and w: "xv6bio_write_run (xs ! tail) r ?m s = (-1, t)"
    and t: "quiet (X \<union> ?B) ?P t" "wrote (unat ` set xs) ?B {} s t" "bufs t = bufs s" "htab t = htab s" for t
  proof -
    have D: "lg_dev t = ?D" using t(2) by (simp add: wrote_def lkept_def)
    have c: "chas t (xs ! (tail + k)) (L (tail + k))" if "k < r" for k
      using assms(1) nr that by (simp add: run_state_def chas_def D t find_cong [OF t(3,4)])
    have "lkept s t" using t(2) by (simp add: wrote_def)
    then have "wf_blocks t xs" using assms(2) by (simp add: wf_blocks_kept)
    then have "ok (rewrite_run xs tail [0..<r] t) (\<lambda>u. quiet X ?P u \<and>
      wrote (unat ` set xs) ((\<lambda>k. xs ! (tail + k)) ` set [0..<r]) ((\<lambda>k. (xs ! (tail + k), L (tail + k))) ` set [0..<r]) t u)"
      using t(1) assms(4) c by (intro rewrite_run_ok) (simp_all add: atLeast0LessThan)
    then show ?thesis unfolding write_run_def w
      by (simp add: atLeast0LessThan) (erule ok_conseq, use wrote_trans [OF t(2)] in fastforce)
  qed
  have lastd: "on_dev s (?u + r - 1)"
  proof -
    have "on_dev s (unat (xs ! (tail + (r - 1))))" using wf_blocks_nth [OF assms(2)] assms(3,4) by simp
    then show ?thesis using un [of "r - 1"] assms(3) by simp
  qed
  have sing: "singles_ok s" using q by (simp add: quiet_def wf_log_def)
  have norec: "\<not> recovering" if "fst (xv6bio_write_run (xs ! tail) r ?m s) = -1"
    using that write_run_faultless [OF _ sing assms(3) lastd] assms(7) by fastforce
  show ?thesis
  proof (rule write_run_cases [of "xs ! tail" r ?m s])
    fix ws assume ws: "set ws \<subseteq> set (run_sectors ?u r ?m)"
      and w: "xv6bio_write_run (xs ! tail) r ?m s = (-1, s\<lparr>dsk := put_sectors ws (dsk s), io_seq := io_seq s + 1, wtrace := wtrace s @ [ws]\<rparr>)"
    let ?t = "s\<lparr>dsk := put_sectors ws (dsk s), io_seq := io_seq s + 1, wtrace := wtrace s @ [ws]\<rparr>"
    have other: "put_sectors ws (dsk s) c = dsk s c" if "c \<notin> unat ` ?B" for c
    proof (rule put_sectors_other)
      have "fst ` set ws \<subseteq> {?u..<?u + r}" using ws run_sectors_blocks by (metis image_mono)
      then show "c \<notin> fst ` set ws" using that rng by auto
    qed
    have lk: "lkept s ?t" "same_stage s ?t" by (simp_all add: lkept_def same_stage_def)
    have "binv ?D (X \<union> ?B) ?P ?t"
    proof (rule binv_dsk)
      show b: "binv ?D (X \<union> ?B) ?P s" using q by (simp add: quiet_def)
      fix c i
      assume a: "bhash_find ?D c s = Some i" "b_valid (bufs s ! i)" "\<not> b_locked (bufs s ! i)" "c \<notin> ?P" "c \<notin> X \<union> ?B"
      then have "unat c \<notin> unat ` ?B" by auto
      then show "b_data (bufs s ! i) = dsk ?t (unat c)" using coherent [OF b a] other by simp
    qed (use q in \<open>simp_all add: quiet_def binv_def\<close>)
    then have "quiet (X \<union> ?B) ?P ?t" using q lkept_wf [OF lk(1)] by (simp add: quiet_def)
    moreover have "within (only_blocks (unat ` set xs) (dsk s)) s ?t"
      by (rule within_run [OF _ _ ws sub]) simp_all
    then have "wrote (unat ` set xs) ?B {} s ?t" using lk other by (simp add: wrote_def)
    ultimately show ?thesis using fall [OF _ w] norec w by simp
  next
    assume w: "xv6bio_write_run (xs ! tail) r ?m s = (-1, s)"
    moreover have "wrote (unat ` set xs) ?B {} s s" by (rule wrote_mono [OF wrote_cache [OF only_cache_refl]]) simp_all
    ultimately show ?thesis using fall [OF _ w q] norec by simp
  qed (rule run_ok)
qed

section \<open>The install loop\<close>

lemma count_run_frame [simp]:
  "quiet X P (count_run s) = quiet X P s" "lkept s (count_run s)" "same_stage s (count_run s)"
  "cval (count_run s) b x = cval s b x" "chas (count_run s) b x = chas s b x"
  "stage_block k (count_run s) = stage_block k s" "io_fault (count_run s) = io_fault s" "wf_blocks (count_run s) = wf_blocks s"
  by (simp_all add: count_run_def quiet_def wf_log_def lkept_def same_stage_def cval_def chas_def stage_block_def
      singles_ok_def on_dev_def wf_blocks_def home_def fun_eq_iff)

lemma run_state_count [simp]: "run_state recovering X xs L tail r (count_run s) = run_state recovering X xs L tail r s"
  by (simp add: run_state_def)

lemma wrote_count: "wrote A {} {} s (count_run s)"
proof -
  have "within (only_blocks A (dsk s)) s (count_run s)"
    by (rule within_refl) (simp_all add: count_run_def)
  moreover have "dsk (count_run s) = dsk s" by (simp add: count_run_def)
  ultimately show ?thesis by (simp add: wrote_def)
qed

abbreviation entries :: "u32 list \<Rightarrow> (nat \<Rightarrow> block) \<Rightarrow> nat \<Rightarrow> nat \<Rightarrow> (u32 \<times> block) set" where
  "entries xs L a b \<equiv> (\<lambda>k. (xs ! k, L k)) ` {a..<b}"

lemma entries_shift: "(\<lambda>k. (xs ! (tail + k), L (tail + k))) ` {..<r} = entries xs L tail (tail + r)"
proof -
  have "{tail..<tail + r} = (\<lambda>k. tail + k) ` {..<r}" by (simp add: lessThan_atLeast0 add.commute)
  then show ?thesis by (simp add: image_image)
qed

lemma blocks_shift: "(\<lambda>k. xs ! (tail + k)) ` {..<r} = (\<lambda>k. xs ! k) ` {tail..<tail + r}"
proof -
  have "{tail..<tail + r} = (\<lambda>k. tail + k) ` {..<r}" by (simp add: lessThan_atLeast0 add.commute)
  then show ?thesis by (simp add: image_image)
qed

lemma wrote_entries:
  assumes "wrote A ((\<lambda>k. xs ! k) ` {a..<b}) (entries xs L a b) s t" and "wrote A ((\<lambda>k. xs ! k) ` {b..<c}) (entries xs L b c) t u"
    and "distinct xs" and "a \<le> b" and "b \<le> c" and "c \<le> length xs"
  shows "wrote A ((\<lambda>k. xs ! k) ` {a..<c}) (entries xs L a c) s u"
proof -
  have "{a..<c} = {a..<b} \<union> {b..<c}" using assms(4,5) by auto
  moreover have "d \<notin> (\<lambda>k. xs ! k) ` {b..<c}" if "(d, x) \<in> entries xs L a b" for d x
    using that assms(3-6) by (auto simp: nth_eq_iff_index_eq)
  ultimately show ?thesis using wrote_trans [OF assms(1,2)] by (simp add: image_Un)
qed

lemma pins_end: "pins recovering xs (length xs) = {}"
  by (simp add: pins_def)

lemma install_staged_ok:
  assumes "quiet X (pins recovering xs tail) s" and "wf_blocks s xs" and "tail \<le> length xs"
    and "\<forall>k < length xs. stage_block k s = L k" and "recovering \<Longrightarrow> \<forall>k n. io_fault s k n = None"
  shows "ok (install_loop xs recovering True tail s) (\<lambda>t. quiet X {} t \<and>
    wrote (unat ` set xs) ((\<lambda>k. xs ! k) ` {tail..<length xs}) (entries xs L tail (length xs)) s t)"
  using assms
proof (induction "length xs - tail" arbitrary: tail s rule: less_induct)
  case less
  show ?case
  proof (cases "tail < length xs")
    case False
    then show ?thesis using less.prems(1,3) pins_end [of recovering xs]
      by (subst install_loop.simps) (simp add: wrote_cache)
  next
    case True
    have d: "distinct xs" using less.prems(2) by (simp add: wf_blocks_def)
    let ?Q = "\<lambda>u. quiet X {} u \<and>
      wrote (unat ` set xs) ((\<lambda>k. xs ! k) ` {tail..<length xs}) (entries xs L tail (length xs)) s u"
    have "run_state recovering X xs L tail 0 s" using less.prems(1) by (simp add: run_state_def)
    then have b: "ok (install_block xs recovering True tail s) (\<lambda>t. run_state recovering X xs L tail (Suc 0) t \<and> only_cache s t)"
      using run_step [of recovering X xs L tail 0 s] less.prems True by (simp add: install_block_staged)
    have rest: "ok (install_loop xs recovering True (tail + r) s3) ?Q"
      if r: "0 < r" "tail + r \<le> length xs" and s2: "only_cache s s2"
        and s3: "quiet X (pins recovering xs (tail + r)) s3"
          "wrote (unat ` set xs) ((\<lambda>k. xs ! (tail + k)) ` {..<r}) ((\<lambda>k. (xs ! (tail + k), L (tail + k))) ` {..<r}) (count_run s2) s3"
      for r s2 s3
    proof -
      have w: "wrote (unat ` set xs) ((\<lambda>k. xs ! k) ` {tail..<tail + r}) (entries xs L tail (tail + r)) s s3"
        using wrote_trans [OF wrote_trans [OF wrote_cache [OF s2] wrote_count] s3(2)]
        by (simp add: entries_shift blocks_shift)
      then have lk: "lkept s s3" "same_stage s s3" by (simp_all add: wrote_def)
      have "ok (install_loop xs recovering True (tail + r) s3) (\<lambda>t. quiet X {} t \<and>
        wrote (unat ` set xs) ((\<lambda>k. xs ! k) ` {tail + r..<length xs}) (entries xs L (tail + r) (length xs)) s3 t)"
        using lk less.prems True r
        by (intro less.hyps s3(1)) (simp_all add: wf_blocks_kept, simp_all add: same_stage_def stage_block_def lkept_def)
      then show ?thesis
        by (rule ok_conseq) (use wrote_entries [OF w _ d] r in simp)
    qed
    have ext: "ok (extend_run xs recovering tail 1 s1) (\<lambda>(run, s2). ok (write_run xs tail run (count_run s2))
        (\<lambda>s3. ok (install_loop xs recovering True (tail + run) s3) ?Q))"
      if s1: "run_state recovering X xs L tail (Suc 0) s1" "only_cache s s1" for s1
    proof -
      note lk1 = only_cache_log [OF s1(2)]
      have "ok (extend_run xs recovering tail 1 s1) (\<lambda>(r, t). run_state recovering X xs L tail r t \<and> only_cache s1 t \<and>
        1 \<le> r \<and> tail + r \<le> length xs \<and> (\<forall>k < r. xs ! (tail + k) = xs ! tail + of_nat k))"
        using s1(1) less.prems True lk1 wf_blocks_kept [OF lk1(1)]
        by (intro extend_run_ok) (simp_all add: same_stage_def stage_block_def)
      then show ?thesis
      proof (rule ok_conseq, clarify)
        fix r s2
        assume s2: "run_state recovering X xs L tail r s2" "only_cache s1 s2" and r: "1 \<le> r" "tail + r \<le> length xs"
          "\<forall>k < r. xs ! (tail + k) = xs ! tail + of_nat k"
        note lk2 = only_cache_log [OF only_cache_trans [OF s1(2) s2(2)]]
        have "ok (write_run xs tail r (count_run s2)) (\<lambda>t. quiet X (pins recovering xs (tail + r)) t \<and>
          wrote (unat ` set xs) ((\<lambda>k. xs ! (tail + k)) ` {..<r}) ((\<lambda>k. (xs ! (tail + k), L (tail + k))) ` {..<r}) (count_run s2) t)"
          using s2(1) r less.prems lk2 wf_blocks_kept [OF lk2(1)]
          by (intro write_run_ok) (simp_all add: same_stage_block, simp add: lkept_def)
        then show "ok (write_run xs tail r (count_run s2)) (\<lambda>s3. ok (install_loop xs recovering True (tail + r) s3) ?Q)"
          by (rule ok_conseq) (use rest [OF _ r(2) only_cache_trans [OF s1(2) s2(2)]] r(1) in simp)
      qed
    qed
    show ?thesis
      by (subst install_loop.simps) (use True b ext in \<open>auto elim!: ok_conseq simp: case_prod_unfold\<close>)
  qed
qed

text \<open>Without the staging buffer.\<close>

definition lblk :: "'a xlog_scheme \<Rightarrow> nat \<Rightarrow> u32" where
  "lblk s k = lg_start s + of_nat k + 1"

lemma lblk_unat: "wf_log s \<Longrightarrow> k < 126 \<Longrightarrow> unat (lblk s k) = unat (lg_start s) + k + 1"
  by (simp add: lblk_def wf_log_def unat_word_ariths unat_of_nat)

lemma lblk_on_dev: "wf_log s \<Longrightarrow> k < 126 \<Longrightarrow> on_dev s (unat (lblk s k))"
proof -
  assume a: "wf_log s" "k < 126"
  then have "on_dev s (unat (lg_start s) + (k + 1))" unfolding wf_log_def by (metis Suc_eq_plus1 Suc_leI)
  then show ?thesis using lblk_unat [OF a] by (simp add: add.assoc)
qed

lemma lblk_kept: "lkept s t \<Longrightarrow> lblk t = lblk s"
  by (simp add: lblk_def lkept_def fun_eq_iff)

lemma home_not_log:
  assumes "wf_log s" and "home s b"
  shows "k < 126 \<Longrightarrow> lblk s k \<noteq> b" "lg_start s \<noteq> b" "b \<notin> log_data s"
proof -
  show l: "lblk s k \<noteq> b" if "k < 126" for k using lblk_unat [OF assms(1) that] assms(2) that by (auto simp: home_def)
  show "lg_start s \<noteq> b" using assms(2) by (auto simp: home_def)
  show "b \<notin> log_data s" using l by (auto simp: log_data_def lblk_def)
qed

lemma install_block_direct:
  assumes "quiet X (pins recovering xs tail) s" and "wf_blocks s xs" and "tail < length xs"
    and "lblk s tail \<notin> X" and "dsk s (unat (lblk s tail)) = L tail"
  shows "ok (install_block xs recovering False tail s) (\<lambda>t. quiet X (pins recovering xs (Suc tail)) t \<and>
    wrote (unat ` set xs) {xs ! tail} {(xs ! tail, L tail)} s t)"
proof -
  let ?D = "lg_dev s" and ?b = "xs ! tail" and ?l = "lblk s tail" and ?P = "pins recovering xs tail"
  have d: "distinct xs" and t126: "tail < 126" using assms(2,3) by (simp_all add: wf_blocks_def)
  have hb: "home s ?b" "on_dev s (unat ?b)" using wf_blocks_nth [OF assms(2,3)] by simp_all
  have wf: "wf_log s" using assms(1) by (simp add: quiet_def)
  have lb: "?l \<noteq> ?b" by (rule home_not_log(1) [OF wf hb(1) t126])
  have lP: "?l \<notin> ?P" using home_not_log(1) [OF wf _ t126] assms(2)
    by (auto simp: pins_def wf_blocks_def dest: in_set_dropD)
  from quiet_bread [OF assms(1) hb(2)] obtain i s1 where r: "xv6bread ?D ?b s = Some (i, s1)"
    and s1: "binv ?D X ?P s1" "bptr ?D s1 i ?b" "held ?D s1 = {?b}" "only_cache s s1" "lkept s s1"
    by metis
  note D1 = only_cacheD [OF s1(4)]
  have q1: "?l \<notin> held ?D s1" "card (held ?D s1) + card ?P < length (bufs s1)" "singles_ok s1" "on_dev s1 (unat ?l)"
    using assms(1) s1(3) lb lblk_on_dev [OF wf t126] only_cache_dev [OF s1(4)] D1
    by (simp_all add: quiet_def wf_log_def)
  have vl: "view ?D {} s1 ?l = L tail" using clean_view [OF s1(1) q1(1) lP assms(4)] assms(5) D1 by simp
  from bread_ok [OF s1(1) q1] obtain j s2 where r2: "xv6bread ?D ?l s1 = Some (j, s2)"
    and s2: "binv ?D X ?P s2" "bptr ?D s2 j ?l" "b_data (bufs s2 ! j) = L tail" "held ?D s2 = {?l, ?b}" "only_cache s1 s2"
      "others_kept ?D ?l s1 s2"
    using s1(3) vl by (auto simp: ok_def)
  have p2: "bptr ?D s2 i ?b" by (rule others_kept_bptr [OF s1(1) s2(6) s1(2)]) (use lb in simp)
  have ij: "i \<noteq> j" using find_inj [OF s2(1)] s2(2) p2 lb by (auto simp: bptr_def)
  define s3 where "s3 = bset i (L tail) s2"
  note b3 = bset_ok [OF s2(1) p2, where d = "L tail", folded s3_def]
  have p3: "bptr ?D s3 j ?l" "bptr ?D s3 i ?b" using b3(3) s2(2) p2 by simp_all
  have dj: "b_data (bufs s3 ! j) = L tail" using s2(3) ij by (simp add: s3_def bset_def)
  have "dsk s3 (unat ?l) = L tail" using assms(5) D1 only_cacheD(1) [OF s2(5)] only_cacheD(1) [OF b3(5)] by simp
  then have cl3: "?l \<in> ?P \<or> ?l \<in> X \<or> b_data (bufs s3 ! j) = dsk s3 (unat ?l)" using dj by simp
  define s4 where "s4 = xv6brelse j s3"
  note b4 = brelse_ok [OF b3(1) p3(1) cl3, folded s4_def]
  have p4: "bptr ?D s4 i ?b" using b4(9) [of ?b i] lb p3(2) by simp
  have di: "b_data (bufs s4 ! i) = L tail"
  proof -
    have "bhash_find ?D ?b s4 = Some i" using p4 by (simp add: bptr_def)
    then have "bufs s4 ! i = bufs s3 ! i" using others_keptD1 [OF b4(5)] lb by metis
    then show ?thesis using b3(7) by simp
  qed
  have oc4: "only_cache s s4"
    using only_cache_trans [OF only_cache_trans [OF only_cache_trans [OF s1(4) s2(5)] b3(5)] b4(4)] .
  have lk4: "lkept s s4" by (rule only_cache_log [OF oc4])
  have D4: "lg_dev s4 = ?D" using lk4 by (simp add: lkept_def)
  have dev4: "singles_ok s4" "on_dev s4 (unat ?b)" using only_cache_dev [OF oc4] wf hb(2) by (simp_all add: wf_log_def)
  define s5 where "s5 = xv6bwrite i s4"
  note b5 = bwrite_ok [OF b4(1) p4 dev4, folded s5_def]
  have w5: "wrote (unat ` set xs) {?b} {(?b, L tail)} s4 s5"
    using wrote_bwrite [of s4 X ?P i ?b "unat ` set xs"] b4(1) p4 dev4 assms(3) by (simp add: D4 di s5_def)
  have p5: "bptr ?D s5 i ?b" using b5(3) p4 by simp
  define s6 where "s6 = unpin_unless recovering i s5"
  have s6: "binv ?D (X - {?b}) (pins recovering xs (Suc tail)) s6" "held ?D s6 = held ?D s5" "bptr ?D s6 = bptr ?D s5"
      "only_cache s5 s6" "b_data (bufs s6 ! i) = b_data (bufs s5 ! i)"
    using b5(1) bunpin_ok [OF b5(1) p5] pins_Suc [OF d assms(3), of recovering]
    by (cases recovering; simp add: s6_def unpin_unless_def)+
  have p6: "bptr ?D s6 i ?b" using s6(3) p5 by simp
  have cl6: "?b \<in> pins recovering xs (Suc tail) \<or> ?b \<in> X - {?b} \<or> b_data (bufs s6 ! i) = dsk s6 (unat ?b)"
    using s6(5) b5(5,6) only_cacheD(1) [OF s6(4)] by simp
  define t where "t = xv6brelse i s6"
  note b7 = brelse_ok [OF s6(1) p6 cl6, folded t_def]
  have wt: "wrote (unat ` set xs) {?b} {(?b, L tail)} s t"
    using wrote_trans [OF wrote_trans [OF wrote_cache [OF oc4] w5] wrote_cache [OF only_cache_trans [OF s6(4) b7(4)]]] by simp
  then have lk: "lkept s t" by (simp add: wrote_def)
  have "card (pins recovering xs (Suc tail)) \<le> 126"
    using assms(2) by (auto simp: pins_def wf_blocks_def distinct_card)
  moreover have "binv ?D X (pins recovering xs (Suc tail)) t" by (rule binv_mono [OF b7(1)]) blast
  moreover have "held ?D t = {}" using b7(2) s6(2) b5(2) b4(2) b3(2) s2(4) lb by auto
  moreover have "lg_dev t = ?D" using lk by (simp add: lkept_def)
  ultimately have "quiet X (pins recovering xs (Suc tail)) t" using wf lkept_wf [OF lk] by (simp add: quiet_def)
  moreover have "install_block xs recovering False tail s = Some t"
    using s1(5) by (simp add: install_block_def r lkept_def r2 [unfolded lblk_def] s2(3)
        s3_def [symmetric] s4_def [symmetric] s5_def [symmetric] s6_def [symmetric] t_def [symmetric])
  ultimately show ?thesis using wt by simp
qed

lemma install_direct_ok:
  assumes "quiet X (pins recovering xs tail) s" and "wf_blocks s xs" and "tail \<le> length xs"
    and "\<forall>k < length xs. lblk s k \<notin> X \<and> dsk s (unat (lblk s k)) = L k"
  shows "ok (install_loop xs recovering False tail s) (\<lambda>t. quiet X {} t \<and>
    wrote (unat ` set xs) ((\<lambda>k. xs ! k) ` {tail..<length xs}) (entries xs L tail (length xs)) s t)"
  using assms
proof (induction "length xs - tail" arbitrary: tail s)
  case 0
  then show ?case using pins_end [of recovering xs] by (subst install_loop.simps) (simp add: wrote_cache)
next
  case (Suc m)
  then have tl: "tail < length xs" by simp
  have d: "distinct xs" using Suc.prems(2) by (simp add: wf_blocks_def)
  have wf: "wf_log s" using Suc.prems(1) by (simp add: quiet_def)
  have "ok (install_block xs recovering False tail s) (\<lambda>t. quiet X (pins recovering xs (Suc tail)) t \<and>
      wrote (unat ` set xs) {xs ! tail} {(xs ! tail, L tail)} s t)"
    using Suc.prems tl by (intro install_block_direct) simp_all
  then have "ok (install_block xs recovering False tail s)
      (\<lambda>t. ok (install_loop xs recovering False (Suc tail) (count_run t)) (\<lambda>t. quiet X {} t \<and>
    wrote (unat ` set xs) ((\<lambda>k. xs ! k) ` {tail..<length xs}) (entries xs L tail (length xs)) s t))"
  proof (rule ok_conseq)
    fix t assume t: "quiet X (pins recovering xs (Suc tail)) t \<and> wrote (unat ` set xs) {xs ! tail} {(xs ! tail, L tail)} s t"
    let ?c = "count_run t"
    have w: "wrote (unat ` set xs) {xs ! tail} {(xs ! tail, L tail)} s ?c"
      using wrote_trans [OF conjunct2 [OF t] wrote_count] by simp
    then have lk: "lkept s ?c" by (simp add: wrote_def)
    have "dsk ?c (unat (lblk s k)) = L k" if "k < length xs" for k
    proof -
      have "k < 126" using that Suc.prems(2) by (simp add: wf_blocks_def)
      then have "lblk s k \<noteq> xs ! tail" using home_not_log(1) [OF wf] wf_blocks_nth [OF Suc.prems(2) tl] by blast
      then have "dsk ?c (unat (lblk s k)) = dsk s (unat (lblk s k))" using w by (simp add: wrote_def)
      then show ?thesis using Suc.prems(4) that by simp
    qed
    then have "ok (install_loop xs recovering False (Suc tail) ?c) (\<lambda>u. quiet X {} u \<and>
      wrote (unat ` set xs) ((\<lambda>k. xs ! k) ` {Suc tail..<length xs}) (entries xs L (Suc tail) (length xs)) ?c u)"
      using t Suc.prems tl Suc.hyps(2) wf_blocks_kept [OF lk] lblk_kept [OF lk]
      by (intro Suc.hyps(1)) simp_all
    moreover have "{tail..<Suc tail} = {tail}" by auto
    then have w1: "wrote (unat ` set xs) ((\<lambda>k. xs ! k) ` {tail..<Suc tail}) (entries xs L tail (Suc tail)) s ?c" using w by simp
    ultimately show "ok (install_loop xs recovering False (Suc tail) ?c) (\<lambda>u. quiet X {} u \<and>
      wrote (unat ` set xs) ((\<lambda>k. xs ! k) ` {tail..<length xs}) (entries xs L tail (length xs)) s u)"
      by (elim ok_conseq) (use wrote_entries [OF w1 _ d] tl in simp)
  qed
  then show ?case by (subst install_loop.simps) (simp add: tl)
qed

section \<open>Install\<close>

lemma quiet_upd [simp]:
  fixes s :: "'a xlog_scheme"
  shows "quiet X P (s\<lparr>io_seq := k\<rparr>) = quiet X P s" "quiet X P (s\<lparr>g_stage := m\<rparr>) = quiet X P s"
    "quiet X P (s\<lparr>g_stage_valid := v\<rparr>) = quiet X P s" "quiet X P (s\<lparr>lh := xs\<rparr>) = quiet X P s"
    "quiet X P (s\<lparr>g_commits := a\<rparr>) = quiet X P s" "quiet X P (s\<lparr>g_log_blocks := a\<rparr>) = quiet X P s"
    "quiet X P (s\<lparr>lg_committing := c\<rparr>) = quiet X P s" "quiet X P (s\<lparr>lg_outstanding := i\<rparr>) = quiet X P s"
    "quiet X P (s\<lparr>lg_reserved := i\<rparr>) = quiet X P s"
  by (simp_all add: quiet_def wf_log_def singles_ok_def on_dev_def)

lemma wf_blocks_upd [simp]:
  fixes s :: "'a xlog_scheme"
  shows "wf_blocks (s\<lparr>io_seq := k\<rparr>) = wf_blocks s" "wf_blocks (s\<lparr>g_stage := m\<rparr>) = wf_blocks s"
    "wf_blocks (s\<lparr>lh := ys\<rparr>) = wf_blocks s" "wf_blocks (s\<lparr>g_commits := a\<rparr>) = wf_blocks s"
    "wf_blocks (s\<lparr>g_log_blocks := a\<rparr>) = wf_blocks s" "wf_blocks (s\<lparr>g_stage_valid := v\<rparr>) = wf_blocks s"
    "wf_blocks (s\<lparr>lg_committing := c\<rparr>) = wf_blocks s"
  by (simp_all add: wf_blocks_def home_def on_dev_def fun_eq_iff)

text \<open>What installing the entries \<open>xs\<close> with contents \<open>L\<close> leaves behind.\<close>

definition installed :: "u32 list \<Rightarrow> (nat \<Rightarrow> block) \<Rightarrow> 'a xlog_scheme \<Rightarrow> 'a xlog_scheme \<Rightarrow> bool" where
  "installed xs L s t \<longleftrightarrow> lkept s t \<and> within (only_blocks (unat ` set xs) (dsk s)) s t \<and>
     (\<forall>k < length xs. dsk t (unat (xs ! k)) = L k) \<and> (\<forall>c. c \<notin> unat ` set xs \<longrightarrow> dsk t c = dsk s c)"

lemma wrote_installed:
  assumes "wrote (unat ` set xs) ((\<lambda>k. xs ! k) ` {0..<length xs}) (entries xs L 0 (length xs)) s' t"
    and "dsk s' = dsk s" and "wtrace s' = wtrace s" and "lkept s s'"
  shows "installed xs L s t"
proof -
  have "(\<lambda>k. xs ! k) ` {0..<length xs} = set xs" by (metis atLeast0LessThan atLeast_upt list.set_map map_nth)
  then show ?thesis using assms lkept_trans [OF assms(4)]
    by (auto simp: wrote_def installed_def within_def)
qed

lemma install_trans_ok:
  assumes "quiet X (pins recovering (lh s) 0) s" and "wf_blocks s (lh s)"
    and "recovering \<Longrightarrow> \<forall>k n. io_fault s k n = None"
    and "\<not> recovering \<and> g_stage s \<noteq> None \<and> g_stage_valid s \<Longrightarrow> \<forall>k < length (lh s). stage_block k s = L k"
    and "recovering \<or> g_stage s = None \<or> \<not> g_stage_valid s \<Longrightarrow>
      \<forall>k < length (lh s). lblk s k \<notin> X \<and> dsk s (unat (lblk s k)) = L k"
  shows "ok (install_trans recovering s) (\<lambda>t. quiet X {} t \<and> installed (lh s) L s t \<and> \<not> g_stage_valid t)"
proof -
  let ?xs = "lh s"
  let ?Q = "\<lambda>t. quiet X {} t \<and> installed ?xs L s t \<and> \<not> g_stage_valid t"
  have fin: "ok (do { t \<leftarrow> install_loop ?xs recovering staged 0 s'; Some (t\<lparr>g_stage_valid := False\<rparr>) }) ?Q"
    if "ok (install_loop ?xs recovering staged 0 s') (\<lambda>t. quiet X {} t \<and>
        wrote (unat ` set ?xs) ((\<lambda>k. ?xs ! k) ` {0..<length ?xs}) (entries ?xs L 0 (length ?xs)) s' t)"
      and s': "dsk s' = dsk s" "wtrace s' = wtrace s" "lkept s s'" for staged s'
  proof -
    have "installed ?xs L s (t\<lparr>g_stage_valid := False\<rparr>)" if "installed ?xs L s t" for t
      using that by (simp add: installed_def within_def lkept_def)
    then show ?thesis using that(1) wrote_installed [OF _ s'] by (auto elim!: ok_conseq)
  qed
  have direct: "ok (do { t \<leftarrow> install_loop ?xs recovering False 0 s'; Some (t\<lparr>g_stage_valid := False\<rparr>) }) ?Q"
    if "\<forall>k < length ?xs. lblk s k \<notin> X \<and> dsk s (unat (lblk s k)) = L k"
      and s': "dsk s' = dsk s" "wtrace s' = wtrace s" "lkept s s'" "quiet X (pins recovering ?xs 0) s'" for s'
    by (rule fin [OF install_direct_ok s'(1-3)])
      (use that(1) s' assms(2) in \<open>simp_all add: wf_blocks_kept lblk_kept\<close>)
  have staged: "ok (do { t \<leftarrow> install_loop ?xs recovering True 0 s'; Some (t\<lparr>g_stage_valid := False\<rparr>) }) ?Q"
    if "\<forall>k < length ?xs. stage_block k s' = L k"
      and s': "dsk s' = dsk s" "wtrace s' = wtrace s" "lkept s s'" "quiet X (pins recovering ?xs 0) s'" for s'
    by (rule fin [OF install_staged_ok s'(1-3)])
      (use that(1) s' assms(2,3) in \<open>simp_all add: wf_blocks_kept\<close>, use s'(3) in \<open>simp add: lkept_def\<close>)
  have lu: "unat (lg_start s + 1) + k = unat (lblk s k)" if "k < length ?xs" for k
    using that assms(1,2) lblk_unat [of s k] lblk_unat [of s 0]
    by (simp add: quiet_def wf_blocks_def lblk_def)
  show ?thesis
  proof (cases "g_stage s = None \<or> ?xs = []")
    case True
    then have "install_trans recovering s = do { t \<leftarrow> install_loop ?xs recovering False 0 s; Some (t\<lparr>g_stage_valid := False\<rparr>) }"
      by (auto simp: install_trans_def split: option.split)
    then show ?thesis using direct [of s] True assms(1,5) by auto
  next
    case False
    then obtain m where m: "g_stage s = Some m" and ne: "?xs \<noteq> []" by auto
    show ?thesis
    proof (cases "\<not> recovering \<and> g_stage_valid s")
      case True
      then have "install_trans recovering s = do { t \<leftarrow> install_loop ?xs recovering True 0 s; Some (t\<lparr>g_stage_valid := False\<rparr>) }"
        using m ne by (simp add: install_trans_def)
      then show ?thesis using staged [of s] True assms(1,4) m by simp
    next
      case False
      then have src: "\<forall>k < length ?xs. lblk s k \<notin> X \<and> dsk s (unat (lblk s k)) = L k" using assms(5) by blast
      have frame: "lkept s (s\<lparr>io_seq := k, g_stage := v\<rparr>)" for k v by (simp add: lkept_def)
      show ?thesis
      proof (rule read_run_cases [of "lg_start s + 1" "length ?xs" m s])
        fix k assume "xv6bio_read_run (lg_start s + 1) (length ?xs) m s =
            (0, (\<lambda>j. if j < length ?xs then dsk s (unat (lg_start s + 1) + j) else m j), s\<lparr>io_seq := k\<rparr>)"
        then show ?thesis using False m ne staged frame assms(1) src lu
          by (auto simp: install_trans_def stage_block_def simp del: ok_bind)
      next
        fix m' k assume "xv6bio_read_run (lg_start s + 1) (length ?xs) m s = (-1, m', s\<lparr>io_seq := k\<rparr>)"
        then show ?thesis using False m ne direct [OF src] frame assms(1)
          by (auto simp: install_trans_def simp del: ok_bind)
      qed
    qed
  qed
qed

section \<open>The header\<close>

definition wrote_head :: "block \<Rightarrow> 'a xlog_scheme \<Rightarrow> 'a xlog_scheme \<Rightarrow> bool" where
  "wrote_head H s t \<longleftrightarrow> lkept s t \<and> same_stage s t \<and>
     wtrace t = wtrace s @ [run_sectors (unat (lg_start s)) 1 (\<lambda>_. H)] \<and> dsk t = (dsk s)(unat (lg_start s) := H)"

lemma start_on_dev: "wf_log s \<Longrightarrow> on_dev s (unat (lg_start s))"
  unfolding wf_log_def by (metis add.right_neutral zero_le)

lemma write_head_ok:
  assumes "quiet X P s" and "lg_start s \<notin> X" and "lg_start s \<notin> P"
  shows "ok (write_head s) (\<lambda>t. quiet X P t \<and> wrote_head (put_head (lh s) (dsk s (unat (lg_start s)))) s t \<and>
    (\<forall>c y. c \<noteq> lg_start s \<longrightarrow> cval s c y \<longrightarrow> cval t c y))"
proof -
  let ?D = "lg_dev s" and ?b = "lg_start s"
  let ?H = "put_head (lh s) (dsk s (unat ?b))"
  have wf: "wf_log s" using assms(1) by (simp add: quiet_def)
  from quiet_bread [OF assms(1) start_on_dev [OF wf]] obtain i s1 where r: "xv6bread ?D ?b s = Some (i, s1)"
    and s1: "binv ?D X P s1" "bptr ?D s1 i ?b" "b_data (bufs s1 ! i) = view ?D {} s ?b" "held ?D s1 = {?b}"
      "only_cache s s1" "others_kept ?D ?b s s1" "lkept s s1" by metis
  have v: "b_data (bufs s1 ! i) = dsk s (unat ?b)"
    using s1(3) clean_view [of ?D X P s ?b] assms by (simp add: quiet_def)
  define s2 where "s2 = bset i ?H s1"
  note b2 = bset_ok [OF s1(1,2), where d = ?H, folded s2_def]
  have p2: "bptr ?D s2 i ?b" using b2(3) s1(2) by simp
  have oc2: "only_cache s s2" by (rule only_cache_trans [OF s1(5) b2(5)])
  have dev2: "singles_ok s2" "on_dev s2 (unat ?b)"
    using only_cache_dev [OF oc2] wf start_on_dev [OF wf] by (simp_all add: wf_log_def)
  define s3 where "s3 = xv6bwrite i s2"
  note b3 = bwrite_ok [OF b2(1) p2 dev2, folded s3_def]
  note e3 = bwrite_eq [OF b2(1) p2 dev2, folded s3_def]
  have p3: "bptr ?D s3 i ?b" using b3(3) p2 by simp
  have cl: "?b \<in> P \<or> ?b \<in> X - {?b} \<or> b_data (bufs s3 ! i) = dsk s3 (unat ?b)" using b3(5,6) by simp
  define t where "t = xv6brelse i s3"
  note b4 = brelse_ok [OF b3(1) p3 cl, folded t_def]
  have "lkept s2 s3" "same_stage s2 s3" by (simp_all add: e3 lkept_def same_stage_def)
  then have lk: "lkept s t" "same_stage s t"
    using lkept_trans [OF only_cache_log(1) [OF oc2] lkept_trans [OF _ only_cache_log(1) [OF b4(4)]]]
      same_stage_trans [OF only_cache_log(2) [OF oc2] same_stage_trans [OF _ only_cache_log(2) [OF b4(4)]]] by blast+
  have "wrote_head ?H s t"
    unfolding wrote_head_def
  proof (intro conjI lk)
    show "wtrace t = wtrace s @ [run_sectors (unat ?b) 1 (\<lambda>_. ?H)]"
      using only_cacheD(4) [OF b4(4)] only_cacheD(4) [OF oc2] b2(7) by (simp add: e3)
    show "dsk t = (dsk s)(unat ?b := ?H)"
      using only_cacheD(1) [OF b4(4)] only_cacheD(1) [OF oc2] b2(7) by (simp add: e3)
  qed
  moreover have D: "lg_dev t = ?D" using lk(1) by (simp add: lkept_def)
  have "binv ?D X P t" by (rule binv_mono [OF b4(1)]) blast
  then have "quiet X P t"
    using assms(1) b4(2) b3(2) b2(2) s1(4) lkept_wf [OF lk(1)] by (simp add: quiet_def D)
  moreover have "others_kept ?D ?b s t"
    by (rule others_kept_trans [OF b3(1) others_kept_trans [OF b2(1) others_kept_trans [OF s1(1,6) b2(6)] b3(7)] b4(5)])
  moreover have "write_head s = Some t"
    using s1(7) by (simp add: write_head_def r v lkept_def s2_def [symmetric] s3_def [symmetric] t_def [symmetric])
  ultimately show ?thesis using cval_kept [OF _ D] by simp
qed

lemma read_head_ok:
  assumes "quiet X P s" and "lg_start s \<notin> X" and "lg_start s \<notin> P" and "head_n (dsk s (unat (lg_start s))) \<le> 126"
  shows "ok (read_head s) (\<lambda>t. quiet X P t \<and> dsk t = dsk s \<and> wtrace t = wtrace s \<and>
    lkept (s\<lparr>lh := map (head_block (dsk s (unat (lg_start s)))) [0..<nat (head_n (dsk s (unat (lg_start s))))]\<rparr>) t)"
proof -
  let ?D = "lg_dev s" and ?b = "lg_start s" and ?d = "dsk s (unat (lg_start s))"
  have wf: "wf_log s" using assms(1) by (simp add: quiet_def)
  from quiet_bread [OF assms(1) start_on_dev [OF wf]] obtain i s1 where r: "xv6bread ?D ?b s = Some (i, s1)"
    and s1: "binv ?D X P s1" "bptr ?D s1 i ?b" "b_data (bufs s1 ! i) = view ?D {} s ?b" "held ?D s1 = {?b}"
      "only_cache s s1" "lkept s s1" by metis
  have v: "b_data (bufs s1 ! i) = ?d"
    using s1(3) clean_view [of ?D X P s ?b] assms by (simp add: quiet_def)
  let ?xs = "map (head_block ?d) [0..<nat (head_n ?d)]"
  define s2 where "s2 = s1\<lparr>lh := ?xs\<rparr>"
  have s2: "binv ?D X P s2" "bptr ?D s2 i ?b" "bufs s2 = bufs s1" "dsk s2 = dsk s1" using s1 by (simp_all add: s2_def)
  have cl: "?b \<in> P \<or> ?b \<in> X \<or> b_data (bufs s2 ! i) = dsk s2 (unat ?b)" using v s2(3,4) only_cacheD(1) [OF s1(5)] by simp
  define t where "t = xv6brelse i s2"
  note e = brelse_ok [OF s2(1,2) cl, folded t_def]
  note lk = only_cache_log [OF e(4)] and oc = only_cacheD [OF e(4)] and oc1 = only_cacheD [OF s1(5)]
  have f: "dsk t = dsk s" "wtrace t = wtrace s" "lkept (s\<lparr>lh := ?xs\<rparr>) t"
    using oc oc1 lk s1(6) by (simp_all add: s2_def lkept_def)
  then have wft: "wf_log t" "lg_dev t = ?D" using wf by (simp_all add: wf_log_def singles_ok_def on_dev_def lkept_def)
  have "held ?D t = {}" using e(2) s1(4) by (simp add: s2_def)
  then have "quiet X P t" using assms(1) e(1) wft by (simp add: quiet_def)
  moreover have "read_head s = Some t"
    using assms(4) by (simp add: read_head_def r v Let_def XV6FS_LOGBLOCKS_def s2_def [symmetric] t_def [symmetric])
  ultimately show ?thesis using f by simp
qed

section \<open>Writing the log\<close>

lemma pinned_chas:
  assumes "binv (lg_dev s) X P s" and "others_kept (lg_dev s) b s t" and "lg_dev t = lg_dev s" and "c \<in> P" and "c \<noteq> b" and "chas s c y"
  shows "chas t c y"
proof -
  obtain i where i: "bhash_find (lg_dev s) c s = Some i" "b_valid (bufs s ! i)" "b_data (bufs s ! i) = y"
    using assms(6) by (auto simp: chas_def)
  obtain j where "bhash_find (lg_dev s) c s = Some j" "b_refcnt (bufs s ! j) \<noteq> 0"
    using pinned_cached [OF assms(1,4)] by blast
  with i have "b_refcnt (bufs s ! i) \<noteq> 0" by simp
  from others_keptD2 [OF assms(2,5) i(1) this] show ?thesis using i assms(3) by (auto simp: chas_def)
qed

lemma gather_step:
  assumes "quiet X P s" and "b \<in> P" and "on_dev s (unat b)" and "chas s b x"
  shows "ok (xv6bread (lg_dev s) b s) (\<lambda>(i, s1). b_data (bufs s1 ! i) = x \<and> lkept s s1 \<and> g_stage s1 = g_stage s \<and>
     (let t = xv6brelse i (stage_put k x s1)
      in quiet X P t \<and> lkept s t \<and> dsk t = dsk s \<and> wtrace t = wtrace s \<and> g_stage_valid t = g_stage_valid s \<and>
         g_stage t = map_option (\<lambda>m. m(k := x)) (g_stage s) \<and> (\<forall>c y. c \<in> P \<longrightarrow> chas s c y \<longrightarrow> chas t c y)))"
proof -
  let ?D = "lg_dev s"
  from quiet_bread [OF assms(1,3)] obtain i s1 where r: "xv6bread ?D b s = Some (i, s1)"
    and s1: "binv ?D X P s1" "bptr ?D s1 i b" "b_data (bufs s1 ! i) = view ?D {} s b" "held ?D s1 = {b}"
      "only_cache s s1" "others_kept ?D b s s1" "lkept s s1" "same_stage s s1" by metis
  have v: "b_data (bufs s1 ! i) = x" using s1(3) chas_view [OF assms(4)] by simp
  define s2 where "s2 = stage_put k x s1"
  have s2: "binv ?D X P s2" "bptr ?D s2 i b" "held ?D s2 = {b}" "lkept s1 s2" "dsk s2 = dsk s1" "wtrace s2 = wtrace s1"
      "bufs s2 = bufs s1" "htab s2 = htab s1" "g_stage s2 = map_option (\<lambda>m. m(k := x)) (g_stage s)"
      "g_stage_valid s2 = g_stage_valid s"
    using s1 by (simp_all add: s2_def stage_put_def lkept_def same_stage_def)
  define t where "t = xv6brelse i s2"
  note e = brelse_ok [OF s2(1,2) disjI1 [OF assms(2)], folded t_def]
  have lk: "lkept s t" using lkept_trans [OF s1(7) lkept_trans [OF s2(4) only_cache_log(1) [OF e(4)]]] .
  have D: "lg_dev t = ?D" using lk by (simp add: lkept_def)
  have "quiet X P t" using assms(1) e(1,2) s2(3) lkept_wf [OF lk] by (simp add: quiet_def D)
  moreover have "g_stage t = map_option (\<lambda>m. m(k := x)) (g_stage s)" "g_stage_valid t = g_stage_valid s"
    using only_cache_log(2) [OF e(4)] s2 by (simp_all add: same_stage_def)
  moreover have "dsk t = dsk s" "wtrace t = wtrace s"
    using only_cacheD [OF e(4)] s2(5,6) only_cacheD [OF s1(5)] by simp_all
  moreover have "chas t c y" if "c \<in> P" "chas s c y" for c y
  proof (cases "c = b")
    case True
    then have "y = x" using that(2) assms(4) by (auto simp: chas_def)
    then show ?thesis using True e(6) [of b] e(7,8) s2(2,7) v by (auto simp: chas_def bptr_def D)
  next
    case False
    have b: "binv ?D X P s" using assms(1) by (simp add: quiet_def)
    have ok2: "others_kept ?D b s s2" using others_kept_cong [OF s2(7,8)] s1(6) by simp
    have "others_kept ?D b s t" by (rule others_kept_trans [OF s2(1) ok2 e(5)])
    then show ?thesis using pinned_chas [OF b _ D that(1) False that(2)] by simp
  qed
  ultimately show ?thesis using r v lk s1(7,8) by (simp add: s2_def [symmetric] t_def [symmetric] Let_def same_stage_def)
qed

lemma gather_loop_ok:
  assumes "quiet X (set (lh s)) s" and "wf_blocks s (lh s)" and "g_stage s \<noteq> None"
    and "\<forall>k \<in> set ks. k < length (lh s)" and "\<forall>k < length (lh s). chas s (lh s ! k) (L k)"
  shows "ok (gather_loop ks s) (\<lambda>t. quiet X (set (lh s)) t \<and> lkept s t \<and> dsk t = dsk s \<and> wtrace t = wtrace s \<and>
    g_stage t \<noteq> None \<and> (\<forall>k. stage_block k t = (if k \<in> set ks then L k else stage_block k s)) \<and>
    (\<forall>k < length (lh s). chas t (lh s ! k) (L k)))"
  using assms
proof (induction ks arbitrary: s)
  case (Cons k ks)
  let ?b = "lh s ! k"
  have k: "k < length (lh s)" using Cons.prems(4) by simp
  have bp: "?b \<in> set (lh s)" "on_dev s (unat ?b)" using k wf_blocks_nth [OF Cons.prems(2) k] by simp_all
  have c: "chas s ?b (L k)" using Cons.prems(5) k by simp
  from gather_step [OF Cons.prems(1) bp c, of k] obtain i s1 t where g: "xv6bread (lg_dev s) ?b s = Some (i, s1)"
    "b_data (bufs s1 ! i) = L k" "t = xv6brelse i (stage_put k (L k) s1)"
    and t: "quiet X (set (lh s)) t" "lkept s t" "dsk t = dsk s" "wtrace t = wtrace s"
      "g_stage t = map_option (\<lambda>m. m(k := L k)) (g_stage s)" "\<forall>c y. c \<in> set (lh s) \<longrightarrow> chas s c y \<longrightarrow> chas t c y"
    by (auto simp: ok_def Let_def)
  have lh: "lh t = lh s" using t(2) by (simp add: lkept_def)
  have "ok (gather_loop ks t) (\<lambda>u. quiet X (set (lh t)) u \<and> lkept t u \<and> dsk u = dsk t \<and> wtrace u = wtrace t \<and>
    g_stage u \<noteq> None \<and> (\<forall>j. stage_block j u = (if j \<in> set ks then L j else stage_block j t)) \<and>
    (\<forall>k < length (lh t). chas u (lh t ! k) (L k)))"
    using Cons.prems t by (intro Cons.IH) (simp_all add: lh wf_blocks_kept)
  moreover have "stage_block j t = (if j = k then L k else stage_block j s)" for j
    using Cons.prems(3) t(5) by (auto simp: stage_block_def)
  ultimately show ?case unfolding gather_loop.simps g(1) bind.simps prod.case g(2) g(3) [symmetric] lh
    by (elim ok_conseq) (use t lkept_trans [OF t(2)] in auto)
qed (auto simp: lkept_def)

text \<open>One block of the log written through the cache.\<close>

lemma write_log_step:
  assumes "quiet Y P s" and "b \<in> P" and "on_dev s (unat b)" and "chas s b x" and "home s b" and "k < 126" and "lblk s k \<notin> P"
    and "lh s ! k = b"
  shows "ok (write_log_block k s)
     (\<lambda>t. quiet (Y - {lblk s k}) P t \<and> wrote (unat ` log_data s) {lblk s k} {(lblk s k, x)} s t \<and>
        (\<forall>c y. c \<in> P \<longrightarrow> chas s c y \<longrightarrow> chas t c y))"
proof -
  let ?D = "lg_dev s" and ?l = "lblk s k"
  have wf: "wf_log s" using assms(1) by (simp add: quiet_def)
  have lb: "?l \<noteq> b" by (rule home_not_log(1) [OF wf assms(5,6)])
  have lA: "?l \<in> log_data s" using assms(6) by (auto simp: log_data_def lblk_def)
  have bi: "binv ?D Y P s" using assms(1) by (simp add: quiet_def)
  from quiet_bread [OF assms(1) lblk_on_dev [OF wf assms(6)]] obtain i s1 where r: "xv6bread ?D ?l s = Some (i, s1)"
    and s1: "binv ?D Y P s1" "bptr ?D s1 i ?l" "held ?D s1 = {?l}" "only_cache s s1" "others_kept ?D ?l s s1" "lkept s s1"
    by metis
  have D1: "lg_dev s1 = ?D" using s1(6) by (simp add: lkept_def)
  have c1: "chas s1 c y" if "c \<in> P" "chas s c y" for c y
    by (rule pinned_chas [OF bi s1(5) D1 that(1) _ that(2)]) (use that(1) assms(7) in auto)
  have q1: "b \<notin> held ?D s1" "card (held ?D s1) + card P < length (bufs s1)" "singles_ok s1" "on_dev s1 (unat b)"
    using assms(1,3) s1(3) lb only_cache_dev [OF s1(4)] only_cacheD [OF s1(4)] by (auto simp: quiet_def wf_log_def)
  have vb: "view ?D {} s1 b = x" using chas_view [OF c1 [OF assms(2,4)]] D1 by simp
  from bread_ok [OF s1(1) q1] obtain j s2 where r2: "xv6bread ?D b s1 = Some (j, s2)"
    and s2: "binv ?D Y P s2" "bptr ?D s2 j b" "b_data (bufs s2 ! j) = x" "held ?D s2 = {b, ?l}" "only_cache s1 s2"
      "others_kept ?D b s1 s2"
    using s1(3) vb by (auto simp: ok_def)
  have p2: "bptr ?D s2 i ?l" by (rule others_kept_bptr [OF s1(1) s2(6) s1(2) lb])
  have ij: "i \<noteq> j" using find_inj [OF s2(1)] s2(2) p2 lb by (auto simp: bptr_def)
  define s3 where "s3 = bset i x s2"
  note b3 = bset_ok [OF s2(1) p2, where d = x, folded s3_def]
  have oc3: "only_cache s s3" by (rule only_cache_trans [OF only_cache_trans [OF s1(4) s2(5)] b3(5)])
  have p3: "bptr ?D s3 i ?l" "bptr ?D s3 j b" using b3(3) s2(2) p2 by simp_all
  have dev3: "singles_ok s3" "on_dev s3 (unat ?l)"
    using only_cache_dev [OF oc3] wf lblk_on_dev [OF wf assms(6)] by (simp_all add: wf_log_def)
  have D3: "lg_dev s3 = ?D" using only_cache_log(1) [OF oc3] by (simp add: lkept_def)
  define s4 where "s4 = xv6bwrite i s3"
  note b4 = bwrite_ok [OF b3(1) p3(1) dev3, folded s4_def]
  have w4: "wrote (unat ` log_data s) {?l} {(?l, x)} s3 s4"
    using wrote_bwrite [of s3 Y P i ?l "unat ` log_data s"] b3(1) p3(1) dev3 lA by (simp add: D3 b3(7) s4_def)
  have p4: "bptr ?D s4 i ?l" "bptr ?D s4 j b" using b4(3) p3 by simp_all
  define s5 where "s5 = xv6brelse j s4"
  note b5 = brelse_ok [OF b4(1) p4(2) disjI1 [OF assms(2)], folded s5_def]
  have p5: "bptr ?D s5 i ?l" using b5(9) [OF lb] p4(1) by simp
  have d5: "b_data (bufs s5 ! i) = dsk s5 (unat ?l)"
  proof -
    have "bhash_find ?D ?l s5 = Some i" using p5 by (simp add: bptr_def)
    then have "bufs s5 ! i = bufs s4 ! i" using others_keptD1 [OF b5(5) lb] by metis
    then show ?thesis using b4(5,6) only_cacheD(1) [OF b5(4)] by simp
  qed
  define t where "t = xv6brelse i s5"
  note b6 = brelse_ok [OF b5(1) p5 disjI2 [OF disjI2 [OF d5]], folded t_def]
  have wt: "wrote (unat ` log_data s) {?l} {(?l, x)} s t"
    using wrote_trans [OF wrote_trans [OF wrote_cache [OF oc3] w4] wrote_cache [OF only_cache_trans [OF b5(4) b6(4)]]] by simp
  then have lk: "lkept s t" by (simp add: wrote_def)
  have D: "lg_dev t = ?D" using lk by (simp add: lkept_def)
  have "held ?D t = {}" using b6(2) b5(2) b4(2) b3(2) s2(4) lb by auto
  then have "quiet (Y - {?l}) P t" using assms(1) b6(1) lkept_wf [OF lk] by (simp add: quiet_def D)
  moreover have "chas t c y" if c: "c \<in> P" "chas s c y" for c y
  proof (cases "c = b")
    case True
    then have "y = x" using c(2) assms(4) by (auto simp: chas_def)
    moreover have "bhash_find ?D b s5 = Some j" using b5(6) p4(2) by (simp add: bptr_def)
    moreover have j: "b_data (bufs s5 ! j) = x" "b_valid (bufs s5 ! j)"
      using b5(7,8) b4(6) s2(3) ij by (simp_all add: s3_def bset_def)
    moreover have "bhash_find ?D b t = Some j" using b6(6) [of b] b5(6) [of b] p4(2) by (simp add: bptr_def)
    moreover from this have "bufs t ! j = bufs s5 ! j" using others_keptD1 [OF b6(5)] lb by metis
    ultimately show ?thesis using True by (simp add: chas_def D)
  next
    case False
    have cl: "c \<noteq> ?l" using c(1) assms(7) by auto
    have D2: "lg_dev s2 = ?D" "lg_dev s4 = ?D" "lg_dev s5 = ?D"
      using only_cache_log(1) [OF s2(5)] D1 only_cache_log(1) [OF b5(4)] w4 D3 by (simp_all add: lkept_def wrote_def)
    have "chas s1 c y" by (rule c1 [OF c])
    then have "chas s2 c y" using pinned_chas [OF _ _ _ c(1) False] s1(1) s2(6) D1 D2 by metis
    then have "chas s3 c y" using pinned_chas [OF _ _ _ c(1) cl] s2(1) b3(6) D3 D2 by metis
    then have "chas s4 c y" using pinned_chas [OF _ _ _ c(1) cl] b3(1) b4(7) D3 D2 by metis
    then have "chas s5 c y" using pinned_chas [OF _ _ _ c(1) False] b4(1) b5(5) D2 by metis
    then show ?thesis using pinned_chas [OF _ _ _ c(1) cl] b5(1) b6(5) D2 D by metis
  qed
  ultimately show ?thesis using wt s1(6)
    by (simp add: write_log_block_def r [unfolded lblk_def] lkept_def assms(8) D1 r2 s2(3) s3_def [symmetric] s4_def [symmetric] s5_def [symmetric] t_def [symmetric])
qed

lemma lblk_inj:
  assumes "wf_log s" and "j < 126" and "k < 126" and "lblk s j = lblk s k"
  shows "j = k"
proof -
  have "unat (lblk s j) = unat (lblk s k)" using assms(4) by (rule arg_cong)
  then show ?thesis unfolding lblk_unat [OF assms(1,2)] lblk_unat [OF assms(1,3)] by linarith
qed

lemma write_log_loop_ok:
  assumes "quiet Y (set (lh s)) s" and "wf_blocks s (lh s)" and "distinct ks" and "\<forall>k \<in> set ks. k < length (lh s)"
    and "\<forall>k < length (lh s). chas s (lh s ! k) (L k)"
  shows "ok (write_log_loop ks s) (\<lambda>t. quiet (Y - lblk s ` set ks) (set (lh s)) t \<and>
    wrote (unat ` log_data s) (lblk s ` set ks) ((\<lambda>k. (lblk s k, L k)) ` set ks) s t)"
  using assms
proof (induction ks arbitrary: s Y)
  case Nil
  then show ?case by (simp add: wrote_cache)
next
  case (Cons k ks)
  have k: "k < length (lh s)" "k < 126" using Cons.prems(2,4) by (auto simp: wf_blocks_def)
  have wf: "wf_log s" using Cons.prems(1) by (simp add: quiet_def)
  have h: "home s (lh s ! k)" "on_dev s (unat (lh s ! k))" using wf_blocks_nth [OF Cons.prems(2) k(1)] by simp_all
  have lP: "lblk s k \<notin> set (lh s)" using home_not_log(1) [OF wf _ k(2)] Cons.prems(2) by (auto simp: wf_blocks_def)
  have "ok (write_log_block k s)
     (\<lambda>t. quiet (Y - {lblk s k}) (set (lh s)) t \<and> wrote (unat ` log_data s) {lblk s k} {(lblk s k, L k)} s t \<and>
        (\<forall>c y. c \<in> set (lh s) \<longrightarrow> chas s c y \<longrightarrow> chas t c y))"
    by (rule write_log_step [where b = "lh s ! k"]) (use Cons.prems k h lP in simp_all)
  then obtain t where eq: "write_log_block k s = Some t" and t: "quiet (Y - {lblk s k}) (set (lh s)) t"
      "quiet (Y - {lblk s k}) (set (lh s)) t"
      "wrote (unat ` log_data s) {lblk s k} {(lblk s k, L k)} s t" "\<forall>c y. c \<in> set (lh s) \<longrightarrow> chas s c y \<longrightarrow> chas t c y"
    by (auto simp: ok_def)
  have lk: "lkept s t" using t(3) by (simp add: wrote_def)
  have lh: "lh t = lh s" using lk by (simp add: lkept_def)
  have "ok (write_log_loop ks t) (\<lambda>u. quiet (Y - {lblk s k} - lblk t ` set ks) (set (lh t)) u \<and>
    wrote (unat ` log_data t) (lblk t ` set ks) ((\<lambda>k. (lblk t k, L k)) ` set ks) t u)"
    using Cons.prems t by (intro Cons.IH) (simp_all add: lh wf_blocks_kept [OF lk])
  moreover have "Y - lblk s ` set (k # ks) = Y - {lblk s k} - lblk s ` set ks" by auto
  ultimately have IH: "ok (write_log_loop ks t) (\<lambda>u. quiet (Y - lblk s ` set (k # ks)) (set (lh s)) u \<and>
    wrote (unat ` log_data s) (lblk s ` set ks) ((\<lambda>k. (lblk s k, L k)) ` set ks) t u)"
    by (simp only: lh lblk_kept [OF lk] lkept_data [OF lk])
  have "lblk s k \<notin> lblk s ` set ks"
  proof
    assume "lblk s k \<in> lblk s ` set ks"
    then obtain j where j: "j \<in> set ks" "lblk s k = lblk s j" by blast
    then have "j < 126" using Cons.prems(2,4) by (auto simp: wf_blocks_def)
    then have "k = j" using lblk_inj [OF wf k(2)] j(2) by blast
    then show False using j(1) Cons.prems(3) by simp
  qed
  then have "wrote (unat ` log_data s) (lblk s ` set (k # ks)) ((\<lambda>k. (lblk s k, L k)) ` set (k # ks)) s u"
    if "wrote (unat ` log_data s) (lblk s ` set ks) ((\<lambda>k. (lblk s k, L k)) ` set ks) t u" for u
    using wrote_trans [OF t(3) that] by simp
  then show ?case using IH by (auto simp: eq elim!: ok_conseq)
qed

text \<open>After \<open>write_log\<close> the log area holds the contents of the logged blocks, and either the staging
  buffer has them too or the log blocks in the cache agree with the disk.\<close>

definition log_written :: "(nat \<Rightarrow> block) \<Rightarrow> 'a xlog_scheme \<Rightarrow> 'a xlog_scheme \<Rightarrow> bool" where
  "log_written L s t \<longleftrightarrow> lkept s t \<and> within (only_blocks (unat ` log_data s) (dsk s)) s t \<and>
     (\<forall>k < length (lh s). dsk t (unat (lblk s k)) = L k) \<and> (\<forall>c. c \<notin> unat ` log_data s \<longrightarrow> dsk t c = dsk s c)"

lemma write_log_ok:
  assumes "quiet (log_data s) (set (lh s)) s" and "wf_blocks s (lh s)" and "lh s \<noteq> []"
    and "\<forall>k < length (lh s). chas s (lh s ! k) (L k)"
  shows "ok (write_log s) (\<lambda>t. \<exists>Y. Y \<subseteq> log_data s \<and> quiet Y (set (lh s)) t \<and> log_written L s t \<and>
    (g_stage t \<noteq> None \<and> g_stage_valid t \<longrightarrow> (\<forall>k < length (lh s). stage_block k t = L k)) \<and>
    (g_stage t = None \<or> \<not> g_stage_valid t \<longrightarrow> (\<forall>k < length (lh s). lblk s k \<notin> Y)))"
    (is "ok _ ?Q")
proof -
  let ?xs = "lh s" and ?A = "unat ` log_data s"
  have wf: "wf_log s" using assms(1) by (simp add: quiet_def)
  have n: "length ?xs \<le> 126" using assms(2) by (simp add: wf_blocks_def)
  have lin: "lblk s k \<in> log_data s" if "k < length ?xs" for k using that n by (auto simp: log_data_def lblk_def)
  have lsub: "lblk s ` set [0..<length ?xs] \<subseteq> log_data s" using lin by auto
  have loop: "ok (write_log_loop [0..<length ?xs] s') ?Q"
    if s': "quiet (log_data s) (set ?xs) s'" "lkept s s'" "within (only_blocks ?A (dsk s)) s s'"
        "\<forall>c. c \<notin> ?A \<longrightarrow> dsk s' c = dsk s c" "\<forall>k < length ?xs. chas s' (?xs ! k) (L k)" "g_stage s' = None \<or> \<not> g_stage_valid s'" for s'
  proof -
    note k = lkept_data [OF s'(2)] lblk_kept [OF s'(2)] wf_blocks_kept [OF s'(2)]
    have lh: "lh s' = ?xs" using s'(2) by (simp add: lkept_def)
    have "ok (write_log_loop [0..<length (lh s')] s') (\<lambda>t. quiet (log_data s - lblk s' ` set [0..<length (lh s')]) (set (lh s')) t \<and>
      wrote (unat ` log_data s') (lblk s' ` set [0..<length (lh s')]) ((\<lambda>k. (lblk s' k, L k)) ` set [0..<length (lh s')]) s' t)"
      by (rule write_log_loop_ok) (use s' assms(2) in \<open>simp_all add: lh k\<close>)
    then show ?thesis unfolding lh k
    proof (rule ok_conseq, elim conjE)
      fix t assume t: "quiet (log_data s - lblk s ` set [0..<length ?xs]) (set ?xs) t"
        "wrote ?A (lblk s ` set [0..<length ?xs]) ((\<lambda>k. (lblk s k, L k)) ` set [0..<length ?xs]) s' t"
      have wt: "within (only_blocks ?A (dsk s')) s' t" "lkept s' t" "same_stage s' t" using t(2) by (simp_all add: wrote_def)
      have "within (only_blocks ?A (dsk s)) s t" by (rule within_only_trans [OF s'(3) wt(1)])
      moreover have "dsk t c = dsk s c" if "c \<notin> ?A" for c
      proof -
        have "c \<notin> unat ` lblk s ` set [0..<length ?xs]" using that lsub by blast
        then show ?thesis using that t(2) s'(4) by (simp add: wrote_def)
      qed
      moreover have "lkept s t" by (rule lkept_trans [OF s'(2) wt(2)])
      moreover have "dsk t (unat (lblk s k)) = L k" if "k < length ?xs" for k
        using that t(2) by (auto simp: wrote_def)
      ultimately have "log_written L s t" by (simp add: log_written_def)
      moreover have "g_stage t = None \<or> \<not> g_stage_valid t" using wt(3) s'(6) by (simp add: same_stage_def)
      ultimately show "?Q t"
        by (intro exI [of _ "log_data s - lblk s ` set [0..<length ?xs]"]) (use t(1) in auto)
    qed
  qed
  show ?thesis
  proof (cases "g_stage s = None")
    case True
    then have "write_log s = write_log_loop [0..<length ?xs] s" by (simp add: write_log_def)
    then show ?thesis using loop [of s] True assms by (simp add: within_refl)
  next
    case False
    have "ok (gather_loop [0..<length ?xs] s) (\<lambda>t. quiet (log_data s) (set ?xs) t \<and> lkept s t \<and> dsk t = dsk s \<and> wtrace t = wtrace s \<and>
      g_stage t \<noteq> None \<and> (\<forall>k. stage_block k t = (if k \<in> set [0..<length ?xs] then L k else stage_block k s)) \<and>
      (\<forall>k < length ?xs. chas t (?xs ! k) (L k)))"
      by (rule gather_loop_ok) (use assms False in auto)
    then obtain s1 where g: "gather_loop [0..<length ?xs] s = Some s1"
      and s1: "quiet (log_data s) (set ?xs) s1" "lkept s s1" "dsk s1 = dsk s" "wtrace s1 = wtrace s" "g_stage s1 \<noteq> None"
        "\<And>k. k < length ?xs \<Longrightarrow> stage_block k s1 = L k" "\<forall>k < length ?xs. chas s1 (?xs ! k) (L k)"
      by (auto simp: ok_def)
    have f1: "lg_start s1 = lg_start s" "lh s1 = ?xs" using s1(2) by (simp_all add: lkept_def)
    let ?u = "unat (lg_start s + 1)" and ?m = "\<lambda>k. stage_block k s1"
    have lu: "?u + k = unat (lblk s k)" if "k < length ?xs" for k
      using that n lblk_unat [OF wf, of k] lblk_unat [OF wf, of 0] by (simp add: lblk_def)
    have sub: "{?u..<?u + length ?xs} \<subseteq> ?A"
    proof
      fix c assume "c \<in> {?u..<?u + length ?xs}"
      then obtain k where "c = ?u + k" "k < length ?xs" using le_Suc_ex by auto
      then show "c \<in> ?A" using lu lin by auto
    qed
    have other: "put_sectors ws (dsk s) c = dsk s c" if "set ws \<subseteq> set (run_sectors ?u (length ?xs) ?m)" "c \<notin> ?A" for ws c
    proof (rule put_sectors_other)
      have "fst ` set ws \<subseteq> {?u..<?u + length ?xs}" using that(1) run_sectors_blocks by (metis image_mono)
      then show "c \<notin> fst ` set ws" using that(2) sub by auto
    qed
    have frame: "quiet (log_data s) (set ?xs) (s1\<lparr>dsk := put_sectors ws (dsk s1), io_seq := q, wtrace := w\<rparr>)"
      if ws: "set ws \<subseteq> set (run_sectors ?u (length ?xs) ?m)" for ws q w
    proof -
      let ?t = "s1\<lparr>dsk := put_sectors ws (dsk s1), io_seq := q, wtrace := w\<rparr>"
      have b: "binv (lg_dev s1) (log_data s) (set ?xs) s1" using s1(1) by (simp add: quiet_def)
      have "binv (lg_dev s1) (log_data s) (set ?xs) ?t"
      proof (rule binv_dsk [OF b])
        fix c i assume a: "bhash_find (lg_dev s1) c s1 = Some i" "b_valid (bufs s1 ! i)" "\<not> b_locked (bufs s1 ! i)"
          "c \<notin> set ?xs" "c \<notin> log_data s"
        then have "unat c \<notin> ?A" by auto
        then show "b_data (bufs s1 ! i) = dsk ?t (unat c)" using coherent [OF b a] other [OF ws] s1(3) by simp
      qed (use b in \<open>simp_all add: binv_def\<close>)
      then show ?thesis using s1(1) by (simp add: quiet_def wf_log_def singles_ok_def on_dev_def)
    qed
    show ?thesis
    proof (rule write_run_cases [of "lg_start s + 1" "length ?xs" ?m s1])
      let ?ws = "run_sectors ?u (length ?xs) ?m"
      let ?t = "s1\<lparr>dsk := put_sectors ?ws (dsk s1), io_seq := io_seq s1 + 1, wtrace := wtrace s1 @ [?ws]\<rparr>"
      assume w: "xv6bio_write_run (lg_start s + 1) (length ?xs) ?m s1 = (0, ?t)"
      have "dsk ?t (unat (lblk s k)) = L k" if "k < length ?xs" for k
        using that s1(6) by (simp add: put_run_sectors lu [symmetric])
      moreover have "within (only_blocks ?A (dsk s)) s ?t"
        by (rule within_run [OF _ _ order_refl sub, of _ _ ?m]) (simp_all add: s1)
      ultimately have "log_written L s (?t\<lparr>g_stage_valid := True\<rparr>)"
        using s1(2,3) other [OF order_refl] by (simp add: log_written_def lkept_def within_def)
      moreover have "write_log s = Some (?t\<lparr>g_stage_valid := True\<rparr>)"
        using False assms(3) by (simp add: write_log_def g f1 w [unfolded One_nat_def])
      ultimately show ?thesis using frame [OF order_refl] s1(5,6)
        by (auto intro!: exI [of _ "log_data s"] simp: stage_block_def)
    next
      fix ws
      let ?t = "s1\<lparr>dsk := put_sectors ws (dsk s1), io_seq := io_seq s1 + 1, wtrace := wtrace s1 @ [ws]\<rparr>"
      assume ws: "set ws \<subseteq> set (run_sectors ?u (length ?xs) ?m)"
        and w: "xv6bio_write_run (lg_start s + 1) (length ?xs) ?m s1 = (-1, ?t)"
      have "within (only_blocks ?A (dsk s)) s ?t" by (rule within_run [OF _ _ ws sub]) (simp_all add: s1)
      then have "within (only_blocks ?A (dsk s)) s (?t\<lparr>g_stage_valid := False\<rparr>)" by (simp add: within_def)
      moreover have "lkept s (?t\<lparr>g_stage_valid := False\<rparr>)" using s1(2) by (simp add: lkept_def)
      moreover have "chas (?t\<lparr>g_stage_valid := False\<rparr>) (?xs ! k) (L k)" if "k < length ?xs" for k
        using s1(7) that by (simp add: chas_def)
      moreover have "write_log s = write_log_loop [0..<length ?xs] (?t\<lparr>g_stage_valid := False\<rparr>)"
        using False assms(3) by (simp add: write_log_def g f1 w [unfolded One_nat_def])
      ultimately show ?thesis using loop [of "?t\<lparr>g_stage_valid := False\<rparr>"] frame [OF ws] other [OF ws] s1(3) by simp
    next
      assume w: "xv6bio_write_run (lg_start s + 1) (length ?xs) ?m s1 = (-1, s1)"
      have "write_log s = write_log_loop [0..<length ?xs] (s1\<lparr>g_stage_valid := False\<rparr>)"
        using False assms(3) by (simp add: write_log_def g f1 w)
      moreover have "within (only_blocks ?A (dsk s)) s (s1\<lparr>g_stage_valid := False\<rparr>)" by (rule within_refl) (simp_all add: s1)
      moreover have "lkept s (s1\<lparr>g_stage_valid := False\<rparr>)" using s1(2) by (simp add: lkept_def)
      moreover have "chas (s1\<lparr>g_stage_valid := False\<rparr>) (?xs ! k) (L k)" if "k < length ?xs" for k
        using s1(7) that by (simp add: chas_def)
      ultimately show ?thesis using loop [of "s1\<lparr>g_stage_valid := False\<rparr>"] s1(1,3) by simp
    qed
  qed
qed

end
