(* ===== verification/LogCrash.thy ===== *)
theory LogCrash
  imports LogCommit
begin

text \<open>
  Crash safety of the log: a commit that is cut off at any point, even inside a write command, leaves a
  disk from which the recovery at mount reconstructs either all of the old or all of the new contents
  of the home blocks, and a recovery that is itself cut off can simply be run again.
\<close>

section \<open>Replaying a log\<close>

definition replay :: "nat \<Rightarrow> (nat \<Rightarrow> block) \<Rightarrow> nat \<Rightarrow> block" where
  "replay st d c =
     (case find (\<lambda>k. unat (head_block (d st) k) = c) [0..<nat (head_n (d st))] of
        Some k \<Rightarrow> d (st + k + 1) | None \<Rightarrow> d c)"

definition hdr :: "u32 list \<Rightarrow> block \<Rightarrow> bool" where
  "hdr xs b \<longleftrightarrow> head_n b = int (length xs) \<and> (\<forall>k < length xs. head_block b k = xs ! k)"

definition is_home :: "nat \<Rightarrow> nat \<Rightarrow> bool" where
  "is_home st c \<longleftrightarrow> c < st \<or> st + 126 < c"

lemma hdr_put: "length xs \<le> 126 \<Longrightarrow> hdr xs (put_head xs d)"
  by (simp add: hdr_def head_n_put head_block_put)

lemma hdr_half: "hdr xs b \<Longrightarrow> length xs \<le> 126 \<Longrightarrow> \<forall>i < 512. d i = b i \<Longrightarrow> hdr xs d"
  using head_cong [of d b] by (auto simp: hdr_def)

lemma hdr_blocks: "hdr xs b \<Longrightarrow> map (head_block b) [0..<nat (head_n b)] = xs"
  by (rule nth_equalityI) (simp_all add: hdr_def)

lemma replay_entry:
  assumes "hdr xs (d st)" and "distinct xs" and "k < length xs"
  shows "replay st d (unat (xs ! k)) = d (st + k + 1)"
proof -
  have "find (\<lambda>j. unat (head_block (d st) j) = unat (xs ! k)) [0..<length xs] = Some k"
    unfolding find_Some_iff
    by (rule exI [of _ k]) (use assms in \<open>auto simp: hdr_def nth_eq_iff_index_eq\<close>)
  then show ?thesis using assms(1) by (simp add: replay_def hdr_def)
qed

lemma replay_other:
  assumes "hdr xs (d st)" and "c \<notin> unat ` set xs"
  shows "replay st d c = d c"
proof -
  have "find (\<lambda>j. unat (head_block (d st) j) = c) [0..<length xs] = None"
    unfolding find_None_iff using assms by (auto simp: hdr_def)
  then show ?thesis using assms(1) by (simp add: replay_def hdr_def)
qed

lemma replay_empty: "hdr [] (d st) \<Longrightarrow> replay st d = d"
  by (rule ext) (simp add: replay_other)

text \<open>A header that recovery can act on.\<close>

definition good_disk :: "'a xlog_scheme \<Rightarrow> (nat \<Rightarrow> block) \<Rightarrow> bool" where
  "good_disk s d \<longleftrightarrow> (\<exists>xs. hdr xs (d (unat (lg_start s))) \<and> wf_blocks s xs)"

lemma good_disk_kept: "lkept s t \<Longrightarrow> good_disk t = good_disk s"
proof (rule ext)
  fix d assume l: "lkept s t"
  then have "lg_start t = lg_start s" by (simp add: lkept_def)
  then show "good_disk t d = good_disk s d" by (simp add: good_disk_def wf_blocks_kept [OF l])
qed

lemma home_is_home: "home s b \<Longrightarrow> is_home (unat (lg_start s)) (unat b)"
  by (auto simp: home_def is_home_def)

lemma log_data_not_home:
  assumes "wf_log s" and "c \<in> unat ` log_data s"
  shows "\<not> is_home (unat (lg_start s)) c" "c \<noteq> unat (lg_start s)"
proof -
  obtain k where k: "k < 126" "c = unat (lblk s k)" using assms(2) by (auto simp: log_data_def lblk_def)
  then have "c = unat (lg_start s) + k + 1" using lblk_unat [OF assms(1)] by simp
  then show "\<not> is_home (unat (lg_start s)) c" "c \<noteq> unat (lg_start s)" using k(1) by (auto simp: is_home_def)
qed

lemma start_not_home: "\<not> is_home st st"
  by (simp add: is_home_def)

lemma wf_blocks_home:
  assumes "wf_blocks s xs" and "\<not> is_home (unat (lg_start s)) c"
  shows "c \<notin> unat ` set xs"
proof
  assume "c \<in> unat ` set xs"
  then obtain b where "b \<in> set xs" "c = unat b" by blast
  then show False using assms home_is_home [of s b] by (simp add: wf_blocks_def)
qed

lemma home_not_start: "is_home st c \<Longrightarrow> c \<noteq> st"
  by (auto simp: is_home_def)

text \<open>Any change of the logged home blocks is undone by a replay.\<close>

lemma replay_install:
  assumes "hdr xs (d (unat (lg_start s)))" and "wf_blocks s xs" and "e \<in> only_blocks (unat ` set xs) d"
  shows "hdr xs (e (unat (lg_start s)))" "replay (unat (lg_start s)) e = replay (unat (lg_start s)) d"
proof -
  let ?st = "unat (lg_start s)"
  have same: "e c = d c" if "c \<notin> unat ` set xs" for c using assms(3) that by (simp add: only_blocks_def)
  have n: "length xs \<le> 126" and di: "distinct xs" using assms(2) by (simp_all add: wf_blocks_def)
  show he: "hdr xs (e ?st)"
    using assms(1) same [OF wf_blocks_home [OF assms(2) start_not_home]] by simp
  show "replay ?st e = replay ?st d"
  proof (rule ext)
    fix c
    show "replay ?st e c = replay ?st d c"
    proof (cases "c \<in> unat ` set xs")
      case True
      then obtain k where k: "k < length xs" "c = unat (xs ! k)" by (auto simp: in_set_conv_nth)
      have "\<not> is_home ?st (?st + k + 1)" using k n by (simp add: is_home_def)
      then have "e (?st + k + 1) = d (?st + k + 1)" by (intro same wf_blocks_home [OF assms(2)])
      then show ?thesis unfolding k(2) replay_entry [of xs e ?st, OF he di k(1)]
        replay_entry [of xs d ?st, OF assms(1) di k(1)] .
    next
      case False
      then show ?thesis
        using replay_other [of xs e ?st c, OF he False] replay_other [of xs d ?st c, OF assms(1) False] same by simp
    qed
  qed
qed

text \<open>A header write: the sector with the header is old or new, the rest of the disk is untouched.\<close>

lemma head_write:
  assumes "set ws \<subseteq> set (run_sectors st 1 (\<lambda>_. put_head ys (d st)))" and "hdr xs (d st)"
    and "length xs \<le> 126" and "length ys \<le> 126"
  shows "(hdr xs (put_sectors ws d st) \<or> hdr ys (put_sectors ws d st)) \<and> (\<forall>c. c \<noteq> st \<longrightarrow> put_sectors ws d c = d c)"
proof
  from put_half [OF assms(1), of d]
  show "hdr xs (put_sectors ws d st) \<or> hdr ys (put_sectors ws d st)"
    using hdr_half [OF assms(2,3)] hdr_half [OF hdr_put [OF assms(4)] assms(4)] by blast
  have "fst ` set ws \<subseteq> {st..<st + 1}" using assms(1) run_sectors_blocks by (metis image_mono)
  then show "\<forall>c. c \<noteq> st \<longrightarrow> put_sectors ws d c = d c" by (auto intro!: put_sectors_other)
qed

lemma wrote_head_cmd:
  assumes "wrote_head H s t"
  shows "wtrace t = wtrace s @ [run_sectors (unat (lg_start s)) 1 (\<lambda>_. H)]"
    "dsk t = put_sectors (run_sectors (unat (lg_start s)) 1 (\<lambda>_. H)) (dsk s)"
  using assms by (auto simp: wrote_head_def put_run_sectors fun_eq_iff)

text \<open>Clearing the header once the home blocks hold what a replay would put there.\<close>

lemma replay_clear:
  assumes "wrote_head (put_head [] (dsk s (unat (lg_start s)))) s t" and "hdr xs (dsk s (unat (lg_start s)))"
    and "wf_blocks s xs" and "\<And>c. is_home (unat (lg_start s)) c \<Longrightarrow> replay (unat (lg_start s)) (dsk s) c = dsk s c"
  shows "within {d. good_disk s d \<and> (\<forall>c. is_home (unat (lg_start s)) c \<longrightarrow> replay (unat (lg_start s)) d c = dsk s c)} s t"
proof (rule within_cmd [OF wrote_head_cmd [OF assms(1)]])
  let ?st = "unat (lg_start s)"
  fix ws assume "set ws \<subseteq> set (run_sectors ?st 1 (\<lambda>_. put_head [] (dsk s ?st)))"
  from head_write [where d = "dsk s" and st = ?st, OF this assms(2)] assms(3)
  have e: "hdr xs (put_sectors ws (dsk s) ?st) \<or> hdr [] (put_sectors ws (dsk s) ?st)"
    "\<And>c. c \<noteq> ?st \<Longrightarrow> put_sectors ws (dsk s) c = dsk s c" by (auto simp: wf_blocks_def)
  let ?e = "put_sectors ws (dsk s)"
  from e(1) show "?e \<in> {d. good_disk s d \<and> (\<forall>c. is_home ?st c \<longrightarrow> replay ?st d c = dsk s c)}"
  proof
    assume h: "hdr xs (?e ?st)"
    have "replay ?st ?e c = replay ?st (dsk s) c" if "is_home ?st c" for c
    proof (cases "c \<in> unat ` set xs")
      case True
      then obtain k where k: "k < length xs" "c = unat (xs ! k)" by (auto simp: in_set_conv_nth)
      have "distinct xs" using assms(3) by (simp add: wf_blocks_def)
      then show ?thesis unfolding k(2)
        using replay_entry [of xs ?e ?st, OF h _ k(1)] replay_entry [of xs "dsk s" ?st, OF assms(2) _ k(1)] e(2) by simp
    next
      case False
      then show ?thesis
        using replay_other [of xs ?e ?st, OF h False] replay_other [of xs "dsk s" ?st, OF assms(2) False]
          e(2) [OF home_not_start [OF that]] by simp
    qed
    then show ?thesis using h assms(3,4) by (auto simp: good_disk_def)
  next
    assume h: "hdr [] (?e ?st)"
    have "wf_blocks s []" by (simp add: wf_blocks_def)
    then show ?thesis using h replay_empty [of ?e ?st, OF h] e(2) home_not_start by (auto simp: good_disk_def)
  qed
qed

section \<open>Recovery\<close>

definition recovered :: "nat \<Rightarrow> (nat \<Rightarrow> block) \<Rightarrow> (nat \<Rightarrow> block) \<Rightarrow> bool" where
  "recovered st d e \<longleftrightarrow> (\<forall>c. is_home st c \<longrightarrow> e c = replay st d c)"

definition replays_as :: "'a xlog_scheme \<Rightarrow> (nat \<Rightarrow> block) \<Rightarrow> (nat \<Rightarrow> block) set" where
  "replays_as s d = {e. good_disk s e \<and> (\<forall>c. is_home (unat (lg_start s)) c \<longrightarrow>
      replay (unat (lg_start s)) e c = replay (unat (lg_start s)) d c)}"

lemma installed_replay:
  assumes "hdr xs (dsk s (unat (lg_start s)))" and "wf_blocks s xs" and "installed xs (\<lambda>k. dsk s (unat (lg_start s) + k + 1)) s t"
  shows "dsk t c = (if c \<in> unat ` set xs \<or> is_home (unat (lg_start s)) c then replay (unat (lg_start s)) (dsk s) c else dsk s c)"
proof (cases "c \<in> unat ` set xs")
  case True
  then obtain k where k: "k < length xs" "c = unat (xs ! k)" by (auto simp: in_set_conv_nth)
  have "distinct xs" using assms(2) by (simp add: wf_blocks_def)
  then show ?thesis using replay_entry [of xs "dsk s", OF assms(1) _ k(1)] True assms(3) k by (simp add: installed_def)
next
  case False
  then show ?thesis using replay_other [of xs "dsk s", OF assms(1) False] assms(3) by (simp add: installed_def)
qed

lemma only_replays_as:
  assumes "hdr xs (d (unat (lg_start s)))" and "wf_blocks s xs"
  shows "only_blocks (unat ` set xs) d \<subseteq> replays_as s d"
proof
  fix e assume "e \<in> only_blocks (unat ` set xs) d"
  from replay_install [OF assms this] assms(2) show "e \<in> replays_as s d"
    by (auto simp: replays_as_def good_disk_def)
qed

lemma recover_ok:
  assumes "quiet {} {} r" and "good_disk r (dsk r)" and "\<forall>k n. io_fault r k n = None"
  shows "ok (recover_from_log r) (\<lambda>t. quiet {} {} t \<and> hdr [] (dsk t (unat (lg_start r))) \<and> lkept (r\<lparr>lh := []\<rparr>) t \<and>
    recovered (unat (lg_start r)) (dsk r) (dsk t) \<and> within (replays_as r (dsk r)) r t)"
proof -
  let ?st = "unat (lg_start r)"
  obtain xs where h: "hdr xs (dsk r ?st)" and wb: "wf_blocks r xs" using assms(2) by (auto simp: good_disk_def)
  have n: "length xs \<le> 126" using wb by (simp add: wf_blocks_def)
  have "ok (read_head r) (\<lambda>t. quiet {} {} t \<and> dsk t = dsk r \<and> wtrace t = wtrace r \<and> lkept (r\<lparr>lh := xs\<rparr>) t)"
    using read_head_ok [OF assms(1)] h n hdr_blocks [OF h] by (simp add: hdr_def)
  then obtain s1 where r1: "read_head r = Some s1" and s1: "quiet {} {} s1" "dsk s1 = dsk r" "wtrace s1 = wtrace r"
      and k1: "lkept (r\<lparr>lh := xs\<rparr>) s1"
    by (auto simp: ok_def)
  then have f1: "io_fault s1 = io_fault r" "sdev s1 = sdev r" "lg_start s1 = lg_start r" "lh s1 = xs"
    by (simp_all add: lkept_def)
  have wb1: "wf_blocks s1 = wf_blocks r" using f1 by (simp add: wf_blocks_def home_def on_dev_def fun_eq_iff)
  have gd: "good_disk s1 = good_disk r" using wb1 f1(3) by (simp add: good_disk_def fun_eq_iff)
  let ?L = "\<lambda>k. dsk s1 (?st + k + 1)"
  have lb: "unat (lblk s1 k) = ?st + k + 1" if "k < length xs" for k
    using lblk_unat [of s1 k] s1(1) f1(3) that n by (simp add: quiet_def)
  have "ok (install_trans True s1) (\<lambda>t. quiet {} {} t \<and> installed (lh s1) ?L s1 t \<and> \<not> g_stage_valid t)"
    by (rule install_trans_ok) (use s1 f1 wb wb1 assms(3) lb in \<open>simp_all add: pins_def\<close>)
  then obtain s2 where r2: "install_trans True s1 = Some s2" and s2: "quiet {} {} s2" "installed xs ?L s1 s2"
    by (auto simp: ok_def f1(4))
  have lk: "lkept s1 s2" using s2(2) by (simp add: installed_def)
  let ?s2 = "s2\<lparr>lh := []\<rparr>"
  have f2: "lg_start ?s2 = lg_start r" "wf_blocks ?s2 = wf_blocks r" "good_disk ?s2 = good_disk r"
    using lk f1(3) wf_blocks_kept [OF lk] wb1 gd
    by (simp_all add: lkept_def fun_eq_iff good_disk_def)
  have fin2: "dsk s2 c = (if c \<in> unat ` set xs \<or> is_home ?st c then replay ?st (dsk r) c else dsk r c)" for c
    using installed_replay [of xs s1 s2 c] h wb wb1 s2(2) s1(2) f1(3) by simp
  have only: "dsk s2 \<in> only_blocks (unat ` set xs) (dsk s1)"
    using s2(2) by (auto simp: installed_def dest: within_ends(2))
  note ri = replay_install [of xs "dsk r" r, OF h wb]
  have h2: "hdr xs (dsk s2 ?st)" "replay ?st (dsk s2) = replay ?st (dsk r)" 
    by (rule ri [OF only [unfolded s1(2)]])+
  have "ok (write_head ?s2) (\<lambda>t. quiet {} {} t \<and> wrote_head (put_head (lh ?s2) (dsk ?s2 (unat (lg_start ?s2)))) ?s2 t)"
    using write_head_ok [of "{}" "{}" ?s2] s2(1) by (auto elim!: ok_conseq)
  then obtain t where r3: "write_head ?s2 = Some t" and t: "quiet {} {} t" "wrote_head (put_head [] (dsk s2 ?st)) ?s2 t"
    using f2(1) by (auto simp: ok_def)
  have dt: "dsk t = (dsk s2)(?st := put_head [] (dsk s2 ?st))" using t(2) f2(1) by (simp add: wrote_head_def)
  have "within (only_blocks (unat ` set xs) (dsk s1)) r s2" using s2(2) s1(2,3) by (simp add: installed_def within_def)
  then have w12: "within (replays_as r (dsk r)) r s2"
    unfolding s1(2) by (rule within_mono [OF _ only_replays_as [where d = "dsk r", OF h wb]])
  have "within {d. good_disk ?s2 d \<and> (\<forall>c. is_home ?st c \<longrightarrow> replay ?st d c = dsk ?s2 c)} ?s2 t"
    using replay_clear [of ?s2 t xs] t(2) h2 wb f2 fin2 by simp
  then have w3: "within (replays_as r (dsk r)) ?s2 t"
    by (rule within_mono) (auto simp: replays_as_def fin2 f2(3))
  have w23: "within (replays_as r (dsk r)) s2 t" using w3 by (simp add: within_def)
  have "recovered ?st (dsk r) (dsk t)" unfolding recovered_def using fin2 home_not_start by (simp add: dt)
  moreover have "recover_from_log r = Some t" by (simp add: recover_from_log_def r1 r2 r3)
  moreover have "lkept (r\<lparr>lh := []\<rparr>) t" using t(2) lk k1 by (simp add: wrote_head_def lkept_def)
  moreover have "hdr [] (dsk t ?st)" using hdr_put [of "[]"] by (simp add: dt)
  ultimately show ?thesis using t(1) within_trans [OF w12 w23] by simp
qed

section \<open>Commit\<close>

definition log_inv :: "'a xlog_scheme \<Rightarrow> bool" where
  "log_inv s \<longleftrightarrow> quiet (log_data s) (set (lh s)) s \<and> wf_blocks s (lh s) \<and> hdr [] (dsk s (unat (lg_start s)))"

text \<open>The disk as a replay of the complete log would leave it, and the two sets of disks that a crash
  during a commit may leave.\<close>

definition logged :: "'a xlog_scheme \<Rightarrow> nat \<Rightarrow> block" where
  "logged s c = (if c \<in> unat ` set (lh s) then view (lg_dev s) {} s (of_nat c) else dsk s c)"

definition replays_to :: "'a xlog_scheme \<Rightarrow> (nat \<Rightarrow> block) \<Rightarrow> (nat \<Rightarrow> block) set" where
  "replays_to s f = {d. good_disk s d \<and> (\<forall>c. is_home (unat (lg_start s)) c \<longrightarrow> replay (unat (lg_start s)) d c = f c)}"

lemma logged_home: "log_inv s \<Longrightarrow> home s b \<Longrightarrow> logged s (unat b) = view (lg_dev s) {} s b"
proof -
  assume a: "log_inv s" "home s b"
  have "b \<notin> log_data s" using log_data_not_home [of s "unat b"] home_is_home [OF a(2)] a(1)
    by (auto simp: log_inv_def quiet_def)
  then show ?thesis
    using a clean_view [of "lg_dev s" "log_data s" "set (lh s)" s b]
    by (cases "b \<in> set (lh s)") (auto simp: logged_def log_inv_def quiet_def)
qed

lemma replays_to_old:
  assumes "log_inv s" and "e \<in> only_blocks (unat ` log_data s) (dsk s)"
  shows "e \<in> replays_to s (dsk s)"
proof -
  let ?st = "unat (lg_start s)"
  have wf: "wf_log s" using assms(1) by (simp add: log_inv_def quiet_def)
  have same: "e c = dsk s c" if "is_home ?st c \<or> c = ?st" for c
    using assms(2) log_data_not_home [OF wf, of c] that by (auto simp: only_blocks_def)
  then have h: "hdr [] (e ?st)" using assms(1) by (simp add: log_inv_def)
  moreover have "wf_blocks s []" by (simp add: wf_blocks_def)
  ultimately show ?thesis using replay_empty [of e, OF h] same by (auto simp: replays_to_def good_disk_def)
qed

lemma replays_to_new:
  assumes "wf_blocks s (lh s)" and "hdr (lh s) (e (unat (lg_start s)))"
    and "\<forall>k < length (lh s). e (unat (lg_start s) + k + 1) = view (lg_dev s) {} s (lh s ! k)"
    and "\<And>c. is_home (unat (lg_start s)) c \<Longrightarrow> c \<notin> unat ` set (lh s) \<Longrightarrow> e c = dsk s c"
  shows "e \<in> replays_to s (logged s)"
proof -
  let ?st = "unat (lg_start s)"
  have "replay ?st e c = logged s c" if "is_home ?st c" for c
  proof (cases "c \<in> unat ` set (lh s)")
    case True
    then obtain k where k: "k < length (lh s)" "c = unat (lh s ! k)" by (auto simp: in_set_conv_nth)
    have "distinct (lh s)" using assms(1) by (simp add: wf_blocks_def)
    then show ?thesis using replay_entry [of "lh s" e, OF assms(2) _ k(1)] assms(3) k True by (simp add: logged_def)
  next
    case False
    then show ?thesis using replay_other [of "lh s" e, OF assms(2) False] assms(4) [OF that False] by (simp add: logged_def)
  qed
  then show ?thesis using assms(1,2) by (auto simp: replays_to_def good_disk_def)
qed

text \<open>The single write of the header is the commit point.\<close>

lemma commit_point:
  assumes "log_inv s" and "log_written (\<lambda>k. view (lg_dev s) {} s (lh s ! k)) s s1"
    and "wrote_head (put_head (lh s) (dsk s1 (unat (lg_start s)))) s1 s2"
  shows "within (replays_to s (dsk s) \<union> replays_to s (logged s)) s1 s2" "dsk s2 \<in> replays_to s (logged s)"
proof -
  let ?st = "unat (lg_start s)" and ?A = "unat ` log_data s"
  have wb: "wf_blocks s (lh s)" and wf: "wf_log s" and h0: "hdr [] (dsk s ?st)"
    using assms(1) by (simp_all add: log_inv_def quiet_def)
  have n: "length (lh s) \<le> 126" using wb by (simp add: wf_blocks_def)
  have st1: "lg_start s1 = lg_start s" using assms(2) by (simp add: log_written_def lkept_def)
  have d1: "dsk s1 \<in> only_blocks ?A (dsk s)" using assms(2) by (auto simp: log_written_def dest: within_ends(2))
  have L: "\<forall>k < length (lh s). dsk s1 (?st + k + 1) = view (lg_dev s) {} s (lh s ! k)"
    using assms(2) lblk_unat [OF wf] n by (simp add: log_written_def)
  have off: "dsk s1 c = dsk s c" if "is_home ?st c \<or> c = ?st" for c
    using d1 log_data_not_home [OF wf, of c] that by (auto simp: only_blocks_def)
  have new: "e \<in> replays_to s (logged s)" if e: "hdr (lh s) (e ?st)" "\<And>c. c \<noteq> ?st \<Longrightarrow> e c = dsk s1 c" for e
    by (rule replays_to_new) (use wb e L off home_not_start in auto)
  show "within (replays_to s (dsk s) \<union> replays_to s (logged s)) s1 s2"
  proof (rule within_cmd [OF wrote_head_cmd [OF assms(3)]], unfold st1)
    fix ws assume a: "set ws \<subseteq> set (run_sectors ?st 1 (\<lambda>_. put_head (lh s) (dsk s1 ?st)))"
    have h1: "hdr [] (dsk s1 ?st)" using h0 off by simp
    let ?e = "put_sectors ws (dsk s1)"
    have e: "hdr [] (?e ?st) \<or> hdr (lh s) (?e ?st)" "\<And>c. c \<noteq> ?st \<Longrightarrow> ?e c = dsk s1 c"
      using head_write [where d = "dsk s1" and st = ?st, OF a h1 _ n] by auto
    have "?e \<in> replays_to s (dsk s)" if h: "hdr [] (?e ?st)"
    proof -
      have "wf_blocks s []" by (simp add: wf_blocks_def)
      then show ?thesis using h replay_empty [of ?e ?st, OF h] e(2) off home_not_start
        by (auto simp: replays_to_def good_disk_def)
    qed
    then show "?e \<in> replays_to s (dsk s) \<union> replays_to s (logged s)" using e new by blast
  qed
  show "dsk s2 \<in> replays_to s (logged s)"
    by (rule new) (use assms(3) hdr_put [OF n] st1 in \<open>auto simp: wrote_head_def\<close>)
qed

lemma quiet_mono: "quiet X P s \<Longrightarrow> X \<subseteq> Y \<Longrightarrow> quiet Y P s"
  by (auto simp: quiet_def intro: binv_mono)

lemma quiet_chas:
  assumes "quiet X P s" and "b \<in> P"
  shows "chas s b (view (lg_dev s) {} s b)"
proof -
  from assms obtain j where "bhash_find (lg_dev s) b s = Some j" "b_valid (bufs s ! j)"
    using pinned_cached [of "lg_dev s" X P s b] by (auto simp: quiet_def)
  then show ?thesis by (auto simp: chas_def view_def)
qed

definition commit_steps :: "'a xlog_scheme \<Rightarrow> 'a xlog_scheme option" where
  "commit_steps s = do { s1 \<leftarrow> write_log s; s2 \<leftarrow> write_head s1; s3 \<leftarrow> install_trans False s2;
                         write_head (s3\<lparr>lh := []\<rparr>) }"

lemma good_disk_lh [simp]: "good_disk (s\<lparr>lh := xs\<rparr>) = good_disk s"
  by (simp add: good_disk_def fun_eq_iff)

definition commit_written :: "'a xlog_scheme \<Rightarrow> 'a xlog_scheme \<Rightarrow> bool" where
  "commit_written s t \<longleftrightarrow> quiet (log_data s) {} t \<and> hdr [] (dsk t (unat (lg_start s))) \<and>
    lkept (s\<lparr>lh := []\<rparr>) t \<and> (\<forall>c. is_home (unat (lg_start s)) c \<longrightarrow> dsk t c = logged s c) \<and>
    within (replays_to s (dsk s) \<union> replays_to s (logged s)) s t"

text \<open>The second half of a commit: the entries are installed and the header is cleared.\<close>

lemma commit_install:
  assumes inv: "log_inv s" and "within (replays_to s (dsk s) \<union> replays_to s (logged s)) s s2"
    and new: "dsk s2 \<in> replays_to s (logged s)" "hdr (lh s) (dsk s2 (unat (lg_start s)))" and "lkept s s2"
    and q3: "quiet Y {} s3" "Y \<subseteq> log_data s" and w3: "installed (lh s) (\<lambda>k. view (lg_dev s) {} s (lh s ! k)) s2 s3"
    and off: "\<And>c. is_home (unat (lg_start s)) c \<Longrightarrow> dsk s2 c = dsk s c"
  shows "ok (write_head (s3\<lparr>lh := []\<rparr>)) (commit_written s)"
proof -
  let ?st = "unat (lg_start s)" and ?s3 = "s3\<lparr>lh := []\<rparr>" and ?S = "replays_to s (dsk s) \<union> replays_to s (logged s)"
  have wb: "wf_blocks s (lh s)" and wf: "wf_log s" using inv by (simp_all add: log_inv_def quiet_def)
  have k3: "lkept s s3" using w3 lkept_trans [OF assms(5)] by (simp add: installed_def)
  have f3: "lg_start ?s3 = lg_start s" "wf_blocks ?s3 = wf_blocks s" "good_disk ?s3 = good_disk s"
    using k3 wf_blocks_kept [OF k3] good_disk_kept [OF k3] by (simp_all add: lkept_def fun_eq_iff)
  have stY: "lg_start s \<notin> Y" using q3(2) log_data_not_home(2) [OF wf] by blast
  obtain t where r: "write_head ?s3 = Some t" and t: "quiet Y {} t" "wrote_head (put_head [] (dsk s3 ?st)) ?s3 t"
    using write_head_ok [of Y "{}" ?s3] q3(1) stY f3(1) by (auto simp: ok_def)
  have d3: "dsk s3 c = logged s c" if "is_home ?st c" for c
    using w3 off [OF that] by (auto simp: installed_def logged_def in_set_conv_nth)
  have only: "within (only_blocks (unat ` set (lh s)) (dsk s2)) s2 s3" using w3 by (simp add: installed_def)
  note ri = replay_install [of "lh s" "dsk s2" s "dsk s3", OF new(2) wb within_ends(2) [OF only]]
  have sub: "only_blocks (unat ` set (lh s)) (dsk s2) \<subseteq> ?S"
    using only_replays_as [where d = "dsk s2" and s = s, OF new(2) wb] new(1)
    by (fastforce simp: replays_as_def replays_to_def)
  have w23: "within ?S s2 s3" by (rule within_mono [OF only sub])
  have "replay ?st (dsk s3) c = dsk s3 c" if "is_home ?st c" for c
    using new(1) d3 [OF that] that by (simp add: replays_to_def ri(2))
  then have "within {d. good_disk s d \<and> (\<forall>c. is_home ?st c \<longrightarrow> replay ?st d c = dsk s3 c)} ?s3 t"
    using replay_clear [of ?s3 t "lh s"] t(2) ri(1) wb f3 by simp
  then have "within ?S ?s3 t" by (rule within_mono) (auto simp: replays_to_def d3)
  then have "within ?S s3 t" by (simp add: within_def)
  with assms(2) w23 have w: "within ?S s t" by (blast intro: within_trans)
  have dt: "dsk t = (dsk s3)(?st := put_head [] (dsk s3 ?st))" using t(2) f3(1) by (simp add: wrote_head_def)
  have kt: "lkept (s\<lparr>lh := []\<rparr>) t" using t(2) k3 by (simp add: wrote_head_def lkept_def)
  show ?thesis
    using r w kt quiet_mono [OF t(1) q3(2)] hdr_put [of "[]"] d3 home_not_start
    by (simp add: ok_def commit_written_def dt)
qed

lemma commit_steps_ok:
  assumes inv: "log_inv s" and ne: "lh s \<noteq> []"
  shows "ok (commit_steps s) (commit_written s)"
proof -
  let ?st = "unat (lg_start s)" and ?xs = "lh s" and ?L = "\<lambda>k. view (lg_dev s) {} s (lh s ! k)"
  have q: "quiet (log_data s) (set ?xs) s" and wb: "wf_blocks s ?xs" and wf: "wf_log s"
    using inv by (simp_all add: log_inv_def quiet_def)
  have n: "length ?xs \<le> 126" using wb by (simp add: wf_blocks_def)
  have "\<exists>t Y. write_log s = Some t \<and> Y \<subseteq> log_data s \<and> quiet Y (set (lh s)) t \<and> log_written ?L s t \<and>
    (g_stage t \<noteq> None \<and> g_stage_valid t \<longrightarrow> (\<forall>k < length (lh s). stage_block k t = ?L k)) \<and>
    (g_stage t = None \<or> \<not> g_stage_valid t \<longrightarrow> (\<forall>k < length (lh s). lblk s k \<notin> Y))"
    using write_log_ok [OF q wb ne, of ?L] quiet_chas [OF q] by (cases "write_log s") simp_all
  then obtain s1 Y where r1: "write_log s = Some s1" and Y: "Y \<subseteq> log_data s" and q1: "quiet Y (set ?xs) s1"
      and w1: "log_written ?L s s1" and stg: "g_stage s1 \<noteq> None \<and> g_stage_valid s1 \<longrightarrow> (\<forall>k < length ?xs. stage_block k s1 = ?L k)"
      and uns: "g_stage s1 = None \<or> \<not> g_stage_valid s1 \<longrightarrow> (\<forall>k < length ?xs. lblk s k \<notin> Y)"
    by blast
  have k1: "lkept s s1" using w1 by (simp add: log_written_def)
  have stY: "lg_start s \<notin> Y" using Y log_data_not_home(2) [OF wf] by blast
  have stP: "lg_start s \<notin> set ?xs" using wf_blocks_home [OF wb start_not_home] by blast
  have f1: "lg_start s1 = lg_start s" "lh s1 = ?xs" using k1 by (simp_all add: lkept_def)
  obtain s2 where r2: "write_head s1 = Some s2" and q2: "quiet Y (set ?xs) s2"
      and w2: "wrote_head (put_head ?xs (dsk s1 ?st)) s1 s2"
    using write_head_ok [OF q1] stY stP f1 by (auto simp: ok_def)
  note cp = commit_point [OF inv w1 w2]
  have k2: "lkept s s2" "same_stage s1 s2" using lkept_trans [OF k1] w2 by (simp_all add: wrote_head_def)
  have f2: "lh s2 = ?xs" "lg_start s2 = lg_start s" "lblk s2 = lblk s" using k2(1) lblk_kept by (auto simp: lkept_def)
  have ld2: "dsk s2 (unat (lblk s k)) = ?L k" if "k < length ?xs" for k
  proof -
    have "unat (lblk s k) \<noteq> ?st" using lblk_unat [OF wf, of k] that n by simp
    then show ?thesis using w1 w2 f1 that by (simp add: log_written_def wrote_head_def)
  qed
  have "ok (install_trans False s2) (\<lambda>t. quiet Y {} t \<and> installed (lh s2) ?L s2 t \<and> \<not> g_stage_valid t)"
    by (rule install_trans_ok)
      (use q2 wb wf_blocks_kept [OF k2(1)] stg uns k2(2) same_stage_block [OF k2(2)] ld2 in
        \<open>auto simp: pins_def f2 same_stage_def\<close>)
  then obtain s3 where r3: "install_trans False s2 = Some s3" and q3: "quiet Y {} s3" and w3: "installed ?xs ?L s2 s3"
    by (auto simp: ok_def f2)
  have "within (only_blocks (unat ` log_data s) (dsk s)) s s1" using w1 by (simp add: log_written_def)
  then have "within (replays_to s (dsk s) \<union> replays_to s (logged s)) s s1"
    by (rule within_mono) (use replays_to_old [OF inv] in blast)
  note w02 = within_trans [OF this cp(1)]
  have h2: "hdr ?xs (dsk s2 ?st)" using w2 f1 hdr_put [OF n] by (simp add: wrote_head_def)
  have off: "dsk s2 c = dsk s c" if "is_home ?st c" for c
    using w1 w2 f1 home_not_start [OF that] log_data_not_home(1) [OF wf, of c] that
    by (auto simp: log_written_def wrote_head_def)
  from commit_install [OF inv w02 cp(2) h2 k2(1) q3 Y w3 off]
  show ?thesis by (simp add: commit_steps_def r1 r2 r3)
qed

definition commit_prep :: "'a xlog_scheme \<Rightarrow> 'a xlog_scheme" where
  "commit_prep s = sort_log_blocks (s\<lparr>g_commits := g_commits s + 1, g_log_blocks := g_log_blocks s + of_nat (length (lh s))\<rparr>)"

lemma commit_eq: "commit s = (if lh s \<noteq> [] then commit_steps (commit_prep s) else Some s)"
  by (simp add: commit_def commit_steps_def commit_prep_def)

lemma commit_prep_fields [simp]:
  "lg_start (commit_prep s) = lg_start s" "lg_dev (commit_prep s) = lg_dev s" "sdev (commit_prep s) = sdev s"
  "dsk (commit_prep s) = dsk s" "wtrace (commit_prep s) = wtrace s" "bufs (commit_prep s) = bufs s"
  "htab (commit_prep s) = htab s" "lg_outstanding (commit_prep s) = lg_outstanding s"
  "lg_reserved (commit_prep s) = lg_reserved s" "lg_committing (commit_prep s) = lg_committing s"
  "io_fault (commit_prep s) = io_fault s" "xlog.more (commit_prep s) = xlog.more s"
  "lh (commit_prep s) = sort_blocks (lh s)" "quiet X P (commit_prep s) = quiet X P s"
  "wf_blocks (commit_prep s) = wf_blocks s"
  by (simp_all add: commit_prep_def sort_log_blocks_def)

lemma sort_blocks_simps [simp]:
  "set (sort_blocks xs) = set xs" "distinct (sort_blocks xs) = distinct xs" "length (sort_blocks xs) = length xs"
  using sort_blocks_spec [of xs] by (metis mset_eq_setD mset_eq_imp_distinct_iff size_mset)+

lemma commit_prep_same [simp]:
  "log_inv (commit_prep s) = log_inv s" "logged (commit_prep s) = logged s" "good_disk (commit_prep s) = good_disk s"
  "replays_to (commit_prep s) f = replays_to s f" "log_data (commit_prep s) = log_data s"
proof -
  show d: "log_data (commit_prep s) = log_data s" by (simp add: log_data_def)
  show "log_inv (commit_prep s) = log_inv s" by (simp add: log_inv_def d) (simp add: wf_blocks_def)
  have "view (lg_dev s) {} (commit_prep s) = view (lg_dev s) {} s" by (rule view_cong) simp_all
  then show "logged (commit_prep s) = logged s" by (simp add: logged_def fun_eq_iff)
  show g: "good_disk (commit_prep s) = good_disk s" by (simp add: good_disk_def fun_eq_iff)
  show "replays_to (commit_prep s) f = replays_to s f" by (simp add: replays_to_def g)
qed

text \<open>The contract of \<open>commit\<close>: the log is empty again, nothing has changed for a reader of the cache,
  and every disk on the way replays to the old or to the new contents.\<close>

definition committed :: "'a xlog_scheme \<Rightarrow> 'a xlog_scheme \<Rightarrow> bool" where
  "committed s t \<longleftrightarrow> log_inv t \<and> lh t = [] \<and> lkept (s\<lparr>lh := []\<rparr>) t \<and>
     (\<forall>b. home s b \<longrightarrow> dsk t (unat b) = view (lg_dev s) {} s b \<and> view (lg_dev s) {} t b = view (lg_dev s) {} s b) \<and>
     within (replays_to s (dsk s) \<union> replays_to s (logged s)) s t"

lemma clean_home:
  assumes "log_inv t" and "lh t = []" and "home t b"
  shows "view (lg_dev t) {} t b = dsk t (unat b)"
  using logged_home [OF assms(1,3)] assms(2) by (simp add: logged_def)

lemma commit_written_committed:
  assumes "log_inv s" and "commit_written s t"
  shows "committed s t"
proof -
  have k: "lkept (s\<lparr>lh := []\<rparr>) t" using assms(2) by (simp add: commit_written_def)
  then have f: "lh t = []" "lg_start t = lg_start s" "lg_dev t = lg_dev s" "log_data t = log_data s" "home t = home s"
    by (auto simp: lkept_def log_data_def home_def on_dev_def fun_eq_iff)
  have inv: "log_inv t" using assms(2) f by (simp add: commit_written_def log_inv_def) (simp add: wf_blocks_def)
  have "dsk t (unat b) = view (lg_dev s) {} s b \<and> view (lg_dev s) {} t b = view (lg_dev s) {} s b" if "home s b" for b
    using clean_home [OF inv f(1), of b] logged_home [OF assms(1) that] home_is_home [OF that] assms(2) that f(3,5)
    by (simp add: commit_written_def)
  then show ?thesis using assms(2) k inv f(1) by (simp add: committed_def commit_written_def)
qed

lemma commit_ok:
  assumes "log_inv s"
  shows "ok (commit s) (committed s)"
proof (cases "lh s = []")
  case True
  have "committed s s"
    using assms True clean_home [OF assms True] replays_to_old [OF assms only_blocks_refl]
    by (auto simp: committed_def lkept_def intro!: within_refl)
  then show ?thesis by (simp add: commit_eq True)
next
  case False
  have "ok (commit_steps (commit_prep s)) (commit_written (commit_prep s))"
    by (rule commit_steps_ok) (use assms False in \<open>auto simp flip: set_empty\<close>)
  then have "ok (commit_steps (commit_prep s)) (commit_written s)"
    by (rule ok_conseq) (simp add: commit_written_def lkept_def within_def)
  then show ?thesis using False commit_written_committed [OF assms] by (auto simp: commit_eq elim: ok_conseq)
qed

section \<open>Mounting after a crash\<close>

lemma bio_init_only: "only_cache s (xv6bio_init s)"
proof -
  have "only_cache s (init_buf i s)" for i and s :: "'a bcache_scheme" 
    unfolding init_buf_def by (rule only_cache_trans [OF only_cache_bupd only_cache_lru])
  then have "only_cache s (fold init_buf ks s)" for ks and s :: "'a bcache_scheme"
    by (induction ks arbitrary: s) (auto intro: only_cache_trans)
  then show ?thesis unfolding xv6bio_init_def by (rule only_cache_trans [rotated]) (simp add: only_cache_def)
qed

text \<open>The machine after a reset: the disk is left as the crash left it, the rest of the memory is arbitrary.\<close>

definition boots :: "'a xlog_scheme \<Rightarrow> (nat \<Rightarrow> block) \<Rightarrow> 'a xlog_scheme \<Rightarrow> bool" where
  "boots s d r \<longleftrightarrow> dsk r = d \<and> sdev r = sdev s \<and> (\<forall>k n. io_fault r k n = None) \<and> 130 < length (bufs r)"

definition mounts :: "'a xlog_scheme \<Rightarrow> 'a xlog_scheme \<Rightarrow> (nat \<Rightarrow> block) option \<Rightarrow> 'a xlog_scheme option" where
  "mounts s r mem = xv6log_init (lg_dev s) (lg_start s) mem (xv6bio_init r)"

definition log_start_state :: "'a xlog_scheme \<Rightarrow> 'a xlog_scheme \<Rightarrow> (nat \<Rightarrow> block) option \<Rightarrow> 'a xlog_scheme" where
  "log_start_state s r mem =
     (let s1 = (xv6bio_init r)\<lparr>lg_start := lg_start s, lg_dev := lg_dev s, lg_outstanding := 0, lg_reserved := 0,
                 lg_committing := False, lh := [], g_stage_valid := False\<rparr>
      in if g_stage s1 = None then s1\<lparr>g_stage := mem\<rparr> else s1)"

lemma mounts_eq: "mounts s r mem = recover_from_log (log_start_state s r mem)"
  by (simp add: mounts_def xv6log_init_def log_start_state_def Let_def)

lemma start_state:
  fixes r :: "'a xlog_scheme"
  assumes "boots s d r" and "wf_log s"
  shows "quiet {} {} (log_start_state s r mem)" "dsk (log_start_state s r mem) = d"
    "wtrace (log_start_state s r mem) = wtrace r" "lg_start (log_start_state s r mem) = lg_start s"
    "lg_dev (log_start_state s r mem) = lg_dev s" "sdev (log_start_state s r mem) = sdev s"
    "io_fault (log_start_state s r mem) = (\<lambda>_ _. None)" "lg_outstanding (log_start_state s r mem) = 0"
    "lg_reserved (log_start_state s r mem) = 0" "\<not> lg_committing (log_start_state s r mem)"
    "xlog.more (log_start_state s r mem) = xlog.more r"
proof -
  let ?i = "xv6bio_init r" and ?t = "log_start_state s r mem"
  note b = only_cacheD [OF bio_init_only [of r]] and k = only_cache_log(1) [OF bio_init_only [of r]]
  show f: "dsk ?t = d" "wtrace ?t = wtrace r" "lg_start ?t = lg_start s" "lg_dev ?t = lg_dev s" "sdev ?t = sdev s"
    "io_fault ?t = (\<lambda>_ _. None)" "lg_outstanding ?t = 0" "lg_reserved ?t = 0" "\<not> lg_committing ?t" "xlog.more ?t = xlog.more r"
    using assms(1) b k by (auto simp: log_start_state_def Let_def boots_def fun_eq_iff lkept_def)
  have "length (bufs ?t) = length (bufs r)" using k by (simp add: log_start_state_def Let_def lkept_def)
  then have wf: "wf_log ?t" using f assms by (simp add: wf_log_def singles_ok_def on_dev_def boots_def split: option.splits)
  have same: "bufs ?t = bufs ?i" "htab ?t = htab ?i" "lru ?t = lru ?i" "dsk ?t = dsk ?i"
    by (simp_all add: log_start_state_def Let_def)
  have "binv D {} {} ?t" "held D ?t = {}" for D
    using bio_init_ok(1) [of D "{}" r] bio_init_ok(3) [of D r] binv_cong [OF same] held_cong [OF same(1,2)] by simp_all
  then show "quiet {} {} ?t" using wf by (simp add: quiet_def)
qed

text \<open>What the mount after a crash establishes: the log is ready and empty, and the home blocks are those of
  the replayed disk.\<close>

definition remounted :: "'a xlog_scheme \<Rightarrow> (nat \<Rightarrow> block) \<Rightarrow> 'a xlog_scheme \<Rightarrow> 'a xlog_scheme \<Rightarrow> bool" where
  "remounted s d r u \<longleftrightarrow> log_inv u \<and> lh u = [] \<and> lg_outstanding u = 0 \<and> lg_reserved u = 0 \<and> \<not> lg_committing u \<and>
     xlog.more u = xlog.more r \<and> lg_start u = lg_start s \<and> lg_dev u = lg_dev s \<and> sdev u = sdev s \<and>
     (\<forall>b. home s b \<longrightarrow> view (lg_dev s) {} u b = replay (unat (lg_start s)) d (unat b)) \<and>
     within (replays_as s d) r u"

lemma mount_ok:
  fixes r :: "'a xlog_scheme"
  assumes "boots s d r" and "wf_log s" and "good_disk s d"
  shows "ok (mounts s r mem) (remounted s d r)"
proof -
  let ?r = "log_start_state s r mem"
  note S = start_state [OF assms(1,2), of mem]
  have hm: "home ?r = home s" by (simp add: home_def on_dev_def S fun_eq_iff)
  have wb: "wf_blocks ?r = wf_blocks s" by (simp add: wf_blocks_def hm fun_eq_iff)
  have gd: "good_disk ?r = good_disk s" by (simp add: good_disk_def wb S fun_eq_iff)
  have ra: "replays_as ?r d = replays_as s d" by (simp add: replays_as_def gd S)
  from recover_ok [OF S(1)] assms(3) gd S(2,7) obtain u where r: "recover_from_log ?r = Some u"
    and u: "quiet {} {} u" "hdr [] (dsk u (unat (lg_start s)))" "lkept (?r\<lparr>lh := []\<rparr>) u"
      "recovered (unat (lg_start s)) d (dsk u)" "within (replays_as s d) ?r u"
    by (auto simp: ok_def S ra)
  have f: "lg_start u = lg_start s" "lg_dev u = lg_dev s" "sdev u = sdev s" "lh u = []" "home u = home s"
    "lg_outstanding u = 0" "lg_reserved u = 0" "\<not> lg_committing u" "xlog.more u = xlog.more r"
    using u(3) hm by (auto simp: lkept_def S home_def on_dev_def)
  have inv: "log_inv u" using quiet_mono [OF u(1)] u(2) f by (auto simp: log_inv_def wf_blocks_def)
  have "view (lg_dev s) {} u b = replay (unat (lg_start s)) d (unat b)" if "home s b" for b
    using clean_home [OF inv f(4), of b] that u(4) home_is_home [OF that] f(2,5) by (simp add: recovered_def)
  moreover have "within (replays_as s d) r u" using u(5) S(2,3) assms(1) by (simp add: within_def boots_def)
  ultimately show ?thesis using inv f by (simp add: mounts_eq r remounted_def)
qed

text \<open>The disks that a commit and any number of crashes, the later ones during recovery, can leave.\<close>

inductive crash_disk :: "'a xlog_scheme \<Rightarrow> (nat \<Rightarrow> block) \<Rightarrow> bool" for s :: "'a xlog_scheme" where
  in_commit: "crash_disk s d" if "commit s = Some t" "wtrace t = wtrace s @ cs" "d \<in> crashes (dsk s) cs"
| in_recovery: "crash_disk s e" if "crash_disk s d" "boots s d r" "mounts s r mem = Some u" "wtrace u = wtrace r @ cs"
    "e \<in> crashes d cs"

lemma crash_disk_replays:
  assumes "log_inv s" and "crash_disk s d"
  shows "d \<in> replays_to s (dsk s) \<union> replays_to s (logged s)"
  using assms(2)
proof induction
  case (in_commit t cs d)
  then have "within (replays_to s (dsk s) \<union> replays_to s (logged s)) s t"
    using ok_result [OF commit_ok [OF assms(1)]] by (simp add: committed_def)
  then show ?case using in_commit by (auto simp: within_def)
next
  case (in_recovery d r mem u cs e)
  have wf: "wf_log s" using assms(1) by (simp add: log_inv_def quiet_def)
  have "good_disk s d" using in_recovery.IH by (auto simp: replays_to_def)
  from ok_result [OF mount_ok [OF in_recovery.hyps(2) wf this] in_recovery.hyps(3)]
  have "e \<in> replays_as s d" using in_recovery.hyps(2,4,5) by (auto simp: remounted_def within_def boots_def)
  then show ?case using in_recovery.IH by (auto simp: replays_as_def replays_to_def)
qed

text \<open>C1. Crash safety. Whatever crash happens while a transaction is being committed, between two disk
  commands or inside one, with some of its sectors written and some not, and however many more crashes hit the
  recovery that follows: the next mount returns, with an empty log, and every home block then reads as before the
  transaction, or every home block reads as the transaction left it in the cache.\<close>

theorem commit_crash_atomic:
  assumes "log_inv s" and "crash_disk s d" and "boots s d r"
  shows "\<exists>u. mounts s r mem = Some u \<and> log_inv u \<and> lh u = [] \<and>
    ((\<forall>b. home s b \<longrightarrow> view (lg_dev s) {} u b = dsk s (unat b)) \<or>
     (\<forall>b. home s b \<longrightarrow> view (lg_dev s) {} u b = view (lg_dev s) {} s b))"
proof -
  have wf: "wf_log s" using assms(1) by (simp add: log_inv_def quiet_def)
  note d = crash_disk_replays [OF assms(1,2)]
  then have "good_disk s d" by (auto simp: replays_to_def)
  from mount_ok [OF assms(3) wf this] obtain u where r: "mounts s r mem = Some u" and u: "remounted s d r u"
    by (auto simp: ok_def)
  have v: "view (lg_dev s) {} u b = replay (unat (lg_start s)) d (unat b)" if "home s b" for b
    using u that by (simp add: remounted_def)
  from d have "(\<forall>b. home s b \<longrightarrow> view (lg_dev s) {} u b = dsk s (unat b)) \<or>
     (\<forall>b. home s b \<longrightarrow> view (lg_dev s) {} u b = view (lg_dev s) {} s b)"
    by (auto simp: replays_to_def v home_is_home simp flip: logged_home [OF assms(1)])
  then show ?thesis using r u by (auto simp: remounted_def)
qed

text \<open>C7. Durability. A commit returns with an empty log, leaves every home block as the cache showed it, on the
  disk too, and keeps the invariant of the log.\<close>

theorem commit_durable:
  assumes "log_inv s"
  shows "\<exists>t. commit s = Some t \<and> log_inv t \<and> lh t = [] \<and>
    (\<forall>b. home s b \<longrightarrow> dsk t (unat b) = view (lg_dev s) {} s b \<and> view (lg_dev s) {} t b = view (lg_dev s) {} s b)"
  using commit_ok [OF assms] by (auto simp: ok_def committed_def)

end
