(* ===== verification/LogOps.thy ===== *)
theory LogOps
  imports LogCrash
begin

text \<open>
  The log as its clients use it: blocks read and modified inside a transaction, the reservation of log
  space by \<open>begin_op\<close> and \<open>end_op\<close>, and the group commit that \<open>begin_op\<close> runs when the log is too full.
\<close>

section \<open>The state between two commits\<close>

definition log_ok :: "'a xlog_scheme \<Rightarrow> bool" where
  "log_ok s \<longleftrightarrow> binv (lg_dev s) (log_data s) (set (lh s)) s \<and> wf_log s \<and> wf_blocks s (lh s) \<and>
     hdr [] (dsk s (unat (lg_start s)))"

abbreviation lheld :: "'a xlog_scheme \<Rightarrow> u32 set" where
  "lheld s \<equiv> held (lg_dev s) s"

definition vw :: "'a xlog_scheme \<Rightarrow> u32 \<Rightarrow> block" where
  "vw s = view (lg_dev s) (log_data s) s"

lemma wf_blocks_card: "wf_blocks s xs \<Longrightarrow> card (set xs) \<le> 126"
  by (simp add: wf_blocks_def distinct_card)

lemma log_inv_iff: "log_inv s \<longleftrightarrow> log_ok s \<and> lheld s = {}"
  using wf_blocks_card [of s "lh s"] by (auto simp: log_inv_def log_ok_def quiet_def)

lemma home_not_data: "wf_log s \<Longrightarrow> home s b \<Longrightarrow> b \<notin> log_data s"
  using log_data_not_home [of s "unat b"] home_is_home [of s b] by blast

lemma vw_home: "log_ok s \<Longrightarrow> home s b \<Longrightarrow> vw s b = view (lg_dev s) {} s b"
  using home_not_data [of s b] by (simp add: vw_def view_mask [of _ "log_data s"] log_ok_def)

text \<open>Locked buffers stay where they are, with their contents.\<close>

definition bkeep :: "'a xlog_scheme \<Rightarrow> 'a xlog_scheme \<Rightarrow> bool" where
  "bkeep s t \<longleftrightarrow> (\<forall>j c. bptr (lg_dev s) s j c \<longrightarrow> bptr (lg_dev s) t j c \<and> b_data (bufs t ! j) = b_data (bufs s ! j))"

lemma bkeep_trans: "bkeep s t \<Longrightarrow> bkeep t u \<Longrightarrow> lg_dev t = lg_dev s \<Longrightarrow> bkeep s u"
  unfolding bkeep_def by metis

lemma bkeep_others:
  assumes "binv (lg_dev s) X P s" and "others_kept (lg_dev s) b s t" and "b \<notin> lheld s"
  shows "bkeep s t"
  unfolding bkeep_def
proof (intro allI impI)
  fix j c assume a: "bptr (lg_dev s) s j c"
  have cb: "c \<noteq> b" using bptr_held [OF a] assms(3) by auto
  note p = others_kept_bptr [OF assms(1,2) a cb]
  then show "bptr (lg_dev s) t j c \<and> b_data (bufs t ! j) = b_data (bufs s ! j)"
    using others_keptD1 [OF assms(2) cb, of j] by (simp add: bptr_def)
qed

text \<open>A step of a client inside a transaction: no disk write, the log may grow.\<close>

definition lstep :: "'a xlog_scheme \<Rightarrow> 'a xlog_scheme \<Rightarrow> bool" where
  "lstep s t \<longleftrightarrow> log_ok t \<and> lheld t = lheld s \<and> dsk t = dsk s \<and> wtrace t = wtrace s \<and>
     lg_start t = lg_start s \<and> lg_dev t = lg_dev s \<and> lg_outstanding t = lg_outstanding s \<and> lg_reserved t = lg_reserved s \<and>
     lg_committing t = lg_committing s \<and> sdev t = sdev s \<and> io_fault t = io_fault s \<and> length (bufs t) = length (bufs s) \<and>
     set (lh s) \<subseteq> set (lh t) \<and> length (lh s) \<le> length (lh t) \<and> bkeep s t"

lemma bkeep_refl [simp]: "bkeep s s"
  by (simp add: bkeep_def)

lemma lstep_refl: "log_ok s \<Longrightarrow> lstep s s"
  by (simp add: lstep_def)

lemma lstep_fields:
  assumes "lstep s t"
  shows "lg_start t = lg_start s" "lg_dev t = lg_dev s" "sdev t = sdev s" "length (bufs t) = length (bufs s)"
    "lg_outstanding t = lg_outstanding s" "lg_reserved t = lg_reserved s" "lg_committing t = lg_committing s"
    "home t = home s" "log_data t = log_data s" "dsk t = dsk s" "log_ok t" "lheld t = lheld s"
  using assms by (auto simp: lstep_def home_def log_data_def on_dev_def fun_eq_iff)

lemma lstep_trans [trans]: "lstep s t \<Longrightarrow> lstep t u \<Longrightarrow> lstep s u"
  unfolding lstep_def by (elim conjE, intro conjI) (auto intro: bkeep_trans)

text \<open>A locked buffer: its data are what readers of the block see, and unless they agree with the disk the block is logged.\<close>

definition lptr :: "'a xlog_scheme \<Rightarrow> nat \<Rightarrow> u32 \<Rightarrow> bool" where
  "lptr s i b \<longleftrightarrow> bptr (lg_dev s) s i b \<and> home s b \<and> (b \<in> set (lh s) \<or> b_data (bufs s ! i) = dsk s (unat b))"

lemma lptr_view: "log_ok s \<Longrightarrow> lptr s i b \<Longrightarrow> vw s b = b_data (bufs s ! i)"
  using vw_home [of s b] by (auto simp: lptr_def bptr_def view_def)

lemma lstep_lptr:
  assumes "lstep s t" and "lptr s i b"
  shows "lptr t i b" "b_data (bufs t ! i) = b_data (bufs s ! i)"
proof -
  have "bptr (lg_dev s) t i b" "b_data (bufs t ! i) = b_data (bufs s ! i)"
    using assms by (auto simp: lstep_def lptr_def bkeep_def)
  then show "lptr t i b" "b_data (bufs t ! i) = b_data (bufs s ! i)"
    using assms(2) lstep_fields [OF assms(1)] assms(1) by (auto simp: lptr_def lstep_def)
qed

text \<open>Locking a block.\<close>

definition lholds :: "'a xlog_scheme \<Rightarrow> u32 \<Rightarrow> nat \<Rightarrow> 'a xlog_scheme \<Rightarrow> bool" where
  "lholds s b i t \<longleftrightarrow> log_ok t \<and> lptr t i b \<and> b_data (bufs t ! i) = vw s b \<and> lheld t = insert b (lheld s) \<and>
     vw t = vw s \<and> dsk t = dsk s \<and> wtrace t = wtrace s \<and> lkept s t \<and> bkeep s t"

lemma lkept_log_ok:
  assumes "only_cache s t" and "log_ok s" and "binv (lg_dev s) (log_data s) (set (lh s)) t"
  shows "log_ok t"
proof -
  have k: "lkept s t" by (rule only_cache_log [OF assms(1)])
  then have "lg_dev t = lg_dev s" "lg_start t = lg_start s" "lh t = lh s" by (simp_all add: lkept_def)
  then show ?thesis using assms lkept_wf [OF k] lkept_data [OF k] wf_blocks_kept [OF k] only_cacheD(1) [OF assms(1)]
    by (simp add: log_ok_def)
qed

lemma bread_holds:
  fixes s :: "'a xlog_scheme"
  assumes "log_ok s" and "home s b" and "b \<notin> lheld s" and "card (lheld s) \<le> 4"
  shows "ok (xv6bread (lg_dev s) b s) (\<lambda>(i, t). lholds s b i t)"
proof -
  let ?D = "lg_dev s"
  have q: "binv ?D (log_data s) (set (lh s)) s" "wf_log s" "card (lheld s) + card (set (lh s)) < length (bufs s)" "singles_ok s"
    using assms wf_blocks_card [of s "lh s"] by (auto simp: log_ok_def wf_log_def)
  have "on_dev s (unat b)" using assms(2) by (simp add: home_def)
  from bread_ok [OF q(1) assms(3) q(3,4) this] obtain i t where r: "xv6bread ?D b s = Some (i, t)"
    and t: "binv ?D (log_data s) (set (lh s)) t" "bptr ?D t i b" "b_data (bufs t ! i) = view ?D {} s b"
      "held ?D t = insert b (held ?D s)" "view ?D (log_data s) t = view ?D (log_data s) s" "only_cache s t" "others_kept ?D b s t"
    by (auto simp: ok_def)
  have k: "lkept s t" by (rule only_cache_log [OF t(6)])
  have f: "lg_dev t = ?D" "lh t = lh s" "home t = home s" "log_data t = log_data s" "dsk t = dsk s" "wtrace t = wtrace s"
    using k lkept_home [OF k] lkept_data [OF k] only_cacheD [OF t(6)] by (simp_all add: lkept_def)
  have cl: "b \<in> set (lh s) \<or> b_data (bufs t ! i) = dsk s (unat b)"
    using clean_view [OF q(1) assms(3)] home_not_data [OF q(2) assms(2)] t(3) by auto
  have "bkeep s t" by (rule bkeep_others [OF q(1) t(7) assms(3)])
  then have "lholds s b i t"
    using lkept_log_ok [OF t(6) assms(1) t(1)] t(2-5) cl f vw_home [OF assms(1,2)] assms(2) k
    by (simp add: lholds_def lptr_def vw_def)
  then show ?thesis by (simp add: r)
qed

lemma lholds_fields:
  assumes "lholds s b i t"
  shows "lg_start t = lg_start s" "lg_dev t = lg_dev s" "sdev t = sdev s" "length (bufs t) = length (bufs s)"
    "lg_outstanding t = lg_outstanding s" "lg_reserved t = lg_reserved s" "lg_committing t = lg_committing s"
    "xlog.more t = xlog.more s" "home t = home s" "log_data t = log_data s" "lh t = lh s" "dsk t = dsk s"
    "log_ok t" "lptr t i b" "vw t = vw s" "lheld t = insert b (lheld s)" "b_data (bufs t ! i) = vw s b"
  using assms by (auto simp: lholds_def lkept_def home_def log_data_def on_dev_def fun_eq_iff)

text \<open>Releasing a locked block.\<close>

lemma brelse_step:
  fixes s :: "'a xlog_scheme"
  assumes "log_ok s" and "lptr s i b"
  shows "log_ok (xv6brelse i s)" "lheld (xv6brelse i s) = lheld s - {b}" "vw (xv6brelse i s) = vw s"
    "lkept s (xv6brelse i s)" "dsk (xv6brelse i s) = dsk s" "wtrace (xv6brelse i s) = wtrace s"
    "j \<noteq> i \<Longrightarrow> bptr (lg_dev s) s j c \<Longrightarrow> bptr (lg_dev s) (xv6brelse i s) j c"
    "b_data (bufs (xv6brelse i s) ! j) = b_data (bufs s ! j)"
proof -
  let ?t = "xv6brelse i s"
  have b: "binv (lg_dev s) (log_data s) (set (lh s)) s" and p: "bptr (lg_dev s) s i b"
    and d: "b \<in> set (lh s) \<or> b \<in> log_data s \<or> b_data (bufs s ! i) = dsk s (unat b)"
    using assms by (auto simp: log_ok_def lptr_def)
  note e = brelse_ok [OF b p d]
  show "log_ok ?t" by (rule lkept_log_ok [OF e(4) assms(1) e(1)])
  show k: "lkept s ?t" by (rule only_cache_log [OF e(4)])
  then have f: "lg_dev ?t = lg_dev s" "log_data ?t = log_data s" using lkept_data [OF k] by (simp_all add: lkept_def)
  show "lheld ?t = lheld s - {b}" "vw ?t = vw s" using e(2,3) f by (simp_all add: vw_def)
  show "dsk ?t = dsk s" "wtrace ?t = wtrace s" using only_cacheD [OF e(4)] by simp_all
  show "bptr (lg_dev s) ?t j c" if "j \<noteq> i" "bptr (lg_dev s) s j c"
  proof -
    have "c \<noteq> b" using that p by (auto simp: bptr_def)
    then show ?thesis using e(9) that(2) by simp
  qed
  have i: "i < length (bufs s)" using bfindD(1) [OF b] p by (auto simp: bptr_def)
  obtain l where "?t = (bupd i (\<lambda>x. x\<lparr>b_locked := False, b_refcnt := b_refcnt x - 1\<rparr>) s)\<lparr>lru := l\<rparr>"
    using brelse_eq [OF i] by blast
  then show "b_data (bufs ?t ! j) = b_data (bufs s ! j)" using i by (simp add: bufs_bupd)
qed

text \<open>A step of the client that has locked \<open>b\<close> and may write to its buffer.\<close>

definition lmod :: "u32 \<Rightarrow> 'a xlog_scheme \<Rightarrow> 'a xlog_scheme \<Rightarrow> bool" where
  "lmod b s t \<longleftrightarrow> log_ok t \<and> lheld t = lheld s \<and> dsk t = dsk s \<and> wtrace t = wtrace s \<and>
     lg_start t = lg_start s \<and> lg_dev t = lg_dev s \<and> lg_outstanding t = lg_outstanding s \<and> lg_reserved t = lg_reserved s \<and>
     lg_committing t = lg_committing s \<and> sdev t = sdev s \<and> io_fault t = io_fault s \<and> length (bufs t) = length (bufs s) \<and>
     set (lh s) \<subseteq> set (lh t) \<and> length (lh s) \<le> length (lh t) \<and>
     (\<forall>j c. c \<noteq> b \<longrightarrow> bptr (lg_dev s) s j c \<longrightarrow> bptr (lg_dev s) t j c \<and> b_data (bufs t ! j) = b_data (bufs s ! j))"

lemma lstep_lmod: "lstep s t \<Longrightarrow> lmod b s t"
  unfolding lstep_def lmod_def bkeep_def by blast

lemma lmod_trans:
  assumes "lmod b s t" and "lmod b t u"
  shows "lmod b s u"
proof -
  have "bptr (lg_dev s) u j c \<and> b_data (bufs u ! j) = b_data (bufs s ! j)" if "c \<noteq> b" "bptr (lg_dev s) s j c" for j c
  proof -
    have "bptr (lg_dev s) t j c" "b_data (bufs t ! j) = b_data (bufs s ! j)" "lg_dev t = lg_dev s"
      using assms(1) that by (auto simp: lmod_def)
    then show ?thesis using assms(2) that(1) by (auto simp: lmod_def)
  qed
  then show ?thesis using assms by (auto simp: lmod_def)
qed

lemma lmod_fields:
  assumes "lmod b s t"
  shows "lg_start t = lg_start s" "lg_dev t = lg_dev s" "sdev t = sdev s" "length (bufs t) = length (bufs s)"
    "lg_outstanding t = lg_outstanding s" "lg_reserved t = lg_reserved s" "lg_committing t = lg_committing s"
    "home t = home s" "log_data t = log_data s" "dsk t = dsk s" "log_ok t" "lheld t = lheld s"
  using assms by (auto simp: lmod_def home_def log_data_def on_dev_def fun_eq_iff)

lemma holds_mod:
  fixes s t u :: "'a xlog_scheme"
  assumes h: "lholds s b i t" and st: "lmod b t u" and lp: "lptr u i b" and nh: "b \<notin> lheld s"
  shows "lstep s (xv6brelse i u)" "vw (xv6brelse i u) = vw u" "xlog.more (xv6brelse i u) = xlog.more u"
    "lh (xv6brelse i u) = lh u"
proof -
  let ?r = "xv6brelse i u"
  note L = lmod_fields [OF st] and H = lholds_fields [OF h]
  note r = brelse_step [OF L(11) lp]
  show "vw ?r = vw u" "xlog.more ?r = xlog.more u" "lh ?r = lh u" using r(3,4) by (simp_all add: lkept_def)
  have "bptr (lg_dev s) ?r j c \<and> b_data (bufs ?r ! j) = b_data (bufs s ! j)" if a: "bptr (lg_dev s) s j c" for j c
  proof -
    have c: "c \<noteq> b" using bptr_held [OF a] nh by auto
    have t: "bptr (lg_dev s) t j c" "b_data (bufs t ! j) = b_data (bufs s ! j)" using h a by (auto simp: lholds_def bkeep_def)
    then have u: "bptr (lg_dev s) u j c" "b_data (bufs u ! j) = b_data (bufs s ! j)" using st H(2) c by (auto simp: lmod_def)
    have bu: "binv (lg_dev s) (log_data u) (set (lh u)) u" using L(2,11) H(2) by (simp add: log_ok_def)
    have "j \<noteq> i"
    proof
      assume "j = i"
      then have "bhash_find (lg_dev s) c u = Some i" "bhash_find (lg_dev s) b u = Some i"
        using u(1) lp L(2) H(2) by (auto simp: lptr_def bptr_def)
      then show False using find_inj [OF bu] c by metis
    qed
    then show ?thesis using r(7,8) u L(2) H(2) by auto
  qed
  then have "bkeep s ?r" by (simp add: bkeep_def)
  moreover have "lheld ?r = lheld s" using r(2) L(12) H(16) nh by simp
  ultimately show "lstep s ?r"
    using r(1,4-6) st h by (auto simp: lstep_def lmod_def lholds_def lkept_def)
qed

lemma holds_release:
  fixes s t u :: "'a xlog_scheme"
  assumes h: "lholds s b i t" and st: "lstep t u" and nh: "b \<notin> lheld s"
  shows "lstep s (xv6brelse i u)" "vw (xv6brelse i u) = vw u" "xlog.more (xv6brelse i u) = xlog.more u"
    "lh (xv6brelse i u) = lh u"
  by (rule holds_mod [OF h lstep_lmod [OF st] lstep_lptr(1) [OF st lholds_fields(14) [OF h]] nh])+

text \<open>Reading a block and releasing it.\<close>

lemma peek_ok:
  fixes s :: "'a xlog_scheme"
  assumes "log_ok s" and "home s b" and "b \<notin> lheld s" and "card (lheld s) \<le> 4"
  shows "ok (xv6bread (lg_dev s) b s) (\<lambda>(i, t). b_data (bufs t ! i) = vw s b \<and> lstep s (xv6brelse i t) \<and>
    vw (xv6brelse i t) = vw s \<and> xlog.more (xv6brelse i t) = xlog.more s \<and> lh (xv6brelse i t) = lh s)"
  using bread_holds [OF assms]
proof (rule ok_conseq, clarify)
  fix i t assume h: "lholds s b i t"
  note r = holds_release [OF h lstep_refl assms(3)] and H = lholds_fields [OF h]
  show "b_data (bufs t ! i) = vw s b \<and> lstep s (xv6brelse i t) \<and> vw (xv6brelse i t) = vw s \<and>
      xlog.more (xv6brelse i t) = xlog.more s \<and> lh (xv6brelse i t) = lh s"
    using r H by simp
qed

text \<open>Writing to a locked buffer and logging it.\<close>

definition log_add :: "u32 \<Rightarrow> u32 list \<Rightarrow> u32 list" where
  "log_add b xs = (if b \<in> set xs then xs else xs @ [b])"

lemma log_add_simps [simp]: "set (log_add b xs) = insert b (set xs)" "length xs \<le> length (log_add b xs)"
  "length (log_add b xs) \<le> length xs + 1"
  by (auto simp: log_add_def)

lemma bset_bset [simp]: "bset i x (bset i y s) = bset i x s"
  by (simp add: bset_def)

lemma log_ok_data:
  assumes "lkept s t" and "binv (lg_dev s) (log_data s) (set (lh s)) t" and "dsk t = dsk s" and "log_ok s"
  shows "log_ok t"
  using assms lkept_wf [OF assms(1)] lkept_data [OF assms(1)] wf_blocks_kept [OF assms(1)]
  by (simp add: log_ok_def) (simp add: lkept_def)

lemma log_write_mod:
  fixes s :: "'a xlog_scheme"
  assumes ok: "log_ok s" and lp: "lptr s i b" and out: "lg_outstanding s \<ge> 1" and room: "length (lh s) < 126"
  shows "ok (xv6log_write i (bset i x s)) (\<lambda>t. lmod b s t \<and> lptr t i b \<and> b_data (bufs t ! i) = x \<and>
    vw t = (vw s)(b := x) \<and> lh t = log_add b (lh s) \<and> xlog.more t = xlog.more s)"
proof -
  let ?D = "lg_dev s" and ?X = "log_data s" and ?P = "set (lh s)" and ?u = "bset i x s"
  have B: "binv ?D ?X ?P s" and wf: "wf_log s" and wb: "wf_blocks s (lh s)" and p: "bptr ?D s i b" and hb: "home s b"
    using ok lp by (simp_all add: log_ok_def lptr_def)
  have nX: "b \<notin> ?X" by (rule home_not_data [OF wf hb])
  note e = bset_ok [OF B p, where d = x]
  have k: "lkept s ?u" by (rule only_cache_log [OF e(5)])
  have du: "dsk ?u = dsk s" "wtrace ?u = wtrace s" using only_cacheD [OF e(5)] by simp_all
  have bn: "b_blockno (bufs ?u ! i) = b" using bfindD(3) [OF e(1), of b i] p e(8) by (simp add: bptr_def)
  have lu: "lh ?u = lh s" "lg_outstanding ?u = lg_outstanding s" "lg_dev ?u = ?D" using k by (simp_all add: lkept_def)
  have oth: "bptr ?D ?u j c \<and> b_data (bufs ?u ! j) = b_data (bufs s ! j)" if c: "c \<noteq> b" "bptr ?D s j c" for j c
    using others_kept_bptr [OF B e(6) c(2,1)] others_keptD1 [OF e(6) c(1), of j] by (simp add: bptr_def)
  show ?thesis
  proof (cases "b \<in> ?P")
    case True
    have lk: "log_ok ?u" by (rule log_ok_data [OF k e(1) du(1) ok])
    have "lmod b s ?u" using lk k du oth e(2) by (simp add: lmod_def lkept_def)
    moreover have "vw ?u = (vw s)(b := x)" using e(4) nX lkept_data [OF k] lu(3) by (simp add: vw_def)
    moreover have "lptr ?u i b" using p e(3) lkept_home [OF k] hb True lu by (simp add: lptr_def)
    ultimately show ?thesis using e(7) True room out bn lu k
      by (simp add: xv6log_write_def XV6FS_LOGBLOCKS_def log_add_def lkept_def)
  next
    case False
    let ?v = "(xv6bpin i ?u)\<lparr>lh := lh s @ [b]\<rparr>"
    have pu: "bptr ?D ?u i b" using e(3) p by simp
    note q = bpin_ok [OF e(1) pu False]
    have kq: "lkept ?u (xv6bpin i ?u)" by (rule only_cache_log [OF q(5)])
    have f: "lg_start ?v = lg_start s" "lg_dev ?v = ?D" "lg_outstanding ?v = lg_outstanding s" "lg_reserved ?v = lg_reserved s"
      "lg_committing ?v = lg_committing s" "sdev ?v = sdev s" "io_fault ?v = io_fault s" "length (bufs ?v) = length (bufs s)"
      "xlog.more ?v = xlog.more s" "dsk ?v = dsk s" "wtrace ?v = wtrace s"
      using k kq du only_cacheD [OF q(5)] by (simp_all add: lkept_def)
    have g: "wf_log ?v = wf_log s" "home ?v = home s" "log_data ?v = ?X"
      using f by (simp_all add: wf_log_def home_def log_data_def singles_ok_def on_dev_def fun_eq_iff)
    have "wf_blocks ?v (lh s @ [b])"
      unfolding wf_blocks_def g(2) using wb hb False room by (auto simp: wf_blocks_def)
    then have lk: "log_ok ?v" using q(1) wf g f(1,2,10) ok by (simp add: log_ok_def)
    have "bptr ?D ?v j c \<and> b_data (bufs ?v ! j) = b_data (bufs s ! j)" if c: "c \<noteq> b" "bptr ?D s j c" for j c
      using others_kept_bptr [OF e(1) q(6) _ c(1), of j] oth [OF c] others_keptD1 [OF q(6) c(1), of j] by (simp add: bptr_def)
    then have "lmod b s ?v" using lk f e(2) q(2) by (auto simp: lmod_def)
    moreover have "vw ?v = (vw s)(b := x)" using q(4) e(4) nX g(3) f(2) by (simp add: vw_def)
    moreover have "lptr ?v i b" using q(3) pu g(2) hb f(2) by (simp add: lptr_def)
    ultimately show ?thesis using q(7) e(7) False room out bn lu f(9)
      by (simp add: xv6log_write_def XV6FS_LOGBLOCKS_def log_add_def)
  qed
qed

text \<open>Reading a block, replacing its contents, logging it and releasing it.\<close>

definition poke :: "u32 \<Rightarrow> (block \<Rightarrow> block) \<Rightarrow> 'a xlog_scheme \<Rightarrow> 'a xlog_scheme option" where
  "poke b f s =
     do { (i, s1) \<leftarrow> xv6bread (lg_dev s) b s;
          s2 \<leftarrow> xv6log_write i (bset i (f (b_data (bufs s1 ! i))) s1);
          Some (xv6brelse i s2) }"

lemma poke_ok:
  fixes s :: "'a xlog_scheme"
  assumes "log_ok s" and "home s b" and "b \<notin> lheld s" and "card (lheld s) \<le> 4"
    and "lg_outstanding s \<ge> 1" and "length (lh s) < 126"
  shows "ok (poke b f s) (\<lambda>t. lstep s t \<and> vw t = (vw s)(b := f (vw s b)) \<and> lh t = log_add b (lh s) \<and> xlog.more t = xlog.more s)"
proof -
  from bread_holds [OF assms(1-4)] obtain i t where r: "xv6bread (lg_dev s) b s = Some (i, t)" and h: "lholds s b i t"
    by (auto simp: ok_def)
  note H = lholds_fields [OF h]
  let ?x = "f (vw s b)"
  from log_write_mod [OF H(13,14), of ?x] assms(5,6) H(5,11) obtain u where w: "xv6log_write i (bset i ?x t) = Some u"
    and u: "lmod b t u" "lptr u i b" "vw u = (vw t)(b := ?x)" "lh u = log_add b (lh t)" "xlog.more u = xlog.more t"
    by (auto simp: ok_def)
  note R = holds_mod [OF h u(1,2) assms(3)]
  show ?thesis using R u(3-5) H by (simp add: poke_def r w)
qed

section \<open>Reservations\<close>

lemma clamp_need_range: "1 \<le> clamp_need n" "clamp_need n \<le> 126"
  by (simp_all add: clamp_need_def Let_def XV6FS_LOGBLOCKS_def)

text \<open>What \<open>begin_op\<close> leaves behind: the client sees the same blocks, the log has room for the reservation.\<close>

definition begun :: "int \<Rightarrow> 'a xlog_scheme \<Rightarrow> 'a xlog_scheme \<Rightarrow> bool" where
  "begun need s t \<longleftrightarrow> log_inv t \<and> lg_outstanding t = lg_outstanding s + 1 \<and> lg_reserved t = lg_reserved s + need \<and>
     \<not> lg_committing t \<and> log_n t + lg_reserved t \<le> 126 \<and> home t = home s \<and> xlog.more t = xlog.more s \<and>
     lg_dev t = lg_dev s \<and> lg_start t = lg_start s \<and> (\<forall>b. home s b \<longrightarrow> vw t b = vw s b)"

lemma log_inv_fields [simp]:
  fixes s :: "'a xlog_scheme"
  shows "log_inv (s\<lparr>lg_outstanding := i\<rparr>) = log_inv s" "log_inv (s\<lparr>lg_reserved := i\<rparr>) = log_inv s"
    "log_inv (s\<lparr>lg_committing := c\<rparr>) = log_inv s" "log_n (s\<lparr>lg_outstanding := i\<rparr>) = log_n s"
    "log_n (s\<lparr>lg_reserved := i\<rparr>) = log_n s" "log_n (s\<lparr>lg_committing := c\<rparr>) = log_n s"
    "vw (s\<lparr>lg_outstanding := i\<rparr>) = vw s" "vw (s\<lparr>lg_reserved := i\<rparr>) = vw s" "vw (s\<lparr>lg_committing := c\<rparr>) = vw s"
    "home (s\<lparr>lg_outstanding := i\<rparr>) = home s" "home (s\<lparr>lg_reserved := i\<rparr>) = home s" "home (s\<lparr>lg_committing := c\<rparr>) = home s"
  by (simp_all add: log_inv_def log_n_def vw_def log_data_def home_def on_dev_def fun_eq_iff)
    (simp_all add: wf_blocks_def home_def on_dev_def)

lemma begin_enter:
  assumes "log_inv s" and "can_enter need s"
  shows "ok (begin_loop need s) (begun need s)"
  by (subst begin_loop.simps) (use assms in \<open>simp add: begun_def can_enter_def XV6FS_LOGBLOCKS_def\<close>)

lemma run_commit_ok:
  assumes "log_inv s" and "\<not> lg_committing s"
  shows "ok (run_commit s) (\<lambda>t. log_inv t \<and> lh t = [] \<and> lkept (s\<lparr>lh := []\<rparr>) t \<and> home t = home s \<and>
    (\<forall>b. home s b \<longrightarrow> vw t b = vw s b \<and> dsk t (unat b) = vw s b))"
proof -
  let ?s = "s\<lparr>lg_committing := True\<rparr>"
  have i: "log_inv ?s" using assms(1) by simp
  from commit_ok [OF i] obtain t where r: "commit ?s = Some t" and t: "committed ?s t" by (auto simp: ok_def)
  let ?t = "t\<lparr>lg_committing := False\<rparr>"
  have k: "lkept (s\<lparr>lh := []\<rparr>) ?t" using t assms(2) by (simp add: committed_def lkept_def)
  have inv: "log_inv ?t" "lh ?t = []" using t by (simp_all add: committed_def)
  have hm: "home ?t = home s" using k by (simp add: lkept_def home_def on_dev_def fun_eq_iff)
  have "vw ?t b = vw s b \<and> dsk ?t (unat b) = vw s b" if hb: "home s b" for b
  proof -
    have "vw ?t b = view (lg_dev s) {} ?t b"
      using vw_home [of ?t b] inv(1) log_inv_iff [of ?t] hb hm k by (simp add: lkept_def)
    moreover have "vw s b = view (lg_dev s) {} s b" using vw_home [OF _ hb] assms(1) log_inv_iff by blast
    ultimately show ?thesis using t hb by (simp add: committed_def)
  qed
  then show ?thesis using inv k hm by (simp add: run_commit_def r)
qed

lemma begin_op_idle:
  assumes "log_inv s" and "\<not> lg_committing s" and "lg_outstanding s = 0" and "lg_reserved s = 0"
  shows "ok (xv6log_begin_op n s) (begun (clamp_need n) s)"
proof (cases "can_enter (clamp_need n) s")
  case True
  then show ?thesis using begin_enter [OF assms(1)] by (simp add: xv6log_begin_op_def)
next
  case False
  have "log_n s > 0"
  proof (rule ccontr)
    assume "\<not> log_n s > 0"
    then have "log_n s = 0" by (simp add: log_n_def)
    then show False using False assms clamp_need_range(2) [of n] by (simp add: can_enter_def XV6FS_LOGBLOCKS_def)
  qed
  then have c: "can_commit s" using assms by (simp add: can_commit_def)
  from run_commit_ok [OF assms(1,2)] obtain t where r: "run_commit s = Some t"
    and t: "log_inv t" "lh t = []" "lkept (s\<lparr>lh := []\<rparr>) t" "home t = home s" "\<forall>b. home s b \<longrightarrow> vw t b = vw s b"
    by (auto simp: ok_def)
  have "can_enter (clamp_need n) t"
    using t(2,3) assms clamp_need_range(2) [of n] by (simp add: can_enter_def XV6FS_LOGBLOCKS_def log_n_def lkept_def)
  from begin_enter [OF t(1) this] have "ok (begin_loop (clamp_need n) t) (begun (clamp_need n) s)"
    by (rule ok_conseq) (use t in \<open>auto simp: begun_def lkept_def\<close>)
  then show ?thesis
    by (subst xv6log_begin_op_def, subst begin_loop.simps) (simp add: False c r)
qed

lemma begin_op_cases:
  assumes "log_inv s" and "\<not> lg_committing s" and "xv6log_begin_op n s = Some t"
    and "lg_outstanding s = 0 \<Longrightarrow> lg_reserved s = 0"
  shows "begun (clamp_need n) s t"
proof (cases "can_enter (clamp_need n) s")
  case True
  then show ?thesis using ok_result [OF begin_enter [OF assms(1)]] assms(3) by (simp add: xv6log_begin_op_def)
next
  case False
  have "lg_outstanding s = 0"
  proof (rule ccontr)
    assume "lg_outstanding s \<noteq> 0"
    then have "\<not> can_commit s" by (simp add: can_commit_def)
    then show False using assms(3) False by (simp add: xv6log_begin_op_def begin_loop.simps)
  qed
  then show ?thesis using ok_result [OF begin_op_idle [OF assms(1,2)]] assms(3,4) by simp
qed

text \<open>C11. Liveness of \<open>begin_op\<close>. Once the log is not being committed, a call returns at once exactly if the
  reservation fits or no transaction is open (then a full log is committed first); otherwise it waits for
  another transaction to end. A call with no open transaction always returns, with its reservation granted and
  with every block reading as before.\<close>

theorem begin_op_returns:
  assumes "log_inv s" and "\<not> lg_committing s" and "lg_outstanding s = 0 \<longrightarrow> lg_reserved s = 0"
  shows "(xv6log_begin_op n s \<noteq> None \<longleftrightarrow> can_enter (clamp_need n) s \<or> lg_outstanding s = 0) \<and>
    (\<forall>t. xv6log_begin_op n s = Some t \<longrightarrow> log_inv t \<and> lg_outstanding t = lg_outstanding s + 1 \<and>
       lg_reserved t = lg_reserved s + clamp_need n \<and> log_n t + lg_reserved t \<le> int XV6FS_LOGBLOCKS \<and>
       (\<forall>b. home s b \<longrightarrow> vw t b = vw s b))"
proof -
  have 1: "xv6log_begin_op n s \<noteq> None" if "can_enter (clamp_need n) s \<or> lg_outstanding s = 0"
    using that begin_enter [OF assms(1)] begin_op_idle [OF assms(1,2), of n] assms(3)
    by (auto simp: ok_def xv6log_begin_op_def)
  have 2: "xv6log_begin_op n s = None" if "\<not> (can_enter (clamp_need n) s \<or> lg_outstanding s = 0)"
    using that by (simp add: xv6log_begin_op_def begin_loop.simps can_commit_def)
  have 3: "begun (clamp_need n) s t" if "xv6log_begin_op n s = Some t" for t
    by (rule begin_op_cases) (use assms that in auto)
  have "xv6log_begin_op n s \<noteq> None \<longleftrightarrow> can_enter (clamp_need n) s \<or> lg_outstanding s = 0"
    by (cases "can_enter (clamp_need n) s \<or> lg_outstanding s = 0") (rule iffI, blast, simp add: 1, simp add: 2)
  moreover have "\<forall>t. xv6log_begin_op n s = Some t \<longrightarrow> log_inv t \<and> lg_outstanding t = lg_outstanding s + 1 \<and>
       lg_reserved t = lg_reserved s + clamp_need n \<and> log_n t + lg_reserved t \<le> int XV6FS_LOGBLOCKS \<and>
       (\<forall>b. home s b \<longrightarrow> vw t b = vw s b)"
  proof (intro allI impI)
    fix t assume "xv6log_begin_op n s = Some t"
    from 3 [OF this] show "log_inv t \<and> lg_outstanding t = lg_outstanding s + 1 \<and>
       lg_reserved t = lg_reserved s + clamp_need n \<and> log_n t + lg_reserved t \<le> int XV6FS_LOGBLOCKS \<and>
       (\<forall>b. home s b \<longrightarrow> vw t b = vw s b)"
      by (simp add: begun_def XV6FS_LOGBLOCKS_def)
  qed
  ultimately show ?thesis by blast
qed

section \<open>Concurrent transactions\<close>

text \<open>The log with its open transactions, each with the number of blocks it has reserved and the number of new
  blocks it has logged. Transactions are started, write and end in any order; a transaction logs new blocks
  only up to its reservation.\<close>

inductive txns :: "'a xlog_scheme \<Rightarrow> (int \<times> int) list \<Rightarrow> bool" where
  txn_idle: "txns s []" if "log_inv s" "\<not> lg_committing s" "lg_outstanding s = 0" "lg_reserved s = 0"
| txn_begin: "txns t ((clamp_need n, 0) # ops)" if "txns s ops" "lheld s = {}" "xv6log_begin_op n s = Some t"
| txn_lock: "txns t ops" if "txns s ops" "home s b" "b \<notin> lheld s" "card (lheld s) \<le> 4" "xv6bread (lg_dev s) b s = Some (i, t)"
| txn_write: "txns t (ops[j := (n, u + of_bool (b \<notin> set (lh s)))])" if "txns s ops" "lptr s i b" "j < length ops"
    "ops ! j = (n, u)" "u < n" "xv6log_write i (bset i x s) = Some t"
| txn_unlock: "txns (xv6brelse i s) ops" if "txns s ops" "lptr s i b"
| txn_end: "txns t (take j ops @ drop (Suc j) ops)" if "txns s ops" "j < length ops" "ops ! j = (clamp_need n, u)"
    "xv6log_end_op n s = Some t"
| txn_commit: "txns t ops" if "txns s ops" "lheld s = {}" "xv6log_commit_if_idle s = Some t"

definition budget :: "(int \<times> int) list \<Rightarrow> int" where
  "budget ops = (\<Sum>(n, u) \<leftarrow> ops. n - u)"

definition txns_inv :: "'a xlog_scheme \<Rightarrow> (int \<times> int) list \<Rightarrow> bool" where
  "txns_inv s ops \<longleftrightarrow> log_ok s \<and> \<not> lg_committing s \<and> lg_outstanding s = int (length ops) \<and>
     lg_reserved s = sum_list (map fst ops) \<and> (\<forall>(n, u) \<in> set ops. 0 \<le> u \<and> u \<le> n) \<and> log_n s + budget ops \<le> 126"

lemma sum_list_split:
  fixes f :: "'b \<Rightarrow> int"
  assumes "j < length xs"
  shows "sum_list (map f xs) = f (xs ! j) + sum_list (map f (take j xs @ drop (Suc j) xs))"
  by (subst id_take_nth_drop [OF assms]) simp

lemma sum_list_upd:
  fixes f :: "'b \<Rightarrow> int"
  assumes "j < length xs"
  shows "sum_list (map f (xs[j := y])) = sum_list (map f xs) - f (xs ! j) + f y"
  using assms sum_list_split [of j xs f] by (simp add: upd_conv_take_nth_drop)

lemma txns_write:
  assumes inv: "txns_inv s ops" and "lptr s i b" and "j < length ops" and "ops ! j = (n, u)" and "u < n"
  shows "ok (xv6log_write i (bset i x s)) (\<lambda>t. txns_inv t (ops[j := (n, u + of_bool (b \<notin> set (lh s)))]))"
proof -
  let ?o = "ops[j := (n, u + of_bool (b \<notin> set (lh s)))]"
  have pos: "0 \<le> n' - u'" if "(n', u') \<in> set ops" for n' u' using inv that by (auto simp: txns_inv_def)
  have mem: "(n, u) \<in> set ops" using assms(3,4) nth_mem by metis
  have "n - u \<le> budget ops"
    using sum_list_split [OF assms(3), of "\<lambda>(n, u). n - u"] assms(4) sum_list_nonneg [of "map (\<lambda>(n, u). n - u) (take j ops @ drop (Suc j) ops)"]
    by (force simp: budget_def dest!: in_set_takeD in_set_dropD dest: pos)
  then have room: "length (lh s) < 126" using inv assms(5) by (simp add: txns_inv_def log_n_def)
  have out: "lg_outstanding s \<ge> 1" using inv assms(3) by (simp add: txns_inv_def)
  have lk: "log_ok s" using inv by (simp add: txns_inv_def)
  from log_write_mod [OF lk assms(2) out room, of x] show ?thesis
  proof (rule ok_conseq, elim conjE)
    fix t assume t: "lmod b s t" "lh t = log_add b (lh s)"
    have "log_n t + budget ?o = log_n s + budget ops"
      using assms(3,4) t(2) by (simp add: budget_def sum_list_upd log_n_def log_add_def)
    moreover have "sum_list (map fst ?o) = sum_list (map fst ops)" using assms(3,4) by (simp add: sum_list_upd)
    moreover have "\<forall>(n, u) \<in> set ?o. 0 \<le> u \<and> u \<le> n"
    proof -
      have "0 \<le> u" using inv mem by (auto simp: txns_inv_def)
      then show ?thesis using inv assms(5) set_update_subset_insert [of ops j] by (fastforce simp: txns_inv_def)
    qed
    ultimately show "txns_inv t ?o" using inv lmod_fields [OF t(1)] by (simp add: txns_inv_def)
  qed
qed

lemma log_ok_fields [simp]:
  fixes s :: "'a xlog_scheme"
  shows "log_ok (s\<lparr>lg_outstanding := i\<rparr>) = log_ok s" "log_ok (s\<lparr>lg_reserved := i\<rparr>) = log_ok s"
    "log_ok (s\<lparr>lg_committing := c\<rparr>) = log_ok s"
  by (simp_all add: log_ok_def log_data_def wf_log_def singles_ok_def on_dev_def)
    (simp_all add: wf_blocks_def home_def on_dev_def)

lemma txns_end:
  assumes inv: "txns_inv s ops" and "j < length ops" and "ops ! j = (clamp_need n, u)"
  shows "ok (xv6log_end_op n s) (\<lambda>t. txns_inv t (take j ops @ drop (Suc j) ops))"
proof -
  define os where "os = take j ops @ drop (Suc j) ops"
  have "set os \<subseteq> set ops" unfolding os_def using set_take_subset [of j ops] set_drop_subset [of "Suc j" ops] by auto
  then have all: "\<forall>(n, u) \<in> set os. 0 \<le> u \<and> u \<le> n" using inv unfolding txns_inv_def by blast
  have nn: "0 \<le> sum_list (map fst os)" by (rule sum_list_nonneg) (use all in fastforce)
  have mem: "(clamp_need n, u) \<in> set ops" using assms(2,3) nth_mem by metis
  have u: "u \<le> clamp_need n" using inv mem by (auto simp: txns_inv_def)
  have r: "lg_reserved s - clamp_need n = sum_list (map fst os)"
    using inv sum_list_split [OF assms(2), of fst] assms(3) by (simp add: txns_inv_def os_def)
  have "budget ops = clamp_need n - u + budget os"
    using sum_list_split [OF assms(2), of "\<lambda>(n, u). n - u"] assms(3) by (simp add: budget_def os_def)
  then have b: "log_n s + budget os \<le> 126" using inv u by (simp add: txns_inv_def)
  have l: "lg_outstanding s - 1 = int (length os)" using inv assms(2) by (simp add: txns_inv_def os_def)
  show ?thesis
    unfolding os_def [symmetric] using inv all nn r b l by (simp add: xv6log_end_op_def Let_def txns_inv_def log_n_def)
qed

lemma txns_begin:
  assumes inv: "txns_inv s ops" and "lheld s = {}" and "xv6log_begin_op n s = Some t"
  shows "txns_inv t ((clamp_need n, 0) # ops)"
proof -
  have "log_inv s" using inv assms(2) by (simp add: txns_inv_def log_inv_iff)
  then have b: "begun (clamp_need n) s t"
    by (rule begin_op_cases) (use inv assms(3) in \<open>auto simp: txns_inv_def\<close>)
  have "budget ops \<le> sum_list (map fst ops)"
    unfolding budget_def by (rule sum_list_mono) (use inv in \<open>auto simp: txns_inv_def\<close>)
  then show ?thesis
    using inv b clamp_need_range(1) [of n] by (auto simp: txns_inv_def begun_def log_inv_iff budget_def)
qed

lemma txns_invariant: "txns s ops \<Longrightarrow> txns_inv s ops"
proof (induction rule: txns.induct)
  case (txn_idle s)
  have "length (lh s) \<le> 126" using txn_idle(1) by (simp add: log_inv_def wf_blocks_def)
  then show ?case using txn_idle by (simp add: txns_inv_def log_inv_iff budget_def log_n_def)
next
  case (txn_begin s ops n t)
  then show ?case by (blast intro: txns_begin)
next
  case (txn_lock s ops b i t)
  have "lholds s b i t"
    using ok_result [OF bread_holds [of s b] txn_lock.hyps(5)] txn_lock by (simp add: txns_inv_def)
  then show ?case using txn_lock.IH lholds_fields [of s b i t] by (simp add: txns_inv_def log_n_def)
next
  case (txn_write s ops i b j n u x t)
  then show ?case using ok_result [OF txns_write] by blast
next
  case (txn_unlock s ops i b)
  then show ?case using brelse_step(1,4) [of s i b] by (simp add: txns_inv_def log_n_def lkept_def)
next
  case (txn_end s ops j n u t)
  then show ?case using ok_result [OF txns_end] by blast
next
  case (txn_commit s ops t)
  have "log_inv s" using txn_commit by (simp add: txns_inv_def log_inv_iff)
  show ?case
  proof (cases "can_commit s")
    case True
    then have "run_commit s = Some t" using txn_commit.hyps(3) by (simp add: xv6log_commit_if_idle_def)
    moreover have "\<not> lg_committing s" using txn_commit.IH by (simp add: txns_inv_def)
    ultimately have "log_inv t \<and> lh t = [] \<and> lkept (s\<lparr>lh := []\<rparr>) t"
      using ok_result [OF run_commit_ok [OF \<open>log_inv s\<close>]] by blast
    then show ?thesis using txn_commit.IH by (simp add: txns_inv_def log_inv_iff lkept_def log_n_def)
  qed (use txn_commit in \<open>simp add: xv6log_commit_if_idle_def\<close>)
qed


section \<open>An example\<close>

text \<open>An empty disk of 1000 blocks with the log at block 2, mounted; a transaction that writes to block 200.\<close>

definition log_ex :: xlog where
  "log_ex = \<lparr>sdev = Some \<lparr>block_count = 2000, read_only = False, has_write = True\<rparr>, dsk = (\<lambda>_ _. 0),
     io_fault = (\<lambda>_ _. None), io_seq = 0, wtrace = [],
     bufs = replicate 140 \<lparr>b_valid = True, b_dev = 0, b_blockno = 0, b_locked = True, b_refcnt = 7, b_data = (\<lambda>_. 0)\<rparr>,
     lru = [], htab = (\<lambda>_. []), lg_start = 2, lg_outstanding = 5, lg_reserved = 0, lg_committing = True, lg_dev = 1,
     lh = [], g_stage = None, g_stage_valid = False, g_commits = 0, g_log_blocks = 0, g_install_runs = 0\<rparr>"

definition log_ex1 :: xlog where
  "log_ex1 = the (mounts log_ex log_ex None)"

definition log_ex2 :: xlog where
  "log_ex2 = the (xv6log_begin_op 10 log_ex1)"

definition log_ex3 :: xlog where
  "log_ex3 = the (poke 200 (\<lambda>_ _. 1) log_ex2)"

lemma hdr_zero: "hdr [] (\<lambda>_. 0)"
  by (simp add: hdr_def head_n_def rd32_def)

lemma log_ex_wf: "wf_log log_ex" "good_disk log_ex (\<lambda>_ _. 0)" "boots log_ex (\<lambda>_ _. 0) log_ex"
proof -
  show "wf_log log_ex" by (simp add: wf_log_def singles_ok_def on_dev_def log_ex_def)
  show "good_disk log_ex (\<lambda>_ _. 0)"
    unfolding good_disk_def by (rule exI [of _ "[]"]) (simp add: hdr_zero wf_blocks_def)
  show "boots log_ex (\<lambda>_ _. 0) log_ex" by (simp add: boots_def log_ex_def)
qed

lemma log_ex1_ok:
  "log_inv log_ex1" "lh log_ex1 = []" "lg_outstanding log_ex1 = 0" "lg_reserved log_ex1 = 0" "\<not> lg_committing log_ex1"
  "lg_start log_ex1 = 2" "lg_dev log_ex1 = 1" "home log_ex1 200" "vw log_ex1 200 = (\<lambda>_. 0)"
  "sdev log_ex1 = sdev log_ex"
proof -
  from mount_ok [OF log_ex_wf(3,1,2), of None] obtain u where r: "mounts log_ex log_ex None = Some u"
    and u: "remounted log_ex (\<lambda>_ _. 0) log_ex u" by (auto simp: ok_def)
  then have e: "log_ex1 = u" by (simp add: log_ex1_def)
  show f: "log_inv log_ex1" "lh log_ex1 = []" "lg_outstanding log_ex1 = 0" "lg_reserved log_ex1 = 0" "\<not> lg_committing log_ex1"
    "lg_start log_ex1 = 2" "lg_dev log_ex1 = 1" "sdev log_ex1 = sdev log_ex"
    unfolding e using u by (simp_all add: remounted_def log_ex_def)
  have hm: "home log_ex 200" by (simp add: home_def on_dev_def log_ex_def)
  have "sdev u = sdev log_ex" "lg_start u = lg_start log_ex" using u by (simp_all add: remounted_def)
  then show h: "home log_ex1 200" unfolding e using hm by (simp add: home_def on_dev_def)
  have "view 1 {} u 200 = replay 2 (\<lambda>_ _. 0) 200" using u hm by (simp add: remounted_def) (simp add: log_ex_def)
  also have "\<dots> = (\<lambda>_. 0)" using replay_empty [of "\<lambda>_ _. 0" 2] hdr_zero by simp
  finally show "vw log_ex1 200 = (\<lambda>_. 0)" using vw_home [OF _ h] f(1,7) e by (simp add: log_inv_iff)
qed

lemma log_ex2_ok:
  "xv6log_begin_op 10 log_ex1 = Some log_ex2" "log_inv log_ex2" "lg_outstanding log_ex2 = 1" "lh log_ex2 = []"
  "home log_ex2 200" "vw log_ex2 200 = (\<lambda>_. 0)" "txns log_ex2 [(10, 0)]" "lg_dev log_ex2 = 1"
  "sdev log_ex2 = sdev log_ex"
proof -
  have c: "clamp_need 10 = 10" by (simp add: clamp_need_def XV6FS_LOGBLOCKS_def)
  have "can_enter 10 log_ex1" by (simp add: can_enter_def log_ex1_ok log_n_def XV6FS_LOGBLOCKS_def)
  then have "xv6log_begin_op 10 log_ex1 = Some (log_ex1\<lparr>lg_outstanding := 1, lg_reserved := 10\<rparr>)"
    unfolding xv6log_begin_op_def c by (subst begin_loop.simps) (simp add: log_ex1_ok)
  then show r: "xv6log_begin_op 10 log_ex1 = Some log_ex2" and "log_inv log_ex2" "lg_outstanding log_ex2 = 1"
      "lh log_ex2 = []" "home log_ex2 200" "vw log_ex2 200 = (\<lambda>_. 0)" "lg_dev log_ex2 = 1" "sdev log_ex2 = sdev log_ex"
    by (simp_all add: log_ex2_def log_ex1_ok)
  have "txns log_ex1 []" by (rule txn_idle) (simp_all add: log_ex1_ok)
  then show "txns log_ex2 [(10, 0)]"
    using txn_begin [OF _ _ r] log_ex1_ok(1) c by (simp add: log_inv_iff)
qed

lemma log_ex3_ok: "log_inv log_ex3" "lh log_ex3 = [200]" "home log_ex3 200" "vw log_ex3 200 = (\<lambda>_. 1)" "lg_dev log_ex3 = 1"
  "dsk log_ex3 200 = (\<lambda>_. 0)" "sdev log_ex3 = sdev log_ex"
proof -
  have lo: "log_ok log_ex2" "lheld log_ex2 = {}" using log_ex2_ok(2) by (simp_all add: log_inv_iff)
  from poke_ok [OF lo(1) log_ex2_ok(5), of "\<lambda>_ _. 1"] lo(2) obtain t where r: "poke 200 (\<lambda>_ _. 1) log_ex2 = Some t"
    and t: "lstep log_ex2 t" "vw t = (vw log_ex2)(200 := (\<lambda>_. 1))" "lh t = log_add 200 (lh log_ex2)"
    by (auto simp: ok_def log_ex2_ok)
  note L = lstep_fields [OF t(1)]
  have e: "log_ex3 = t" by (simp add: log_ex3_def r)
  show "log_inv log_ex3" "lh log_ex3 = [200]" "home log_ex3 200" "vw log_ex3 200 = (\<lambda>_. 1)" "lg_dev log_ex3 = 1" "sdev log_ex3 = sdev log_ex"
    using t(2,3) L log_ex2_ok lo by (simp_all add: e log_inv_iff log_add_def)
  have "dsk t 200 = dsk log_ex2 200" using L(10) by simp
  also have "\<dots> = vw log_ex2 200"
    using logged_home [OF log_ex2_ok(2,5)] vw_home [OF lo(1) log_ex2_ok(5)] log_ex2_ok(4) by (simp add: logged_def)
  finally show "dsk log_ex3 200 = (\<lambda>_. 0)" by (simp add: e log_ex2_ok)
qed

theorem commit_durable_witness: "\<exists>t. commit log_ex3 = Some t \<and> lh t = [] \<and> dsk t 200 = (\<lambda>_. 1)"
proof -
  have "view 1 {} log_ex3 200 = (\<lambda>_. 1)" using vw_home [of log_ex3 200] log_ex3_ok by (simp add: log_inv_iff)
  then show ?thesis using commit_durable [OF log_ex3_ok(1)] log_ex3_ok(3,5) by force
qed

theorem begin_op_returns_witness: "xv6log_begin_op 10 log_ex1 \<noteq> None"
  using begin_op_returns [OF log_ex1_ok(1,5), of 10] log_ex1_ok(3,4) by simp


theorem commit_crash_atomic_witness:
  "\<exists>u. mounts log_ex3 (log_ex\<lparr>dsk := dsk log_ex3\<rparr>) None = Some u \<and> lh u = [] \<and>
     (view 1 {} u 200 = (\<lambda>_. 0) \<or> view 1 {} u 200 = (\<lambda>_. 1))"
proof -
  from commit_ok [OF log_ex3_ok(1)] obtain t cs where "commit log_ex3 = Some t" "wtrace t = wtrace log_ex3 @ cs"
    by (auto simp: ok_def committed_def within_def)
  then have c: "crash_disk log_ex3 (dsk log_ex3)" by (rule in_commit) (rule crashes_start)
  have b: "boots log_ex3 (dsk log_ex3) (log_ex\<lparr>dsk := dsk log_ex3\<rparr>)" using log_ex3_ok(7) by (simp add: boots_def) (simp add: log_ex_def)
  have v: "view 1 {} log_ex3 200 = (\<lambda>_. 1)" using vw_home [of log_ex3 200] log_ex3_ok by (simp add: log_inv_iff)
  from commit_crash_atomic [OF log_ex3_ok(1) c b, of None] v log_ex3_ok(3,5,6) show ?thesis by force
qed

end
