(* ===== verification/Fs.thy ===== *)
theory Fs
  imports LogOps
begin

text \<open>
  The file system \<open>kernel/xv6fs.c\<close>, first part: superblock and mount, the block bitmap, the inode cache,
  block mapping with up to three levels of indirection, truncation, and reading and writing of files.

  The state \<open>fs\<close> extends the state of the log. An inode handle is an index into \<open>itable\<close>, a missing one
  (the null pointer) is \<^const>\<open>None\<close> inside a result. As in the log, a routine that panics or waits for
  ever has no result. On-disk structures are read and written at their byte offsets, little-endian. The
  spin lock of the inode table is held only inside a routine and is left out; the sleep locks are fields.
  \<open>now_ms\<close> is what the platform's clock shows.
\<close>

unbundle bit_operations_syntax

section \<open>Constants and state\<close>

definition XV6FS_BSIZE :: nat where "XV6FS_BSIZE = 1024"
definition XV6FS_FSMAGIC :: u32 where "XV6FS_FSMAGIC = 0x10203041"
definition XV6FS_ROOTINO :: u32 where "XV6FS_ROOTINO = 1"
definition XV6FS_NDIRECT :: nat where "XV6FS_NDIRECT = 9"
definition XV6FS_NINDIRECT :: nat where "XV6FS_NINDIRECT = XV6FS_BSIZE div 4"
definition XV6FS_NDINDIRECT :: nat where "XV6FS_NDINDIRECT = XV6FS_NINDIRECT * XV6FS_NINDIRECT"
definition XV6FS_NTINDIRECT :: nat where "XV6FS_NTINDIRECT = XV6FS_NINDIRECT * XV6FS_NINDIRECT * XV6FS_NINDIRECT"
definition XV6FS_MAXFILE :: nat where
  "XV6FS_MAXFILE = XV6FS_NDIRECT + XV6FS_NINDIRECT + XV6FS_NDINDIRECT + XV6FS_NTINDIRECT"
definition XV6FS_WRITE_CHUNK_MAX :: nat where "XV6FS_WRITE_CHUNK_MAX = 112 * 1024"
definition XV6FS_T_DIR :: u16 where "XV6FS_T_DIR = 1"
definition XV6FS_T_FILE :: u16 where "XV6FS_T_FILE = 2"
definition XV6FS_T_DEVICE :: u16 where "XV6FS_T_DEVICE = 3"
definition XV6FS_T_FIFO :: u16 where "XV6FS_T_FIFO = 4"
definition XV6FS_T_SYMLINK :: u16 where "XV6FS_T_SYMLINK = 5"
definition XV6FS_MODE_MAGIC :: u16 where "XV6FS_MODE_MAGIC = 0x4f4d"
definition XV6FS_DIRSIZ :: nat where "XV6FS_DIRSIZ = 62"
definition XV6FS_IPB :: nat where "XV6FS_IPB = XV6FS_BSIZE div 64"
definition XV6FS_BPB :: nat where "XV6FS_BPB = XV6FS_BSIZE * 8"
definition XV6FS_MOUNT_ADVANCE_SEC :: u32 where "XV6FS_MOUNT_ADVANCE_SEC = 86400"
definition XV6LOG_ITRUNC_SLACK :: int where "XV6LOG_ITRUNC_SLACK = 16"
definition XV6LOG_OP_WRITE :: "nat \<Rightarrow> int" where
  "XV6LOG_OP_WRITE bytes = int ((bytes + XV6FS_BSIZE - 1) div XV6FS_BSIZE) + 8"
definition XV6LOG_OP_SMALL :: int where "XV6LOG_OP_SMALL = 16"
definition XV6LOG_OP_FULL :: int where "XV6LOG_OP_FULL = int XV6FS_LOGBLOCKS"

lemmas fs_consts = XV6FS_BSIZE_def XV6FS_NDIRECT_def XV6FS_NINDIRECT_def XV6FS_NDINDIRECT_def XV6FS_NTINDIRECT_def
  XV6FS_MAXFILE_def XV6FS_IPB_def XV6FS_BPB_def XV6FS_DIRSIZ_def

record superblock =
  sb_magic :: u32
  sb_size :: u32
  sb_nblocks :: u32
  sb_ninodes :: u32
  sb_nlog :: u32
  sb_logstart :: u32
  sb_inodestart :: u32
  sb_bmapstart :: u32
  sb_mtime_base :: u32

record inode =
  i_dev :: u32
  i_inum :: u32
  i_ref :: int
  i_locked :: bool
  i_valid :: bool
  i_type :: u16
  i_major :: u16
  i_minor :: u16
  i_nlink :: u16
  i_size :: u32
  i_mtime :: u32
  i_addrs :: "u32 list"

record fs = xlog +
  g_sb :: superblock
  g_xv6fs_dev :: u32
  g_xv6fs_devname :: "u8 list"
  g_mtime_base :: u32
  itable :: "inode list"
  g_rename_locked :: bool
  g_balloc_hint :: u32
  now_ms :: u64

definition bdata :: "nat \<Rightarrow> fs \<Rightarrow> block" where
  "bdata i s = b_data (bufs s ! i)"

abbreviation ino :: "nat \<Rightarrow> fs \<Rightarrow> inode" where
  "ino ip s \<equiv> itable s ! ip"

definition iupd :: "nat \<Rightarrow> (inode \<Rightarrow> inode) \<Rightarrow> fs \<Rightarrow> fs" where
  "iupd ip f s = s\<lparr>itable := (itable s)[ip := f (itable s ! ip)]\<rparr>"

section \<open>Modes and time\<close>

definition xv6fs_type_mode :: "inode \<Rightarrow> u32" where
  "xv6fs_type_mode ip =
     (if i_type ip = XV6FS_T_DEVICE then 0x2000 OR 438
      else if i_type ip = XV6FS_T_SYMLINK then 0xA000 OR 511
      else let typ = (if i_type ip = XV6FS_T_FIFO then 0x1000 else if i_type ip = XV6FS_T_DIR then 0x4000 else 0x8000);
               perm = (if i_type ip = XV6FS_T_FIFO then 420 else if i_type ip = XV6FS_T_DIR then 365 else 292);
               perm' = (if i_major ip = XV6FS_MODE_MAGIC then word_of_int (sint (i_minor ip)) AND 4095 else perm)
           in typ OR perm')"

definition xv6fs_set_mode :: "u32 \<Rightarrow> inode \<Rightarrow> inode" where
  "xv6fs_set_mode mode ip = ip\<lparr>i_major := XV6FS_MODE_MAGIC, i_minor := ucast (mode AND 4095)\<rparr>"

definition xv6fs_now_sec :: "fs \<Rightarrow> u32" where
  "xv6fs_now_sec s = g_mtime_base s + ucast (now_ms s div 1000)"

definition blocks_of :: "u32 \<Rightarrow> u32" where
  "blocks_of n = (n + of_nat XV6FS_BSIZE - 1) div of_nat XV6FS_BSIZE"

definition xv6fs_itrunc_need :: "u32 \<Rightarrow> u32 \<Rightarrow> int" where
  "xv6fs_itrunc_need sz len =
     (let cur = blocks_of sz; keep = blocks_of len;
          freed = (if cur > keep then cur - keep else 0);
          need = sint freed + XV6LOG_ITRUNC_SLACK
      in if need > int XV6FS_LOGBLOCKS then int XV6FS_LOGBLOCKS else need)"

section \<open>Superblock and mount\<close>

definition get_sb :: "block \<Rightarrow> superblock" where
  "get_sb d = \<lparr>sb_magic = rd32 d 0, sb_size = rd32 d 4, sb_nblocks = rd32 d 8, sb_ninodes = rd32 d 12, sb_nlog = rd32 d 16,
     sb_logstart = rd32 d 20, sb_inodestart = rd32 d 24, sb_bmapstart = rd32 d 28, sb_mtime_base = rd32 d 32\<rparr>"

definition put_sb :: "superblock \<Rightarrow> block \<Rightarrow> block" where
  "put_sb sb d =
     (let d1 = wr32 d 0 (sb_magic sb); d2 = wr32 d1 4 (sb_size sb); d3 = wr32 d2 8 (sb_nblocks sb);
          d4 = wr32 d3 12 (sb_ninodes sb); d5 = wr32 d4 16 (sb_nlog sb); d6 = wr32 d5 20 (sb_logstart sb);
          d7 = wr32 d6 24 (sb_inodestart sb); d8 = wr32 d7 28 (sb_bmapstart sb)
      in wr32 d8 32 (sb_mtime_base sb))"

definition readsb :: "u32 \<Rightarrow> fs \<Rightarrow> fs option" where
  "readsb dev s = do { (i, s1) \<leftarrow> xv6bread dev 1 s; Some (xv6brelse i (s1\<lparr>g_sb := get_sb (bdata i s1)\<rparr>)) }"

definition writesb :: "u32 \<Rightarrow> fs \<Rightarrow> fs option" where
  "writesb dev s =
     do { (i, s1) \<leftarrow> xv6bread dev 1 s;
          Some (xv6brelse i (xv6bwrite i (bset i (put_sb (g_sb s1) (bdata i s1)) s1))) }"

definition xv6fs_init :: "fs \<Rightarrow> fs" where
  "xv6fs_init s = s\<lparr>g_rename_locked := False,
     itable := map (\<lambda>ip. ip\<lparr>i_locked := False, i_ref := 0, i_valid := False\<rparr>) (itable s)\<rparr>"

text \<open>\<open>lookup\<close> is \<open>storage_find_device\<close> on the registry at the time of the call, \<open>mem\<close> the pages that
  \<open>pmm_alloc\<close> gives to the relay buffer of the log, if any.\<close>

definition xv6fs_mount_storage ::
    "(u8 list \<Rightarrow> storage_device option) \<Rightarrow> (nat \<Rightarrow> block) option \<Rightarrow> u8 list \<Rightarrow> fs \<Rightarrow> (int \<times> fs) option" where
  "xv6fs_mount_storage lookup mem devname s =
     (let nm = take 15 devname; s0 = s\<lparr>g_xv6fs_devname := nm, sdev := lookup nm, g_xv6fs_dev := 1\<rparr> in
      do { s1 \<leftarrow> readsb 1 (xv6bio_init s0);
           (if sb_magic (g_sb s1) \<noteq> XV6FS_FSMAGIC then
              Some (-1, s1\<lparr>g_xv6fs_devname := [], sdev := lookup []\<rparr>)
            else
              do { s2 \<leftarrow> xv6log_init 1 (sb_logstart (g_sb s1)) mem s1;
                   let s3 = xv6fs_init s2;
                   let base = sb_mtime_base (g_sb s3) + XV6FS_MOUNT_ADVANCE_SEC;
                   s4 \<leftarrow> writesb 1 (s3\<lparr>g_mtime_base := base, g_sb := (g_sb s3)\<lparr>sb_mtime_base := base\<rparr>\<rparr>);
                   Some (0, s4) }) })"

section \<open>Blocks\<close>

definition xv6bzero :: "u32 \<Rightarrow> u32 \<Rightarrow> fs \<Rightarrow> fs option" where
  "xv6bzero dev bno s =
     do { (i, s1) \<leftarrow> xv6bread dev bno s;
          s2 \<leftarrow> xv6log_write i (bset i (\<lambda>_. 0) s1);
          Some (xv6brelse i s2) }"

definition XV6FS_BBLOCK :: "u32 \<Rightarrow> superblock \<Rightarrow> u32" where
  "XV6FS_BBLOCK b sb = b div of_nat XV6FS_BPB + sb_bmapstart sb"

definition XV6FS_IBLOCK :: "u32 \<Rightarrow> superblock \<Rightarrow> u32" where
  "XV6FS_IBLOCK i sb = i div of_nat XV6FS_IPB + sb_inodestart sb"

definition bm_test :: "block \<Rightarrow> nat \<Rightarrow> bool" where
  "bm_test d bi \<longleftrightarrow> d (bi div 8) AND byte_mask bi \<noteq> 0"

definition bm_set :: "block \<Rightarrow> nat \<Rightarrow> block" where
  "bm_set d bi = d(bi div 8 := d (bi div 8) OR byte_mask bi)"

definition bm_clear :: "block \<Rightarrow> nat \<Rightarrow> block" where
  "bm_clear d bi = d(bi div 8 := d (bi div 8) AND NOT (byte_mask bi))"

definition bm_free :: "block \<Rightarrow> u32 \<Rightarrow> u32 \<Rightarrow> nat option" where
  "bm_free d b sz = find (\<lambda>bi. \<not> bm_test d bi) (takeWhile (\<lambda>bi. b + of_nat bi < sz) [0..<XV6FS_BPB])"

definition balloc_block :: "u32 \<Rightarrow> u32 \<Rightarrow> fs \<Rightarrow> (u32 option \<times> fs) option" where
  "balloc_block dev b s =
     do { (i, s1) \<leftarrow> xv6bread dev (XV6FS_BBLOCK b (g_sb s)) s;
          (case bm_free (bdata i s1) b (sb_size (g_sb s1)) of
             Some bi \<Rightarrow>
               do { s2 \<leftarrow> xv6log_write i (bset i (bm_set (bdata i s1) bi) s1);
                    s3 \<leftarrow> xv6bzero dev (b + of_nat bi) (xv6brelse i s2);
                    Some (Some (b + of_nat bi), s3\<lparr>g_balloc_hint := b + of_nat bi\<rparr>) }
           | None \<Rightarrow> Some (None, xv6brelse i s1)) }"

partial_function (option) balloc_scan :: "u32 \<Rightarrow> u32 \<Rightarrow> u32 \<Rightarrow> fs \<Rightarrow> (u32 option \<times> fs) option" where
  "balloc_scan dev b to s =
     (if b < to then
        do { (r, s1) \<leftarrow> balloc_block dev b s;
             (case r of Some a \<Rightarrow> Some (Some a, s1) | None \<Rightarrow> balloc_scan dev (b + of_nat XV6FS_BPB) to s1) }
      else Some (None, s))"

definition balloc :: "u32 \<Rightarrow> fs \<Rightarrow> (u32 \<times> fs) option" where
  "balloc dev s =
     (let bpb = of_nat XV6FS_BPB; start0 = (g_balloc_hint s div bpb) * bpb; size = sb_size (g_sb s);
          start = (if start0 \<ge> size then 0 else start0);
          to1 = (if start + bpb > size then size else start + bpb)
      in do { (r, s1) \<leftarrow> balloc_scan dev start size s;
              (case r of Some a \<Rightarrow> Some (a, s1)
               | None \<Rightarrow> do { (r2, s2) \<leftarrow> balloc_scan dev 0 to1 s1;
                              Some (case r2 of Some a \<Rightarrow> a | None \<Rightarrow> 0, s2) }) })"

definition bfree :: "u32 \<Rightarrow> u32 \<Rightarrow> fs \<Rightarrow> fs option" where
  "bfree dev b s =
     do { (i, s1) \<leftarrow> xv6bread dev (XV6FS_BBLOCK b (g_sb s)) s;
          let s2 = (if b < g_balloc_hint s1 then s1\<lparr>g_balloc_hint := b\<rparr> else s1);
          let bi = unat b mod XV6FS_BPB;
          (if \<not> bm_test (bdata i s2) bi then None
           else do { s3 \<leftarrow> xv6log_write i (bset i (bm_clear (bdata i s2) bi) s2);
                     Some (xv6brelse i s3) }) }"

section \<open>Inodes\<close>

definition dinode_off :: "u32 \<Rightarrow> nat" where
  "dinode_off inum = 64 * (unat inum mod XV6FS_IPB)"

definition get_dinode :: "block \<Rightarrow> nat \<Rightarrow> inode \<Rightarrow> inode" where
  "get_dinode d p ip = ip\<lparr>i_type := rd16 d p, i_major := rd16 d (p + 2), i_minor := rd16 d (p + 4), i_nlink := rd16 d (p + 6),
     i_size := rd32 d (p + 8), i_mtime := rd32 d (p + 12), i_addrs := map (\<lambda>k. rd32 d (p + 16 + 4 * k)) [0..<12]\<rparr>"

definition put_dinode :: "inode \<Rightarrow> nat \<Rightarrow> block \<Rightarrow> block" where
  "put_dinode ip p d =
     (let d1 = wr16 d p (i_type ip); d2 = wr16 d1 (p + 2) (i_major ip); d3 = wr16 d2 (p + 4) (i_minor ip);
          d4 = wr16 d3 (p + 6) (i_nlink ip); d5 = wr32 d4 (p + 8) (i_size ip); d6 = wr32 d5 (p + 12) (i_mtime ip)
      in fold (\<lambda>k e. wr32 e (p + 16 + 4 * k) (i_addrs ip ! k)) [0..<12] d6)"

definition same_inode :: "u32 \<Rightarrow> u32 \<Rightarrow> inode \<Rightarrow> bool" where
  "same_inode dev inum ip \<longleftrightarrow> i_ref ip > 0 \<and> i_dev ip = dev \<and> i_inum ip = inum"

definition xv6fs_iget :: "u32 \<Rightarrow> u32 \<Rightarrow> fs \<Rightarrow> (nat \<times> fs) option" where
  "xv6fs_iget dev inum s =
     (case find (\<lambda>k. same_inode dev inum (ino k s)) [0..<length (itable s)] of
        Some k \<Rightarrow> Some (k, iupd k (\<lambda>ip. ip\<lparr>i_ref := i_ref ip + 1\<rparr>) s)
      | None \<Rightarrow>
          (case find (\<lambda>k. i_ref (ino k s) = 0) [0..<length (itable s)] of
             Some k \<Rightarrow> Some (k, iupd k (\<lambda>ip. ip\<lparr>i_dev := dev, i_inum := inum, i_ref := 1, i_valid := False\<rparr>) s)
           | None \<Rightarrow> None))"

definition ialloc_block :: "u32 \<Rightarrow> u16 \<Rightarrow> u32 \<Rightarrow> fs \<Rightarrow> (bool \<times> fs) option" where
  "ialloc_block dev typ inum s =
     do { (i, s1) \<leftarrow> xv6bread dev (XV6FS_IBLOCK inum (g_sb s)) s;
          let p = dinode_off inum;
          (if rd16 (bdata i s1) p = 0 then
             do { let z = (\<lambda>k. if p \<le> k \<and> k < p + 64 then 0 else bdata i s1 k);
                  s2 \<leftarrow> xv6log_write i (bset i (wr32 (wr16 z p typ) (p + 12) (xv6fs_now_sec s1)) s1);
                  Some (True, xv6brelse i s2) }
           else Some (False, xv6brelse i s1)) }"

partial_function (option) ialloc_scan :: "u32 \<Rightarrow> u16 \<Rightarrow> u32 \<Rightarrow> fs \<Rightarrow> (nat option \<times> fs) option" where
  "ialloc_scan dev typ inum s =
     (if inum < sb_ninodes (g_sb s) then
        do { (found, s1) \<leftarrow> ialloc_block dev typ inum s;
             (if found then do { (ip, s2) \<leftarrow> xv6fs_iget dev inum s1; Some (Some ip, s2) }
              else ialloc_scan dev typ (inum + 1) s1) }
      else Some (None, s))"

definition xv6fs_ialloc :: "u32 \<Rightarrow> u16 \<Rightarrow> fs \<Rightarrow> (nat option \<times> fs) option" where
  "xv6fs_ialloc dev typ s = ialloc_scan dev typ 1 s"

definition xv6fs_ilock :: "nat \<Rightarrow> fs \<Rightarrow> fs option" where
  "xv6fs_ilock ip s =
     (if \<not> i_ref (ino ip s) \<ge> 1 \<or> i_locked (ino ip s) then None
      else let s1 = iupd ip (\<lambda>x. x\<lparr>i_locked := True\<rparr>) s in
        if i_valid (ino ip s1) then Some s1
        else do { (i, s2) \<leftarrow> xv6bread (i_dev (ino ip s1)) (XV6FS_IBLOCK (i_inum (ino ip s1)) (g_sb s1)) s1;
                  let s3 = iupd ip (get_dinode (bdata i s2) (dinode_off (i_inum (ino ip s2)))) s2;
                  let s4 = iupd ip (\<lambda>x. x\<lparr>i_valid := True\<rparr>) (xv6brelse i s3);
                  (if i_type (ino ip s4) = 0 then None else Some s4) })"

definition xv6fs_iunlock :: "nat \<Rightarrow> fs \<Rightarrow> fs option" where
  "xv6fs_iunlock ip s = (if \<not> i_ref (ino ip s) \<ge> 1 then None else Some (iupd ip (\<lambda>x. x\<lparr>i_locked := False\<rparr>) s))"

definition xv6fs_iupdate :: "nat \<Rightarrow> fs \<Rightarrow> fs option" where
  "xv6fs_iupdate ip s =
     do { (i, s1) \<leftarrow> xv6bread (i_dev (ino ip s)) (XV6FS_IBLOCK (i_inum (ino ip s)) (g_sb s)) s;
          s2 \<leftarrow> xv6log_write i (bset i (put_dinode (ino ip s1) (dinode_off (i_inum (ino ip s1))) (bdata i s1)) s1);
          Some (xv6brelse i s2) }"

section \<open>Block mapping\<close>

definition set_addr :: "nat \<Rightarrow> nat \<Rightarrow> u32 \<Rightarrow> fs \<Rightarrow> fs" where
  "set_addr ip k a s = iupd ip (\<lambda>x. x\<lparr>i_addrs := (i_addrs x)[k := a]\<rparr>) s"

text \<open>A slot of the inode: used, or filled with a fresh block on demand; 0 if there is none.\<close>

definition bmap_addr :: "nat \<Rightarrow> nat \<Rightarrow> bool \<Rightarrow> fs \<Rightarrow> (u32 \<times> fs) option" where
  "bmap_addr ip k alloc s =
     (let addr = i_addrs (ino ip s) ! k in
      if addr \<noteq> 0 then Some (addr, s)
      else if \<not> alloc then Some (0, s)
      else do { (a, s1) \<leftarrow> balloc (i_dev (ino ip s)) s;
                (if a = 0 then Some (0, s1) else Some (a, set_addr ip k a s1)) })"

text \<open>A slot of an indirect block; the block is locked while a new block is allocated.\<close>

definition bmap_table :: "u32 \<Rightarrow> u32 \<Rightarrow> nat \<Rightarrow> bool \<Rightarrow> fs \<Rightarrow> (u32 \<times> fs) option" where
  "bmap_table dev tbl k alloc s =
     do { (i, s1) \<leftarrow> xv6bread dev tbl s;
          let addr = rd32 (bdata i s1) (4 * k);
          (if addr \<noteq> 0 then Some (addr, xv6brelse i s1)
           else if \<not> alloc then Some (0, xv6brelse i s1)
           else do { (a, s2) \<leftarrow> balloc dev s1;
                     s3 \<leftarrow> (if a \<noteq> 0 then xv6log_write i (bset i (wr32 (bdata i s2) (4 * k) a) s2) else Some s2);
                     Some (a, xv6brelse i s3) }) }"

definition bmap_lookup :: "nat \<Rightarrow> u32 \<Rightarrow> bool \<Rightarrow> fs \<Rightarrow> (u32 \<times> fs) option" where
  "bmap_lookup ip bn0 alloc s =
     (let dev = i_dev (ino ip s); bn = unat bn0;
          b1 = bn - XV6FS_NDIRECT; b2 = b1 - XV6FS_NINDIRECT; b3 = b2 - XV6FS_NDINDIRECT in
      if bn < XV6FS_NDIRECT then bmap_addr ip bn alloc s
      else if b1 < XV6FS_NINDIRECT then
        do { (a, s1) \<leftarrow> bmap_addr ip XV6FS_NDIRECT alloc s;
             (if a = 0 then Some (0, s1) else bmap_table dev a b1 alloc s1) }
      else if b2 < XV6FS_NDINDIRECT then
        do { (a, s1) \<leftarrow> bmap_addr ip (XV6FS_NDIRECT + 1) alloc s;
             (if a = 0 then Some (0, s1) else
                do { (a2, s2) \<leftarrow> bmap_table dev a (b2 div XV6FS_NINDIRECT) alloc s1;
                     (if a2 = 0 then Some (0, s2) else bmap_table dev a2 (b2 mod XV6FS_NINDIRECT) alloc s2) }) }
      else if b3 < XV6FS_NTINDIRECT then
        do { (a, s1) \<leftarrow> bmap_addr ip (XV6FS_NDIRECT + 2) alloc s;
             (if a = 0 then Some (0, s1) else
                do { (a2, s2) \<leftarrow> bmap_table dev a (b3 div XV6FS_NDINDIRECT) alloc s1;
                     (if a2 = 0 then Some (0, s2) else
                        do { (a3, s3) \<leftarrow> bmap_table dev a2 (b3 mod XV6FS_NDINDIRECT div XV6FS_NINDIRECT) alloc s2;
                             (if a3 = 0 then Some (0, s3) else bmap_table dev a3 (b3 mod XV6FS_NINDIRECT) alloc s3) }) }) }
      else None)"

definition bmap :: "nat \<Rightarrow> u32 \<Rightarrow> fs \<Rightarrow> (u32 \<times> fs) option" where
  "bmap ip bn s = bmap_lookup ip bn True s"

section \<open>Truncation\<close>

definition block_table_empty :: "block \<Rightarrow> bool" where
  "block_table_empty d \<longleftrightarrow> list_all (\<lambda>k. rd32 d (4 * k) = 0) [0..<XV6FS_NINDIRECT]"

fun trunc_direct :: "nat \<Rightarrow> u32 \<Rightarrow> nat list \<Rightarrow> fs \<Rightarrow> fs option" where
  "trunc_direct ip keep [] s = Some s"
| "trunc_direct ip keep (k # ks) s =
     (if of_nat k \<ge> keep \<and> i_addrs (ino ip s) ! k \<noteq> 0 then
        do { s1 \<leftarrow> bfree (i_dev (ino ip s)) (i_addrs (ino ip s) ! k) s; trunc_direct ip keep ks (set_addr ip k 0 s1) }
      else trunc_direct ip keep ks s)"

text \<open>The entries of a table of data blocks, whose first entry maps file block \<open>base\<close>.\<close>

fun trunc_entries :: "u32 \<Rightarrow> u32 \<Rightarrow> u32 \<Rightarrow> nat \<Rightarrow> nat list \<Rightarrow> bool \<Rightarrow> fs \<Rightarrow> (bool \<times> fs) option" where
  "trunc_entries dev keep base i [] dirty s = Some (dirty, s)"
| "trunc_entries dev keep base i (j # js) dirty s =
     (let a = rd32 (bdata i s) (4 * j) in
      if base + of_nat j \<ge> keep \<and> a \<noteq> 0 then
        do { s1 \<leftarrow> bfree dev a s; trunc_entries dev keep base i js True (bset i (wr32 (bdata i s1) (4 * j) 0) s1) }
      else trunc_entries dev keep base i js dirty s)"

text \<open>The end of each level: a table without entries is freed, a changed one is logged.\<close>

definition trunc_close :: "u32 \<Rightarrow> u32 \<Rightarrow> nat \<Rightarrow> bool \<Rightarrow> fs \<Rightarrow> (bool \<times> fs) option" where
  "trunc_close dev addr i dirty s =
     (if block_table_empty (bdata i s) then do { s1 \<leftarrow> bfree dev addr (xv6brelse i s); Some (True, s1) }
      else do { s1 \<leftarrow> (if dirty then xv6log_write i s else Some s); Some (False, xv6brelse i s1) })"

definition trunc_leaf :: "u32 \<Rightarrow> u32 \<Rightarrow> u32 \<Rightarrow> u32 \<Rightarrow> fs \<Rightarrow> (bool \<times> fs) option" where
  "trunc_leaf dev keep base addr s =
     do { (i, s1) \<leftarrow> xv6bread dev addr s;
          (dirty, s2) \<leftarrow> trunc_entries dev keep base i [0..<XV6FS_NINDIRECT] False s1;
          trunc_close dev addr i dirty s2 }"

fun trunc_mid_loop :: "u32 \<Rightarrow> u32 \<Rightarrow> u32 \<Rightarrow> nat \<Rightarrow> nat list \<Rightarrow> bool \<Rightarrow> fs \<Rightarrow> (bool \<times> fs) option" where
  "trunc_mid_loop dev keep base i [] dirty s = Some (dirty, s)"
| "trunc_mid_loop dev keep base i (j # js) dirty s =
     (let a = rd32 (bdata i s) (4 * j) in
      if a = 0 then trunc_mid_loop dev keep base i js dirty s
      else do { (gone, s1) \<leftarrow> trunc_leaf dev keep (base + of_nat j * of_nat XV6FS_NINDIRECT) a s;
                (if gone then trunc_mid_loop dev keep base i js True (bset i (wr32 (bdata i s1) (4 * j) 0) s1)
                 else trunc_mid_loop dev keep base i js dirty s1) })"

definition trunc_mid :: "u32 \<Rightarrow> u32 \<Rightarrow> u32 \<Rightarrow> u32 \<Rightarrow> fs \<Rightarrow> (bool \<times> fs) option" where
  "trunc_mid dev keep base addr s =
     do { (i, s1) \<leftarrow> xv6bread dev addr s;
          (dirty, s2) \<leftarrow> trunc_mid_loop dev keep base i [0..<XV6FS_NINDIRECT] False s1;
          trunc_close dev addr i dirty s2 }"

fun trunc_top_loop :: "u32 \<Rightarrow> u32 \<Rightarrow> u32 \<Rightarrow> nat \<Rightarrow> nat list \<Rightarrow> bool \<Rightarrow> fs \<Rightarrow> (bool \<times> fs) option" where
  "trunc_top_loop dev keep base i [] dirty s = Some (dirty, s)"
| "trunc_top_loop dev keep base i (j # js) dirty s =
     (let a = rd32 (bdata i s) (4 * j) in
      if a = 0 then trunc_top_loop dev keep base i js dirty s
      else do { (gone, s1) \<leftarrow> trunc_mid dev keep (base + of_nat j * of_nat XV6FS_NDINDIRECT) a s;
                (if gone then trunc_top_loop dev keep base i js True (bset i (wr32 (bdata i s1) (4 * j) 0) s1)
                 else trunc_top_loop dev keep base i js dirty s1) })"

definition trunc_top :: "u32 \<Rightarrow> u32 \<Rightarrow> u32 \<Rightarrow> u32 \<Rightarrow> fs \<Rightarrow> (bool \<times> fs) option" where
  "trunc_top dev keep base addr s =
     do { (i, s1) \<leftarrow> xv6bread dev addr s;
          (dirty, s2) \<leftarrow> trunc_top_loop dev keep base i [0..<XV6FS_NINDIRECT] False s1;
          trunc_close dev addr i dirty s2 }"

definition trunc_slot :: "nat \<Rightarrow> nat \<Rightarrow> (u32 \<Rightarrow> fs \<Rightarrow> (bool \<times> fs) option) \<Rightarrow> fs \<Rightarrow> fs option" where
  "trunc_slot ip k f s =
     (let a = i_addrs (ino ip s) ! k in
      if a = 0 then Some s
      else do { (gone, s1) \<leftarrow> f a s; Some (if gone then set_addr ip k 0 s1 else s1) })"

definition xv6fs_itrunc_to :: "nat \<Rightarrow> u32 \<Rightarrow> fs \<Rightarrow> fs option" where
  "xv6fs_itrunc_to ip len s =
     (let keep = blocks_of len; dev = i_dev (ino ip s) in
      do { s1 \<leftarrow> trunc_direct ip keep [0..<XV6FS_NDIRECT] s;
           s2 \<leftarrow> trunc_slot ip XV6FS_NDIRECT (trunc_leaf dev keep (of_nat XV6FS_NDIRECT)) s1;
           s3 \<leftarrow> trunc_slot ip (XV6FS_NDIRECT + 1) (trunc_mid dev keep (of_nat (XV6FS_NDIRECT + XV6FS_NINDIRECT))) s2;
           s4 \<leftarrow> trunc_slot ip (XV6FS_NDIRECT + 2)
                  (trunc_top dev keep (of_nat (XV6FS_NDIRECT + XV6FS_NINDIRECT + XV6FS_NDINDIRECT))) s3;
           xv6fs_iupdate ip (iupd ip (\<lambda>x. x\<lparr>i_size := len, i_mtime := xv6fs_now_sec s4\<rparr>) s4) })"

definition xv6fs_itrunc :: "nat \<Rightarrow> fs \<Rightarrow> fs option" where
  "xv6fs_itrunc ip s = xv6fs_itrunc_to ip 0 s"

section \<open>References\<close>

definition iput_frees :: "inode \<Rightarrow> bool" where
  "iput_frees x \<longleftrightarrow> i_ref x = 1 \<and> i_valid x \<and> i_nlink x = 0"

definition xv6fs_iput_try :: "nat \<Rightarrow> int \<Rightarrow> fs \<Rightarrow> (bool \<times> fs) option" where
  "xv6fs_iput_try ip reserved_need s =
     (if iput_frees (ino ip s) then
        (if xv6fs_itrunc_need (i_size (ino ip s)) 0 > reserved_need then Some (False, s)
         else if i_locked (ino ip s) then None
         else do { s1 \<leftarrow> xv6fs_itrunc ip (iupd ip (\<lambda>x. x\<lparr>i_locked := True\<rparr>) s);
                   s2 \<leftarrow> xv6fs_iupdate ip (iupd ip (\<lambda>x. x\<lparr>i_type := 0\<rparr>) s1);
                   Some (True, iupd ip (\<lambda>x. x\<lparr>i_valid := False, i_locked := False, i_ref := i_ref x - 1\<rparr>) s2) })
      else Some (True, iupd ip (\<lambda>x. x\<lparr>i_ref := i_ref x - 1\<rparr>) s))"

definition xv6fs_iput :: "nat \<Rightarrow> fs \<Rightarrow> fs option" where
  "xv6fs_iput ip s = do { (_, s1) \<leftarrow> xv6fs_iput_try ip (int XV6FS_LOGBLOCKS) s; Some s1 }"

partial_function (option) iput_op_loop :: "nat \<Rightarrow> int \<Rightarrow> fs \<Rightarrow> fs option" where
  "iput_op_loop ip need s =
     do { s1 \<leftarrow> xv6log_begin_op need s;
          (fin, s2) \<leftarrow> xv6fs_iput_try ip need s1;
          s3 \<leftarrow> xv6log_end_op need s2;
          (if fin then Some s3 else iput_op_loop ip (int XV6FS_LOGBLOCKS) s3) }"

definition xv6fs_iput_op :: "nat \<Rightarrow> fs \<Rightarrow> fs option" where
  "xv6fs_iput_op ip s =
     iput_op_loop ip (if iput_frees (ino ip s) then xv6fs_itrunc_need (i_size (ino ip s)) 0 else XV6LOG_OP_SMALL) s"

definition xv6fs_iunlockput :: "nat \<Rightarrow> fs \<Rightarrow> fs option" where
  "xv6fs_iunlockput ip s = do { s1 \<leftarrow> xv6fs_iunlock ip s; xv6fs_iput ip s1 }"

end
