(* ===== verification/FsPath.thy ===== *)
theory FsPath
  imports Fs
begin

text \<open>
  The file system \<open>kernel/xv6fs.c\<close>, second part: reading and writing of file contents, directories, path
  resolution with symbolic links, and the operations on paths that the system calls use.

  Byte buffers are lists of bytes. A C string is the list of its bytes without the final zero; the buffer
  \<open>name\<close> of \<open>XV6FS_DIRSIZ\<close> bytes that holds a path element is a list of that length, which has no final zero
  when the element fills it. A read past the end of that buffer has no result.
\<close>

unbundle bit_operations_syntax

section \<open>File contents\<close>

definition blk_bytes :: "block \<Rightarrow> nat \<Rightarrow> nat \<Rightarrow> u8 list" where
  "blk_bytes d p m = map (\<lambda>k. d (p + k)) [0..<m]"

definition blk_write :: "block \<Rightarrow> nat \<Rightarrow> u8 list \<Rightarrow> block" where
  "blk_write d p xs = (\<lambda>k. if p \<le> k \<and> k < p + length xs then xs ! (k - p) else d k)"

definition xv6fs_stat :: "nat \<Rightarrow> fs \<Rightarrow> u32 \<times> u32 \<times> u16 \<times> u16 \<times> u32" where
  "xv6fs_stat ip s = (let x = ino ip s in (i_dev x, i_inum x, i_type x, i_nlink x, i_size x))"

definition umin :: "u32 \<Rightarrow> u32 \<Rightarrow> u32" where
  "umin a b = (if a < b then a else b)"

definition boff :: "u32 \<Rightarrow> nat" where
  "boff off = unat off mod XV6FS_BSIZE"

definition bnum :: "u32 \<Rightarrow> u32" where
  "bnum off = off div of_nat XV6FS_BSIZE"

definition in_block :: "u32 \<Rightarrow> u32 \<Rightarrow> u32" where
  "in_block left off = umin left (of_nat XV6FS_BSIZE - of_nat (boff off))"

partial_function (option) readi_run :: "nat \<Rightarrow> u32 \<Rightarrow> u32 \<Rightarrow> nat \<Rightarrow> nat \<Rightarrow> fs \<Rightarrow> (nat \<times> fs) option" where
  "readi_run ip bn addr maxrun run s =
     (if run < maxrun then
        do { (a2, s1) \<leftarrow> bmap_lookup ip (bn + of_nat run) False s;
             (if a2 \<noteq> addr + of_nat run then Some (run, s1) else readi_run ip bn addr maxrun (run + 1) s1) }
      else Some (run, s))"

fun readi_cached :: "u32 \<Rightarrow> u32 \<Rightarrow> nat list \<Rightarrow> fs \<Rightarrow> (u8 list \<times> fs) option" where
  "readi_cached dev addr [] s = Some ([], s)"
| "readi_cached dev addr (k # ks) s =
     do { (i, s1) \<leftarrow> xv6bread dev (addr + of_nat k) s;
          (xs, s2) \<leftarrow> readi_cached dev addr ks (xv6brelse i s1);
          Some (blk_bytes (bdata i s1) 0 XV6FS_BSIZE @ xs, s2) }"

definition readi_one :: "u32 \<Rightarrow> u32 \<Rightarrow> nat \<Rightarrow> nat \<Rightarrow> fs \<Rightarrow> (u8 list \<times> fs) option" where
  "readi_one dev addr p m s =
     do { (i, s1) \<leftarrow> xv6bread dev addr s; Some (blk_bytes (bdata i s1) p m, xv6brelse i s1) }"

text \<open>One turn of the loop: the bytes it delivers and how far it gets.\<close>

definition readi_step :: "nat \<Rightarrow> u32 \<Rightarrow> u32 \<Rightarrow> fs \<Rightarrow> (u8 list \<times> fs) option" where
  "readi_step ip off left s =
     (let dev = i_dev (ino ip s) in
      do { (addr, s1) \<leftarrow> bmap_lookup ip (bnum off) False s;
           let m = unat (in_block left off);
           (if addr = 0 then Some (replicate m 0, s1)
            else if boff off = 0 \<and> left \<ge> of_nat XV6FS_BSIZE then
              do { (run, s2) \<leftarrow> readi_run ip (bnum off) addr (unat left div XV6FS_BSIZE) 1 s1;
                   (if run > 1 then
                      (if \<not> xv6bio_range_cached dev addr run s2 then
                         (case xv6bio_read_run addr run (\<lambda>_ _. 0) s2 of (ret, mem, s3) \<Rightarrow>
                            if ret = 0 then
                              do { s4 \<leftarrow> xv6bio_fill_cache dev addr run mem s3;
                                   Some (concat (map (\<lambda>k. blk_bytes (mem k) 0 XV6FS_BSIZE) [0..<run]), s4) }
                            else readi_cached dev addr [0..<run] s3)
                       else readi_cached dev addr [0..<run] s2)
                    else readi_one dev addr 0 m s2) }
            else readi_one dev addr (boff off) m s1) })"

partial_function (option) readi_loop :: "nat \<Rightarrow> u32 \<Rightarrow> u32 \<Rightarrow> fs \<Rightarrow> (u8 list \<times> fs) option" where
  "readi_loop ip off left s =
     (if left = 0 then Some ([], s)
      else do { (xs, s1) \<leftarrow> readi_step ip off left s;
                (ys, s2) \<leftarrow> readi_loop ip (off + of_nat (length xs)) (left - of_nat (length xs)) s1;
                Some (xs @ ys, s2) })"

text \<open>The bytes read; their number is the C result.\<close>

definition xv6fs_readi :: "nat \<Rightarrow> u32 \<Rightarrow> u32 \<Rightarrow> fs \<Rightarrow> (u8 list \<times> fs) option" where
  "xv6fs_readi ip off n s =
     (let sz = i_size (ino ip s) in
      if off > sz \<or> off + n < off then Some ([], s)
      else readi_loop ip off (if off + n > sz then sz - off else n) s)"

definition writei_step :: "nat \<Rightarrow> u8 list \<Rightarrow> u32 \<Rightarrow> fs \<Rightarrow> (nat option \<times> fs) option" where
  "writei_step ip src off s =
     do { (addr, s1) \<leftarrow> bmap ip (bnum off) s;
          (if addr = 0 then Some (None, s1)
           else do { (i, s2) \<leftarrow> xv6bread (i_dev (ino ip s1)) addr s1;
                     let m = unat (in_block (of_nat (length src)) off);
                     s3 \<leftarrow> xv6log_write i (bset i (blk_write (bdata i s2) (boff off) (take m src)) s2);
                     Some (Some m, xv6brelse i s3) }) }"

text \<open>Returns the number of bytes written and the offset reached.\<close>

partial_function (option) writei_loop :: "nat \<Rightarrow> u8 list \<Rightarrow> u32 \<Rightarrow> nat \<Rightarrow> fs \<Rightarrow> (nat \<times> u32 \<times> fs) option" where
  "writei_loop ip src off tot s =
     (if src = [] then Some (tot, off, s)
      else do { (r, s1) \<leftarrow> writei_step ip src off s;
                (case r of None \<Rightarrow> Some (tot, off, s1)
                 | Some m \<Rightarrow> writei_loop ip (drop m src) (off + of_nat m) (tot + m) s1) })"

definition xv6fs_writei :: "nat \<Rightarrow> u8 list \<Rightarrow> u32 \<Rightarrow> fs \<Rightarrow> (int \<times> fs) option" where
  "xv6fs_writei ip src off s =
     (let n = length src in
      if off + of_nat n < off then Some (-1, s)
      else if unat off + n > XV6FS_MAXFILE * XV6FS_BSIZE then Some (-1, s)
      else do { (tot, off', s1) \<leftarrow> writei_loop ip src off 0 s;
                let s2 = (if off' > i_size (ino ip s1) then iupd ip (\<lambda>x. x\<lparr>i_size := off'\<rparr>) s1 else s1);
                let s3 = (if tot > 0 then iupd ip (\<lambda>x. x\<lparr>i_mtime := xv6fs_now_sec s2\<rparr>) s2 else s2);
                s4 \<leftarrow> xv6fs_iupdate ip s3;
                Some (int tot, s4) })"

section \<open>Directories\<close>

definition cbyte :: "u8 list \<Rightarrow> nat \<Rightarrow> u8" where
  "cbyte xs k = (if k < length xs then xs ! k else 0)"

fun strncmp_eq :: "nat \<Rightarrow> u8 list \<Rightarrow> u8 list \<Rightarrow> bool" where
  "strncmp_eq 0 xs ys = True"
| "strncmp_eq (Suc n) xs ys =
     (if cbyte xs 0 \<noteq> 0 \<and> cbyte xs 0 = cbyte ys 0 then strncmp_eq n (tl xs) (tl ys) else cbyte xs 0 = cbyte ys 0)"

definition namecmp :: "u8 list \<Rightarrow> u8 list \<Rightarrow> bool" where
  "namecmp xs ys = strncmp_eq XV6FS_DIRSIZ xs ys"

definition cstr :: "u8 list \<Rightarrow> u8 list" where
  "cstr xs = takeWhile (\<lambda>c. c \<noteq> 0) xs"

definition dirent_name :: "u8 list \<Rightarrow> u8 list" where
  "dirent_name nm = take XV6FS_DIRSIZ (cstr nm @ replicate XV6FS_DIRSIZ 0)"

definition de_inum :: "u8 list \<Rightarrow> u16" where
  "de_inum de = rd16 (\<lambda>k. de ! k) 0"

definition de_name :: "u8 list \<Rightarrow> u8 list" where
  "de_name de = drop 2 de"

definition put_dirent :: "u16 \<Rightarrow> u8 list \<Rightarrow> u8 list" where
  "put_dirent inum nm = [ucast inum, ucast (drop_bit 8 inum)] @ dirent_name nm"

partial_function (option) dirlookup_loop :: "nat \<Rightarrow> u8 list \<Rightarrow> u32 \<Rightarrow> fs \<Rightarrow> ((nat \<times> u32) option \<times> fs) option" where
  "dirlookup_loop dp nm off s =
     (if off < i_size (ino dp s) then
        do { (de, s1) \<leftarrow> xv6fs_readi dp off 64 s;
             (if length de \<noteq> 64 then Some (None, s1)
              else if de_inum de \<noteq> 0 \<and> namecmp nm (de_name de) then
                do { (ip, s2) \<leftarrow> xv6fs_iget (i_dev (ino dp s1)) (ucast (de_inum de)) s1; Some (Some (ip, off), s2) }
              else dirlookup_loop dp nm (off + 64) s1) }
      else Some (None, s))"

definition xv6fs_dirlookup :: "nat \<Rightarrow> u8 list \<Rightarrow> fs \<Rightarrow> ((nat \<times> u32) option \<times> fs) option" where
  "xv6fs_dirlookup dp nm s =
     (if i_type (ino dp s) \<noteq> XV6FS_T_DIR then Some (None, s) else dirlookup_loop dp nm 0 s)"

partial_function (option) dirlink_slot :: "nat \<Rightarrow> u32 \<Rightarrow> fs \<Rightarrow> (u32 \<times> fs) option" where
  "dirlink_slot dp off s =
     (if off < i_size (ino dp s) then
        do { (de, s1) \<leftarrow> xv6fs_readi dp off 64 s;
             (if length de \<noteq> 64 then None
              else if de_inum de = 0 then Some (off, s1)
              else dirlink_slot dp (off + 64) s1) }
      else Some (off, s))"

definition xv6fs_dirlink :: "nat \<Rightarrow> u8 list \<Rightarrow> u32 \<Rightarrow> fs \<Rightarrow> (int \<times> fs) option" where
  "xv6fs_dirlink dp nm inum s =
     do { (r, s1) \<leftarrow> xv6fs_dirlookup dp nm s;
          (case r of
             Some (ip, _) \<Rightarrow> do { s2 \<leftarrow> xv6fs_iput ip s1; Some (-1, s2) }
           | None \<Rightarrow>
               do { (off, s2) \<leftarrow> dirlink_slot dp 0 s1;
                    (n, s3) \<leftarrow> xv6fs_writei dp (put_dirent (ucast inum) nm) off s2;
                    Some (if n \<noteq> 64 then -1 else 0, s3) }) }"

section \<open>Path resolution\<close>

definition slash :: u8 where
  "slash = 47"

definition fill_name :: "u8 list \<Rightarrow> u8 list \<Rightarrow> u8 list" where
  "fill_name el nm =
     (if length el \<ge> XV6FS_DIRSIZ then take XV6FS_DIRSIZ el else el @ [0] @ drop (length el + 1) nm)"

definition skipelem :: "u8 list \<Rightarrow> u8 list \<Rightarrow> (u8 list \<times> u8 list) option" where
  "skipelem path nm =
     (let p = dropWhile (\<lambda>c. c = slash) path in
      if p = [] then None
      else let el = takeWhile (\<lambda>c. c \<noteq> slash) p; rest = dropWhile (\<lambda>c. c \<noteq> slash) p
           in Some (dropWhile (\<lambda>c. c = slash) rest, fill_name el nm))"

definition XV6FS_SYMLOOP_MAX :: nat where
  "XV6FS_SYMLOOP_MAX = 16"

definition strlen_buf :: "u8 list \<Rightarrow> nat option" where
  "strlen_buf nm = (if 0 \<in> set nm then Some (length (cstr nm)) else None)"

definition xv6fs_read_symlink_target :: "nat \<Rightarrow> nat \<Rightarrow> fs \<Rightarrow> (u8 list \<times> fs) option" where
  "xv6fs_read_symlink_target ip bufsiz s =
     do { s1 \<leftarrow> xv6fs_ilock ip s;
          (xs, s2) \<leftarrow> xv6fs_readi ip 0 (of_nat (bufsiz - 1)) s1;
          s3 \<leftarrow> xv6fs_iunlockput ip s2;
          Some (cstr xs, s3) }"

text \<open>The path that replaces a symbolic link: the target, made absolute with the path resolved so far, and
  the elements that remain. There is none when it does not fit into 256 bytes.\<close>

definition symlink_path :: "u8 list \<Rightarrow> u8 list \<Rightarrow> u8 list \<Rightarrow> u8 list option" where
  "symlink_path resolved target rest =
     do { c \<leftarrow> (if cbyte target 0 = slash then (if length target \<ge> 256 then None else Some target)
               else if length resolved + 1 + length target \<ge> 256 then None
               else Some (resolved @ [slash] @ target));
          (if rest = [] then Some c
           else if length c + 1 + length rest \<ge> 256 then None
           else Some (c @ [slash] @ rest)) }"

definition add_resolved :: "u8 list \<Rightarrow> u8 list \<Rightarrow> u8 list option" where
  "add_resolved resolved nm =
     do { n \<leftarrow> strlen_buf nm;
          Some (if length resolved + 1 + n < 256 then resolved @ [slash] @ take n nm else resolved) }"

lemma skipelem_shorter:
  assumes "skipelem path nm = Some (rest, nm')"
  shows "length rest < length path"
proof (cases "dropWhile (\<lambda>c. c = slash) path")
  case (Cons c cs)
  have c: "c \<noteq> slash" using hd_dropWhile [of "\<lambda>c. c = slash" path] Cons by simp
  then have "rest = dropWhile (\<lambda>c. c = slash) (dropWhile (\<lambda>c. c \<noteq> slash) cs)"
    using assms Cons by (simp add: skipelem_def Let_def)
  then have "length rest \<le> length (dropWhile (\<lambda>c. c \<noteq> slash) cs)" by (simp add: length_dropWhile_le)
  also have "\<dots> \<le> length cs" by (rule length_dropWhile_le)
  also have "length cs < length path" using length_dropWhile_le [of "\<lambda>c. c = slash" path] Cons by simp
  finally show ?thesis .
qed (use assms in \<open>simp add: skipelem_def\<close>)

text \<open>The loop of \<open>namex_depth\<close> on the inode reached so far. A symbolic link restarts it from the root.\<close>

function (sequential) namex_loop ::
    "u8 list \<Rightarrow> bool \<Rightarrow> u8 list \<Rightarrow> bool \<Rightarrow> nat \<Rightarrow> nat \<Rightarrow> u8 list \<Rightarrow> fs \<Rightarrow> (nat option \<times> u8 list \<times> fs) option" where
  "namex_loop path parent nm follow depth ip resolved s =
     (case skipelem path nm of
        None \<Rightarrow> (if parent then do { s1 \<leftarrow> xv6fs_iput ip s; Some (None, nm, s1) } else Some (Some ip, nm, s))
      | Some (rest, nm1) \<Rightarrow>
          do { s1 \<leftarrow> xv6fs_ilock ip s;
               (if i_type (ino ip s1) \<noteq> XV6FS_T_DIR then do { s2 \<leftarrow> xv6fs_iunlockput ip s1; Some (None, nm1, s2) }
                else if parent \<and> rest = [] then do { s2 \<leftarrow> xv6fs_iunlock ip s1; Some (Some ip, nm1, s2) }
                else
                  do { (r, s2) \<leftarrow> xv6fs_dirlookup ip nm1 s1;
                       s3 \<leftarrow> xv6fs_iunlockput ip s2;
                       (case r of
                          None \<Rightarrow> Some (None, nm1, s3)
                        | Some (nxt, _) \<Rightarrow>
                            do { s4 \<leftarrow> xv6fs_ilock nxt s3;
                                 s5 \<leftarrow> xv6fs_iunlock nxt s4;
                                 (if i_type (ino nxt s4) = XV6FS_T_SYMLINK \<and> (rest \<noteq> [] \<or> follow) then
                                    do { (target, s6) \<leftarrow> xv6fs_read_symlink_target nxt 256 s5;
                                         (case symlink_path resolved target rest of
                                            None \<Rightarrow> Some (None, nm1, s6)
                                          | Some combined \<Rightarrow>
                                              (if depth + 1 > XV6FS_SYMLOOP_MAX \<or> cbyte combined 0 \<noteq> slash
                                               then Some (None, nm1, s6)
                                               else do { (root, s7) \<leftarrow> xv6fs_iget (g_xv6fs_dev s6) XV6FS_ROOTINO s6;
                                                         namex_loop combined parent nm1 follow (depth + 1) root [] s7 })) }
                                  else do { res \<leftarrow> add_resolved resolved nm1;
                                            namex_loop rest parent nm1 follow depth nxt res s5 }) }) }) })"
  by pat_completeness auto
termination
  by (relation "measures [\<lambda>(path, parent, nm, follow, depth, ip, resolved, s). 17 - depth,
      \<lambda>(path, parent, nm, follow, depth, ip, resolved, s). length path]")
    (auto simp: XV6FS_SYMLOOP_MAX_def dest: skipelem_shorter)

declare namex_loop.simps [simp del]

definition namex_depth :: "u8 list \<Rightarrow> bool \<Rightarrow> u8 list \<Rightarrow> bool \<Rightarrow> nat \<Rightarrow> fs \<Rightarrow> (nat option \<times> u8 list \<times> fs) option" where
  "namex_depth path parent nm follow depth s =
     (if depth > XV6FS_SYMLOOP_MAX \<or> cbyte path 0 \<noteq> slash then Some (None, nm, s)
      else do { (root, s1) \<leftarrow> xv6fs_iget (g_xv6fs_dev s) XV6FS_ROOTINO s;
                namex_loop path parent nm follow depth root [] s1 })"

definition namex :: "u8 list \<Rightarrow> bool \<Rightarrow> u8 list \<Rightarrow> fs \<Rightarrow> (nat option \<times> u8 list \<times> fs) option" where
  "namex path parent nm s = namex_depth path parent nm True 0 s"

definition no_name :: "u8 list" where
  "no_name = replicate XV6FS_DIRSIZ 0"

definition xv6fs_namei :: "u8 list \<Rightarrow> fs \<Rightarrow> (nat option \<times> fs) option" where
  "xv6fs_namei path s = do { (r, _, s1) \<leftarrow> namex path False no_name s; Some (r, s1) }"

definition xv6fs_namei_nofollow :: "u8 list \<Rightarrow> fs \<Rightarrow> (nat option \<times> fs) option" where
  "xv6fs_namei_nofollow path s = do { (r, _, s1) \<leftarrow> namex_depth path False no_name False 0 s; Some (r, s1) }"

definition xv6fs_nameiparent :: "u8 list \<Rightarrow> fs \<Rightarrow> (nat option \<times> u8 list \<times> fs) option" where
  "xv6fs_nameiparent path s = namex path True no_name s"

end
