(* ===== verification/FsOps.thy ===== *)
theory FsOps
  imports FsPath
begin

text \<open>
  The file system \<open>kernel/xv6fs.c\<close>, third part: the operations on paths behind the system calls. A result
  is the C return value (0, or a negative number) with the new state; values returned through pointers are
  part of the result, \<^const>\<open>None\<close> where nothing is stored. A path that may be the null pointer is an option.
\<close>

unbundle bit_operations_syntax

section \<open>Queries\<close>

definition xv6fs_is_mounted :: "fs \<Rightarrow> bool" where
  "xv6fs_is_mounted s \<longleftrightarrow> cbyte (g_xv6fs_devname s) 0 \<noteq> 0"

definition or_root :: "u8 list option \<Rightarrow> u8 list" where
  "or_root path = (case path of Some p \<Rightarrow> (if p = [] then [slash] else p) | None \<Rightarrow> [slash])"

definition xv6fs_ino_path :: "u8 list option \<Rightarrow> fs \<Rightarrow> (int \<times> u64 option \<times> fs) option" where
  "xv6fs_ino_path path s =
     do { (r, s1) \<leftarrow> xv6fs_namei (or_root path) s;
          (case r of
             None \<Rightarrow> Some (-1, None, s1)
           | Some ip \<Rightarrow>
               do { s2 \<leftarrow> xv6fs_ilock ip s1;
                    s3 \<leftarrow> xv6fs_iunlock ip s2;
                    s4 \<leftarrow> xv6fs_iput ip s3;
                    Some (0, Some (ucast (i_inum (ino ip s2))), s4) }) }"

definition rdev_of :: "inode \<Rightarrow> u32" where
  "rdev_of x =
     (if i_type x = XV6FS_T_DEVICE
      then push_bit 8 (word_of_int (sint (i_major x)) AND 0xFF) OR (word_of_int (sint (i_minor x)) AND 0xFF)
      else 0)"

definition stat_inode :: "nat option \<Rightarrow> fs \<Rightarrow> (int \<times> (u32 \<times> u64 \<times> u64 \<times> u32) option \<times> fs) option" where
  "stat_inode r s1 =
     (case r of
        None \<Rightarrow> Some (-1, None, s1)
      | Some ip \<Rightarrow>
          do { s2 \<leftarrow> xv6fs_ilock ip s1;
               let x = ino ip s2;
               s3 \<leftarrow> xv6fs_iunlock ip s2;
               s4 \<leftarrow> xv6fs_iput ip s3;
               Some (0, Some (xv6fs_type_mode x, ucast (i_size x), ucast (i_mtime x), rdev_of x), s4) })"

definition xv6fs_stat_path :: "u8 list option \<Rightarrow> fs \<Rightarrow> (int \<times> (u32 \<times> u64 \<times> u64 \<times> u32) option \<times> fs) option" where
  "xv6fs_stat_path path s = do { (r, s1) \<leftarrow> xv6fs_namei (or_root path) s; stat_inode r s1 }"

definition xv6fs_lstat_path :: "u8 list option \<Rightarrow> fs \<Rightarrow> (int \<times> (u32 \<times> u64 \<times> u64 \<times> u32) option \<times> fs) option" where
  "xv6fs_lstat_path path s = do { (r, s1) \<leftarrow> xv6fs_namei_nofollow (or_root path) s; stat_inode r s1 }"

definition xv6fs_readlink_path :: "u8 list \<Rightarrow> nat \<Rightarrow> fs \<Rightarrow> (int \<times> u8 list \<times> fs) option" where
  "xv6fs_readlink_path path bufsiz s =
     do { (r, s1) \<leftarrow> xv6fs_namei_nofollow path s;
          (case r of
             None \<Rightarrow> Some (-1, [], s1)
           | Some ip \<Rightarrow>
               do { s2 \<leftarrow> xv6fs_ilock ip s1;
                    (if i_type (ino ip s2) \<noteq> XV6FS_T_SYMLINK then
                       do { s3 \<leftarrow> xv6fs_iunlock ip s2; s4 \<leftarrow> xv6fs_iput ip s3; Some (-1, [], s4) }
                     else
                       do { (xs, s3) \<leftarrow> xv6fs_readi ip 0 (of_nat bufsiz) s2;
                            s4 \<leftarrow> xv6fs_iunlock ip s3;
                            s5 \<leftarrow> xv6fs_iput ip s4;
                            Some (int (length xs), xs, s5) }) }) }"

definition is_dots :: "u8 list \<Rightarrow> bool" where
  "is_dots nm \<longleftrightarrow> cbyte nm 0 = 46 \<and> (cbyte nm 1 = 0 \<or> cbyte nm 1 = 46 \<and> cbyte nm 2 = 0)"

record orth_dirent =
  de_mode :: u32
  de_size :: u32
  de_str :: "u8 list"

definition list_entry :: "u32 \<Rightarrow> u8 list \<Rightarrow> fs \<Rightarrow> (orth_dirent \<times> fs) option" where
  "list_entry dev de s =
     do { (ip, s1) \<leftarrow> xv6fs_iget dev (ucast (de_inum de)) s;
          s2 \<leftarrow> xv6fs_ilock ip s1;
          let x = ino ip s2;
          s3 \<leftarrow> xv6fs_iunlock ip s2;
          s4 \<leftarrow> xv6fs_iput ip s3;
          Some (\<lparr>de_mode = xv6fs_type_mode x, de_size = i_size x, de_str = cstr (take XV6FS_DIRSIZ (de_name de))\<rparr>, s4) }"

partial_function (option) list_loop ::
    "nat \<Rightarrow> nat \<Rightarrow> u32 \<Rightarrow> orth_dirent list \<Rightarrow> fs \<Rightarrow> (orth_dirent list \<times> fs) option" where
  "list_loop dp max_entries off out s =
     (if off < i_size (ino dp s) then
        do { (de, s1) \<leftarrow> xv6fs_readi dp off 64 s;
             (if length de \<noteq> 64 then Some (out, s1)
              else if de_inum de = 0 \<or> is_dots (de_name de) then list_loop dp max_entries (off + 64) out s1
              else if length out \<ge> max_entries then Some (out, s1)
              else do { (e, s2) \<leftarrow> list_entry (i_dev (ino dp s1)) de s1;
                        list_loop dp max_entries (off + 64) (out @ [e]) s2 }) }
      else Some (out, s))"

text \<open>\<open>old\<close> are the entries already in the caller's array.\<close>

definition xv6fs_list_dir ::
    "u8 list option \<Rightarrow> nat \<Rightarrow> orth_dirent list \<Rightarrow> fs \<Rightarrow> (int \<times> orth_dirent list \<times> fs) option" where
  "xv6fs_list_dir path max_entries old s =
     do { (r, s1) \<leftarrow> xv6fs_namei (or_root path) s;
          (case r of
             None \<Rightarrow> Some (-1, old, s1)
           | Some dp \<Rightarrow>
               do { s2 \<leftarrow> xv6fs_ilock dp s1;
                    (if i_type (ino dp s2) \<noteq> XV6FS_T_DIR then
                       do { s3 \<leftarrow> xv6fs_iunlock dp s2; s4 \<leftarrow> xv6fs_iput dp s3; Some (-1, old, s4) }
                     else
                       do { (out, s3) \<leftarrow> list_loop dp max_entries 0 old s2;
                            s4 \<leftarrow> xv6fs_iunlock dp s3;
                            s5 \<leftarrow> xv6fs_iput dp s4;
                            Some (0, out, s5) }) }) }"

section \<open>Writing a file\<close>

partial_function (option) write_chunks :: "nat \<Rightarrow> nat \<Rightarrow> u8 list \<Rightarrow> fs \<Rightarrow> (int \<times> fs) option" where
  "write_chunks ip offset src s =
     (let chunk = min (length src) XV6FS_WRITE_CHUNK_MAX; op_blocks = XV6LOG_OP_WRITE chunk in
      do { s1 \<leftarrow> xv6log_begin_op op_blocks s;
           s2 \<leftarrow> xv6fs_ilock ip s1;
           (r, s3) \<leftarrow> xv6fs_writei ip (take chunk src) (of_nat offset) s2;
           s4 \<leftarrow> xv6fs_iunlock ip s3;
           s5 \<leftarrow> xv6log_end_op op_blocks s4;
           (if r \<noteq> int chunk then do { s6 \<leftarrow> xv6fs_iput ip s5; Some (-1, s6) }
            else if chunk < length src then write_chunks ip (offset + chunk) (drop chunk src) s5
            else do { s6 \<leftarrow> xv6fs_iput ip s5; Some (0, s6) }) })"

definition xv6fs_write_file :: "u8 list \<Rightarrow> u64 \<Rightarrow> u8 list \<Rightarrow> fs \<Rightarrow> (int \<times> fs) option" where
  "xv6fs_write_file path offset src s =
     do { (r, s1) \<leftarrow> xv6fs_namei path s;
          (case r of None \<Rightarrow> Some (-1, s1) | Some ip \<Rightarrow> write_chunks ip (unat offset) src s1) }"

section \<open>Creating names\<close>

text \<open>The common ways out of an operation that has locked the parent directory.\<close>

definition leave_dir :: "nat \<Rightarrow> int \<Rightarrow> fs \<Rightarrow> fs option" where
  "leave_dir dp need s =
     do { s1 \<leftarrow> xv6fs_iunlock dp s; s2 \<leftarrow> xv6log_end_op need s1; xv6fs_iput dp s2 }"

definition drop_inode :: "nat \<Rightarrow> fs \<Rightarrow> fs option" where
  "drop_inode ip s = do { s1 \<leftarrow> xv6fs_iunlock ip s; xv6fs_iput ip s1 }"

definition undo_link :: "nat \<Rightarrow> fs \<Rightarrow> fs option" where
  "undo_link ip s =
     do { s1 \<leftarrow> xv6fs_iupdate ip (iupd ip (\<lambda>x. x\<lparr>i_nlink := 0\<rparr>) s); drop_inode ip s1 }"

definition xv6fs_mknod_fifo :: "u8 list option \<Rightarrow> u32 \<Rightarrow> fs \<Rightarrow> (int \<times> fs) option" where
  "xv6fs_mknod_fifo path mode s =
     (case path of None \<Rightarrow> Some (-1, s) | Some p \<Rightarrow>
      if p = [] then Some (-1, s)
      else do { s1 \<leftarrow> xv6log_begin_op XV6LOG_OP_SMALL s;
                (d, nm, s2) \<leftarrow> xv6fs_nameiparent p s1;
                (case d of None \<Rightarrow> do { s3 \<leftarrow> xv6log_end_op XV6LOG_OP_SMALL s2; Some (-1, s3) }
                 | Some dp \<Rightarrow>
                   do { s3 \<leftarrow> xv6fs_ilock dp s2;
                        (r, s4) \<leftarrow> xv6fs_dirlookup dp nm s3;
                        (case r of
                           Some (ip, _) \<Rightarrow>
                             do { s5 \<leftarrow> xv6fs_iput ip s4; s6 \<leftarrow> leave_dir dp XV6LOG_OP_SMALL s5; Some (-17, s6) }
                         | None \<Rightarrow>
                             do { (a, s5) \<leftarrow> xv6fs_ialloc (i_dev (ino dp s4)) XV6FS_T_FIFO s4;
                                  (case a of None \<Rightarrow> do { s6 \<leftarrow> leave_dir dp XV6LOG_OP_SMALL s5; Some (-1, s6) }
                                   | Some ip \<Rightarrow>
                                     do { s6 \<leftarrow> xv6fs_ilock ip s5;
                                          s7 \<leftarrow> xv6fs_iupdate ip (iupd ip (\<lambda>x. xv6fs_set_mode mode (x\<lparr>i_nlink := 1\<rparr>)) s6);
                                          (l, s8) \<leftarrow> xv6fs_dirlink dp nm (i_inum (ino ip s7)) s7;
                                          (if l < 0 then
                                             do { s9 \<leftarrow> undo_link ip s8;
                                                  s10 \<leftarrow> leave_dir dp XV6LOG_OP_SMALL s9;
                                                  Some (-1, s10) }
                                           else
                                             do { s9 \<leftarrow> xv6fs_iunlock ip s8;
                                                  s10 \<leftarrow> leave_dir dp XV6LOG_OP_SMALL s9;
                                                  s11 \<leftarrow> xv6fs_iput ip s10;
                                                  Some (0, s11) }) }) }) }) })"

text \<open>\<open>keep\<close>: the caller asks for the inode (\<open>out_ip\<close> is not null).\<close>

definition hand_out :: "bool \<Rightarrow> nat \<Rightarrow> fs \<Rightarrow> (int \<times> nat option \<times> fs) option" where
  "hand_out keep ip s = (if keep then Some (0, Some ip, s) else do { s1 \<leftarrow> xv6fs_iput ip s; Some (0, None, s1) })"

definition xv6fs_create_file :: "u8 list option \<Rightarrow> u32 \<Rightarrow> bool \<Rightarrow> fs \<Rightarrow> (int \<times> nat option \<times> fs) option" where
  "xv6fs_create_file path mode keep s =
     (case path of None \<Rightarrow> Some (-1, None, s) | Some p \<Rightarrow>
      if p = [] then Some (-1, None, s)
      else do { s1 \<leftarrow> xv6log_begin_op XV6LOG_OP_SMALL s;
                (d, nm, s2) \<leftarrow> xv6fs_nameiparent p s1;
                (case d of None \<Rightarrow> do { s3 \<leftarrow> xv6log_end_op XV6LOG_OP_SMALL s2; Some (-1, None, s3) }
                 | Some dp \<Rightarrow>
                   do { s3 \<leftarrow> xv6fs_ilock dp s2;
                        (r, s4) \<leftarrow> xv6fs_dirlookup dp nm s3;
                        (case r of
                           Some (ip, _) \<Rightarrow>
                             do { s5 \<leftarrow> xv6fs_ilock ip s4;
                                  (if i_type (ino ip s5) \<noteq> XV6FS_T_FILE \<and> i_type (ino ip s5) \<noteq> XV6FS_T_DEVICE \<and>
                                      i_type (ino ip s5) \<noteq> XV6FS_T_FIFO then
                                     do { s6 \<leftarrow> drop_inode ip s5; s7 \<leftarrow> leave_dir dp XV6LOG_OP_SMALL s6; Some (-1, None, s7) }
                                   else
                                     do { s6 \<leftarrow> xv6fs_iunlock ip s5;
                                          s7 \<leftarrow> leave_dir dp XV6LOG_OP_SMALL s6;
                                          hand_out keep ip s7 }) }
                         | None \<Rightarrow>
                             do { (a, s5) \<leftarrow> xv6fs_ialloc (i_dev (ino dp s4)) XV6FS_T_FILE s4;
                                  (case a of None \<Rightarrow> do { s6 \<leftarrow> leave_dir dp XV6LOG_OP_SMALL s5; Some (-1, None, s6) }
                                   | Some ip \<Rightarrow>
                                     do { s6 \<leftarrow> xv6fs_ilock ip s5;
                                          s7 \<leftarrow> xv6fs_iupdate ip (iupd ip (\<lambda>x. xv6fs_set_mode mode (x\<lparr>i_nlink := 1\<rparr>)) s6);
                                          (l, s8) \<leftarrow> xv6fs_dirlink dp nm (i_inum (ino ip s7)) s7;
                                          (if l < 0 then
                                             do { s9 \<leftarrow> undo_link ip s8;
                                                  s10 \<leftarrow> leave_dir dp XV6LOG_OP_SMALL s9;
                                                  Some (-1, None, s10) }
                                           else
                                             do { s9 \<leftarrow> xv6fs_iunlock ip s8;
                                                  s10 \<leftarrow> leave_dir dp XV6LOG_OP_SMALL s9;
                                                  hand_out keep ip s10 }) }) }) }) })"

definition symlink_write :: "u8 list \<Rightarrow> nat \<Rightarrow> fs \<Rightarrow> (int \<times> fs) option" where
  "symlink_write target ip s =
     (let need = XV6LOG_OP_WRITE (length target) in
      do { s1 \<leftarrow> xv6log_begin_op need s;
           s2 \<leftarrow> xv6fs_ilock ip s1;
           (n, s3) \<leftarrow> xv6fs_writei ip target 0 s2;
           s4 \<leftarrow> xv6fs_iunlock ip s3;
           s5 \<leftarrow> xv6log_end_op need s4;
           s6 \<leftarrow> xv6fs_iput ip s5;
           Some (if n \<noteq> int (length target) then -1 else 0, s6) })"

definition xv6fs_symlink_path :: "u8 list option \<Rightarrow> u8 list option \<Rightarrow> fs \<Rightarrow> (int \<times> fs) option" where
  "xv6fs_symlink_path target linkpath s =
     (case (target, linkpath) of (Some t, Some p) \<Rightarrow>
        if p = [] \<or> t = [] \<or> length t \<ge> XV6FS_BSIZE then Some (-1, s)
        else do { s1 \<leftarrow> xv6log_begin_op XV6LOG_OP_SMALL s;
                  (d, nm, s2) \<leftarrow> xv6fs_nameiparent p s1;
                  (case d of None \<Rightarrow> do { s3 \<leftarrow> xv6log_end_op XV6LOG_OP_SMALL s2; Some (-1, s3) }
                   | Some dp \<Rightarrow>
                     do { s3 \<leftarrow> xv6fs_ilock dp s2;
                          (r, s4) \<leftarrow> xv6fs_dirlookup dp nm s3;
                          (case r of
                             Some (ip, _) \<Rightarrow>
                               do { s5 \<leftarrow> xv6fs_iput ip s4; s6 \<leftarrow> leave_dir dp XV6LOG_OP_SMALL s5; Some (-1, s6) }
                           | None \<Rightarrow>
                               do { (a, s5) \<leftarrow> xv6fs_ialloc (i_dev (ino dp s4)) XV6FS_T_SYMLINK s4;
                                    (case a of None \<Rightarrow> do { s6 \<leftarrow> leave_dir dp XV6LOG_OP_SMALL s5; Some (-1, s6) }
                                     | Some ip \<Rightarrow>
                                       do { s6 \<leftarrow> xv6fs_ilock ip s5;
                                            s7 \<leftarrow> xv6fs_iupdate ip (iupd ip (\<lambda>x. x\<lparr>i_nlink := 1\<rparr>) s6);
                                            (l, s8) \<leftarrow> xv6fs_dirlink dp nm (i_inum (ino ip s7)) s7;
                                            (if l < 0 then
                                               do { s9 \<leftarrow> undo_link ip s8;
                                                    s10 \<leftarrow> leave_dir dp XV6LOG_OP_SMALL s9;
                                                    Some (-1, s10) }
                                             else
                                               do { s9 \<leftarrow> xv6fs_iunlock ip s8;
                                                    s10 \<leftarrow> leave_dir dp XV6LOG_OP_SMALL s9;
                                                    symlink_write t ip s10 }) }) }) }) }
      | _ \<Rightarrow> Some (-1, s))"

section \<open>Truncating and unlinking\<close>

partial_function (option) truncate_loop :: "nat \<Rightarrow> u64 \<Rightarrow> int \<Rightarrow> fs \<Rightarrow> (int \<times> fs) option" where
  "truncate_loop ip len need s =
     do { s1 \<leftarrow> xv6log_begin_op need s;
          s2 \<leftarrow> xv6fs_ilock ip s1;
          (if unat len > XV6FS_MAXFILE * XV6FS_BSIZE then
             do { s3 \<leftarrow> leave_dir ip need s2; Some (-1, s3) }
           else if len < ucast (i_size (ino ip s2)) then
             (let real_need = xv6fs_itrunc_need (i_size (ino ip s2)) (ucast len) in
              if real_need > need then
                do { s3 \<leftarrow> xv6fs_iunlock ip s2; s4 \<leftarrow> xv6log_end_op need s3; truncate_loop ip len real_need s4 }
              else do { s3 \<leftarrow> xv6fs_itrunc_to ip (ucast len) s2; s4 \<leftarrow> leave_dir ip need s3; Some (0, s4) })
           else
             do { s3 \<leftarrow> xv6fs_iupdate ip (iupd ip (\<lambda>x. x\<lparr>i_size := ucast len, i_mtime := xv6fs_now_sec s2\<rparr>) s2);
                  s4 \<leftarrow> leave_dir ip need s3;
                  Some (0, s4) }) }"

definition xv6fs_truncate_file :: "u8 list \<Rightarrow> u64 \<Rightarrow> fs \<Rightarrow> (int \<times> fs) option" where
  "xv6fs_truncate_file path len s =
     do { (r, s1) \<leftarrow> xv6fs_namei path s;
          (case r of None \<Rightarrow> Some (-1, s1)
           | Some ip \<Rightarrow>
             truncate_loop ip len
               (if len < ucast (i_size (ino ip s1)) then xv6fs_itrunc_need (i_size (ino ip s1)) (ucast len) else XV6LOG_OP_SMALL)
               s1) }"

definition xv6fs_unlink_path :: "u8 list \<Rightarrow> fs \<Rightarrow> (int \<times> fs) option" where
  "xv6fs_unlink_path path s =
     do { (d, nm, s1) \<leftarrow> xv6fs_nameiparent path s;
          (case d of None \<Rightarrow> Some (-1, s1)
           | Some dp \<Rightarrow>
             do { s2 \<leftarrow> xv6log_begin_op XV6LOG_OP_FULL s1;
                  s3 \<leftarrow> xv6fs_ilock dp s2;
                  (r, s4) \<leftarrow> xv6fs_dirlookup dp nm s3;
                  (case r of None \<Rightarrow> do { s5 \<leftarrow> leave_dir dp XV6LOG_OP_FULL s4; Some (-1, s5) }
                   | Some (ip, off) \<Rightarrow>
                     do { s5 \<leftarrow> xv6fs_ilock ip s4;
                          (if i_type (ino ip s5) = XV6FS_T_DIR then
                             do { s6 \<leftarrow> drop_inode ip s5; s7 \<leftarrow> leave_dir dp XV6LOG_OP_FULL s6; Some (-1, s7) }
                           else
                             do { (_, s6) \<leftarrow> xv6fs_writei dp (replicate 64 0) off s5;
                                  s7 \<leftarrow> xv6fs_iupdate ip (iupd ip (\<lambda>x. x\<lparr>i_nlink := i_nlink x - 1\<rparr>) s6);
                                  s8 \<leftarrow> drop_inode ip s7;
                                  s9 \<leftarrow> leave_dir dp XV6LOG_OP_FULL s8;
                                  Some (0, s9) }) }) }) }"

definition xv6fs_rmdir_path :: "u8 list \<Rightarrow> fs \<Rightarrow> (int \<times> fs) option" where
  "xv6fs_rmdir_path path s =
     do { (d, nm, s1) \<leftarrow> xv6fs_nameiparent path s;
          (case d of None \<Rightarrow> Some (-1, s1)
           | Some dp \<Rightarrow>
             do { s2 \<leftarrow> xv6log_begin_op XV6LOG_OP_FULL s1;
                  s3 \<leftarrow> xv6fs_ilock dp s2;
                  (r, s4) \<leftarrow> xv6fs_dirlookup dp nm s3;
                  (case r of None \<Rightarrow> do { s5 \<leftarrow> leave_dir dp XV6LOG_OP_FULL s4; Some (-1, s5) }
                   | Some (ip, off) \<Rightarrow>
                     do { s5 \<leftarrow> xv6fs_ilock ip s4;
                          (if i_type (ino ip s5) \<noteq> XV6FS_T_DIR then
                             do { s6 \<leftarrow> drop_inode ip s5; s7 \<leftarrow> leave_dir dp XV6LOG_OP_FULL s6; Some (-1, s7) }
                           else
                             do { (_, s6) \<leftarrow> xv6fs_writei dp (replicate 64 0) off s5;
                                  s7 \<leftarrow> xv6fs_iupdate dp (iupd dp (\<lambda>x. x\<lparr>i_nlink := i_nlink x - 1\<rparr>) s6);
                                  s8 \<leftarrow> xv6fs_iupdate ip (iupd ip (\<lambda>x. x\<lparr>i_nlink := 0\<rparr>) s7);
                                  s9 \<leftarrow> drop_inode ip s8;
                                  s10 \<leftarrow> leave_dir dp XV6LOG_OP_FULL s9;
                                  Some (0, s10) }) }) }) }"

definition link_bad :: "nat \<Rightarrow> fs \<Rightarrow> (int \<times> fs) option" where
  "link_bad ip s =
     do { s1 \<leftarrow> xv6fs_ilock ip s;
          s2 \<leftarrow> xv6fs_iupdate ip (iupd ip (\<lambda>x. x\<lparr>i_nlink := i_nlink x - 1\<rparr>) s1);
          s3 \<leftarrow> leave_dir ip XV6LOG_OP_FULL s2;
          Some (-1, s3) }"

definition xv6fs_link_path :: "u8 list \<Rightarrow> u8 list \<Rightarrow> fs \<Rightarrow> (int \<times> fs) option" where
  "xv6fs_link_path oldpath newpath s =
     do { (r, s1) \<leftarrow> xv6fs_namei oldpath s;
          (case r of None \<Rightarrow> Some (-1, s1)
           | Some ip \<Rightarrow>
             do { s2 \<leftarrow> xv6log_begin_op XV6LOG_OP_FULL s1;
                  s3 \<leftarrow> xv6fs_ilock ip s2;
                  (if i_type (ino ip s3) = XV6FS_T_DIR then do { s4 \<leftarrow> leave_dir ip XV6LOG_OP_FULL s3; Some (-1, s4) }
                   else
                     do { s4 \<leftarrow> xv6fs_iupdate ip (iupd ip (\<lambda>x. x\<lparr>i_nlink := i_nlink x + 1\<rparr>) s3);
                          s5 \<leftarrow> xv6fs_iunlock ip s4;
                          (d, nm, s6) \<leftarrow> xv6fs_nameiparent newpath s5;
                          (case d of None \<Rightarrow> link_bad ip s6
                           | Some dp \<Rightarrow>
                             do { s7 \<leftarrow> xv6fs_ilock dp s6;
                                  (l, s8) \<leftarrow> (if i_dev (ino dp s7) \<noteq> i_dev (ino ip s7) then Some (-1, s7)
                                             else xv6fs_dirlink dp nm (i_inum (ino ip s7)) s7);
                                  s9 \<leftarrow> drop_inode dp s8;
                                  (if l < 0 then link_bad ip s9
                                   else do { s10 \<leftarrow> xv6log_end_op XV6LOG_OP_FULL s9;
                                             s11 \<leftarrow> xv6fs_iput ip s10;
                                             Some (0, s11) }) }) }) }) }"

section \<open>Renaming\<close>

definition dot :: "u8 list" where "dot = [46]"
definition dotdot :: "u8 list" where "dotdot = [46, 46]"

partial_function (option) dir_is_empty_loop :: "nat \<Rightarrow> u32 \<Rightarrow> fs \<Rightarrow> (bool \<times> fs) option" where
  "dir_is_empty_loop dp off s =
     (if off < i_size (ino dp s) then
        do { (de, s1) \<leftarrow> xv6fs_readi dp off 64 s;
             (if length de \<noteq> 64 then Some (False, s1)
              else if de_inum de = 0 \<or> namecmp (de_name de) dot \<or> namecmp (de_name de) dotdot
                then dir_is_empty_loop dp (off + 64) s1
              else Some (False, s1)) }
      else Some (True, s))"

definition dir_is_empty :: "nat \<Rightarrow> fs \<Rightarrow> (bool \<times> fs) option" where
  "dir_is_empty dp s = dir_is_empty_loop dp 0 s"

partial_function (option) dir_reparent_loop :: "nat \<Rightarrow> u32 \<Rightarrow> u32 \<Rightarrow> fs \<Rightarrow> (int \<times> fs) option" where
  "dir_reparent_loop dp parent_inum off s =
     (if off < i_size (ino dp s) then
        do { (de, s1) \<leftarrow> xv6fs_readi dp off 64 s;
             (if length de \<noteq> 64 then Some (-1, s1)
              else if de_inum de = 0 \<or> \<not> namecmp (de_name de) dotdot then dir_reparent_loop dp parent_inum (off + 64) s1
              else do { (n, s2) \<leftarrow> xv6fs_writei dp ([ucast parent_inum, ucast (drop_bit 8 parent_inum)] @ de_name de) off s1;
                        Some (if n = 64 then 0 else -1, s2) }) }
      else Some (-1, s))"

definition dir_reparent :: "nat \<Rightarrow> u32 \<Rightarrow> fs \<Rightarrow> (int \<times> fs) option" where
  "dir_reparent dp parent_inum s = dir_reparent_loop dp parent_inum 0 s"

text \<open>Both parents are locked, the one with the smaller inode number first.\<close>

definition rename_lock :: "nat \<Rightarrow> nat \<Rightarrow> fs \<Rightarrow> fs option" where
  "rename_lock dp_old dp_new s =
     (if dp_old = dp_new then xv6fs_ilock dp_old s
      else if i_inum (ino dp_old s) < i_inum (ino dp_new s) then do { s1 \<leftarrow> xv6fs_ilock dp_old s; xv6fs_ilock dp_new s1 }
      else do { s1 \<leftarrow> xv6fs_ilock dp_new s; xv6fs_ilock dp_old s1 })"

definition rename_out :: "nat \<Rightarrow> nat \<Rightarrow> nat option \<Rightarrow> bool \<Rightarrow> nat option \<Rightarrow> bool \<Rightarrow> int \<Rightarrow> fs \<Rightarrow> (int \<times> fs) option" where
  "rename_out dp_old dp_new ip ip_locked ip_new ip_new_locked rc s =
     do { s1 \<leftarrow> (case ip_new of Some j \<Rightarrow> if ip_new_locked then xv6fs_iunlock j s else Some s | None \<Rightarrow> Some s);
          s2 \<leftarrow> (case ip_new of Some j \<Rightarrow> xv6fs_iput j s1 | None \<Rightarrow> Some s1);
          s3 \<leftarrow> (case ip of Some i \<Rightarrow> if ip_locked then xv6fs_iunlock i s2 else Some s2 | None \<Rightarrow> Some s2);
          s4 \<leftarrow> (case ip of Some i \<Rightarrow> xv6fs_iput i s3 | None \<Rightarrow> Some s3);
          s5 \<leftarrow> xv6fs_iunlock dp_old s4;
          s6 \<leftarrow> (if dp_old \<noteq> dp_new then xv6fs_iunlock dp_new s5 else Some s5);
          s7 \<leftarrow> xv6log_end_op XV6LOG_OP_FULL s6;
          s8 \<leftarrow> xv6fs_iput dp_old (s7\<lparr>g_rename_locked := False\<rparr>);
          s9 \<leftarrow> xv6fs_iput dp_new s8;
          Some (rc, s9) }"

text \<open>The checks on the entry that is replaced, if there is one; 0 if the rename may go on.\<close>

definition rename_check :: "nat \<Rightarrow> nat option \<Rightarrow> fs \<Rightarrow> (int \<times> fs) option" where
  "rename_check ip ip_new s =
     (case ip_new of None \<Rightarrow> Some (0, s)
      | Some j \<Rightarrow>
        do { s1 \<leftarrow> xv6fs_ilock j s;
             let is_dir = (i_type (ino ip s1) = XV6FS_T_DIR);
             (if is_dir \<and> i_type (ino j s1) \<noteq> XV6FS_T_DIR then Some (-20, s1)
              else if \<not> is_dir \<and> i_type (ino j s1) = XV6FS_T_DIR then Some (-21, s1)
              else if i_type (ino j s1) = XV6FS_T_DIR then
                do { (e, s2) \<leftarrow> dir_is_empty j s1; Some (if e then 0 else -39, s2) }
              else Some (0, s1)) })"

text \<open>The new name: an existing entry is overwritten, otherwise one is added.\<close>

definition rename_enter :: "nat \<Rightarrow> u8 list \<Rightarrow> nat \<Rightarrow> nat option \<Rightarrow> u32 \<Rightarrow> fs \<Rightarrow> (int \<times> fs) option" where
  "rename_enter dp_new new_name ip ip_new off_new s =
     (case ip_new of
        Some _ \<Rightarrow> do { (n, s1) \<leftarrow> xv6fs_writei dp_new (put_dirent (ucast (i_inum (ino ip s))) new_name) off_new s;
                      Some (if n \<noteq> 64 then -5 else 0, s1) }
      | None \<Rightarrow> do { (l, s1) \<leftarrow> xv6fs_dirlink dp_new new_name (i_inum (ino ip s)) s; Some (if l < 0 then -28 else 0, s1) })"

definition dec_nlink :: "inode \<Rightarrow> inode" where
  "dec_nlink x = x\<lparr>i_nlink := i_nlink x - 1\<rparr>"

definition rename_finish :: "nat \<Rightarrow> u32 \<Rightarrow> nat \<Rightarrow> nat \<Rightarrow> nat option \<Rightarrow> fs \<Rightarrow> (int \<times> fs) option" where
  "rename_finish dp_old off_old dp_new ip ip_new s =
     do { (_, s1) \<leftarrow> xv6fs_writei dp_old (replicate 64 0) off_old s;
          s2 \<leftarrow> (case ip_new of None \<Rightarrow> Some s1
                | Some j \<Rightarrow> xv6fs_iupdate j
                    (if i_type (ino j s1) = XV6FS_T_DIR
                     then iupd j (\<lambda>x. x\<lparr>i_nlink := 0\<rparr>) (iupd dp_new dec_nlink s1)
                     else iupd j dec_nlink s1));
          (rc, s3) \<leftarrow> (if i_type (ino ip s2) = XV6FS_T_DIR \<and> dp_old \<noteq> dp_new then
                       do { (p, s3) \<leftarrow> dir_reparent ip (i_inum (ino dp_new s2)) s2;
                            (if p < 0 then Some (-5, s3)
                             else Some (0, iupd dp_new (\<lambda>x. x\<lparr>i_nlink := i_nlink x + 1\<rparr>) (iupd dp_old dec_nlink s3))) }
                     else Some (0, s2));
          (if rc \<noteq> 0 then Some (rc, s3)
           else do { s4 \<leftarrow> xv6fs_iupdate ip s3;
                     s5 \<leftarrow> xv6fs_iupdate dp_old s4;
                     s6 \<leftarrow> (if dp_old \<noteq> dp_new then xv6fs_iupdate dp_new s5 else Some s5);
                     Some (0, s6) }) }"

definition rename_locked :: "nat \<Rightarrow> u8 list \<Rightarrow> nat \<Rightarrow> u8 list \<Rightarrow> fs \<Rightarrow> (int \<times> fs) option" where
  "rename_locked dp_old old_name dp_new new_name s =
     do { (r, s1) \<leftarrow> xv6fs_dirlookup dp_old old_name s;
          (case r of None \<Rightarrow> rename_out dp_old dp_new None False None False (-2) s1
           | Some (ip, off_old) \<Rightarrow>
             do { (r2, s2) \<leftarrow> xv6fs_dirlookup dp_new new_name s1;
                  let ip_new = map_option fst r2;
                  let off_new = (case r2 of Some (_, off) \<Rightarrow> off | None \<Rightarrow> 0);
                  let is_same = (\<lambda>x. case ip_new of Some j \<Rightarrow> i_inum (ino j s2) = i_inum (ino x s2) | None \<Rightarrow> False);
                  (if is_same ip then rename_out dp_old dp_new (Some ip) False ip_new False 0 s2
                   else if i_inum (ino ip s2) = i_inum (ino dp_new s2) then
                     rename_out dp_old dp_new (Some ip) False ip_new False (-22) s2
                   else if is_same dp_old \<or> is_same dp_new then
                     rename_out dp_old dp_new (Some ip) False ip_new False (-39) s2
                   else
                     do { s3 \<leftarrow> xv6fs_ilock ip s2;
                          (c, s4) \<leftarrow> rename_check ip ip_new s3;
                          let out = rename_out dp_old dp_new (Some ip) True ip_new True;
                          (if c \<noteq> 0 then out c s4
                           else do { (e, s5) \<leftarrow> rename_enter dp_new new_name ip ip_new off_new s4;
                                     (if e \<noteq> 0 then out e s5
                                      else do { (rc, s6) \<leftarrow> rename_finish dp_old off_old dp_new ip ip_new s5;
                                                out rc s6 }) }) }) }) }"

definition xv6fs_rename_path :: "u8 list option \<Rightarrow> u8 list option \<Rightarrow> fs \<Rightarrow> (int \<times> fs) option" where
  "xv6fs_rename_path oldpath newpath s =
     (case (oldpath, newpath) of (Some po, Some pn) \<Rightarrow>
        do { (d1, old_name, s1) \<leftarrow> xv6fs_nameiparent po s;
             (case d1 of None \<Rightarrow> Some (-2, s1)
              | Some dp_old \<Rightarrow>
                do { (d2, new_name, s2) \<leftarrow> xv6fs_nameiparent pn s1;
                     (case d2 of None \<Rightarrow> do { s3 \<leftarrow> xv6fs_iput dp_old s2; Some (-2, s3) }
                      | Some dp_new \<Rightarrow>
                        (if g_rename_locked s2 then None
                         else do { s3 \<leftarrow> xv6log_begin_op XV6LOG_OP_FULL (s2\<lparr>g_rename_locked := True\<rparr>);
                                   s4 \<leftarrow> rename_lock dp_old dp_new s3;
                                   rename_locked dp_old old_name dp_new new_name s4 })) }) }
      | _ \<Rightarrow> Some (-14, s))"

section \<open>Directories, attributes, statistics\<close>

definition xv6fs_mkdir_path :: "u8 list \<Rightarrow> u32 \<Rightarrow> fs \<Rightarrow> (int \<times> fs) option" where
  "xv6fs_mkdir_path path mode s =
     do { (d, nm, s1) \<leftarrow> xv6fs_nameiparent path s;
          (case d of None \<Rightarrow> Some (-1, s1)
           | Some dp \<Rightarrow>
             do { s2 \<leftarrow> xv6log_begin_op XV6LOG_OP_SMALL s1;
                  s3 \<leftarrow> xv6fs_ilock dp s2;
                  (a, s4) \<leftarrow> xv6fs_ialloc (i_dev (ino dp s3)) XV6FS_T_DIR s3;
                  (case a of None \<Rightarrow> do { s5 \<leftarrow> leave_dir dp XV6LOG_OP_SMALL s4; Some (-1, s5) }
                   | Some ip \<Rightarrow>
                     do { s5 \<leftarrow> xv6fs_ilock ip s4;
                          s6 \<leftarrow> xv6fs_iupdate ip (iupd ip (\<lambda>x. xv6fs_set_mode mode (x\<lparr>i_nlink := 1\<rparr>)) s5);
                          (_, s7) \<leftarrow> xv6fs_dirlink ip dot (i_inum (ino ip s6)) s6;
                          (_, s8) \<leftarrow> xv6fs_dirlink ip dotdot (i_inum (ino dp s7)) s7;
                          (_, s9) \<leftarrow> xv6fs_dirlink dp nm (i_inum (ino ip s8)) s8;
                          s10 \<leftarrow> xv6fs_iupdate dp (iupd dp (\<lambda>x. x\<lparr>i_nlink := i_nlink x + 1\<rparr>) s9);
                          s11 \<leftarrow> drop_inode ip s10;
                          s12 \<leftarrow> leave_dir dp XV6LOG_OP_SMALL s11;
                          Some (0, s12) }) }) }"

definition xv6fs_touch_path :: "u8 list \<Rightarrow> fs \<Rightarrow> (int \<times> fs) option" where
  "xv6fs_touch_path path s =
     do { (r, s1) \<leftarrow> xv6fs_namei path s;
          (case r of None \<Rightarrow> Some (-1, s1)
           | Some ip \<Rightarrow>
             do { s2 \<leftarrow> xv6log_begin_op XV6LOG_OP_SMALL s1;
                  s3 \<leftarrow> xv6fs_ilock ip s2;
                  s4 \<leftarrow> xv6fs_iupdate ip (iupd ip (\<lambda>x. x\<lparr>i_mtime := xv6fs_now_sec s3\<rparr>) s3);
                  s5 \<leftarrow> leave_dir ip XV6LOG_OP_SMALL s4;
                  Some (0, s5) }) }"

definition xv6fs_chmod_path :: "u8 list \<Rightarrow> u32 \<Rightarrow> fs \<Rightarrow> (int \<times> fs) option" where
  "xv6fs_chmod_path path mode s =
     do { (r, s1) \<leftarrow> xv6fs_namei path s;
          (case r of None \<Rightarrow> Some (-1, s1)
           | Some ip \<Rightarrow>
             do { s2 \<leftarrow> xv6log_begin_op XV6LOG_OP_SMALL s1;
                  s3 \<leftarrow> xv6fs_ilock ip s2;
                  (if i_type (ino ip s3) \<noteq> XV6FS_T_DIR \<and> i_type (ino ip s3) \<noteq> XV6FS_T_FILE then
                     do { s4 \<leftarrow> leave_dir ip XV6LOG_OP_SMALL s3; Some (-1, s4) }
                   else
                     do { s4 \<leftarrow> xv6fs_iupdate ip (iupd ip (xv6fs_set_mode mode) s3);
                          s5 \<leftarrow> leave_dir ip XV6LOG_OP_SMALL s4;
                          Some (0, s5) }) }) }"

record xv6fs_statfs_t =
  sf_bsize :: u64
  sf_blocks :: u64
  sf_bfree :: u64
  sf_files :: u64
  sf_ffree :: u64
  sf_namelen :: u64

definition free_bits :: "block \<Rightarrow> u32 \<Rightarrow> u32 \<Rightarrow> nat" where
  "free_bits d b sz = length (filter (\<lambda>bi. \<not> bm_test d bi) (takeWhile (\<lambda>bi. b + of_nat bi < sz) [0..<XV6FS_BPB]))"

partial_function (option) statfs_blocks :: "u32 \<Rightarrow> nat \<Rightarrow> fs \<Rightarrow> (nat \<times> fs) option" where
  "statfs_blocks b acc s =
     (if b < sb_size (g_sb s) then
        do { (i, s1) \<leftarrow> xv6bread (g_xv6fs_dev s) (XV6FS_BBLOCK b (g_sb s)) s;
             statfs_blocks (b + of_nat XV6FS_BPB) (acc + free_bits (bdata i s1) b (sb_size (g_sb s1))) (xv6brelse i s1) }
      else Some (acc, s))"

definition free_dinodes :: "block \<Rightarrow> u32 \<Rightarrow> u32 \<Rightarrow> nat" where
  "free_dinodes d i lim = length (filter (\<lambda>k. rd16 d (dinode_off (of_nat k)) = 0) [unat i..<unat lim])"

partial_function (option) statfs_inodes :: "u32 \<Rightarrow> nat \<Rightarrow> fs \<Rightarrow> (nat \<times> fs) option" where
  "statfs_inodes i acc s =
     (if i < sb_ninodes (g_sb s) then
        do { (j, s1) \<leftarrow> xv6bread (g_xv6fs_dev s) (XV6FS_IBLOCK i (g_sb s)) s;
             let up = i + of_nat XV6FS_IPB - (i mod of_nat XV6FS_IPB);
             let lim = (if up > sb_ninodes (g_sb s1) then sb_ninodes (g_sb s1) else up);
             statfs_inodes (if i < lim then lim else i) (acc + free_dinodes (bdata j s1) i lim) (xv6brelse j s1) }
      else Some (acc, s))"

definition xv6fs_statfs :: "fs \<Rightarrow> (int \<times> xv6fs_statfs_t option \<times> fs) option" where
  "xv6fs_statfs s =
     (if \<not> xv6fs_is_mounted s then Some (-1, None, s)
      else do { (bf, s1) \<leftarrow> statfs_blocks 0 0 s;
                (nf, s2) \<leftarrow> statfs_inodes 1 0 s1;
                Some (0, Some \<lparr>sf_bsize = of_nat XV6FS_BSIZE, sf_blocks = ucast (sb_size (g_sb s2)), sf_bfree = of_nat bf,
                               sf_files = ucast (sb_ninodes (g_sb s2)), sf_ffree = of_nat nf, sf_namelen = of_nat XV6FS_DIRSIZ\<rparr>, s2) })"

definition xv6fs_sync :: "fs \<Rightarrow> (int \<times> fs) option" where
  "xv6fs_sync s = do { s1 \<leftarrow> xv6log_flush s; Some (0, s1) }"

end
