(* ===== verification/FsRead.thy ===== *)
theory FsRead
  imports FsOps
begin

text \<open>
  Reading files: the mapping of file blocks to disk blocks and the bytes of a file are defined on the
  contents of the blocks, and \<open>bmap_lookup\<close>, \<open>xv6fs_readi\<close> and \<open>xv6fs_dirlookup\<close> are proved to compute them.
\<close>

section \<open>Steps that only move the cache\<close>

definition lsame :: "'a xlog_scheme \<Rightarrow> 'a xlog_scheme \<Rightarrow> bool" where
  "lsame s t \<longleftrightarrow> lstep s t \<and> vw t = vw s \<and> xlog.more t = xlog.more s \<and> lh t = lh s"

lemma lsame_refl [simp]: "log_ok s \<Longrightarrow> lsame s s"
  by (simp add: lsame_def lstep_refl)

lemma lsame_trans [trans]: "lsame s t \<Longrightarrow> lsame t u \<Longrightarrow> lsame s u"
  by (auto simp: lsame_def intro: lstep_trans)

lemma fs_more:
  fixes s t :: fs
  assumes "xlog.more t = xlog.more s"
  shows "g_sb t = g_sb s" "g_xv6fs_dev t = g_xv6fs_dev s" "g_mtime_base t = g_mtime_base s" "itable t = itable s"
    "g_rename_locked t = g_rename_locked s" "g_balloc_hint t = g_balloc_hint s" "now_ms t = now_ms s"
    "g_xv6fs_devname t = g_xv6fs_devname s"
  using assms by (cases s, cases t, simp)+

lemma lsame_fields:
  fixes s t :: fs
  assumes "lsame s t"
  shows "log_ok t" "home t = home s" "lheld t = lheld s" "vw t = vw s" "itable t = itable s" "g_sb t = g_sb s"
    "lg_dev t = lg_dev s" "g_balloc_hint t = g_balloc_hint s" "now_ms t = now_ms s" "g_mtime_base t = g_mtime_base s"
    "g_xv6fs_dev t = g_xv6fs_dev s" "lg_outstanding t = lg_outstanding s" "lh t = lh s"
  using assms lstep_fields [of s t] fs_more [of t s] by (auto simp: lsame_def)

lemma peek_same:
  assumes "log_ok s" and "home s b" and "b \<notin> lheld s" and "card (lheld s) \<le> 4"
  shows "ok (xv6bread (lg_dev s) b s) (\<lambda>(i, t). b_data (bufs t ! i) = vw s b \<and> lsame s (xv6brelse i t))"
  using peek_ok [OF assms] by (rule ok_conseq) (auto simp: lsame_def)

section \<open>The mapping of a file\<close>

definition tbl_entry :: "(u32 \<Rightarrow> block) \<Rightarrow> u32 \<Rightarrow> nat \<Rightarrow> u32" where
  "tbl_entry v a k = (if a = 0 then 0 else rd32 (v a) (4 * k))"

definition bmap_of :: "(u32 \<Rightarrow> block) \<Rightarrow> u32 list \<Rightarrow> nat \<Rightarrow> u32" where
  "bmap_of v as bn =
     (let b1 = bn - 9; b2 = b1 - 256; b3 = b2 - 65536 in
      if bn < 9 then as ! bn
      else if b1 < 256 then tbl_entry v (as ! 9) b1
      else if b2 < 65536 then tbl_entry v (tbl_entry v (as ! 10) (b2 div 256)) (b2 mod 256)
      else tbl_entry v (tbl_entry v (tbl_entry v (as ! 11) (b3 div 65536)) (b3 mod 65536 div 256)) (b3 mod 256))"

text \<open>The indirect blocks of a file.\<close>

definition tables_of :: "(u32 \<Rightarrow> block) \<Rightarrow> u32 list \<Rightarrow> u32 set" where
  "tables_of v as = {as ! 9, as ! 10, as ! 11} \<union> (\<lambda>k. tbl_entry v (as ! 10) k) ` {..<256} \<union>
     (\<lambda>k. tbl_entry v (as ! 11) k) ` {..<256} \<union> (\<lambda>(k, j). tbl_entry v (tbl_entry v (as ! 11) k) j) ` ({..<256} \<times> {..<256})"

definition file_ok :: "fs \<Rightarrow> inode \<Rightarrow> bool" where
  "file_ok s x \<longleftrightarrow> i_dev x = lg_dev s \<and> (\<forall>a \<in> tables_of (vw s) (i_addrs x) \<union> range (bmap_of (vw s) (i_addrs x)). a \<noteq> 0 \<longrightarrow> home s a)"

lemma bmap_table_peek:
  fixes s :: fs
  assumes "log_ok s" and "home s a" and "lheld s = {}" and "a \<noteq> 0"
  shows "ok (bmap_table (lg_dev s) a k False s) (\<lambda>(r, t). r = tbl_entry (vw s) a k \<and> lsame s t)"
proof -
  from peek_same [OF assms(1,2)] assms(3) obtain i t where "xv6bread (lg_dev s) a s = Some (i, t)"
    "b_data (bufs t ! i) = vw s a" "lsame s (xv6brelse i t)" by (auto simp: ok_def)
  then show ?thesis using assms(4) by (simp add: bmap_table_def bdata_def tbl_entry_def Let_def)
qed

lemma bmap_addr_peek: "log_ok s \<Longrightarrow> bmap_addr ip k False s = Some (i_addrs (ino ip s) ! k, s)"
  by (simp add: bmap_addr_def Let_def)

definition lookup_table :: "u32 \<Rightarrow> u32 \<Rightarrow> nat \<Rightarrow> fs \<Rightarrow> (u32 \<times> fs) option" where
  "lookup_table dev a k s = (if a = 0 then Some (0, s) else bmap_table dev a k False s)"

lemma lookup_table_ok:
  fixes s :: fs
  assumes "log_ok s" and "lheld s = {}" and "a \<noteq> 0 \<Longrightarrow> home s a" and "lg_dev s = D"
  shows "ok (lookup_table D a k s) (\<lambda>(r, t). r = tbl_entry (vw s) a k \<and> lsame s t)"
  using bmap_table_peek [OF assms(1) assms(3) assms(2), of k] assms(1,4)
  by (auto simp: lookup_table_def tbl_entry_def)

lemma bmap_lookup_peek:
  assumes "log_ok s"
  shows "bmap_lookup ip bn False s =
    (let D = i_dev (ino ip s); as = i_addrs (ino ip s); n = unat bn; b1 = n - 9; b2 = b1 - 256; b3 = b2 - 65536 in
     if n < 9 then Some (as ! n, s)
     else if b1 < 256 then lookup_table D (as ! 9) b1 s
     else if b2 < 65536 then do { (a2, s2) \<leftarrow> lookup_table D (as ! 10) (b2 div 256) s; lookup_table D a2 (b2 mod 256) s2 }
     else if b3 < 16777216 then
       do { (a2, s2) \<leftarrow> lookup_table D (as ! 11) (b3 div 65536) s;
            (a3, s3) \<leftarrow> lookup_table D a2 (b3 mod 65536 div 256) s2;
            lookup_table D a3 (b3 mod 256) s3 }
     else None)"
  using bmap_addr_peek [OF assms]
  by (auto simp: bmap_lookup_def fs_consts Let_def lookup_table_def intro!: Option.bind_cong)

lemma tables_ofI:
  "as ! 9 \<in> tables_of v as" "as ! 10 \<in> tables_of v as" "as ! 11 \<in> tables_of v as"
  "k < 256 \<Longrightarrow> tbl_entry v (as ! 10) k \<in> tables_of v as" "k < 256 \<Longrightarrow> tbl_entry v (as ! 11) k \<in> tables_of v as"
  "k < 256 \<Longrightarrow> j < 256 \<Longrightarrow> tbl_entry v (tbl_entry v (as ! 11) k) j \<in> tables_of v as"
  by (auto simp: tables_of_def)

lemma file_ok_kept: "lsame s t \<Longrightarrow> file_ok t x = file_ok s x"
  using lsame_fields [of s t] by (simp add: file_ok_def)

lemma lookup_then:
  fixes s :: fs
  assumes "log_ok s" and "lheld s = {}" and "a \<noteq> 0 \<Longrightarrow> home s a" and "lg_dev s = D"
    and "\<And>t. lsame s t \<Longrightarrow> ok (f (tbl_entry (vw s) a k) t) Q"
  shows "ok (do { (r, t) \<leftarrow> lookup_table D a k s; f r t }) Q"
  unfolding ok_bind using lookup_table_ok [OF assms(1-4), of k] by (rule ok_conseq) (use assms(5) in auto)

lemma bmap_lookup_ok:
  assumes lo: "log_ok s" and hl: "lheld s = {}" and fo: "file_ok s (ino ip s)" and n: "unat bn < 4194304"
  shows "ok (bmap_lookup ip bn False s) (\<lambda>(a, t). a = bmap_of (vw s) (i_addrs (ino ip s)) (unat bn) \<and> lsame s t)"
proof -
  let ?D = "lg_dev s" and ?as = "i_addrs (ino ip s)" and ?v = "vw s" and ?n = "unat bn"
  have D: "i_dev (ino ip s) = ?D" using fo by (simp add: file_ok_def)
  have tb: "home s a" if "a \<in> tables_of ?v ?as" "a \<noteq> 0" for a using fo that by (simp add: file_ok_def)
  have lt: "ok (lookup_table ?D a k t) (\<lambda>(r, u). r = tbl_entry ?v a k \<and> lsame s u)"
    if t: "lsame s t" and a: "a \<in> tables_of ?v ?as" for a k t
  proof -
    note F = lsame_fields [OF t]
    have "ok (lookup_table ?D a k t) (\<lambda>(r, u). r = tbl_entry (vw t) a k \<and> lsame t u)"
      using lookup_table_ok [of t a ?D k] F hl tb [OF a] by simp
    then show ?thesis by (rule ok_conseq) (use F t lsame_trans in auto)
  qed
  let ?b1 = "?n - 9" let ?b2 = "?b1 - 256" let ?b3 = "?b2 - 65536"
  consider "?n < 9" | "\<not> ?n < 9" "?b1 < 256" | "\<not> ?n < 9" "\<not> ?b1 < 256" "?b2 < 65536"
    | "\<not> ?n < 9" "\<not> ?b1 < 256" "\<not> ?b2 < 65536" by blast
  then show ?thesis
  proof cases
    case 1
    then show ?thesis using lo by (simp add: bmap_lookup_peek [OF lo] bmap_of_def Let_def)
  next
    case 2
    then show ?thesis
      using lt [OF lsame_refl [OF lo] tables_ofI(1), of ?b1] by (simp add: bmap_lookup_peek [OF lo] bmap_of_def Let_def D)
  next
    case 3
    then have "?b2 div 256 < 256" by simp
    then have "ok (do { (a2, s2) \<leftarrow> lookup_table ?D (?as ! 10) (?b2 div 256) s; lookup_table ?D a2 (?b2 mod 256) s2 })
       (\<lambda>(r, u). r = tbl_entry ?v (tbl_entry ?v (?as ! 10) (?b2 div 256)) (?b2 mod 256) \<and> lsame s u)"
      using lt tables_ofI lo hl tb by (intro lookup_then) (simp_all del: ok_bind)
    then show ?thesis using 3 by (simp add: bmap_lookup_peek [OF lo] bmap_of_def Let_def D del: ok_bind)
  next
    case 4
    have b: "?b3 div 65536 < 256" "?b3 mod 65536 div 256 < 256" using n by (simp_all add: less_mult_imp_div_less)
    have "ok (do { (a2, s2) \<leftarrow> lookup_table ?D (?as ! 11) (?b3 div 65536) s;
        (a3, s3) \<leftarrow> lookup_table ?D a2 (?b3 mod 65536 div 256) s2; lookup_table ?D a3 (?b3 mod 256) s3 })
       (\<lambda>(r, u). r = tbl_entry ?v (tbl_entry ?v (tbl_entry ?v (?as ! 11) (?b3 div 65536)) (?b3 mod 65536 div 256)) (?b3 mod 256) \<and>
          lsame s u)"
    proof (rule lookup_then [OF lo hl])
      fix t assume t: "lsame s t"
      note F = lsame_fields [OF t]
      let ?a2 = "tbl_entry ?v (?as ! 11) (?b3 div 65536)"
      have "ok (do { (a3, s3) \<leftarrow> lookup_table ?D ?a2 (?b3 mod 65536 div 256) t; lookup_table ?D a3 (?b3 mod 256) s3 })
         (\<lambda>(r, u). r = tbl_entry ?v (tbl_entry (vw t) ?a2 (?b3 mod 65536 div 256)) (?b3 mod 256) \<and> lsame s u)"
      proof (rule lookup_then)
        fix u assume "lsame t u"
        then have "lsame s u" using t lsame_trans by blast
        then show "ok (lookup_table ?D (tbl_entry (vw t) ?a2 (?b3 mod 65536 div 256)) (?b3 mod 256) u)
          (\<lambda>(r, u). r = tbl_entry ?v (tbl_entry (vw t) ?a2 (?b3 mod 65536 div 256)) (?b3 mod 256) \<and> lsame s u)"
          using lt tables_ofI(6) [OF b] F(4) by simp
      qed (use F hl tb tables_ofI(5) [OF b(1)] in auto)
      then show "ok (do { (a3, s3) \<leftarrow> lookup_table ?D ?a2 (?b3 mod 65536 div 256) t; lookup_table ?D a3 (?b3 mod 256) s3 })
         (\<lambda>(r, u). r = tbl_entry ?v (tbl_entry ?v ?a2 (?b3 mod 65536 div 256)) (?b3 mod 256) \<and> lsame s u)"
        using F(4) by (simp del: ok_bind)
    qed (use tb tables_ofI(3) in auto)
    then show ?thesis using 4 n by (simp add: bmap_lookup_peek [OF lo] bmap_of_def Let_def D del: ok_bind)
  qed
qed

section \<open>The bytes of a file\<close>

definition file_byte :: "(u32 \<Rightarrow> block) \<Rightarrow> inode \<Rightarrow> nat \<Rightarrow> u8" where
  "file_byte v x p = (let a = bmap_of v (i_addrs x) (p div 1024) in if a = 0 then 0 else v a (p mod 1024))"

definition file_bytes :: "(u32 \<Rightarrow> block) \<Rightarrow> inode \<Rightarrow> nat \<Rightarrow> nat \<Rightarrow> u8 list" where
  "file_bytes v x p n = map (file_byte v x) [p..<p + n]"

lemma file_bytes_simps [simp]: "length (file_bytes v x p n) = n" "file_bytes v x p 0 = []"
  by (simp_all add: file_bytes_def)

lemma file_bytes_nth [simp]: "k < n \<Longrightarrow> file_bytes v x p n ! k = file_byte v x (p + k)"
  by (simp add: file_bytes_def)

lemma file_bytes_append: "file_bytes v x p m @ file_bytes v x (p + m) n = file_bytes v x p (m + n)"
  using upt_add_eq_append [of p "p + m" n] by (simp add: file_bytes_def add.assoc flip: map_append)

lemma unat_1024_minus: "r < 1024 \<Longrightarrow> unat (1024 - of_nat r :: u32) = 1024 - r"
  by (subst unat_sub) (simp_all add: word_le_nat_alt unat_of_nat)

lemma unat_umin: "unat (umin a b) = min (unat a) (unat b)"
  by (simp add: umin_def word_less_nat_alt)

lemma in_block_unat: "unat (in_block left off) = min (unat left) (1024 - unat off mod 1024)"
  using unat_1024_minus [of "unat off mod 1024"] by (simp add: in_block_def unat_umin boff_def XV6FS_BSIZE_def)

lemma bnum_unat: "unat (bnum off) = unat off div 1024"
  by (simp add: bnum_def XV6FS_BSIZE_def unat_div)

lemma same_block:
  fixes p :: nat
  assumes "p mod 1024 + k < 1024"
  shows "(p + k) div 1024 = p div 1024" "(p + k) mod 1024 = p mod 1024 + k"
proof -
  have "(r + k + 1024 * q) div 1024 = q \<and> (r + k + 1024 * q) mod 1024 = r + k" if "r + k < 1024" for r q :: nat
    using that by simp
  from this [OF assms, of "p div 1024"] show "(p + k) div 1024 = p div 1024" "(p + k) mod 1024 = p mod 1024 + k"
    by (simp_all add: add.commute add.left_commute)
qed

lemma block_part:
  assumes "unat off mod 1024 + m \<le> 1024" and "a = bmap_of v (i_addrs x) (unat off div 1024)"
  shows "file_bytes v x (unat off) m = (if a = 0 then replicate m 0 else blk_bytes (v a) (unat off mod 1024) m)"
proof (rule nth_equalityI)
  fix k assume "k < length (file_bytes v x (unat off) m)"
  then have k: "k < m" by simp
  have "(unat off + k) div 1024 = unat off div 1024" "(unat off + k) mod 1024 = unat off mod 1024 + k"
    using k assms(1) same_block [of "unat off" k] by simp_all
  then show "file_bytes v x (unat off) m ! k = (if a = 0 then replicate m 0 else blk_bytes (v a) (unat off mod 1024) m) ! k"
    using k assms(2) by (simp add: file_byte_def blk_bytes_def)
qed (simp add: blk_bytes_def)

lemma lsame_cache:
  fixes s :: "'a xlog_scheme"
  assumes "only_cache s t" and "log_ok s" and "lheld s = {}" and "binv (lg_dev s) (log_data s) (set (lh s)) t"
    and "view (lg_dev s) (log_data s) t = view (lg_dev s) (log_data s) s" and "held (lg_dev s) t = lheld s"
  shows "lsame s t"
proof -
  have k: "lkept s t" by (rule only_cache_log [OF assms(1)])
  have "bkeep s t" unfolding bkeep_def using bptr_held [of "lg_dev s" s] assms(3) by blast
  then show ?thesis
    using lkept_log_ok [OF assms(1,2,4)] k lkept_data [OF k] only_cacheD [OF assms(1)] assms(5,6)
    by (auto simp: lsame_def lstep_def vw_def lkept_def)
qed

lemma lsame_io:
  fixes s :: fs
  shows "log_ok s \<Longrightarrow> lheld s = {} \<Longrightarrow> lsame s (s\<lparr>io_seq := k\<rparr>)"
  by (rule lsame_cache) (auto simp: only_cache_def log_ok_def)

lemma readi_cached_ok:
  assumes "log_ok s" and "lheld s = {}" and "\<forall>k \<in> set ks. home s (a + of_nat k)" and "lg_dev s = D"
  shows "ok (readi_cached D a ks s) (\<lambda>(xs, t). xs = concat (map (\<lambda>k. blk_bytes (vw s (a + of_nat k)) 0 1024) ks) \<and> lsame s t)"
  using assms
proof (induction ks arbitrary: s)
  case (Cons k ks)
  from peek_same [OF Cons.prems(1), of "a + of_nat k"] Cons.prems
  obtain i t where r: "xv6bread D (a + of_nat k) s = Some (i, t)" "b_data (bufs t ! i) = vw s (a + of_nat k)"
    and t: "lsame s (xv6brelse i t)" by (auto simp: ok_def)
  note F = lsame_fields [OF t]
  have "ok (readi_cached D a ks (xv6brelse i t)) (\<lambda>(xs, u). xs = concat (map (\<lambda>k. blk_bytes (vw s (a + of_nat k)) 0 1024) ks) \<and>
      lsame (xv6brelse i t) u)"
    using Cons.IH [of "xv6brelse i t"] Cons.prems F by simp
  then obtain u where u: "readi_cached D a ks (xv6brelse i t) =
      Some (concat (map (\<lambda>k. blk_bytes (vw s (a + of_nat k)) 0 1024) ks), u)" "lsame (xv6brelse i t) u"
    by (auto simp: ok_def)
  have "readi_cached D a (k # ks) s = Some (concat (map (\<lambda>k. blk_bytes (vw s (a + of_nat k)) 0 1024) (k # ks)), u)"
    by (simp add: r(1) u(1)) (simp add: bdata_def r(2) XV6FS_BSIZE_def)
  then show ?case using lsame_trans [OF t u(2)] by (simp del: readi_cached.simps)
qed simp

text \<open>The state in which a file is read: nothing locked, the blocks of the file on the device.\<close>

definition can_read :: "nat \<Rightarrow> fs \<Rightarrow> bool" where
  "can_read ip s \<longleftrightarrow> log_ok s \<and> lheld s = {} \<and> file_ok s (ino ip s)"

lemma can_read_same: "lsame s t \<Longrightarrow> can_read ip s \<Longrightarrow> can_read ip t"
  using lsame_fields [of s t] file_ok_kept [of s t] by (simp add: can_read_def)

abbreviation fmap :: "nat \<Rightarrow> fs \<Rightarrow> nat \<Rightarrow> u32" where
  "fmap ip s bn \<equiv> bmap_of (vw s) (i_addrs (ino ip s)) bn"

lemma can_read_home: "can_read ip s \<Longrightarrow> fmap ip s bn \<noteq> 0 \<Longrightarrow> home s (fmap ip s bn)"
  by (simp add: can_read_def file_ok_def)

lemma bmap_lookup_Some:
  assumes "can_read ip s" and "unat bn < 4194304"
  shows "\<exists>t. bmap_lookup ip bn False s = Some (fmap ip s (unat bn), t) \<and> lsame s t"
  using bmap_lookup_ok [of s ip bn] assms by (auto simp: can_read_def ok_def)

lemma readi_run_ok:
  assumes "can_read ip s" and "unat bn + maxrun \<le> 4194304" and "run \<le> maxrun" and "1 \<le> run"
    and "\<forall>k < run. fmap ip s (unat bn + k) = a + of_nat k"
  shows "ok (readi_run ip bn a maxrun run s) (\<lambda>(r, t). 1 \<le> r \<and> r \<le> maxrun \<and>
    (\<forall>k < r. fmap ip s (unat bn + k) = a + of_nat k) \<and> lsame s t)"
  using assms
proof (induction "maxrun - run" arbitrary: run s)
  case 0
  then show ?case by (subst readi_run.simps) (simp add: can_read_def)
next
  case (Suc d)
  then have lt: "run < maxrun" by simp
  have u: "unat (bn + of_nat run) = unat bn + run" using Suc.prems(2) lt by (simp add: unat_word_ariths unat_of_nat)
  have "ok (bmap_lookup ip (bn + of_nat run) False s) (\<lambda>(x, t). x = fmap ip s (unat (bn + of_nat run)) \<and> lsame s t)"
    using Suc.prems(1,2) lt u by (intro bmap_lookup_ok) (simp_all add: can_read_def)
  then obtain t where r: "bmap_lookup ip (bn + of_nat run) False s = Some (fmap ip s (unat bn + run), t)" and t: "lsame s t"
    unfolding u by (auto simp: ok_def)
  show ?case
  proof (cases "fmap ip s (unat bn + run) = a + of_nat run")
    case True
    have f: "fmap ip t = fmap ip s" using lsame_fields [OF t] by simp
    have "ok (readi_run ip bn a maxrun (run + 1) t) (\<lambda>(r, u). 1 \<le> r \<and> r \<le> maxrun \<and>
      (\<forall>k < r. fmap ip t (unat bn + k) = a + of_nat k) \<and> lsame t u)"
    proof (rule Suc.hyps(1))
      show "\<forall>k < run + 1. fmap ip t (unat bn + k) = a + of_nat k"
        using Suc.prems(5) True by (simp add: f less_Suc_eq)
    qed (use Suc lt can_read_same [OF t] in simp_all)
    then have "ok (readi_run ip bn a maxrun (run + 1) t) (\<lambda>(r, u). 1 \<le> r \<and> r \<le> maxrun \<and>
      (\<forall>k < r. fmap ip s (unat bn + k) = a + of_nat k) \<and> lsame s u)"
      by (rule ok_conseq) (use f t lsame_trans in auto)
    then show ?thesis using lt True by (subst readi_run.simps) (simp add: r)
  next
    case False
    then show ?thesis using lt Suc.prems(3-5) t by (subst readi_run.simps) (simp add: r)
  qed
qed

lemma readi_one_ok:
  assumes "log_ok s" and "lheld s = {}" and "home s a" and "lg_dev s = D"
  shows "ok (readi_one D a p m s) (\<lambda>(xs, t). xs = blk_bytes (vw s a) p m \<and> lsame s t)"
  using peek_same [OF assms(1,3)] assms by (auto simp: readi_one_def bdata_def ok_def)

lemma block_pos: "k < 1024 \<Longrightarrow> (1024 * n + k) div 1024 = n" "k < 1024 \<Longrightarrow> (1024 * n + k) mod 1024 = (k :: nat)"
  by simp_all

lemma run_bytes:
  assumes "\<forall>k < r. fmap ip s (q + k) = a + of_nat k \<and> a + of_nat k \<noteq> 0"
  shows "concat (map (\<lambda>k. blk_bytes (vw s (a + of_nat k)) 0 1024) [0..<r]) = file_bytes (vw s) (ino ip s) (1024 * q) (1024 * r)"
  using assms
proof (induction r)
  case (Suc r)
  let ?v = "vw s" and ?x = "ino ip s"
  have "file_bytes ?v ?x (1024 * (q + r)) 1024 = blk_bytes (?v (a + of_nat r)) 0 1024"
  proof (rule nth_equalityI)
    fix k assume "k < length (file_bytes ?v ?x (1024 * (q + r)) 1024)"
    then have k: "k < 1024" by simp
    note b = block_pos [OF k, of "q + r"]
    show "file_bytes ?v ?x (1024 * (q + r)) 1024 ! k = blk_bytes (?v (a + of_nat r)) 0 1024 ! k"
      using k Suc.prems unfolding file_bytes_nth [OF k] file_byte_def b by (simp add: blk_bytes_def)
  qed (simp add: blk_bytes_def)
  moreover have "file_bytes ?v ?x (1024 * q) (1024 * Suc r) =
      file_bytes ?v ?x (1024 * q) (1024 * r) @ file_bytes ?v ?x (1024 * (q + r)) 1024"
    using file_bytes_append [of ?v ?x "1024 * q" "1024 * r" 1024] by (simp add: algebra_simps)
  ultimately show ?case using Suc by simp
qed simp

lemma home_small: "home s a \<Longrightarrow> unat a < 2 ^ 31"
  by (simp add: home_def)

text \<open>A run of several blocks: read past the cache and entered into it, or taken from the cache.\<close>

definition readi_many :: "u32 \<Rightarrow> u32 \<Rightarrow> nat \<Rightarrow> fs \<Rightarrow> (u8 list \<times> fs) option" where
  "readi_many dev addr run s2 =
     (if \<not> xv6bio_range_cached dev addr run s2 then
        (case xv6bio_read_run addr run (\<lambda>_ _. 0) s2 of (ret, mem, s3) \<Rightarrow>
           if ret = 0 then
             do { s4 \<leftarrow> xv6bio_fill_cache dev addr run mem s3;
                  Some (concat (map (\<lambda>k. blk_bytes (mem k) 0 XV6FS_BSIZE) [0..<run]), s4) }
           else readi_cached dev addr [0..<run] s3)
      else readi_cached dev addr [0..<run] s2)"

lemma readi_many_ok:
  assumes lo: "log_ok s" and hl: "lheld s = {}" and hm: "\<forall>k < run. home s (a + of_nat k)" and D: "lg_dev s = D" and "run < 2 ^ 30"
  shows "ok (readi_many D a run s) (\<lambda>(xs, t). xs = concat (map (\<lambda>k. blk_bytes (vw s (a + of_nat k)) 0 1024) [0..<run]) \<and> lsame s t)"
proof (cases "xv6bio_range_cached D a run s \<or> run = 0")
  case True
  then show ?thesis using readi_cached_ok [OF lo hl, of "[0..<run]" a D] hm D lsame_io [OF lo hl]
    by (cases "run = 0") (auto simp: readi_many_def xv6bio_read_run_def)
next
  case False
  have "unat a < 2 ^ 31" using hm [rule_format, of 0] False home_small [of s a] by simp
  then have small: "unat a + k < 2 ^ 32" if "k < run" for k using that assms(5) by simp
  have dv: "vw s (a + of_nat k) = dsk s (unat a + k)" if k: "k < run" for k
    using range_uncached_view [of D a run s k] False k small [OF k] vw_home [OF lo] hm D by simp
  show ?thesis
  proof (rule read_run_cases [of a run "\<lambda>_ _. 0" s])
    fix j assume r: "xv6bio_read_run a run (\<lambda>_ _. 0) s = (0, \<lambda>k. if k < run then dsk s (unat a + k) else (\<lambda>_. 0), s\<lparr>io_seq := j\<rparr>)"
    let ?m = "\<lambda>k. if k < run then dsk s (unat a + k) else (\<lambda>_. 0)" and ?s = "s\<lparr>io_seq := j\<rparr>"
    have q: "binv D (log_data s) (set (lh s)) s" "card (held D s) + card (set (lh s)) < length (bufs s)"
      using lo hl D wf_blocks_card [of s "lh s"] by (auto simp: log_ok_def wf_log_def)
    have u: "unat (a + of_nat k) = unat a + k" if "k < run" for k
      using small [OF that] by (simp add: unat_word_ariths unat_of_nat)
    have "ok (fill_loop D a ?m [0..<run] ?s) (\<lambda>t. binv D (log_data s) (set (lh s)) t \<and>
        view D (log_data s) t = view D (log_data s) ?s \<and> held D t = held D ?s \<and> only_cache ?s t)"
      by (rule fill_loop_ok) (use q hl D u in auto)
    then obtain t where f: "fill_loop D a ?m [0..<run] ?s = Some t" and t: "binv D (log_data s) (set (lh s)) t"
        "view D (log_data s) t = view D (log_data s) s" "held D t = held D s" "only_cache ?s t"
      by (auto simp: ok_def)
    have "only_cache s t" using only_cache_trans [OF _ t(4), of s] by (simp add: only_cache_def)
    then have same: "lsame s t" using t(1-3) lo hl D by (intro lsame_cache) simp_all
    have bytes: "map (\<lambda>k. blk_bytes (?m k) 0 1024) [0..<run] = map (\<lambda>k. blk_bytes (vw s (a + of_nat k)) 0 1024) [0..<run]"
      using dv by simp
    have "readi_many D a run s = Some (concat (map (\<lambda>k. blk_bytes (?m k) 0 1024) [0..<run]), t)"
      using False by (simp add: readi_many_def r xv6bio_fill_cache_def f XV6FS_BSIZE_def)
    then show ?thesis unfolding bytes using same by simp
  next
    fix m j assume r: "xv6bio_read_run a run (\<lambda>_ _. 0) s = (-1, m, s\<lparr>io_seq := j\<rparr>)"
    note S = lsame_io [OF lo hl, of j]
    note F = lsame_fields [OF S]
    have "ok (readi_cached D a [0..<run] (s\<lparr>io_seq := j\<rparr>)) (\<lambda>(xs, t). xs = concat (map (\<lambda>k. blk_bytes (vw s (a + of_nat k)) 0 1024) [0..<run]) \<and>
        lsame (s\<lparr>io_seq := j\<rparr>) t)"
      using readi_cached_ok [of "s\<lparr>io_seq := j\<rparr>" "[0..<run]" a D] F hl hm D by simp
    then have "ok (readi_cached D a [0..<run] (s\<lparr>io_seq := j\<rparr>)) (\<lambda>(xs, t). xs = concat (map (\<lambda>k. blk_bytes (vw s (a + of_nat k)) 0 1024) [0..<run]) \<and>
        lsame s t)"
      by (rule ok_conseq) (use lsame_trans [OF S] in auto)
    then show ?thesis using False by (simp add: readi_many_def r)
  qed
qed

lemma readi_step_eq:
  "readi_step ip off left s =
     (let dev = i_dev (ino ip s); m = unat (in_block left off) in
      do { (addr, s1) \<leftarrow> bmap_lookup ip (bnum off) False s;
           (if addr = 0 then Some (replicate m 0, s1)
            else if boff off = 0 \<and> left \<ge> of_nat XV6FS_BSIZE then
              do { (run, s2) \<leftarrow> readi_run ip (bnum off) addr (unat left div XV6FS_BSIZE) 1 s1;
                   (if run > 1 then readi_many dev addr run s2 else readi_one dev addr 0 m s2) }
            else readi_one dev addr (boff off) m s1) })"
  by (simp add: readi_step_def readi_many_def Let_def cong: if_cong)

definition delivers :: "nat \<Rightarrow> u32 \<Rightarrow> u32 \<Rightarrow> fs \<Rightarrow> u8 list \<times> fs \<Rightarrow> bool" where
  "delivers ip off left s = (\<lambda>(xs, t). lsame s t \<and> xs \<noteq> [] \<and> length xs \<le> unat left \<and>
     xs = file_bytes (vw s) (ino ip s) (unat off) (length xs))"

lemma delivers_part:
  assumes "lsame s t" and "left \<noteq> 0" and "a = fmap ip s (unat off div 1024)" and "m = unat (in_block left off)"
    and "xs = (if a = 0 then replicate m 0 else blk_bytes (vw s a) (unat off mod 1024) m)"
  shows "delivers ip off left s (xs, t)"
proof -
  have m: "m = min (unat left) (1024 - unat off mod 1024)" using assms(4) by (simp add: in_block_unat)
  have "unat left > 0" using assms(2) by (simp add: unat_gt_0)
  moreover have "unat off mod 1024 < 1024" by simp
  ultimately have b: "0 < m" "m \<le> unat left" "unat off mod 1024 + m \<le> 1024" using m by linarith+
  have x: "xs = file_bytes (vw s) (ino ip s) (unat off) m" unfolding assms(5) by (rule block_part [OF b(3) assms(3), symmetric])
  then have l: "length xs = m" by simp
  then have "xs \<noteq> []" using b(1) by auto
  then show ?thesis using assms(1) x l b(2) by (simp add: delivers_def)
qed

lemma readi_part_ok:
  assumes cr: "can_read ip s" and "left \<noteq> 0" and u: "lsame s u" and a: "fmap ip s (unat off div 1024) \<noteq> 0"
  shows "ok (readi_one (i_dev (ino ip s)) (fmap ip s (unat off div 1024)) (boff off) (unat (in_block left off)) u)
    (delivers ip off left s)"
proof -
  let ?a = "fmap ip s (unat off div 1024)" and ?m = "unat (in_block left off)"
  note U = lsame_fields [OF u]
  have "ok (readi_one (i_dev (ino ip s)) ?a (boff off) ?m u) (\<lambda>(xs, w). xs = blk_bytes (vw u ?a) (boff off) ?m \<and> lsame u w)"
    using U cr can_read_home [OF cr a] by (intro readi_one_ok) (simp_all add: can_read_def file_ok_def)
  then obtain w where r: "readi_one (i_dev (ino ip s)) ?a (boff off) ?m u = Some (blk_bytes (vw s ?a) (boff off) ?m, w)"
    and w: "lsame u w" unfolding U(4) by (auto simp: ok_def)
  have "delivers ip off left s (blk_bytes (vw s ?a) (boff off) ?m, w)"
    by (rule delivers_part [OF lsame_trans [OF u w] assms(2) refl refl]) (simp add: a boff_def XV6FS_BSIZE_def)
  then show ?thesis by (simp add: r)
qed

lemma readi_many_part:
  assumes cr: "can_read ip s" and u: "lsame s u" and "unat off mod 1024 = 0" and run: "1 < run" "1024 * run \<le> unat left"
    and a: "a \<noteq> 0" and m: "\<forall>k < run. fmap ip s (unat off div 1024 + k) = a + of_nat k"
  shows "ok (readi_many (i_dev (ino ip s)) a run u) (delivers ip off left s)"
proof -
  let ?D = "i_dev (ino ip s)" and ?q = "unat off div 1024"
  note U = lsame_fields [OF u]
  have off: "1024 * ?q = unat off" using mult_div_mod_eq [of 1024 "unat off"] assms(3) by simp
  have "unat left < 2 ^ 32" by (rule unat_less_32)
  then have r30: "run < 2 ^ 23" using run(2) by simp
  have "home s a" using can_read_home [OF cr, of ?q] m [rule_format, of 0] run(1) a by simp
  then have "unat (a + of_nat k) = unat a + k" if "k < run" for k
    using that r30 home_small [of s a] by (simp add: unat_word_ariths unat_of_nat)
  then have nz: "a + of_nat k \<noteq> 0" if "k < run" for k using that a by (metis add_is_0 unat_0 unat_eq_zero)
  have hm: "\<forall>k < run. home u (a + of_nat k)" using m nz can_read_home [OF cr] U(2) by metis
  have "ok (readi_many ?D a run u) (\<lambda>(xs, t). xs = concat (map (\<lambda>k. blk_bytes (vw u (a + of_nat k)) 0 1024) [0..<run]) \<and> lsame u t)"
    using U cr hm r30 by (intro readi_many_ok) (simp_all add: can_read_def file_ok_def)
  moreover have "concat (map (\<lambda>k. blk_bytes (vw s (a + of_nat k)) 0 1024) [0..<run]) =
      file_bytes (vw s) (ino ip s) (unat off) (1024 * run)"
    using run_bytes [where r = run and ip = ip and s = s and q = ?q and a = a] m nz off by simp
  ultimately obtain t where "readi_many ?D a run u = Some (file_bytes (vw s) (ino ip s) (unat off) (1024 * run), t)" "lsame u t"
    unfolding U(4) by (auto simp: ok_def)
  moreover have "file_bytes (vw s) (ino ip s) (unat off) (1024 * run) \<noteq> []" using run(1) by (simp add: file_bytes_def)
  ultimately show ?thesis using run lsame_trans [OF u] by (simp add: delivers_def)
qed

lemma readi_step_ok:
  assumes cr: "can_read ip s" and l0: "left \<noteq> 0" and fit: "unat off + unat left < 2 ^ 32"
  shows "ok (readi_step ip off left s) (delivers ip off left s)"
proof -
  let ?D = "i_dev (ino ip s)" and ?m = "unat (in_block left off)" and ?q = "unat off div 1024"
  have q: "?q < 4194304" by (rule div_1024_less)
  obtain t where r: "bmap_lookup ip (bnum off) False s = Some (fmap ip s ?q, t)" and t: "lsame s t"
    using bmap_lookup_Some [OF cr, of "bnum off"] q unfolding bnum_unat by blast
  let ?a = "fmap ip s ?q" and ?R = "unat left div 1024"
  note F = lsame_fields [OF t]
  consider "?a = 0" | "?a \<noteq> 0" "\<not> (boff off = 0 \<and> left \<ge> of_nat XV6FS_BSIZE)" | "?a \<noteq> 0" "boff off = 0" "left \<ge> of_nat XV6FS_BSIZE"
    by blast
  then show ?thesis
  proof cases
    case 1
    have "delivers ip off left s (replicate ?m 0, t)" by (rule delivers_part [OF t l0 refl refl]) (simp add: 1)
    then show ?thesis using 1 r by (simp add: readi_step_eq Let_def)
  next
    case 2
    then show ?thesis unfolding readi_step_eq Let_def r bind.simps prod.case
      using readi_part_ok [OF cr l0 t 2(1)] by (simp only: if_False)
  next
    case 3
    have z: "unat off mod 1024 = 0" "1024 \<le> unat left" using 3(2,3) by (simp_all add: boff_def XV6FS_BSIZE_def word_le_nat_alt)
    have "ok (readi_run ip (bnum off) ?a ?R 1 t) (\<lambda>(n, u). 1 \<le> n \<and> n \<le> ?R \<and>
        (\<forall>k < n. fmap ip t (unat (bnum off) + k) = ?a + of_nat k) \<and> lsame t u)"
      using can_read_same [OF t cr] fit z F(4,5) by (intro readi_run_ok) (simp_all add: bnum_unat)
    then obtain n u where rr: "readi_run ip (bnum off) ?a ?R 1 t = Some (n, u)" and n: "1 \<le> n" "n \<le> ?R"
        "\<forall>k < n. fmap ip s (?q + k) = ?a + of_nat k" and u: "lsame s u"
      using F(4,5) lsame_trans [OF t] by (auto simp: ok_def bnum_unat)
    have "1024 * n \<le> unat left" using n(2) by simp
    then have "ok (if n > 1 then readi_many ?D ?a n u else readi_one ?D ?a 0 ?m u) (delivers ip off left s)"
      using readi_many_part [OF cr u z(1) _ _ 3(1) n(3)] readi_part_ok [OF cr l0 u 3(1)] 3(2) by simp
    then show ?thesis unfolding readi_step_eq Let_def r bind.simps prod.case using 3 rr by (simp add: XV6FS_BSIZE_def)
  qed
qed

lemma readi_loop_ok:
  assumes "can_read ip s" and "unat off + unat left < 2 ^ 32"
  shows "\<exists>t. readi_loop ip off left s = Some (file_bytes (vw s) (ino ip s) (unat off) (unat left), t) \<and> lsame s t"
  using assms
proof (induction "unat left" arbitrary: off left s rule: less_induct)
  case less
  show ?case
  proof (cases "left = 0")
    case True
    then show ?thesis using less.prems(1) by (subst readi_loop.simps) (simp add: can_read_def)
  next
    case False
    from readi_step_ok [OF less.prems(1) False less.prems(2)] obtain xs t
      where r: "readi_step ip off left s = Some (xs, t)" and t: "lsame s t" and n: "xs \<noteq> []" "length xs \<le> unat left"
        and xs: "xs = file_bytes (vw s) (ino ip s) (unat off) (length xs)"
      by (auto simp: ok_def delivers_def)
    let ?n = "length xs" and ?off = "off + of_nat (length xs)" and ?left = "left - of_nat (length xs)"
    have lt: "?n < 2 ^ 32" using n(2) unat_less_32 [of left] by linarith
    have le: "of_nat ?n \<le> left" using n(2) lt by (simp add: word_le_nat_alt unat_of_nat)
    have u: "unat ?left = unat left - ?n" using le lt by (simp add: unat_sub unat_of_nat)
    have w: "unat ?off = unat off + ?n" using less.prems(2) n(2) lt by (simp add: unat_word_ariths unat_of_nat)
    note F = lsame_fields [OF t]
    have "unat ?left < unat left" using u n by (cases xs) simp_all
    moreover have "unat ?off + unat ?left < 2 ^ 32" using u w n(2) less.prems(2) by simp
    ultimately obtain s2 where r2: "readi_loop ip ?off ?left t = Some (file_bytes (vw s) (ino ip s) (unat off + ?n) (unat left - ?n), s2)"
      and s2: "lsame t s2"
      using less.hyps [of ?left t ?off] can_read_same [OF t less.prems(1)] F(4,5) u w by auto
    have "xs @ file_bytes (vw s) (ino ip s) (unat off + ?n) (unat left - ?n) = file_bytes (vw s) (ino ip s) (unat off) (unat left)"
      using file_bytes_append [of "vw s" "ino ip s" "unat off" ?n "unat left - ?n"] xs n(2) by simp
    then have "readi_loop ip off left s = Some (file_bytes (vw s) (ino ip s) (unat off) (unat left), s2)"
      using False by (subst readi_loop.simps) (simp add: r r2)
    then show ?thesis using lsame_trans [OF t s2] by blast
  qed
qed

text \<open>The number of bytes that a read of \<open>n\<close> bytes at \<open>off\<close> delivers.\<close>

definition read_len :: "u32 \<Rightarrow> u32 \<Rightarrow> u32 \<Rightarrow> nat" where
  "read_len sz off n = (if off > sz \<or> unat off + unat n \<ge> 2 ^ 32 then 0 else min (unat n) (unat sz - unat off))"

lemma wrap_add: "off + n < off \<longleftrightarrow> unat off + unat n \<ge> 2 ^ 32" for off n :: u32
proof (cases "unat off + unat n < 2 ^ 32")
  case True
  then have "unat (off + n) = unat off + unat n" by (simp add: unat_word_ariths)
  then show ?thesis using True by (simp add: word_less_nat_alt)
next
  case False
  have "(unat off + unat n) mod 2 ^ 32 < unat off"
    using False unat_less_32 [of n] unat_less_32 [of off] by (simp add: mod_if) linarith
  then show ?thesis using False by (simp add: word_less_nat_alt unat_word_ariths)
qed

lemma readi_ok:
  assumes "can_read ip s"
  shows "\<exists>t. xv6fs_readi ip off n s =
    Some (file_bytes (vw s) (ino ip s) (unat off) (read_len (i_size (ino ip s)) off n), t) \<and> lsame s t"
proof (cases "off > i_size (ino ip s) \<or> off + n < off")
  case True
  then have "read_len (i_size (ino ip s)) off n = 0" by (simp add: read_len_def wrap_add)
  then show ?thesis using True assms by (simp add: xv6fs_readi_def Let_def can_read_def)
next
  case False
  let ?sz = "i_size (ino ip s)" let ?left = "if off + n > ?sz then ?sz - off else n"
  have nw: "unat off + unat n < 2 ^ 32" and le: "unat off \<le> unat ?sz"
    using False wrap_add [of off n] by (auto simp: word_le_nat_alt not_less)
  have "unat (off + n) = unat off + unat n" using nw by (simp add: unat_word_ariths)
  then have "off + n > ?sz \<longleftrightarrow> unat ?sz < unat off + unat n" by (simp add: word_less_nat_alt)
  moreover have "unat (?sz - off) = unat ?sz - unat off" using le by (simp add: unat_sub word_le_nat_alt)
  ultimately have u: "unat ?left = read_len ?sz off n"
    using False nw le by (cases "off + n > ?sz") (simp_all add: read_len_def)
  have "read_len ?sz off n \<le> unat n" by (simp add: read_len_def)
  then have "unat off + unat ?left < 2 ^ 32" unfolding u using nw by simp
  from readi_loop_ok [OF assms this] show ?thesis using False unfolding u by (simp add: xv6fs_readi_def Let_def)
qed


section \<open>Directory lookup\<close>

definition dir_entry :: "(u32 \<Rightarrow> block) \<Rightarrow> inode \<Rightarrow> nat \<Rightarrow> u8 list" where
  "dir_entry v x k = file_bytes v x (64 * k) 64"

definition entry_named :: "u8 list \<Rightarrow> u8 list \<Rightarrow> bool" where
  "entry_named nm de \<longleftrightarrow> de_inum de \<noteq> 0 \<and> namecmp nm (de_name de)"

definition dir_off :: "nat \<Rightarrow> u32" where
  "dir_off k = of_nat (64 * k)"

text \<open>The result of a search that ends at entry \<open>k\<close>.\<close>

definition found_entry :: "nat \<Rightarrow> nat option \<Rightarrow> u8 list \<Rightarrow> fs \<Rightarrow> ((nat \<times> u32) option \<times> fs) option" where
  "found_entry dp r de t =
     (case r of None \<Rightarrow> Some (None, t)
      | Some k \<Rightarrow> do { (ip, u) \<leftarrow> xv6fs_iget (i_dev (ino dp t)) (ucast (de_inum de)) t; Some (Some (ip, dir_off k), u) })"

lemma dir_off_simps:
  assumes "64 * k < unat sz" and "unat sz \<le> 2 ^ 32 - 64" and "64 dvd unat sz"
  shows "unat (dir_off k) = 64 * k" "dir_off k < sz" "dir_off k + 64 = dir_off (Suc k)" "read_len sz (dir_off k) 64 = 64"
proof -
  show u: "unat (dir_off k) = 64 * k" using assms(1,2) by (simp add: dir_off_def unat_of_nat del: of_nat_mult)
  then show "dir_off k < sz" using assms(1) by (simp add: word_less_nat_alt)
  show "dir_off k + 64 = dir_off (Suc k)" by (simp add: dir_off_def)
  have "64 * k + 64 \<le> unat sz" using assms(1,3) by (auto elim!: dvdE)
  then show "read_len sz (dir_off k) 64 = 64"
    using u assms(1,2) by (simp add: read_len_def word_less_nat_alt)
qed

definition first_entry :: "u8 list \<Rightarrow> (nat \<Rightarrow> u8 list) \<Rightarrow> nat \<Rightarrow> nat \<Rightarrow> nat option" where
  "first_entry nm e k n = find (\<lambda>j. entry_named nm (e j)) [k..<n]"

lemma first_entry_step:
  assumes "k < n"
  shows "first_entry nm e k n = (if entry_named nm (e k) then Some k else first_entry nm e (Suc k) n)"
  using upt_conv_Cons [OF assms] by (simp add: first_entry_def)

lemma dirlookup_loop_ok:
  assumes "can_read dp s" and "unat (i_size (ino dp s)) \<le> 2 ^ 32 - 64" and "64 dvd unat (i_size (ino dp s))"
    and "n = unat (i_size (ino dp s)) div 64" and "k \<le> n" and "e = dir_entry (vw s) (ino dp s)"
  shows "\<exists>t. lsame s t \<and> dirlookup_loop dp nm (dir_off k) s = found_entry dp (first_entry nm e k n) (e (the (first_entry nm e k n))) t"
  using assms
proof (induction "n - k" arbitrary: k s)
  case 0
  then have k: "k = n" by simp
  then have "dir_off k = i_size (ino dp s)" using 0 by (simp add: dir_off_def dvd_mult_div_cancel del: of_nat_mult)
  then have "dirlookup_loop dp nm (dir_off k) s = Some (None, s)" by (subst dirlookup_loop.simps) simp
  then show ?case using 0 k by (auto simp: found_entry_def can_read_def first_entry_def)
next
  case (Suc d)
  let ?sz = "i_size (ino dp s)"
  have kn: "k < n" and d: "d = n - Suc k" using Suc.hyps(2) by simp_all
  then have lt: "64 * k < unat ?sz" using Suc.prems(3,4) by (auto elim!: dvdE)
  note o = dir_off_simps [OF lt Suc.prems(2,3)]
  from readi_ok [OF Suc.prems(1), of "dir_off k" 64] obtain t
    where r: "xv6fs_readi dp (dir_off k) 64 s = Some (e k, t)" and t: "lsame s t"
    unfolding o(1,4) Suc.prems(6) dir_entry_def by blast
  note F = lsame_fields [OF t]
  have len: "length (e k) = 64" by (simp add: Suc.prems(6) dir_entry_def)
  show ?case
  proof (cases "entry_named nm (e k)")
    case True
    have "dirlookup_loop dp nm (dir_off k) s = found_entry dp (Some k) (e k) t"
      using True o(2) by (subst dirlookup_loop.simps) (simp add: r len entry_named_def found_entry_def)
    then show ?thesis using t True first_entry_step [OF kn] by auto
  next
    case False
    have "\<exists>u. lsame t u \<and> dirlookup_loop dp nm (dir_off (Suc k)) t =
        found_entry dp (first_entry nm e (Suc k) n) (e (the (first_entry nm e (Suc k) n))) u"
      by (rule Suc.hyps(1) [OF d can_read_same [OF t Suc.prems(1)]]) (use Suc.prems kn F(4,5) in auto)
    then obtain u where u: "lsame t u" and e: "dirlookup_loop dp nm (dir_off (Suc k)) t =
        found_entry dp (first_entry nm e (Suc k) n) (e (the (first_entry nm e (Suc k) n))) u" by blast
    have "dirlookup_loop dp nm (dir_off k) s = dirlookup_loop dp nm (dir_off (Suc k)) t"
      using False o(2,3) by (subst dirlookup_loop.simps) (auto simp: r len entry_named_def)
    then show ?thesis using e lsame_trans [OF t u] False first_entry_step [OF kn] by auto
  qed
qed

text \<open>C12. \<open>xv6fs_dirlookup\<close> finds a name exactly if the directory has it: it returns the inode of the first entry
  in use whose name matches in all 62 bytes, with the offset of that entry, and nothing if there is none.\<close>

theorem dirlookup_correct:
  assumes "can_read dp s" and "i_type (ino dp s) = XV6FS_T_DIR"
    and "unat (i_size (ino dp s)) \<le> 2 ^ 32 - 64" and "64 dvd unat (i_size (ino dp s))"
  shows "\<exists>t. vw t = vw s \<and> itable t = itable s \<and> xv6fs_dirlookup dp nm s =
    (case find (\<lambda>k. entry_named nm (dir_entry (vw s) (ino dp s) k)) [0..<unat (i_size (ino dp s)) div 64] of
       None \<Rightarrow> Some (None, t)
     | Some k \<Rightarrow> do { (ip, u) \<leftarrow> xv6fs_iget (i_dev (ino dp s)) (ucast (de_inum (dir_entry (vw s) (ino dp s) k))) t;
                      Some (Some (ip, dir_off k), u) })"
proof -
  from dirlookup_loop_ok [OF assms(1,3,4) refl _ refl, of 0 nm] obtain t where t: "lsame s t"
    and e: "dirlookup_loop dp nm (dir_off 0) s =
      found_entry dp (first_entry nm (dir_entry (vw s) (ino dp s)) 0 (unat (i_size (ino dp s)) div 64))
        (dir_entry (vw s) (ino dp s) (the (first_entry nm (dir_entry (vw s) (ino dp s)) 0 (unat (i_size (ino dp s)) div 64)))) t"
    by blast
  have "xv6fs_dirlookup dp nm s = dirlookup_loop dp nm (dir_off 0) s"
    using assms(2) by (simp add: xv6fs_dirlookup_def dir_off_def)
  then show ?thesis using e t lsame_fields(4,5) [OF t]
    by (intro exI [of _ t]) (auto simp: found_entry_def first_entry_def split: option.split)
qed

section \<open>An example\<close>

text \<open>A mounted disk of 1000 blocks, log at block 2: a file of 2000 bytes with one data block, 300, and a hole, and
  a directory with one entry, \<open>a\<close> for inode 7, in block 301.\<close>

definition ex_disk :: "nat \<Rightarrow> block" where
  "ex_disk b i = (if b = 300 then of_nat i else if b = 301 \<and> i = 0 then 7 else if b = 301 \<and> i = 2 then 97 else 0)"

definition ex_inode :: inode where
  "ex_inode = \<lparr>i_dev = 1, i_inum = 5, i_ref = 1, i_locked = True, i_valid = True, i_type = XV6FS_T_FILE, i_major = 0, i_minor = 0,
     i_nlink = 1, i_size = 2000, i_mtime = 0, i_addrs = 300 # replicate 11 0\<rparr>"

definition ex_dir :: inode where
  "ex_dir = ex_inode\<lparr>i_inum := 1, i_type := XV6FS_T_DIR, i_size := 64, i_addrs := 301 # replicate 11 0\<rparr>"

definition fs_ex :: fs where
  "fs_ex = \<lparr>sdev = Some \<lparr>block_count = 2000, read_only = False, has_write = True\<rparr>, dsk = ex_disk,
     io_fault = (\<lambda>_ _. None), io_seq = 0, wtrace = [],
     bufs = replicate 140 \<lparr>b_valid = True, b_dev = 0, b_blockno = 0, b_locked = True, b_refcnt = 7, b_data = (\<lambda>_. 0)\<rparr>,
     lru = [], htab = (\<lambda>_. []), lg_start = 2, lg_outstanding = 0, lg_reserved = 0, lg_committing = False, lg_dev = 1,
     lh = [], g_stage = None, g_stage_valid = False, g_commits = 0, g_log_blocks = 0, g_install_runs = 0,
     g_sb = \<lparr>sb_magic = XV6FS_FSMAGIC, sb_size = 1000, sb_nblocks = 800, sb_ninodes = 160, sb_nlog = 127, sb_logstart = 2,
       sb_inodestart = 130, sb_bmapstart = 140, sb_mtime_base = 0\<rparr>,
     g_xv6fs_dev = 1, g_xv6fs_devname = [118], g_mtime_base = 0,
     itable = [ex_inode, ex_dir, ex_inode\<lparr>i_ref := 0\<rparr>], g_rename_locked = False, g_balloc_hint = 0, now_ms = 5000\<rparr>"

definition fs_ex1 :: fs where
  "fs_ex1 = the (mounts fs_ex fs_ex None)"

lemma fs_ex1_ok:
  "log_inv fs_ex1" "lh fs_ex1 = []" "lg_dev fs_ex1 = 1" "itable fs_ex1 = [ex_inode, ex_dir, ex_inode\<lparr>i_ref := 0\<rparr>]"
  "home fs_ex1 = home fs_ex" "home fs_ex b \<Longrightarrow> vw fs_ex1 b = ex_disk (unat b)" "g_sb fs_ex1 = g_sb fs_ex"
  "lg_outstanding fs_ex1 = 0" "lg_reserved fs_ex1 = 0" "\<not> lg_committing fs_ex1" "g_balloc_hint fs_ex1 = 0" "lg_start fs_ex1 = 2"
  "sdev fs_ex1 = sdev fs_ex"
proof -
  have st: "unat (lg_start fs_ex) = 2" by (simp add: fs_ex_def)
  have d2: "ex_disk 2 = (\<lambda>_. 0)" by (simp add: ex_disk_def fun_eq_iff)
  have wf: "wf_log fs_ex" by (simp add: wf_log_def singles_ok_def on_dev_def fs_ex_def)
  have gd: "good_disk fs_ex ex_disk"
    unfolding good_disk_def st d2 by (rule exI [of _ "[]"]) (simp add: hdr_zero wf_blocks_def)
  have bt: "boots fs_ex ex_disk fs_ex" by (simp add: boots_def fs_ex_def)
  from mount_ok [OF bt wf gd, of None] obtain u where r: "mounts fs_ex fs_ex None = Some u"
    and u: "remounted fs_ex ex_disk fs_ex u" by (auto simp: ok_def)
  have e: "fs_ex1 = u" by (simp add: fs_ex1_def r)
  have m: "xlog.more u = xlog.more fs_ex" using u by (simp add: remounted_def)
  show f: "log_inv fs_ex1" "lh fs_ex1 = []" "lg_dev fs_ex1 = 1" "lg_outstanding fs_ex1 = 0" "lg_reserved fs_ex1 = 0"
    "\<not> lg_committing fs_ex1" "lg_start fs_ex1 = 2" "sdev fs_ex1 = sdev fs_ex"
    unfolding e using u by (simp_all add: remounted_def fs_ex_def)
  show "itable fs_ex1 = [ex_inode, ex_dir, ex_inode\<lparr>i_ref := 0\<rparr>]" "g_sb fs_ex1 = g_sb fs_ex" "g_balloc_hint fs_ex1 = 0"
    unfolding e using fs_more [OF m] by (simp_all add: fs_ex_def)
  show h: "home fs_ex1 = home fs_ex"
    unfolding e using u by (simp add: remounted_def home_def on_dev_def fun_eq_iff)
  show "vw fs_ex1 b = ex_disk (unat b)" if "home fs_ex b"
  proof -
    have "view (lg_dev fs_ex) {} u b = replay 2 ex_disk (unat b)" using u that st by (simp add: remounted_def)
    also have "\<dots> = ex_disk (unat b)" using replay_empty [of ex_disk 2] d2 hdr_zero by simp
    finally show ?thesis using vw_home [of fs_ex1 b] f(1,3) that h e by (simp add: log_inv_iff fs_ex_def)
  qed
qed

lemma fs_ex_home: "unat b < 1000 \<Longrightarrow> 128 < unat b \<Longrightarrow> home fs_ex b"
  by (simp add: home_def on_dev_def fs_ex_def)

lemma ex_tables: "as = a # replicate 11 0 \<Longrightarrow> tables_of v as = {0}" "as = a # replicate 11 0 \<Longrightarrow> bmap_of v as n = (if n = 0 then a else 0)"
proof -
  have z: "(a # replicate 11 0) ! k = (0 :: u32)" if "0 < k" "k < 12" for k
    using that by (cases k) (simp_all add: nth_replicate)
  then show "as = a # replicate 11 0 \<Longrightarrow> tables_of v as = {0}" by (auto simp: tables_of_def tbl_entry_def)
  show "as = a # replicate 11 0 \<Longrightarrow> bmap_of v as n = (if n = 0 then a else 0)"
    using z by (auto simp: bmap_of_def tbl_entry_def Let_def)
qed

lemma fs_ex1_reads: "can_read 0 fs_ex1" "can_read 1 fs_ex1"
proof -
  have h: "home fs_ex 300" "home fs_ex 301" by (simp_all add: fs_ex_home)
  have "file_ok fs_ex1 ex_inode" "file_ok fs_ex1 ex_dir"
    using h by (auto simp: file_ok_def fs_ex1_ok ex_inode_def ex_dir_def ex_tables)
  then show "can_read 0 fs_ex1" "can_read 1 fs_ex1"
    using fs_ex1_ok(1) by (simp_all add: can_read_def log_inv_iff fs_ex1_ok(4))
qed


theorem dirlookup_correct_witness: "\<exists>t. xv6fs_dirlookup 1 [98] fs_ex1 = Some (None, t) \<and> vw t = vw fs_ex1"
proof -
  have v: "vw fs_ex1 301 = ex_disk 301" using fs_ex1_ok(6) [of 301] fs_ex_home [of 301] by simp
  have "file_byte (vw fs_ex1) ex_dir 2 = 97"
    using v by (simp add: file_byte_def ex_dir_def ex_tables Let_def ex_disk_def)
  then have "\<not> entry_named [98] (dir_entry (vw fs_ex1) ex_dir 0)"
    by (simp add: entry_named_def dir_entry_def namecmp_def XV6FS_DIRSIZ_def de_name_def cbyte_def numeral_eq_Suc)
  then show ?thesis
    using dirlookup_correct [OF fs_ex1_reads(2), of "[98]"] by (simp add: fs_ex1_ok(4)) (auto simp: ex_dir_def ex_inode_def)
qed

end
