(* ===== verification/Pmm.thy ===== *)
theory Pmm
  imports Prelude
begin

text \<open>
  The physical page allocator shared by the three architectures, \<open>kernel/pmm_core.c\<close>: a bitmap
  (bit set = page in use), a 16-bit reference count per page, a next-fit search that falls back to
  the front of memory, and the counted \<open>pmm_alloc\<close>/\<open>pmm_free\<close>/\<open>pmm_incref\<close> on top of the
  uncounted \<open>claim\<close>/\<open>release\<close>. The single spinlock \<open>g_pmm_lock\<close> brackets every operation, so
  each operation is one atomic function of the state. Page numbers and physical addresses are
  natural numbers; the places where the 64-bit arithmetic of the source can wrap use \<open>add64\<close>
  and \<open>sub64\<close>. The two arrays live in memory that the architecture hands over; they are
  functions of the index.
\<close>

unbundle bit_operations_syntax

section \<open>State\<close>

definition PAGE_SIZE :: nat where
  "PAGE_SIZE = 4096"

definition PMM_BIG_PAGES :: nat where
  "PMM_BIG_PAGES = 16"

record pmm =
  g_base_pa :: nat
  g_pages :: nat
  g_used :: nat
  g_bitmap_pa :: nat
  g_refcount_pa :: nat
  g_next_page :: nat
  g_bm_ptr :: nat
  g_rc_ptr :: nat
  g_bm :: "nat \<Rightarrow> u8"
  g_rc :: "nat \<Rightarrow> u16"
  g_scan_pages :: nat
  g_claim_calls :: nat
  g_claim_wrap :: nat

record pmm_core_scan_stat =
  calls :: nat
  scanned :: nat
  wraps :: nat
  next_page :: nat

section \<open>Bitmap and setup\<close>

text \<open>\<open>arch_pmm_meta_ptr\<close> turns the physical address of the metadata into a pointer that can be
  used now; it is provided by each architecture and is a parameter here.\<close>

definition pmm_bind_locked :: "(nat \<Rightarrow> nat) \<Rightarrow> pmm \<Rightarrow> pmm" where
  "pmm_bind_locked arch_pmm_meta_ptr s =
     s\<lparr>g_bm_ptr := arch_pmm_meta_ptr (g_bitmap_pa s), g_rc_ptr := arch_pmm_meta_ptr (g_refcount_pa s)\<rparr>"

definition pmm_core_rebind :: "(nat \<Rightarrow> nat) \<Rightarrow> pmm \<Rightarrow> pmm" where
  "pmm_core_rebind arch_pmm_meta_ptr s = pmm_bind_locked arch_pmm_meta_ptr s"

definition pmm_set :: "nat \<Rightarrow> pmm \<Rightarrow> pmm" where
  "pmm_set page s =
     s\<lparr>g_bm := (g_bm s)(page div 8 := g_bm s (page div 8) OR push_bit (page mod 8) 1)\<rparr>"

definition pmm_clear :: "nat \<Rightarrow> pmm \<Rightarrow> pmm" where
  "pmm_clear page s =
     s\<lparr>g_bm := (g_bm s)(page div 8 := g_bm s (page div 8) AND NOT (push_bit (page mod 8) 1))\<rparr>"

definition pmm_test :: "pmm \<Rightarrow> nat \<Rightarrow> bool" where
  "pmm_test s page \<longleftrightarrow> drop_bit (page mod 8) (g_bm s (page div 8)) AND 1 \<noteq> 0"

definition pmm_page_of :: "pmm \<Rightarrow> nat \<Rightarrow> nat option" where
  "pmm_page_of s pa =
     (if pa < g_base_pa s then None
      else let page = (pa - g_base_pa s) div PAGE_SIZE
           in if page < g_pages s then Some page else None)"

definition pmm_core_setup :: "(nat \<Rightarrow> nat) \<Rightarrow> nat \<Rightarrow> nat \<Rightarrow> nat \<Rightarrow> nat \<Rightarrow> pmm \<Rightarrow> pmm" where
  "pmm_core_setup arch_pmm_meta_ptr base_pa pages bitmap_pa refcount_pa s =
     (let s1 = s\<lparr>g_base_pa := base_pa, g_pages := pages, g_bitmap_pa := bitmap_pa,
                 g_refcount_pa := refcount_pa, g_next_page := 0, g_scan_pages := 0,
                 g_claim_calls := 0, g_claim_wrap := 0\<rparr>;
          s2 = pmm_bind_locked arch_pmm_meta_ptr s1;
          s3 = s2\<lparr>g_bm := (\<lambda>i. if i < (pages + 7) div 8 then 0xff else g_bm s2 i)\<rparr>;
          s4 = s3\<lparr>g_rc := (\<lambda>i. if i < pages then 0 else g_rc s3 i)\<rparr>
      in s4\<lparr>g_used := pages\<rparr>)"

text \<open>The page-aligned addresses \<open>for (a = s; a < e; a += PAGE_SIZE)\<close> visits.\<close>

definition page_addrs :: "nat \<Rightarrow> nat \<Rightarrow> nat list" where
  "page_addrs s e = map (\<lambda>k. s + k * PAGE_SIZE) [0..<(e - s) div PAGE_SIZE]"

definition page_down :: "nat \<Rightarrow> nat" where
  "page_down a = a div PAGE_SIZE * PAGE_SIZE"

definition mark_free_step :: "nat \<Rightarrow> pmm \<Rightarrow> pmm" where
  "mark_free_step a s =
     (case pmm_page_of s a of
        None \<Rightarrow> s
      | Some page \<Rightarrow> if pmm_test s page then (pmm_clear page s)\<lparr>g_used := sub64 (g_used s) 1\<rparr> else s)"

definition pmm_core_mark_free :: "nat \<Rightarrow> nat \<Rightarrow> pmm \<Rightarrow> pmm" where
  "pmm_core_mark_free pa bytes s =
     fold mark_free_step
       (page_addrs (page_down (add64 pa (PAGE_SIZE - 1))) (page_down (add64 pa bytes))) s"

definition mark_used_step :: "nat \<Rightarrow> pmm \<Rightarrow> pmm" where
  "mark_used_step a s =
     (case pmm_page_of s a of
        None \<Rightarrow> s
      | Some page \<Rightarrow> if \<not> pmm_test s page then (pmm_set page s)\<lparr>g_used := add64 (g_used s) 1\<rparr> else s)"

definition pmm_core_mark_used :: "nat \<Rightarrow> nat \<Rightarrow> pmm \<Rightarrow> pmm" where
  "pmm_core_mark_used pa bytes s =
     fold mark_used_step
       (page_addrs (page_down pa) (page_down (add64 (add64 pa bytes) (PAGE_SIZE - 1)))) s"

definition rc_set :: "nat \<Rightarrow> u16 \<Rightarrow> pmm \<Rightarrow> pmm" where
  "rc_set page v s = s\<lparr>g_rc := (g_rc s)(page := v)\<rparr>"

definition pmm_core_reserve_page :: "nat \<Rightarrow> pmm \<Rightarrow> bool \<times> pmm" where
  "pmm_core_reserve_page pa s =
     (case pmm_page_of s pa of
        None \<Rightarrow> (False, s)
      | Some page \<Rightarrow>
          if \<not> pmm_test s page then
            let s1 = pmm_set page s; s2 = s1\<lparr>g_used := add64 (g_used s1) 1\<rparr>
            in (True, rc_set page 1 s2)
          else (False, s))"

section \<open>Search, claim and release\<close>

text \<open>The loop of \<open>pmm_scan_locked\<close>: \<open>Some (start, page)\<close> when the run is complete at \<open>page\<close>.\<close>

function scan_loop :: "pmm \<Rightarrow> nat \<Rightarrow> nat \<Rightarrow> nat \<Rightarrow> nat \<Rightarrow> nat \<Rightarrow> (nat \<times> nat) option" where
  "scan_loop s to pages run start page =
     (if page < to then
        if pmm_test s page then scan_loop s to pages 0 start (page + 1)
        else let start' = (if run = 0 then page else start); run' = run + 1
             in if run' = pages then Some (start', page)
                else scan_loop s to pages run' start' (page + 1)
      else None)"
  by pat_completeness auto
termination
  by (relation "measure (\<lambda>(s, to, pages, run, start, page). to - page)") auto

declare scan_loop.simps [simp del]

definition pmm_scan_locked :: "nat \<Rightarrow> nat \<Rightarrow> nat \<Rightarrow> pmm \<Rightarrow> nat \<times> pmm" where
  "pmm_scan_locked from to pages s =
     (let s1 = (if to > from then s\<lparr>g_scan_pages := add64 (g_scan_pages s) (to - from)\<rparr> else s)
      in case scan_loop s1 to pages 0 0 from of
           None \<Rightarrow> (0, s1)
         | Some (start, page) \<Rightarrow>
             (start + 1, s1\<lparr>g_scan_pages := sub64 (g_scan_pages s1) (to - (page + 1))\<rparr>))"

definition pmm_set_range :: "nat \<Rightarrow> nat \<Rightarrow> pmm \<Rightarrow> pmm" where
  "pmm_set_range start pages s = fold (\<lambda>i. pmm_set (start + i)) [0..<pages] s"

definition pmm_claim_locked :: "nat \<Rightarrow> pmm \<Rightarrow> nat \<times> pmm" where
  "pmm_claim_locked pages s =
     (if pages = 0 \<or> g_pages s = 0 then (0, s)
      else
        let s1 = (if g_next_page s \<ge> g_pages s then s\<lparr>g_next_page := 0\<rparr> else s);
            s2 = s1\<lparr>g_claim_calls := add64 (g_claim_calls s1) 1\<rparr>
        in if pages \<ge> PMM_BIG_PAGES then
             (case pmm_scan_locked 0 (g_pages s2) pages s2 of (start1, s3) \<Rightarrow>
                if start1 = 0 then (0, s3)
                else let start = start1 - 1; s4 = pmm_set_range start pages s3
                     in (add64 (g_base_pa s4) (start * PAGE_SIZE),
                         s4\<lparr>g_used := add64 (g_used s4) pages\<rparr>))
           else
             (case pmm_scan_locked (g_next_page s2) (g_pages s2) pages s2 of (start1, s3) \<Rightarrow>
              case (if start1 = 0 then
                      let s4 = s3\<lparr>g_claim_wrap := add64 (g_claim_wrap s3) 1\<rparr>;
                          tail = g_next_page s4 + pages - 1;
                          tail' = (if tail > g_pages s4 then g_pages s4 else tail)
                      in pmm_scan_locked 0 tail' pages s4
                    else (start1, s3)) of (start2, s5) \<Rightarrow>
                if start2 = 0 then (0, s5)
                else let start = start2 - 1; s6 = pmm_set_range start pages s5
                     in (add64 (g_base_pa s6) (start * PAGE_SIZE),
                         s6\<lparr>g_used := add64 (g_used s6) pages, g_next_page := start + pages\<rparr>)))"

definition release_step :: "nat \<Rightarrow> pmm \<Rightarrow> pmm" where
  "release_step page s =
     pmm_clear page (if pmm_test s page then s\<lparr>g_used := sub64 (g_used s) 1\<rparr> else s)"

definition pmm_release_locked :: "nat \<Rightarrow> nat \<Rightarrow> pmm \<Rightarrow> pmm" where
  "pmm_release_locked pa pages s =
     (case pmm_page_of s pa of
        None \<Rightarrow> s
      | Some start \<Rightarrow>
          fold release_step [start..<min (start + pages) (g_pages s)]
            (if start < g_next_page s then s\<lparr>g_next_page := start\<rparr> else s))"

definition pmm_core_claim :: "nat \<Rightarrow> pmm \<Rightarrow> nat \<times> pmm" where
  "pmm_core_claim pages s = pmm_claim_locked pages s"

definition pmm_core_release :: "nat \<Rightarrow> nat \<Rightarrow> pmm \<Rightarrow> pmm" where
  "pmm_core_release pa pages s = pmm_release_locked pa pages s"

definition pmm_core_base :: "pmm \<Rightarrow> nat" where
  "pmm_core_base s = g_base_pa s"

definition pmm_core_total :: "pmm \<Rightarrow> nat" where
  "pmm_core_total s = g_pages s"

definition pmm_core_used :: "pmm \<Rightarrow> nat" where
  "pmm_core_used s = g_used s"

definition pmm_core_take_scan_stat :: "pmm \<Rightarrow> pmm_core_scan_stat \<times> pmm" where
  "pmm_core_take_scan_stat s =
     (\<lparr>calls = g_claim_calls s, scanned = g_scan_pages s, wraps = g_claim_wrap s,
       next_page = g_next_page s\<rparr>,
      s\<lparr>g_claim_calls := 0, g_scan_pages := 0, g_claim_wrap := 0\<rparr>)"

section \<open>The counted interface\<close>

text \<open>\<open>pmm_alloc\<close> returns physical address 0 for failure. \<open>arch_pmm_after_alloc\<close> only touches the
  contents of the pages (aarch64 clears them), never this state.\<close>

definition pmm_alloc :: "nat \<Rightarrow> pmm \<Rightarrow> nat \<times> pmm" where
  "pmm_alloc pages s =
     (case pmm_claim_locked pages s of (pa, s1) \<Rightarrow>
        if pa \<noteq> 0 then
          let first = (pa - g_base_pa s1) div PAGE_SIZE
          in (pa, fold (\<lambda>i. rc_set (first + i) 1) [0..<pages] s1)
        else (0, s1))"

definition pmm_free_step :: "nat \<Rightarrow> nat \<Rightarrow> pmm \<Rightarrow> pmm" where
  "pmm_free_step base i s =
     (let pa = add64 base (i * PAGE_SIZE)
      in case pmm_page_of s pa of
           None \<Rightarrow> s
         | Some page \<Rightarrow>
             if g_rc s page > 0 then
               let s1 = rc_set page (g_rc s page - 1) s
               in if g_rc s1 page = 0 then pmm_release_locked pa 1 s1 else s1
             else s)"

definition pmm_free :: "nat \<Rightarrow> nat \<Rightarrow> pmm \<Rightarrow> pmm" where
  "pmm_free addr pages s = fold (pmm_free_step addr) [0..<pages] s"

definition pmm_incref :: "nat \<Rightarrow> pmm \<Rightarrow> pmm" where
  "pmm_incref addr s =
     (case pmm_page_of s addr of
        None \<Rightarrow> s
      | Some page \<Rightarrow> if g_rc s page < 0xffff then rc_set page (g_rc s page + 1) s else s)"

definition pmm_get_ref :: "nat \<Rightarrow> pmm \<Rightarrow> u16" where
  "pmm_get_ref addr s = (case pmm_page_of s addr of None \<Rightarrow> 0 | Some page \<Rightarrow> g_rc s page)"

definition pmm_get_allocated_pages :: "pmm \<Rightarrow> nat" where
  "pmm_get_allocated_pages s = g_used s"

definition pmm_get_free_pages :: "pmm \<Rightarrow> nat" where
  "pmm_get_free_pages s = sub64 (g_pages s) (g_used s)"

definition pmm_get_total_pages :: "pmm \<Rightarrow> nat" where
  "pmm_get_total_pages s = g_pages s"

section \<open>The bitmap\<close>

lemma pmm_test_bit: "pmm_test s p \<longleftrightarrow> bit (g_bm s (p div 8)) (p mod 8)"
  by (simp add: pmm_test_def bit_iff_odd_drop_bit and_one_eq odd_iff_mod_2_eq_one)

lemma test_pmm_set [simp]: "pmm_test (pmm_set p s) q \<longleftrightarrow> q = p \<or> pmm_test s q"
  unfolding pmm_test_bit pmm_set_def byte_mask_def [symmetric]
  by (auto simp: bit_or_mask dest: div_mod_8_eq)

lemma test_pmm_clear [simp]: "pmm_test (pmm_clear p s) q \<longleftrightarrow> q \<noteq> p \<and> pmm_test s q"
  unfolding pmm_test_bit pmm_clear_def byte_mask_def [symmetric]
  by (auto simp: bit_and_not_mask dest: div_mod_8_eq)

lemma test_frame [simp]:
  "pmm_test (s\<lparr>g_used := a\<rparr>) = pmm_test s"
  "pmm_test (s\<lparr>g_next_page := a\<rparr>) = pmm_test s"
  "pmm_test (s\<lparr>g_rc := r\<rparr>) = pmm_test s"
  "pmm_test (s\<lparr>g_scan_pages := a\<rparr>) = pmm_test s"
  "pmm_test (s\<lparr>g_claim_calls := a\<rparr>) = pmm_test s"
  "pmm_test (s\<lparr>g_claim_wrap := a\<rparr>) = pmm_test s"
  by (simp_all add: pmm_test_def fun_eq_iff)

lemma set_clear_frame [simp]:
  "g_base_pa (pmm_set p s) = g_base_pa s" "g_pages (pmm_set p s) = g_pages s"
  "g_used (pmm_set p s) = g_used s" "g_next_page (pmm_set p s) = g_next_page s"
  "g_rc (pmm_set p s) = g_rc s"
  "g_base_pa (pmm_clear p s) = g_base_pa s" "g_pages (pmm_clear p s) = g_pages s"
  "g_used (pmm_clear p s) = g_used s" "g_next_page (pmm_clear p s) = g_next_page s"
  "g_rc (pmm_clear p s) = g_rc s"
  by (simp_all add: pmm_set_def pmm_clear_def)

lemma page_of_frame:
  "g_base_pa t = g_base_pa s \<Longrightarrow> g_pages t = g_pages s \<Longrightarrow> pmm_page_of t = pmm_page_of s"
  by (simp add: pmm_page_of_def fun_eq_iff)

lemma page_of_Some: "pmm_page_of s pa = Some p \<Longrightarrow> p < g_pages s"
  by (auto simp: pmm_page_of_def Let_def split: if_splits)

lemma page_of_page [simp]:
  "pmm_page_of s (g_base_pa s + p * PAGE_SIZE) = (if p < g_pages s then Some p else None)"
  by (simp add: pmm_page_of_def PAGE_SIZE_def)

lemma set_range_Suc: "pmm_set_range a (Suc n) s = pmm_set (a + n) (pmm_set_range a n s)"
  by (simp add: pmm_set_range_def)

lemma set_range_0 [simp]: "pmm_set_range a 0 s = s"
  by (simp add: pmm_set_range_def)

lemma set_range_simps [simp]:
  "pmm_test (pmm_set_range a n s) q \<longleftrightarrow> (a \<le> q \<and> q < a + n) \<or> pmm_test s q"
  "g_base_pa (pmm_set_range a n s) = g_base_pa s" "g_pages (pmm_set_range a n s) = g_pages s"
  "g_used (pmm_set_range a n s) = g_used s" "g_next_page (pmm_set_range a n s) = g_next_page s"
  "g_rc (pmm_set_range a n s) = g_rc s"
  by (induction n) (auto simp: set_range_Suc)

section \<open>The scan finds the first run\<close>

text \<open>\<open>free_run s a n\<close>: the pages \<open>a, \<dots>, a + n - 1\<close> are all free.\<close>

definition free_run :: "pmm \<Rightarrow> nat \<Rightarrow> nat \<Rightarrow> bool" where
  "free_run s a n \<longleftrightarrow> (\<forall>q. a \<le> q \<and> q < a + n \<longrightarrow> \<not> pmm_test s q)"

lemma free_run_snoc: "free_run s a (Suc n) \<longleftrightarrow> free_run s a n \<and> \<not> pmm_test s (a + n)"
  by (auto simp: free_run_def less_Suc_eq)

text \<open>The loop invariant: the current run ends right before \<open>page\<close>, is free and too short, and no
  run that is long enough starts before it.\<close>

definition scan_inv :: "pmm \<Rightarrow> nat \<Rightarrow> nat \<Rightarrow> nat \<Rightarrow> nat \<Rightarrow> nat \<Rightarrow> bool" where
  "scan_inv s from pages run start page \<longleftrightarrow>
     run < pages \<and> from \<le> page \<and>
     (0 < run \<longrightarrow> from \<le> start \<and> start + run = page \<and> free_run s start run) \<and>
     (\<forall>a. from \<le> a \<and> free_run s a pages \<longrightarrow> page - run \<le> a)"

lemma scan_inv_start: "0 < pages \<Longrightarrow> scan_inv s from pages 0 st from"
  by (simp add: scan_inv_def)

lemma scan_inv_used:
  assumes "scan_inv s from pages run start page" and "pmm_test s page"
  shows "scan_inv s from pages 0 start (page + 1)"
proof -
  have "page + 1 \<le> a" if "from \<le> a" "free_run s a pages" for a
  proof (rule ccontr)
    assume "\<not> page + 1 \<le> a"
    moreover have "page - run \<le> a" "run < pages"
      using assms(1) that by (auto simp: scan_inv_def)
    ultimately have "a \<le> page \<and> page < a + pages" by linarith
    with that(2) assms(2) show False by (auto simp: free_run_def)
  qed
  then show ?thesis using assms(1) by (auto simp: scan_inv_def)
qed

lemma scan_inv_free:
  assumes "scan_inv s from pages run start page" and "\<not> pmm_test s page" and "run + 1 \<noteq> pages"
  shows "scan_inv s from pages (run + 1) (if run = 0 then page else start) (page + 1)"
  using assms by (auto simp: scan_inv_def free_run_def less_Suc_eq)

lemma scan_loop_spec:
  assumes "scan_inv s from pages run start page"
  shows "case scan_loop s to pages run start page of
      None \<Rightarrow> \<not> (\<exists>a. from \<le> a \<and> a + pages \<le> to \<and> free_run s a pages)
    | Some (st, pg) \<Rightarrow> from \<le> st \<and> st + pages = pg + 1 \<and> pg < to \<and> free_run s st pages \<and>
        (\<forall>a. from \<le> a \<and> free_run s a pages \<longrightarrow> st \<le> a)"
  using assms
proof (induction s to pages run start page rule: scan_loop.induct)
  case (1 s to pages run start page)
  let ?start = "if run = 0 then page else start"
  show ?case
  proof (cases "page < to")
    case False
    then show ?thesis using "1.prems"
      by (auto simp: scan_loop.simps [of s to pages run start page] scan_inv_def)
  next
    case True
    consider "pmm_test s page" | "\<not> pmm_test s page" "run + 1 = pages" | "\<not> pmm_test s page" "run + 1 \<noteq> pages"
      by blast
    then show ?thesis
    proof cases
      case 1
      with True show ?thesis
        using "1.IH"(1) scan_inv_used [OF "1.prems"]
        by (simp add: scan_loop.simps [of s to pages run start page])
    next
      case 2
      have "free_run s ?start (run + 1)" "?start + run = page" "from \<le> ?start"
        using "1.prems" 2 by (auto simp: scan_inv_def free_run_def less_Suc_eq)
      with True 2 show ?thesis using "1.prems"
        by (auto simp: scan_loop.simps [of s to pages run start page] scan_inv_def Let_def)
    next
      case 3
      with True show ?thesis
        using "1.IH"(2) scan_inv_free [OF "1.prems"]
        by (simp add: scan_loop.simps [of s to pages run start page] Let_def)
    qed
  qed
qed

text \<open>What a scan, a failed claim and a successful claim leave of the state: the counters of the
  instrumentation and the next-fit origin are the only fields a failure may touch.\<close>

definition same_pages :: "pmm \<Rightarrow> pmm \<Rightarrow> bool" where
  "same_pages s t \<longleftrightarrow> g_base_pa t = g_base_pa s \<and> g_pages t = g_pages s \<and> g_used t = g_used s \<and>
     g_rc t = g_rc s \<and> pmm_test t = pmm_test s"

definition claimed :: "pmm \<Rightarrow> nat \<Rightarrow> nat \<Rightarrow> pmm \<Rightarrow> bool" where
  "claimed s st pages t \<longleftrightarrow> g_base_pa t = g_base_pa s \<and> g_pages t = g_pages s \<and>
     g_used t = add64 (g_used s) pages \<and> g_rc t = g_rc s \<and>
     (\<forall>q. pmm_test t q \<longleftrightarrow> (st \<le> q \<and> q < st + pages) \<or> pmm_test s q)"

lemma same_pages_refl [simp]: "same_pages s s"
  by (simp add: same_pages_def)

lemma same_pages_trans: "same_pages s t \<Longrightarrow> same_pages t u \<Longrightarrow> same_pages s u"
  by (simp add: same_pages_def)

lemma same_pages_counters [simp]:
  "same_pages s (t\<lparr>g_scan_pages := x\<rparr>) = same_pages s t"
  "same_pages s (t\<lparr>g_claim_calls := x\<rparr>) = same_pages s t"
  "same_pages s (t\<lparr>g_claim_wrap := x\<rparr>) = same_pages s t"
  "same_pages s (t\<lparr>g_next_page := x\<rparr>) = same_pages s t"
  by (simp_all add: same_pages_def)

lemma same_pages_free_run: "same_pages s t \<Longrightarrow> free_run t = free_run s"
  by (simp add: same_pages_def free_run_def fun_eq_iff)

lemma same_pages_set_range:
  "same_pages s t \<Longrightarrow> claimed s st n (pmm_set_range st n t\<lparr>g_used := add64 (g_used t) n\<rparr>)"
  by (simp add: same_pages_def claimed_def)

lemma claimed_next_page [simp]: "claimed s st n (t\<lparr>g_next_page := x\<rparr>) = claimed s st n t"
  by (simp add: claimed_def)

lemma scan_locked_spec:
  assumes "0 < pages" and "pmm_scan_locked from to pages s = (r, t)"
  shows "same_pages s t \<and> g_next_page t = g_next_page s \<and>
    (r = 0 \<and> (\<forall>a. from \<le> a \<and> a + pages \<le> to \<longrightarrow> \<not> free_run s a pages) \<or>
     (\<exists>st. r = st + 1 \<and> from \<le> st \<and> st + pages \<le> to \<and> free_run s st pages \<and>
       (\<forall>a. from \<le> a \<and> free_run s a pages \<longrightarrow> st \<le> a)))"
proof -
  define s1 where "s1 = (if to > from then s\<lparr>g_scan_pages := add64 (g_scan_pages s) (to - from)\<rparr> else s)"
  have s1: "same_pages s s1" "g_next_page s1 = g_next_page s" by (simp_all add: s1_def)
  note fr = same_pages_free_run [OF s1(1)]
  from scan_loop_spec [OF scan_inv_start [OF assms(1), of s1 "from" 0], of to] assms(2) s1
  show ?thesis
    unfolding pmm_scan_locked_def s1_def [symmetric] Let_def fr
    by (auto split: option.splits)
qed

lemma claim_small:
  assumes n: "0 < pages" and nxt: "g_next_page s < g_pages s"
    and sc: "pmm_scan_locked (g_next_page s) (g_pages s) pages s = (start1, s3)"
    and sc2: "(if start1 = 0 then
            let s4 = s3\<lparr>g_claim_wrap := w\<rparr>; tail = g_next_page s4 + pages - 1;
                tail' = (if tail > g_pages s4 then g_pages s4 else tail)
            in pmm_scan_locked 0 tail' pages s4
          else (start1, s3)) = (start2, s5)"
  shows "same_pages s s5 \<and>
    (start2 = 0 \<and> (\<forall>a. a + pages \<le> g_pages s \<longrightarrow> \<not> free_run s a pages) \<or>
     (\<exists>st. start2 = st + 1 \<and> st + pages \<le> g_pages s \<and> free_run s st pages))"
proof (cases "start1 = 0")
  case False
  then show ?thesis using scan_locked_spec [OF n sc] sc2 by auto
next
  case True
  note first = scan_locked_spec [OF n sc]
  define s4 where "s4 = s3\<lparr>g_claim_wrap := w\<rparr>"
  define tl where "tl = (if g_next_page s + pages - 1 > g_pages s then g_pages s else g_next_page s + pages - 1)"
  have s4: "same_pages s s4" "g_next_page s4 = g_next_page s" "g_pages s4 = g_pages s"
    using first by (simp_all add: s4_def same_pages_def)
  have "pmm_scan_locked 0 tl pages s4 = (start2, s5)"
    using sc2 True s4 by (simp add: s4_def [symmetric] tl_def Let_def split: if_splits)
  note second = scan_locked_spec [OF n this]
  have none1: "\<And>a. g_next_page s \<le> a \<Longrightarrow> a + pages \<le> g_pages s \<Longrightarrow> \<not> free_run s a pages"
    using first True by auto
  have cover: "a + pages \<le> tl" if "a + pages \<le> g_pages s" "a < g_next_page s" for a
    using that n by (auto simp: tl_def)
  have tl: "tl \<le> g_pages s" by (simp add: tl_def)
  have s5: "same_pages s s5" by (rule same_pages_trans [OF s4(1) conjunct1 [OF second]])
  from second consider "start2 = 0" "\<And>a. a + pages \<le> tl \<Longrightarrow> \<not> free_run s a pages"
    | st where "start2 = st + 1" "st + pages \<le> tl" "free_run s st pages"
    unfolding same_pages_free_run [OF s4(1)] by blast
  then show ?thesis
  proof cases
    case 1
    then have "\<not> free_run s a pages" if "a + pages \<le> g_pages s" for a
      using that none1 cover by (cases "a < g_next_page s") auto
    with 1 s5 show ?thesis by simp
  next
    case 2
    with s5 tl show ?thesis by auto
  qed
qed

lemma claim_locked_spec:
  assumes n: "0 < pages" and "pmm_claim_locked pages s = (pa, t)"
  shows "pa = 0 \<and> same_pages s t \<and> (\<forall>a. a + pages \<le> g_pages s \<longrightarrow> \<not> free_run s a pages) \<or>
    (\<exists>st. pa = add64 (g_base_pa s) (st * PAGE_SIZE) \<and> st + pages \<le> g_pages s \<and>
       free_run s st pages \<and> claimed s st pages t)"
proof (cases "g_pages s = 0")
  case True
  then show ?thesis using assms by (simp add: pmm_claim_locked_def)
next
  case False
  define s1 where "s1 = (if g_next_page s \<ge> g_pages s then s\<lparr>g_next_page := 0\<rparr> else s)"
  define s2 where "s2 = s1\<lparr>g_claim_calls := add64 (g_claim_calls s1) 1\<rparr>"
  have s2: "same_pages s s2" by (simp add: s1_def s2_def)
  then have g2 [simp]: "g_pages s2 = g_pages s" "g_base_pa s2 = g_base_pa s"
    by (simp_all add: same_pages_def)
  have nxt2: "g_next_page s2 < g_pages s2" using False by (simp add: s1_def s2_def)
  note fr = same_pages_free_run [OF s2]
  show ?thesis
  proof (cases "pages \<ge> PMM_BIG_PAGES")
    case True
    obtain start1 s3 where sc: "pmm_scan_locked 0 (g_pages s2) pages s2 = (start1, s3)" by (meson surj_pair)
    have s3: "same_pages s s3"
      by (rule same_pages_trans [OF s2 conjunct1 [OF scan_locked_spec [OF n sc]]])
    have "(pa, t) = (if start1 = 0 then (0, s3) else
         (add64 (g_base_pa s) ((start1 - 1) * PAGE_SIZE),
          pmm_set_range (start1 - 1) pages s3\<lparr>g_used := add64 (g_used s3) pages\<rparr>))"
      using assms False True sc s3
      unfolding pmm_claim_locked_def Let_def s1_def [symmetric] s2_def [symmetric]
      by (auto simp: same_pages_def split: if_splits)
    with scan_locked_spec [OF n sc] s3 show ?thesis
      unfolding fr by (auto intro: same_pages_set_range split: if_splits)
  next
    case small: False
    obtain start1 s3 where sc: "pmm_scan_locked (g_next_page s2) (g_pages s2) pages s2 = (start1, s3)"
      by (meson surj_pair)
    obtain start2 s5 where sc2: "(if start1 = 0 then
            let s4 = s3\<lparr>g_claim_wrap := add64 (g_claim_wrap s3) 1\<rparr>; tail = g_next_page s4 + pages - 1;
                tail' = (if tail > g_pages s4 then g_pages s4 else tail)
            in pmm_scan_locked 0 tail' pages s4
          else (start1, s3)) = (start2, s5)" by (meson surj_pair)
    note spec = claim_small [OF n nxt2 sc sc2]
    have s5: "same_pages s s5" by (rule same_pages_trans [OF s2 conjunct1 [OF spec]])
    have "(pa, t) = (if start2 = 0 then (0, s5) else
         (add64 (g_base_pa s) ((start2 - 1) * PAGE_SIZE),
          pmm_set_range (start2 - 1) pages s5\<lparr>g_used := add64 (g_used s5) pages,
            g_next_page := start2 - 1 + pages\<rparr>))"
      using assms False small sc sc2 s5
      unfolding pmm_claim_locked_def Let_def s1_def [symmetric] s2_def [symmetric]
      by (auto simp: same_pages_def split: if_splits)
    with spec s5 show ?thesis
      unfolding fr by (auto intro: same_pages_set_range split: if_splits)
  qed
qed

section \<open>The allocator's invariant\<close>

definition used_set :: "pmm \<Rightarrow> nat set" where
  "used_set s = {p. p < g_pages s \<and> pmm_test s p}"

text \<open>The managed range fits in the address space, \<open>g_used\<close> counts the set bits, and a page with
  references is marked in use.\<close>

definition pmm_inv :: "pmm \<Rightarrow> bool" where
  "pmm_inv s \<longleftrightarrow> g_base_pa s + g_pages s * PAGE_SIZE \<le> 2 ^ 64 \<and> g_used s = card (used_set s) \<and>
     (\<forall>p < g_pages s. g_rc s p \<noteq> 0 \<longrightarrow> pmm_test s p)"

text \<open>Physical address 0 is the failure value of the interface, so the page there must never be
  free (x86 reserves it at boot with \<open>pmm_core_reserve_page\<close>).\<close>

definition null_reserved :: "pmm \<Rightarrow> bool" where
  "null_reserved s \<longleftrightarrow> (g_base_pa s = 0 \<longrightarrow> pmm_test s 0)"

lemma finite_used_set [simp]: "finite (used_set s)"
  by (simp add: used_set_def)

lemma used_le_pages: "pmm_inv s \<Longrightarrow> g_used s \<le> g_pages s"
proof -
  assume "pmm_inv s"
  then have "g_used s = card (used_set s)" by (simp add: pmm_inv_def)
  also have "\<dots> \<le> card {..<g_pages s}" by (intro card_mono) (auto simp: used_set_def)
  finally show ?thesis by simp
qed

lemma pages_small: "pmm_inv s \<Longrightarrow> g_pages s \<le> 2 ^ 52"
  by (simp add: pmm_inv_def PAGE_SIZE_def)

lemma used_set_claimed:
  "claimed s st n t \<Longrightarrow> st + n \<le> g_pages s \<Longrightarrow> used_set t = {st..<st + n} \<union> used_set s"
  unfolding claimed_def used_set_def by (intro set_eqI) (simp, linarith)

lemma free_run_disjoint: "free_run s st n \<Longrightarrow> {st..<st + n} \<inter> used_set s = {}"
  by (auto simp: free_run_def used_set_def)

lemma claimed_inv:
  assumes "pmm_inv s" "claimed s st n t" "st + n \<le> g_pages s" "free_run s st n"
  shows "pmm_inv t \<and> g_used t = g_used s + n"
proof -
  have "card (used_set t) = n + card (used_set s)"
    unfolding used_set_claimed [OF assms(2,3)]
    by (subst card_Un_disjoint) (auto simp: free_run_disjoint [OF assms(4)])
  then have c: "card (used_set t) = g_used s + n" using assms(1) by (simp add: pmm_inv_def)
  moreover have "card (used_set t) \<le> card {..<g_pages s}"
    using assms(2) by (intro card_mono) (auto simp: used_set_def claimed_def)
  ultimately have "g_used s + n \<le> g_pages s" by simp
  then have "g_used s + n < 2 ^ 64" using pages_small [OF assms(1)] by simp
  then have "g_used t = g_used s + n" using assms(2) by (simp add: claimed_def add64_nowrap)
  with c show ?thesis using assms(1,2) by (auto simp: pmm_inv_def claimed_def)
qed

lemma same_pages_inv: "same_pages s t \<Longrightarrow> pmm_inv s \<Longrightarrow> pmm_inv t"
  by (simp add: same_pages_def pmm_inv_def used_set_def)

lemma page_addr_nowrap:
  "pmm_inv s \<Longrightarrow> p < g_pages s \<Longrightarrow>
    add64 (g_base_pa s) (p * PAGE_SIZE) = g_base_pa s + p * PAGE_SIZE"
proof (rule add64_nowrap)
  assume "pmm_inv s" and "p < g_pages s"
  then have "g_base_pa s + Suc p * PAGE_SIZE \<le> g_base_pa s + g_pages s * PAGE_SIZE"
    by (intro add_left_mono mult_right_mono) auto
  also have "\<dots> \<le> 2 ^ 64" using \<open>pmm_inv s\<close> by (simp add: pmm_inv_def)
  finally show "g_base_pa s + p * PAGE_SIZE < 2 ^ 64" by (simp add: PAGE_SIZE_def)
qed

lemma rc_set_fold [simp]:
  "g_rc (fold (\<lambda>i. rc_set (a + i) v) [0..<n] s) p = (if a \<le> p \<and> p < a + n then v else g_rc s p)"
  "pmm_test (fold (\<lambda>i. rc_set (a + i) v) [0..<n] s) = pmm_test s"
  "g_base_pa (fold (\<lambda>i. rc_set (a + i) v) [0..<n] s) = g_base_pa s"
  "g_pages (fold (\<lambda>i. rc_set (a + i) v) [0..<n] s) = g_pages s"
  "g_used (fold (\<lambda>i. rc_set (a + i) v) [0..<n] s) = g_used s"
  by (induction n) (auto simp: rc_set_def)

section \<open>Allocation\<close>

lemma pmm_claim_result:
  assumes inv: "pmm_inv s" and n: "0 < n" and cl: "pmm_claim_locked n s = (pa, t)"
  obtains (fail) "pa = 0" "same_pages s t" "\<And>a. a + n \<le> g_pages s \<Longrightarrow> \<not> free_run s a n"
  | (ok) st where "pa = g_base_pa s + st * PAGE_SIZE" "st + n \<le> g_pages s" "free_run s st n"
      "claimed s st n t" "pmm_inv t" "g_used t = g_used s + n"
proof -
  from claim_locked_spec [OF n cl] consider
    "pa = 0" "same_pages s t" "\<And>a. a + n \<le> g_pages s \<Longrightarrow> \<not> free_run s a n"
  | st where "pa = add64 (g_base_pa s) (st * PAGE_SIZE)" "st + n \<le> g_pages s" "free_run s st n"
      "claimed s st n t" by blast
  then show thesis
  proof cases
    case 1
    then show thesis by (rule fail)
  next
    case 2
    have "pa = g_base_pa s + st * PAGE_SIZE"
      using 2 page_addr_nowrap [OF inv, of st] n by simp
    then show thesis using 2 claimed_inv [OF inv 2(4,2,3)] by (intro ok [of st]) simp_all
  qed
qed

lemma alloc_cases:
  assumes inv: "pmm_inv s" and n: "0 < n" and nz: "null_reserved s" and al: "pmm_alloc n s = (pa, t)"
  obtains (fail) "pa = 0" "same_pages s t" "pmm_inv t" "\<And>a. a + n \<le> g_pages s \<Longrightarrow> \<not> free_run s a n"
  | (ok) st where "pa = g_base_pa s + st * PAGE_SIZE" "pa \<noteq> 0" "st + n \<le> g_pages s" "free_run s st n"
      "g_base_pa t = g_base_pa s" "g_pages t = g_pages s" "g_used t = g_used s + n"
      "\<And>q. pmm_test t q \<longleftrightarrow> (st \<le> q \<and> q < st + n) \<or> pmm_test s q"
      "\<And>p. g_rc t p = (if st \<le> p \<and> p < st + n then 1 else g_rc s p)" "pmm_inv t"
proof -
  obtain pa1 s1 where cl: "pmm_claim_locked n s = (pa1, s1)" by fastforce
  from inv n cl show thesis
  proof (cases rule: pmm_claim_result)
    case fail
    then have "pa = 0" "t = s1" using al cl by (auto simp: pmm_alloc_def)
    with fail same_pages_inv [OF fail(2) inv] show thesis by (intro that(1)) simp_all
  next
    case (ok st)
    have "pa1 \<noteq> 0"
    proof
      assume "pa1 = 0"
      then have "g_base_pa s = 0" "st = 0" using ok(1) by (auto simp: PAGE_SIZE_def)
      then show False using nz ok(3) n by (auto simp: null_reserved_def free_run_def)
    qed
    then have pa: "pa = pa1" and t: "t = fold (\<lambda>i. rc_set (st + i) 1) [0..<n] s1"
      using al cl ok(1,4) by (auto simp: pmm_alloc_def claimed_def PAGE_SIZE_def)
    have "pmm_inv t"
      using ok(4,5) unfolding t by (auto simp: pmm_inv_def used_set_def claimed_def)
    with ok \<open>pa1 \<noteq> 0\<close> show thesis
      by (intro that(2) [of st]) (simp_all add: pa t claimed_def)
  qed
qed

section \<open>Freeing, sharing and reserving\<close>

lemma rc_set_simps [simp]:
  "g_rc (rc_set p v s) = (g_rc s)(p := v)" "pmm_test (rc_set p v s) = pmm_test s"
  "g_base_pa (rc_set p v s) = g_base_pa s" "g_pages (rc_set p v s) = g_pages s"
  "g_used (rc_set p v s) = g_used s" "g_next_page (rc_set p v s) = g_next_page s"
  by (simp_all add: rc_set_def)

lemma used_set_frame [simp]:
  "used_set (rc_set p v s) = used_set s" "used_set (s\<lparr>g_used := a\<rparr>) = used_set s"
  "used_set (s\<lparr>g_next_page := a\<rparr>) = used_set s"
  by (simp_all add: used_set_def)

lemma used_set_set [simp]: "p < g_pages s \<Longrightarrow> used_set (pmm_set p s) = insert p (used_set s)"
  by (auto simp: used_set_def)

lemma used_set_clear [simp]: "used_set (pmm_clear p s) = used_set s - {p}"
  by (auto simp: used_set_def)

text \<open>Clearing and setting one page keeps the count exact.\<close>

lemma inv_release_step:
  assumes inv: "pmm_inv s" and p: "p < g_pages s" and rc: "g_rc s p = 0"
  shows "pmm_inv (release_step p s) \<and>
    g_used (release_step p s) = g_used s - (if pmm_test s p then 1 else 0)"
proof -
  have used: "g_used s = card (used_set s)" "g_used s < 2 ^ 64"
    using inv used_le_pages [OF inv] pages_small [OF inv] by (simp_all add: pmm_inv_def)
  show ?thesis
  proof (cases "pmm_test s p")
    case True
    then have "p \<in> used_set s" using p by (simp add: used_set_def)
    then have pos: "0 < card (used_set s)" by (auto simp: card_gt_0_iff)
    have "card (used_set s - {p}) = card (used_set s) - 1"
      using \<open>p \<in> used_set s\<close> by (intro card_Diff_singleton) simp
    moreover have "sub64 (g_used s) 1 = g_used s - 1"
      using used pos by (intro sub64_nowrap) simp_all
    ultimately show ?thesis
      using inv True rc used unfolding release_step_def pmm_inv_def by auto
  next
    case False
    then have "used_set s - {p} = used_set s" by (auto simp: used_set_def)
    with False inv rc show ?thesis unfolding release_step_def pmm_inv_def by auto
  qed
qed

lemma inv_set_page:
  assumes inv: "pmm_inv s" and p: "p < g_pages s" and "\<not> pmm_test s p"
  shows "pmm_inv (pmm_set p s\<lparr>g_used := add64 (g_used s) 1\<rparr>)"
    "add64 (g_used s) 1 = g_used s + 1"
proof -
  have "p \<notin> used_set s" using assms(3) by (simp add: used_set_def)
  then have "card (insert p (used_set s)) = card (used_set s) + 1" by simp
  moreover show "add64 (g_used s) 1 = g_used s + 1"
    using used_le_pages [OF inv] pages_small [OF inv] by (intro add64_nowrap) simp
  ultimately show "pmm_inv (pmm_set p s\<lparr>g_used := add64 (g_used s) 1\<rparr>)"
    using inv p by (simp add: pmm_inv_def)
qed

lemma inv_next_page [simp]: "pmm_inv (s\<lparr>g_next_page := x\<rparr>) = pmm_inv s"
  by (simp add: pmm_inv_def)

lemma release_one:
  assumes "pmm_page_of s pa = Some p"
  shows "\<exists>x. pmm_release_locked pa 1 s = release_step p (s\<lparr>g_next_page := x\<rparr>)"
proof -
  have p: "p < g_pages s" using assms by (rule page_of_Some)
  then have "[p..<min (p + 1) (g_pages s)] = [p]" by (simp add: min_def)
  then have "pmm_release_locked pa 1 s = release_step p (if p < g_next_page s then s\<lparr>g_next_page := p\<rparr> else s)"
    using assms by (simp add: pmm_release_locked_def del: One_nat_def)
  moreover have "(if p < g_next_page s then s\<lparr>g_next_page := p\<rparr> else s) =
      s\<lparr>g_next_page := if p < g_next_page s then p else g_next_page s\<rparr>" by simp
  ultimately show ?thesis by (metis (full_types))
qed

lemma release_step_simps [simp]:
  "pmm_test (release_step p s) q \<longleftrightarrow> q \<noteq> p \<and> pmm_test s q"
  "g_rc (release_step p s) = g_rc s" "g_base_pa (release_step p s) = g_base_pa s"
  "g_pages (release_step p s) = g_pages s"
  by (simp_all add: release_step_def)

text \<open>The effect of \<open>pmm_free\<close> on one page of the range, as a relation of the states.\<close>

definition dropped :: "pmm \<Rightarrow> nat set \<Rightarrow> pmm \<Rightarrow> bool" where
  "dropped s P t \<longleftrightarrow> g_base_pa t = g_base_pa s \<and> g_pages t = g_pages s \<and>
     (\<forall>q. g_rc t q = (if q \<in> P \<and> g_rc s q \<noteq> 0 then g_rc s q - 1 else g_rc s q)) \<and>
     (\<forall>q. pmm_test t q \<longleftrightarrow> pmm_test s q \<and> \<not> (q \<in> P \<and> g_rc s q = 1)) \<and>
     g_used t + card {q \<in> P. g_rc s q = 1} = g_used s"

lemma word_minus_one_eq_0 [simp]: "(x :: 'a::len word) - 1 = 0 \<longleftrightarrow> x = 1"
  by (metis eq_iff_diff_eq_0)

lemma free_step_spec:
  assumes inv: "pmm_inv s" and pg: "pmm_page_of s (add64 base (i * PAGE_SIZE)) = Some p"
  shows "pmm_inv (pmm_free_step base i s) \<and> dropped s {p} (pmm_free_step base i s)"
proof -
  let ?pa = "add64 base (i * PAGE_SIZE)" and ?s1 = "rc_set p (g_rc s p - 1) s"
  have p: "p < g_pages s" using pg by (rule page_of_Some)
  consider "g_rc s p = 0" | "g_rc s p = 1" | "g_rc s p \<noteq> 0" "g_rc s p \<noteq> 1" by blast
  then show ?thesis
  proof cases
    case 1
    then have "{q \<in> {p}. g_rc s q = 1} = {}" by auto
    with 1 show ?thesis using inv pg by (auto simp: pmm_free_step_def dropped_def)
  next
    case 2
    obtain x where x: "pmm_release_locked ?pa 1 ?s1 = release_step p (?s1\<lparr>g_next_page := x\<rparr>)"
      using release_one [of ?s1 ?pa p] pg page_of_frame [of ?s1 s] by auto
    have t: "pmm_free_step base i s = release_step p (?s1\<lparr>g_next_page := x\<rparr>)"
      using 2 pg x by (simp add: pmm_free_step_def Let_def)
    have test: "pmm_test s p" using 2 inv p by (simp add: pmm_inv_def)
    have inv1: "pmm_inv (?s1\<lparr>g_next_page := x\<rparr>)" using inv 2 test by (simp add: pmm_inv_def)
    have "{q \<in> {p}. g_rc s q = 1} = {p}" using 2 by auto
    moreover have "0 < g_used s"
      using inv test p by (auto simp: pmm_inv_def card_gt_0_iff used_set_def)
    ultimately show ?thesis
      using inv_release_step [OF inv1, of p] p 2 test unfolding t by (auto simp: dropped_def)
  next
    case 3
    then have t: "pmm_free_step base i s = ?s1" using pg by (simp add: pmm_free_step_def Let_def word_neq_0_conv)
    have "{q \<in> {p}. g_rc s q = 1} = {}" using 3 by auto
    then show ?thesis using inv 3 unfolding t by (auto simp: dropped_def pmm_inv_def)
  qed
qed

lemma free_step_outside:
  "pmm_page_of s (add64 base (i * PAGE_SIZE)) = None \<Longrightarrow> pmm_free_step base i s = s"
  by (simp add: pmm_free_step_def)

lemma free_step_inv: "pmm_inv s \<Longrightarrow> pmm_inv (pmm_free_step base i s)"
  using free_step_spec free_step_outside by (cases "pmm_page_of s (add64 base (i * PAGE_SIZE))") auto

lemma pmm_free_inv: "pmm_inv s \<Longrightarrow> pmm_inv (pmm_free addr n s)"
  unfolding pmm_free_def by (induction n) (simp_all add: free_step_inv)

lemma dropped_insert:
  assumes "dropped s P u" "dropped u {p} t" "p \<notin> P" "finite P"
  shows "dropped s (insert p P) t"
proof -
  have rc: "g_rc u p = g_rc s p" using assms(1,3) by (simp add: dropped_def)
  have "{q \<in> insert p P. g_rc s q = 1} =
      {q \<in> P. g_rc s q = 1} \<union> {q \<in> {p}. g_rc s q = 1}" by auto
  also have "card \<dots> = card {q \<in> P. g_rc s q = 1} + card {q \<in> {p}. g_rc s q = 1}"
    using assms(3,4) by (intro card_Un_disjoint) auto
  also have "{q \<in> {p}. g_rc s q = 1} = {q \<in> {p}. g_rc u q = 1}" using rc by auto
  finally have "card {q \<in> insert p P. g_rc s q = 1} =
      card {q \<in> P. g_rc s q = 1} + card {q \<in> {p}. g_rc u q = 1}" .
  then show ?thesis using assms(1,2,3) rc by (auto simp: dropped_def)
qed

lemma dropped_empty: "dropped s {} s"
  by (simp add: dropped_def)

lemma page_of_range:
  assumes "pmm_inv s" "st + i < g_pages s"
  shows "pmm_page_of s (add64 (g_base_pa s + st * PAGE_SIZE) (i * PAGE_SIZE)) = Some (st + i)"
proof -
  have "add64 (g_base_pa s + st * PAGE_SIZE) (i * PAGE_SIZE) = g_base_pa s + (st + i) * PAGE_SIZE"
    using page_addr_nowrap [OF assms] by (simp add: add64_def algebra_simps)
  then show ?thesis using assms(2) by simp
qed

lemma pmm_free_range:
  assumes "pmm_inv s" "st + n \<le> g_pages s"
  shows "pmm_inv (pmm_free (g_base_pa s + st * PAGE_SIZE) n s) \<and>
    dropped s {st..<st + n} (pmm_free (g_base_pa s + st * PAGE_SIZE) n s)"
  using assms(2)
proof (induction n)
  case 0
  then show ?case using assms(1) by (simp add: pmm_free_def dropped_empty)
next
  case (Suc n)
  let ?a = "g_base_pa s + st * PAGE_SIZE" and ?u = "pmm_free (g_base_pa s + st * PAGE_SIZE) n s"
  have u: "pmm_inv ?u" "dropped s {st..<st + n} ?u" using Suc by simp_all
  have eq: "g_base_pa ?u = g_base_pa s" "g_pages ?u = g_pages s"
    using u(2) by (simp_all add: dropped_def)
  have "pmm_page_of ?u (add64 ?a (n * PAGE_SIZE)) = Some (st + n)"
    using page_of_range [OF u(1), of st n] Suc.prems by (simp add: eq)
  note step = free_step_spec [OF u(1) this]
  have "{st..<st + Suc n} = insert (st + n) {st..<st + n}" by auto
  moreover have "pmm_free ?a (Suc n) s = pmm_free_step ?a n ?u" by (simp add: pmm_free_def)
  ultimately show ?case using step dropped_insert [OF u(2)] by simp
qed

lemma incref_spec:
  assumes "pmm_inv s" "pmm_page_of s pa = Some p" "g_rc s p < 0xffff" "g_rc s p \<noteq> 0"
  shows "pmm_inv (pmm_incref pa s) \<and> pmm_incref pa s = rc_set p (g_rc s p + 1) s"
  using assms by (auto simp: pmm_incref_def pmm_inv_def dest: page_of_Some)

lemma reserve_page_inv: "pmm_inv s \<Longrightarrow> pmm_inv (snd (pmm_core_reserve_page pa s))"
proof (cases "pmm_page_of s pa")
  case (Some p)
  assume inv: "pmm_inv s"
  show ?thesis
  proof (cases "pmm_test s p")
    case False
    then have "pmm_inv (pmm_set p s\<lparr>g_used := add64 (g_used s) 1\<rparr>)"
      by (intro inv_set_page(1) inv page_of_Some [OF Some])
    with Some False show ?thesis
      by (auto simp: pmm_core_reserve_page_def pmm_inv_def Let_def)
  qed (use Some inv in \<open>simp add: pmm_core_reserve_page_def\<close>)
qed (simp add: pmm_core_reserve_page_def)

lemma mark_used_step_inv: "pmm_inv s \<Longrightarrow> pmm_inv (mark_used_step a s)"
  using inv_set_page(1) [of s] by (auto simp: mark_used_step_def page_of_Some split: option.split)

lemma mark_used_inv: "pmm_inv s \<Longrightarrow> pmm_inv (pmm_core_mark_used pa bytes s)"
proof -
  have "pmm_inv s \<Longrightarrow> pmm_inv (fold mark_used_step as s)" for as
    by (induction as arbitrary: s) (simp_all add: mark_used_step_inv)
  then show "pmm_inv s \<Longrightarrow> pmm_inv (pmm_core_mark_used pa bytes s)"
    by (simp add: pmm_core_mark_used_def)
qed

text \<open>\<open>mark_free\<close> and \<open>release\<close> clear bits without looking at the counts: they are for memory outside
  the counted interface (boot-time ranges, page tables), whose counts are 0.\<close>

definition uncounted :: "pmm \<Rightarrow> bool" where
  "uncounted s \<longleftrightarrow> (\<forall>p < g_pages s. g_rc s p = 0)"

lemma mark_free_step_release:
  "mark_free_step a s = (case pmm_page_of s a of None \<Rightarrow> s
     | Some p \<Rightarrow> if pmm_test s p then release_step p s else s)"
  by (auto simp: mark_free_step_def release_step_def pmm_clear_def split: option.split)

lemma mark_free_step_inv:
  "pmm_inv s \<Longrightarrow> uncounted s \<Longrightarrow> pmm_inv (mark_free_step a s) \<and> uncounted (mark_free_step a s)"
  by (auto simp: mark_free_step_release uncounted_def inv_release_step dest: page_of_Some split: option.split)

lemma mark_free_inv:
  "pmm_inv s \<Longrightarrow> uncounted s \<Longrightarrow>
    pmm_inv (pmm_core_mark_free pa bytes s) \<and> uncounted (pmm_core_mark_free pa bytes s)"
proof -
  have "pmm_inv s \<Longrightarrow> uncounted s \<Longrightarrow>
      pmm_inv (fold mark_free_step as s) \<and> uncounted (fold mark_free_step as s)" for as
    by (induction as arbitrary: s) (simp_all add: mark_free_step_inv)
  then show "pmm_inv s \<Longrightarrow> uncounted s \<Longrightarrow> ?thesis" by (simp add: pmm_core_mark_free_def)
qed

lemma release_fold_inv:
  "pmm_inv s \<Longrightarrow> \<forall>p \<in> set ps. p < g_pages s \<and> g_rc s p = 0 \<Longrightarrow> pmm_inv (fold release_step ps s)"
  by (induction ps arbitrary: s) (simp_all add: inv_release_step)

lemma release_inv:
  assumes "pmm_inv s" "\<forall>st p. pmm_page_of s pa = Some st \<longrightarrow> st \<le> p \<longrightarrow> p < st + n \<longrightarrow> g_rc s p = 0"
  shows "pmm_inv (pmm_core_release pa n s)"
  using assms
  by (auto simp: pmm_core_release_def pmm_release_locked_def intro!: release_fold_inv split: option.split)

lemma claim_inv: "pmm_inv s \<Longrightarrow> pmm_inv (snd (pmm_core_claim n s))"
proof (cases "n = 0")
  case False
  assume inv: "pmm_inv s"
  obtain pa t where cl: "pmm_claim_locked n s = (pa, t)" by fastforce
  from inv _ cl show ?thesis
    using False by (cases rule: pmm_claim_result) (auto simp: pmm_core_claim_def same_pages_inv inv cl)
qed (simp add: pmm_core_claim_def pmm_claim_locked_def)

lemma take_scan_stat_inv: "pmm_inv s \<Longrightarrow> pmm_inv (snd (pmm_core_take_scan_stat s))"
  by (simp add: pmm_core_take_scan_stat_def pmm_inv_def used_set_def)

lemma setup_test: "p < pages \<Longrightarrow> pmm_test (pmm_core_setup f base pages b r s) p"
proof -
  assume "p < pages"
  then have "p div 8 < (pages + 7) div 8" by linarith
  moreover have "bit (0xff :: u8) (p mod 8)"
  proof -
    have "(0xff :: u8) = mask 8" by (simp add: mask_eq_exp_minus_1)
    then show ?thesis by (simp only: bit_mask_iff) simp
  qed
  ultimately show ?thesis
    by (simp add: pmm_test_bit pmm_core_setup_def pmm_bind_locked_def Let_def)
qed

lemma setup_inv:
  assumes "base + pages * PAGE_SIZE \<le> 2 ^ 64"
  shows "pmm_inv (pmm_core_setup f base pages b r s)" "uncounted (pmm_core_setup f base pages b r s)"
proof -
  let ?t = "pmm_core_setup f base pages b r s"
  have t: "g_pages ?t = pages" "g_base_pa ?t = base" "g_used ?t = pages" "\<And>p. p < pages \<Longrightarrow> g_rc ?t p = 0"
    by (simp_all add: pmm_core_setup_def pmm_bind_locked_def Let_def)
  have "used_set ?t = {..<pages}" using setup_test by (auto simp: used_set_def t)
  then show "pmm_inv ?t" using assms by (simp add: pmm_inv_def t)
  show "uncounted ?t" by (simp add: uncounted_def t)
qed

section \<open>The allocator as a state machine\<close>

text \<open>Every call of the interface is one atomic step (the spinlock is held from its first access to
  its last). The two rules with a premise are the calls that clear bits without looking at the
  reference counts.\<close>

inductive pmm_step :: "pmm \<Rightarrow> pmm \<Rightarrow> bool" where
  alloc: "pmm_step s (snd (pmm_alloc n s))"
| free: "pmm_step s (pmm_free addr n s)"
| incref: "0 < pmm_get_ref addr s \<Longrightarrow> pmm_step s (pmm_incref addr s)"
| claim: "pmm_step s (snd (pmm_core_claim n s))"
| release: "(\<And>st p. pmm_page_of s pa = Some st \<Longrightarrow> st \<le> p \<Longrightarrow> p < st + n \<Longrightarrow> g_rc s p = 0) \<Longrightarrow>
    pmm_step s (pmm_core_release pa n s)"
| reserve: "pmm_step s (snd (pmm_core_reserve_page pa s))"
| mark_used: "pmm_step s (pmm_core_mark_used pa bytes s)"
| mark_free: "uncounted s \<Longrightarrow> pmm_step s (pmm_core_mark_free pa bytes s)"
| take_stat: "pmm_step s (snd (pmm_core_take_scan_stat s))"
| rebind: "pmm_step s (pmm_core_rebind f s)"

inductive pmm_reachable :: "pmm \<Rightarrow> bool" where
  boot: "base + pages * PAGE_SIZE \<le> 2 ^ 64 \<Longrightarrow> pmm_reachable (pmm_core_setup f base pages b r s)"
| step: "pmm_reachable s \<Longrightarrow> pmm_step s t \<Longrightarrow> pmm_reachable t"

lemma alloc_inv: "pmm_inv s \<Longrightarrow> pmm_inv (snd (pmm_alloc n s))"
proof (cases "n = 0")
  case False
  assume inv: "pmm_inv s"
  obtain pa t where cl: "pmm_claim_locked n s = (pa, t)" by fastforce
  let ?u = "fold (\<lambda>i. rc_set ((pa - g_base_pa t) div PAGE_SIZE + i) 1) [0..<n] t"
  have al: "snd (pmm_alloc n s) = (if pa \<noteq> 0 then ?u else t)"
    using cl by (simp add: pmm_alloc_def Let_def)
  have n: "0 < n" using False by simp
  from inv n cl show ?thesis
  proof (cases rule: pmm_claim_result)
    case fail
    then show ?thesis using same_pages_inv [OF fail(2) inv] by (simp add: al)
  next
    case (ok st)
    have "(pa - g_base_pa t) div PAGE_SIZE = st" using ok by (simp add: claimed_def PAGE_SIZE_def)
    then have "pmm_inv ?u" using ok(4,5) by (auto simp: pmm_inv_def used_set_def claimed_def)
    then show ?thesis using ok(5) by (simp add: al)
  qed
qed (simp add: pmm_alloc_def pmm_claim_locked_def)

lemma incref_inv:
  assumes "pmm_inv s" and "0 < pmm_get_ref addr s"
  shows "pmm_inv (pmm_incref addr s)"
proof (cases "pmm_page_of s addr")
  case (Some p)
  then have "g_rc s p \<noteq> 0" using assms(2) by (auto simp: pmm_get_ref_def)
  then show ?thesis using incref_spec [OF assms(1) Some] assms(1) Some
    by (cases "g_rc s p < 0xffff") (simp_all add: pmm_incref_def)
qed (use assms in \<open>simp add: pmm_incref_def\<close>)

lemma pmm_step_inv: "pmm_step s t \<Longrightarrow> pmm_inv s \<Longrightarrow> pmm_inv t"
proof (induction rule: pmm_step.induct)
  case (release s pa n)
  show ?case by (intro release_inv release.prems) (blast intro: release.hyps)
next
  case (rebind s f)
  then show ?case by (simp add: pmm_core_rebind_def pmm_bind_locked_def pmm_inv_def used_set_def pmm_test_def)
qed (simp_all add: alloc_inv pmm_free_inv incref_inv claim_inv reserve_page_inv mark_used_inv
      mark_free_inv take_scan_stat_inv)

lemma pmm_reachable_inv_aux: "pmm_reachable s \<Longrightarrow> pmm_inv s"
  by (induction rule: pmm_reachable.induct) (auto intro: setup_inv pmm_step_inv)

section \<open>Properties of the allocator\<close>

text \<open>C2. Allocation is sound and complete. For a positive page count, \<open>pmm_alloc\<close> succeeds exactly
  when some run of that many free pages exists anywhere in the managed range, although the search
  starts at the next-fit origin: it then returns the non-zero address of a run that was free, marks
  exactly that run used with reference count 1, adds its length to \<open>g_used\<close> and changes no other
  page. Otherwise it returns 0 and no page changes.\<close>

theorem pmm_alloc_correct:
  assumes "pmm_inv s" and "null_reserved s" and "0 < n" and "pmm_alloc n s = (pa, t)"
  shows "if \<exists>a. a + n \<le> g_pages s \<and> free_run s a n
    then \<exists>st. pa = g_base_pa s + st * PAGE_SIZE \<and> pa \<noteq> 0 \<and> st + n \<le> g_pages s \<and> free_run s st n \<and>
        (\<forall>q. pmm_test t q \<longleftrightarrow> (st \<le> q \<and> q < st + n) \<or> pmm_test s q) \<and>
        (\<forall>p. g_rc t p = (if st \<le> p \<and> p < st + n then 1 else g_rc s p)) \<and>
        g_used t = g_used s + n
    else pa = 0 \<and> same_pages s t"
  using assms(1,3,2,4)
proof (cases rule: alloc_cases)
  case fail
  then show ?thesis by auto
next
  case (ok st)
  then have "\<exists>a. a + n \<le> g_pages s \<and> free_run s a n" by blast
  with ok show ?thesis by (auto intro!: exI [of _ st])
qed

text \<open>C35. Freeing what was just allocated restores the allocator: bitmap, reference counts and the
  number of used pages are those from before the allocation.\<close>

theorem pmm_alloc_free_roundtrip:
  assumes "pmm_inv s" and "null_reserved s" and "0 < n" and "pmm_alloc n s = (pa, t)" and "pa \<noteq> 0"
    and "u = pmm_free pa n t"
  shows "g_used u = g_used s \<and> (\<forall>p < g_pages s. pmm_test u p = pmm_test s p \<and> g_rc u p = g_rc s p)"
  using assms(1,3,2,4)
proof (cases rule: alloc_cases)
  case fail
  then show ?thesis using assms(5) by simp
next
  case (ok st)
  have u: "dropped t {st..<st + n} u"
    using pmm_free_range [OF ok(10), of st n] ok(3) assms(6) by (simp add: ok(1,5,6))
  have "{q \<in> {st..<st + n}. g_rc t q = 1} = {st..<st + n}" using ok(9) by auto
  moreover have "g_rc s p = 0" if "st \<le> p" "p < st + n" for p
    using that ok(3,4) assms(1) unfolding pmm_inv_def free_run_def by (meson less_le_trans)
  moreover have "\<not> pmm_test s p" if "st \<le> p" "p < st + n" for p
    using that ok(4) by (simp add: free_run_def)
  ultimately show ?thesis using u ok(7,8,9) by (auto simp: dropped_def)
qed

lemma free_pages_once:
  assumes "pmm_inv s" "pmm_page_of s pa = Some p" "pa < 2 ^ 64"
  shows "pmm_inv (pmm_free pa 1 s) \<and> dropped s {p} (pmm_free pa 1 s)"
  using free_step_spec [of s pa 0 p] assms by (simp add: pmm_free_def add64_nowrap)

lemma free_iterate:
  assumes inv: "pmm_inv s" and pg: "pmm_page_of s pa = Some p" and pa: "pa < 2 ^ 64" and k: "k < unat (g_rc s p)"
  shows "pmm_inv ((pmm_free pa 1 ^^ k) s) \<and> pmm_page_of ((pmm_free pa 1 ^^ k) s) = pmm_page_of s \<and>
    unat (g_rc ((pmm_free pa 1 ^^ k) s) p) = unat (g_rc s p) - k \<and> pmm_test ((pmm_free pa 1 ^^ k) s) p"
  using k
proof (induction k)
  case 0
  have "g_rc s p \<noteq> 0" using 0 by auto
  then show ?case using inv pg by (auto simp: pmm_inv_def dest: page_of_Some)
next
  case (Suc k)
  let ?u = "(pmm_free pa 1 ^^ k) s"
  from Suc have u: "pmm_inv ?u" "pmm_page_of ?u = pmm_page_of s"
      "unat (g_rc ?u p) = unat (g_rc s p) - k" "pmm_test ?u p" by simp_all
  have big: "1 < unat (g_rc ?u p)" using u(3) Suc.prems by simp
  then have ne: "g_rc ?u p \<noteq> 0" "g_rc ?u p \<noteq> 1" by auto
  have step: "pmm_inv (pmm_free pa 1 ?u)" "dropped ?u {p} (pmm_free pa 1 ?u)"
    using free_pages_once [OF u(1), of pa p] u(2) pg pa by simp_all
  have "unat (g_rc ?u p - 1) = unat (g_rc ?u p) - 1"
    using ne(1) by (simp add: unat_minus_one)
  with step ne u show ?case
    using page_of_frame [of "pmm_free pa 1 ?u" ?u] by (simp add: dropped_def)
qed

text \<open>C37. Reference counts are exact: a page with \<open>r\<close> references stays marked in use through
  the first \<open>r - 1\<close> calls of \<open>pmm_free\<close>, and the \<open>r\<close>-th call is the one that releases it.\<close>

theorem pmm_free_last_reference:
  assumes "pmm_inv s" and "pmm_page_of s pa = Some p" and "pa < 2 ^ 64" and "unat (g_rc s p) = Suc r"
  shows "(\<forall>k \<le> r. pmm_test ((pmm_free pa 1 ^^ k) s) p \<and> unat (g_rc ((pmm_free pa 1 ^^ k) s) p) = Suc r - k) \<and>
    \<not> pmm_test ((pmm_free pa 1 ^^ Suc r) s) p \<and> g_rc ((pmm_free pa 1 ^^ Suc r) s) p = 0 \<and>
    g_used ((pmm_free pa 1 ^^ Suc r) s) + 1 = g_used ((pmm_free pa 1 ^^ r) s)"
proof -
  let ?u = "(pmm_free pa 1 ^^ r) s"
  have all: "pmm_test ((pmm_free pa 1 ^^ k) s) p \<and> unat (g_rc ((pmm_free pa 1 ^^ k) s) p) = Suc r - k"
    if "k \<le> r" for k using free_iterate [OF assms(1,2,3), of k] that assms(4) by simp
  have u: "pmm_inv ?u" "pmm_page_of ?u pa = Some p" "unat (g_rc ?u p) = 1"
    using free_iterate [OF assms(1,2,3), of r] assms(2,4) by simp_all
  then have rc1: "g_rc ?u p = 1" by (simp add: word_unat_eq_iff)
  have "dropped ?u {p} (pmm_free pa 1 ?u)" using free_pages_once [OF u(1,2) assms(3)] by simp
  moreover have "{q \<in> {p}. g_rc ?u q = 1} = {p}" using rc1 by auto
  ultimately show ?thesis using all rc1 by (auto simp: dropped_def)
qed


section \<open>Witnesses\<close>

text \<open>A small range of four pages at 4 MiB whose first page is reserved.\<close>

definition pmm_ex :: pmm where
  "pmm_ex = \<lparr>g_base_pa = 4194304, g_pages = 4, g_used = 1, g_bitmap_pa = 0, g_refcount_pa = 0,
     g_next_page = 0, g_bm_ptr = 0, g_rc_ptr = 0, g_bm = (\<lambda>_. 0xf1), g_rc = (\<lambda>p. if p = 0 then 2 else 0),
     g_scan_pages = 0, g_claim_calls = 0, g_claim_wrap = 0\<rparr>"

lemma pmm_ex_fields [simp]:
  "g_base_pa pmm_ex = 4194304" "g_pages pmm_ex = 4" "g_used pmm_ex = 1" "g_next_page pmm_ex = 0"
  "g_rc pmm_ex p = (if p = 0 then 2 else 0)"
  by (simp_all add: pmm_ex_def)

lemma pmm_ex_test: "p < 4 \<Longrightarrow> pmm_test pmm_ex p \<longleftrightarrow> p = 0"
proof -
  assume "p < 4"
  then consider "p = 0" | "p = 1" | "p = 2" | "p = 3" by linarith
  then show ?thesis by cases (simp_all add: pmm_ex_def pmm_test_def)
qed

lemma pmm_ex_inv: "pmm_inv pmm_ex"
proof -
  have "used_set pmm_ex = {0}" by (rule set_eqI) (auto simp: used_set_def pmm_ex_test)
  moreover have "\<forall>p < g_pages pmm_ex. g_rc pmm_ex p \<noteq> 0 \<longrightarrow> pmm_test pmm_ex p"
    by (auto simp: pmm_ex_test)
  ultimately show ?thesis by (simp add: pmm_inv_def PAGE_SIZE_def)
qed

lemma pmm_ex_run: "2 + 2 \<le> g_pages pmm_ex \<and> free_run pmm_ex 2 2"
  by (simp add: free_run_def pmm_ex_test)

lemma pmm_ex_scan: "scan_loop (pmm_ex\<lparr>g_claim_calls := c, g_scan_pages := d\<rparr>) 4 2 0 0 0 = Some (1, 2)"
  by (simp add: scan_loop.simps pmm_test_def pmm_ex_def)

lemma pmm_ex_alloc: "fst (pmm_alloc 2 pmm_ex) = 4198400"
  using pmm_ex_scan
  by (simp add: pmm_alloc_def pmm_claim_locked_def pmm_scan_locked_def Let_def PMM_BIG_PAGES_def
      add64_def PAGE_SIZE_def split: prod.split)

theorem pmm_alloc_correct_witness:
  "pmm_inv pmm_ex \<and> null_reserved pmm_ex \<and>
   (\<exists>st. 4198400 = g_base_pa pmm_ex + st * PAGE_SIZE \<and> st + 2 \<le> g_pages pmm_ex \<and> free_run pmm_ex st 2 \<and>
     g_used (snd (pmm_alloc 2 pmm_ex)) = 3)"
proof -
  have n: "null_reserved pmm_ex" by (simp add: null_reserved_def pmm_ex_def)
  have al: "pmm_alloc 2 pmm_ex = (4198400, snd (pmm_alloc 2 pmm_ex))"
    using pmm_ex_alloc by (metis prod.collapse)
  have "g_used pmm_ex = 1" by (simp add: pmm_ex_def)
  then show ?thesis
    using pmm_alloc_correct [OF pmm_ex_inv n _ al] pmm_ex_run pmm_ex_inv n by (auto split: if_splits)
qed

theorem pmm_alloc_free_roundtrip_witness:
  "g_used (pmm_free 4198400 2 (snd (pmm_alloc 2 pmm_ex))) = 1"
proof -
  have n: "null_reserved pmm_ex" by (simp add: null_reserved_def pmm_ex_def)
  have al: "pmm_alloc 2 pmm_ex = (4198400, snd (pmm_alloc 2 pmm_ex))"
    using pmm_ex_alloc by (metis prod.collapse)
  have "g_used pmm_ex = 1" by (simp add: pmm_ex_def)
  then show ?thesis
    using pmm_alloc_free_roundtrip [OF pmm_ex_inv n _ al _ refl] by simp
qed

theorem pmm_free_last_reference_witness:
  "pmm_test ((pmm_free 4194304 1 ^^ 1) pmm_ex) 0 \<and> \<not> pmm_test ((pmm_free 4194304 1 ^^ 2) pmm_ex) 0"
proof -
  have pg: "pmm_page_of pmm_ex 4194304 = Some 0" by (simp add: pmm_page_of_def pmm_ex_def)
  have rc: "unat (g_rc pmm_ex 0) = Suc 1" by (simp add: pmm_ex_def)
  have "(4194304::nat) < 2 ^ 64" by simp
  from pmm_free_last_reference [OF pmm_ex_inv pg this rc] show ?thesis
    by (metis One_nat_def Suc_1 order_refl)
qed


end
