(* ===== verification/Vm.thy ===== *)
theory Vm
  imports Pmm
begin

text \<open>
  Virtual memory on x86-64: the page tables of \<open>kernel/x86_64/vmm.c\<close> with the interface of
  \<open>include/x86_64/vm.h\<close>, and copy-on-write of \<open>kernel/vm_cow.c\<close>, on top of the page allocator.

  Physical memory is a function from page addresses to pages of 512 words. A pointer to a table is the physical
  address of the table (the direct map of \<open>PHYS_TO_VIRT\<close> and \<open>VIRT_TO_PHYS\<close> is a bijection, and no page of it
  is at the null pointer), a pointer to an entry is the table with an index. A routine that panics (a failed
  \<open>KASSERT\<close>, a store through the null pointer) has no result. Translation caches and instruction caches
  are not modelled: \<open>invlpg\<close>, the reload of \<open>cr3\<close> and \<open>arch_sync_icache_range\<close> do not change the state.
\<close>

unbundle bit_operations_syntax

section \<open>State\<close>

type_synonym page = "nat \<Rightarrow> u64"

record vm =
  pm :: pmm
  mem :: "u64 \<Rightarrow> page"
  kernel_pml4 :: u64

definition vm_alloc :: "nat \<Rightarrow> 'a vm_scheme \<Rightarrow> u64 \<times> 'a vm_scheme" where
  "vm_alloc pages s = (case pmm_alloc pages (pm s) of (pa, p) \<Rightarrow> (of_nat pa, s\<lparr>pm := p\<rparr>))"

definition vm_free :: "u64 \<Rightarrow> nat \<Rightarrow> 'a vm_scheme \<Rightarrow> 'a vm_scheme" where
  "vm_free pa pages s = s\<lparr>pm := pmm_free (unat pa) pages (pm s)\<rparr>"

definition vm_incref :: "u64 \<Rightarrow> 'a vm_scheme \<Rightarrow> 'a vm_scheme" where
  "vm_incref pa s = s\<lparr>pm := pmm_incref (unat pa) (pm s)\<rparr>"

definition vm_ref :: "u64 \<Rightarrow> 'a vm_scheme \<Rightarrow> u16" where
  "vm_ref pa s = pmm_get_ref (unat pa) (pm s)"

definition wr :: "u64 \<Rightarrow> nat \<Rightarrow> u64 \<Rightarrow> 'a vm_scheme \<Rightarrow> 'a vm_scheme" where
  "wr t i v s = s\<lparr>mem := (mem s)(t := (mem s t)(i := v))\<rparr>"

definition zero_page :: "u64 \<Rightarrow> 'a vm_scheme \<Rightarrow> 'a vm_scheme" where
  "zero_page p s = s\<lparr>mem := (mem s)(p := (\<lambda>_. 0))\<rparr>"

definition copy_page :: "u64 \<Rightarrow> u64 \<Rightarrow> 'a vm_scheme \<Rightarrow> 'a vm_scheme" where
  "copy_page dst src s = s\<lparr>mem := (mem s)(dst := mem s src)\<rparr>"

definition page_addr :: "u64 \<Rightarrow> nat \<Rightarrow> u64" where
  "page_addr p k = p + of_nat k * of_nat PAGE_SIZE"

section \<open>Page-table entries\<close>

definition PTE_PRESENT :: u64 where "PTE_PRESENT = push_bit 0 1"
definition PTE_WRITABLE :: u64 where "PTE_WRITABLE = push_bit 1 1"
definition PTE_USER :: u64 where "PTE_USER = push_bit 2 1"
definition PTE_HUGE :: u64 where "PTE_HUGE = push_bit 7 1"
definition PTE_COW :: u64 where "PTE_COW = push_bit 9 1"
definition PTE_NX :: u64 where "PTE_NX = push_bit 63 1"
definition PTE_ADDR_MASK :: u64 where "PTE_ADDR_MASK = 0x000FFFFFFFFFF000"

definition PML4_IDX :: "u64 \<Rightarrow> nat" where "PML4_IDX vaddr = unat (drop_bit 39 vaddr AND 0x1FF)"
definition PDP_IDX :: "u64 \<Rightarrow> nat" where "PDP_IDX vaddr = unat (drop_bit 30 vaddr AND 0x1FF)"
definition PD_IDX :: "u64 \<Rightarrow> nat" where "PD_IDX vaddr = unat (drop_bit 21 vaddr AND 0x1FF)"
definition PT_IDX :: "u64 \<Rightarrow> nat" where "PT_IDX vaddr = unat (drop_bit 12 vaddr AND 0x1FF)"

definition HUGE_PAGE_SIZE :: nat where "HUGE_PAGE_SIZE = 2 * 1024 * 1024"

definition present :: "u64 \<Rightarrow> bool" where "present e \<longleftrightarrow> e AND PTE_PRESENT \<noteq> 0"
definition huge :: "u64 \<Rightarrow> bool" where "huge e \<longleftrightarrow> e AND PTE_HUGE \<noteq> 0"
definition user :: "u64 \<Rightarrow> bool" where "user e \<longleftrightarrow> e AND PTE_USER \<noteq> 0"

definition arch_pte_phys :: "u64 \<Rightarrow> u64" where
  "arch_pte_phys e = e AND PTE_ADDR_MASK"

definition arch_pte_writable :: "u64 \<Rightarrow> bool" where
  "arch_pte_writable e \<longleftrightarrow> e AND PTE_WRITABLE \<noteq> 0"

definition arch_pte_cow :: "u64 \<Rightarrow> bool" where
  "arch_pte_cow e \<longleftrightarrow> e AND PTE_COW \<noteq> 0"

definition arch_pte_mkcow :: "u64 \<Rightarrow> u64" where
  "arch_pte_mkcow e = (e AND NOT PTE_WRITABLE) OR PTE_COW"

definition arch_pte_clear_cow :: "u64 \<Rightarrow> u64" where
  "arch_pte_clear_cow e = e AND NOT PTE_COW"

definition arch_pte_mkwrite :: "u64 \<Rightarrow> u64 \<Rightarrow> u64" where
  "arch_pte_mkwrite e phys = (phys AND PTE_ADDR_MASK) OR (e AND NOT PTE_ADDR_MASK AND NOT PTE_COW) OR PTE_WRITABLE"

definition arch_vm_user_page_flags :: "bool \<Rightarrow> bool \<Rightarrow> u64" where
  "arch_vm_user_page_flags writable executable =
     (let f0 = PTE_PRESENT OR PTE_USER; f1 = (if writable then f0 OR PTE_WRITABLE else f0)
      in if \<not> executable then f1 OR PTE_NX else f1)"

section \<open>Page tables\<close>

definition vmm_page_aligned :: "u64 \<Rightarrow> bool" where
  "vmm_page_aligned phys \<longleftrightarrow> phys AND (of_nat PAGE_SIZE - 1) = 0"

text \<open>The entry of an existing table, with the rights that are added to it.\<close>

definition widen :: "u64 \<Rightarrow> u64 \<Rightarrow> u64" where
  "widen flags e =
     (let e1 = (if flags AND PTE_USER \<noteq> 0 then e OR PTE_USER else e)
      in if flags AND PTE_WRITABLE \<noteq> 0 then e1 OR PTE_WRITABLE else e1)"

definition get_next_level :: "u64 option \<Rightarrow> nat \<Rightarrow> bool \<Rightarrow> u64 \<Rightarrow> 'a vm_scheme \<Rightarrow> (u64 option \<times> 'a vm_scheme) option" where
  "get_next_level table i allocate flags s =
     (case table of None \<Rightarrow> None
      | Some t \<Rightarrow>
          if \<not> i < 512 then None
          else let e = mem s t i in
          if present e then
            if \<not> vmm_page_aligned (e AND PTE_ADDR_MASK) then None
            else if huge e then Some (Some (e AND PTE_ADDR_MASK), s)
            else Some (Some (widen flags e AND PTE_ADDR_MASK), wr t i (widen flags e) s)
          else if \<not> allocate then Some (None, s)
          else (case vm_alloc 1 s of (p, s1) \<Rightarrow>
                  if p = 0 then Some (None, s1)
                  else Some (Some p, wr t i (p OR (PTE_PRESENT OR (flags AND PTE_USER) OR (flags AND PTE_WRITABLE))) (zero_page p s1))))"

definition vmm_map_page :: "u64 \<Rightarrow> u64 \<Rightarrow> u64 \<Rightarrow> u64 \<Rightarrow> 'a vm_scheme \<Rightarrow> 'a vm_scheme option" where
  "vmm_map_page pml4 vaddr paddr flags s =
     (if \<not> vmm_page_aligned paddr then None
      else do { (pdp, s1) \<leftarrow> get_next_level (Some pml4) (PML4_IDX vaddr) True flags s;
                (pd, s2) \<leftarrow> get_next_level pdp (PDP_IDX vaddr) True flags s1;
                (pt, s3) \<leftarrow> get_next_level pd (PD_IDX vaddr) True flags s2;
                t \<leftarrow> pt;
                Some (wr t (PT_IDX vaddr) ((paddr AND PTE_ADDR_MASK) OR flags OR PTE_PRESENT) s3) })"

definition vmm_map_huge_page :: "u64 \<Rightarrow> u64 \<Rightarrow> u64 \<Rightarrow> u64 \<Rightarrow> 'a vm_scheme \<Rightarrow> 'a vm_scheme option" where
  "vmm_map_huge_page pml4 vaddr paddr flags s =
     (if vaddr AND (of_nat HUGE_PAGE_SIZE - 1) \<noteq> 0 \<or> paddr AND (of_nat HUGE_PAGE_SIZE - 1) \<noteq> 0 then None
      else do { (pdp, s1) \<leftarrow> get_next_level (Some pml4) (PML4_IDX vaddr) True flags s;
                (pd, s2) \<leftarrow> get_next_level pdp (PDP_IDX vaddr) True flags s1;
                t \<leftarrow> pd;
                Some (wr t (PD_IDX vaddr) ((paddr AND PTE_ADDR_MASK) OR flags OR PTE_PRESENT OR PTE_HUGE) s2) })"

partial_function (option) map_range_loop :: "u64 \<Rightarrow> u64 \<Rightarrow> u64 \<Rightarrow> u64 \<Rightarrow> u64 \<Rightarrow> u64 \<Rightarrow> 'a vm_scheme \<Rightarrow> 'a vm_scheme option" where
  "map_range_loop pml4 vaddr paddr sz flags cur s =
     (if cur < sz then
        if sz - cur \<ge> of_nat HUGE_PAGE_SIZE \<and> (vaddr + cur) mod of_nat HUGE_PAGE_SIZE = 0 \<and>
           (paddr + cur) mod of_nat HUGE_PAGE_SIZE = 0 then
          do { s1 \<leftarrow> vmm_map_huge_page pml4 (vaddr + cur) (paddr + cur) flags s;
               map_range_loop pml4 vaddr paddr sz flags (cur + of_nat HUGE_PAGE_SIZE) s1 }
        else
          do { s1 \<leftarrow> vmm_map_page pml4 (vaddr + cur) (paddr + cur) flags s;
               map_range_loop pml4 vaddr paddr sz flags (cur + of_nat PAGE_SIZE) s1 }
      else Some s)"

definition vmm_map_range :: "u64 \<Rightarrow> u64 \<Rightarrow> u64 \<Rightarrow> u64 \<Rightarrow> u64 \<Rightarrow> 'a vm_scheme \<Rightarrow> 'a vm_scheme option" where
  "vmm_map_range pml4 vaddr paddr sz flags s = map_range_loop pml4 vaddr paddr sz flags 0 s"

text \<open>\<open>kaddr\<close> is where the boot loader says the kernel is: its virtual and physical base.\<close>

definition vmm_init :: "(u64 \<times> u64) option \<Rightarrow> 'a vm_scheme \<Rightarrow> 'a vm_scheme option" where
  "vmm_init kaddr s =
     (case vm_alloc 1 s of (p, s1) \<Rightarrow>
        do { let s2 = zero_page p (s1\<lparr>kernel_pml4 := p\<rparr>);
             s3 \<leftarrow> vmm_map_range p 0 0 0x100000000 (PTE_PRESENT OR PTE_WRITABLE) s2;
             (case kaddr of None \<Rightarrow> Some s3
              | Some (vb, pb) \<Rightarrow> vmm_map_range p vb pb 0x2000000 (PTE_PRESENT OR PTE_WRITABLE) s3) })"

definition vmm_get_phys :: "u64 \<Rightarrow> u64 \<Rightarrow> 'a vm_scheme \<Rightarrow> u64" where
  "vmm_get_phys pml4 vaddr s =
     (let e4 = mem s pml4 (PML4_IDX vaddr) in
      if \<not> present e4 then 0 else
      let e3 = mem s (e4 AND PTE_ADDR_MASK) (PDP_IDX vaddr) in
      if \<not> present e3 then 0 else
      let e2 = mem s (e3 AND PTE_ADDR_MASK) (PD_IDX vaddr) in
      if huge e2 then (e2 AND PTE_ADDR_MASK) + vaddr mod of_nat HUGE_PAGE_SIZE
      else if \<not> present e2 then 0 else
      let e1 = mem s (e2 AND PTE_ADDR_MASK) (PT_IDX vaddr) in
      if \<not> present e1 then 0 else (e1 AND PTE_ADDR_MASK) + vaddr mod of_nat PAGE_SIZE)"

text \<open>The entry of a 4 KiB page, whether it is present or not.\<close>

definition x86_user_pte :: "u64 \<Rightarrow> u64 \<Rightarrow> 'a vm_scheme \<Rightarrow> (u64 \<times> nat) option" where
  "x86_user_pte pml4 vaddr s =
     (let e4 = mem s pml4 (PML4_IDX vaddr) in
      if \<not> present e4 then None else
      let e3 = mem s (e4 AND PTE_ADDR_MASK) (PDP_IDX vaddr) in
      if \<not> present e3 then None else
      let e2 = mem s (e3 AND PTE_ADDR_MASK) (PD_IDX vaddr) in
      if \<not> present e2 then None else if huge e2 then None
      else Some (e2 AND PTE_ADDR_MASK, PT_IDX vaddr))"

definition pte_at :: "u64 \<times> nat \<Rightarrow> 'a vm_scheme \<Rightarrow> u64" where
  "pte_at l s = mem s (fst l) (snd l)"

definition wr_pte :: "u64 \<times> nat \<Rightarrow> u64 \<Rightarrow> 'a vm_scheme \<Rightarrow> 'a vm_scheme" where
  "wr_pte l v s = wr (fst l) (snd l) v s"

text \<open>A present user leaf and the number of pages it covers.\<close>

definition arch_vm_user_leaf :: "u64 \<Rightarrow> u64 \<Rightarrow> 'a vm_scheme \<Rightarrow> ((u64 \<times> nat) \<times> nat) option" where
  "arch_vm_user_leaf pml4 vaddr s =
     (let e4 = mem s pml4 (PML4_IDX vaddr) in
      if \<not> present e4 then None else
      let e3 = mem s (e4 AND PTE_ADDR_MASK) (PDP_IDX vaddr) in
      if \<not> present e3 then None else
      let pd = e3 AND PTE_ADDR_MASK; e2 = mem s pd (PD_IDX vaddr) in
      if \<not> present e2 then None
      else if huge e2 then (if \<not> user e2 then None else Some ((pd, PD_IDX vaddr), HUGE_PAGE_SIZE div PAGE_SIZE))
      else let pt = e2 AND PTE_ADDR_MASK; e1 = mem s pt (PT_IDX vaddr) in
           if \<not> present e1 \<or> \<not> user e1 then None else Some ((pt, PT_IDX vaddr), 1))"

definition arch_vm_is_user_page :: "u64 \<Rightarrow> u64 \<Rightarrow> 'a vm_scheme \<Rightarrow> bool" where
  "arch_vm_is_user_page pml4 vaddr s =
     (case x86_user_pte pml4 vaddr s of None \<Rightarrow> False | Some l \<Rightarrow> present (pte_at l s) \<and> user (pte_at l s))"

definition arch_vm_get_page_prot :: "u64 \<Rightarrow> u64 \<Rightarrow> 'a vm_scheme \<Rightarrow> (bool \<times> bool) option" where
  "arch_vm_get_page_prot pml4 vaddr s =
     (case x86_user_pte pml4 vaddr s of None \<Rightarrow> None
      | Some l \<Rightarrow> if \<not> present (pte_at l s) then None
                  else Some (pte_at l s AND PTE_WRITABLE \<noteq> 0, pte_at l s AND PTE_NX = 0))"

definition arch_vm_protect_page :: "u64 \<Rightarrow> u64 \<Rightarrow> bool \<Rightarrow> bool \<Rightarrow> 'a vm_scheme \<Rightarrow> 'a vm_scheme" where
  "arch_vm_protect_page pml4 vaddr writable executable s =
     (case x86_user_pte pml4 vaddr s of None \<Rightarrow> s
      | Some l \<Rightarrow>
          if \<not> present (pte_at l s) then s
          else let e0 = pte_at l s AND NOT (PTE_WRITABLE OR PTE_NX);
                   e1 = (if writable then e0 OR PTE_WRITABLE else e0);
                   e2 = (if \<not> executable then e1 OR PTE_NX else e1)
               in wr_pte l e2 s)"

definition arch_vm_unmap_page :: "u64 \<Rightarrow> u64 \<Rightarrow> 'a vm_scheme \<Rightarrow> 'a vm_scheme" where
  "arch_vm_unmap_page pml4 vaddr s =
     (case x86_user_pte pml4 vaddr s of None \<Rightarrow> s
      | Some l \<Rightarrow> if \<not> present (pte_at l s) then s else wr_pte l 0 s)"

definition arch_vm_update_page_flags :: "u64 \<Rightarrow> u64 \<Rightarrow> u64 \<Rightarrow> 'a vm_scheme \<Rightarrow> 'a vm_scheme option" where
  "arch_vm_update_page_flags pml4 vaddr new_flags s =
     (case x86_user_pte pml4 vaddr s of None \<Rightarrow> Some s
      | Some l \<Rightarrow> if \<not> present (pte_at l s) then Some s
                  else vmm_map_page pml4 vaddr (pte_at l s AND PTE_ADDR_MASK) new_flags s)"

definition arch_vm_create_user_address_space :: "'a vm_scheme \<Rightarrow> u64 \<times> 'a vm_scheme" where
  "arch_vm_create_user_address_space s =
     (case vm_alloc 1 s of (p, s1) \<Rightarrow>
        if p = 0 then (0, s1)
        else (p, fold (\<lambda>i s. wr p i (if i \<ge> 256 then mem s (kernel_pml4 s) i else 0) s) [0..<512] s1))"

section \<open>Copy-on-write\<close>

definition VM_COW_HANDLED :: int where "VM_COW_HANDLED = 0"
definition VM_COW_NOT_COW :: int where "VM_COW_NOT_COW = -1"
definition VM_COW_NOMEM :: int where "VM_COW_NOMEM = -2"

definition vm_cow_page_shared :: "u64 \<Rightarrow> 'a vm_scheme \<Rightarrow> bool" where
  "vm_cow_page_shared phys s \<longleftrightarrow> vm_ref phys s > 1"

definition vm_cow_share_leaf :: "u64 \<times> nat \<Rightarrow> nat \<Rightarrow> 'a vm_scheme \<Rightarrow> u64 \<times> 'a vm_scheme" where
  "vm_cow_share_leaf parent_leaf pages s =
     (let e = pte_at parent_leaf s; phys = arch_pte_phys e in
      if vm_ref phys s = 0 then (e, s)
      else let e1 = (if arch_pte_writable e then arch_pte_mkcow e else e);
               s1 = (if arch_pte_writable e then wr_pte parent_leaf e1 s else s)
           in (e1, fold (\<lambda>i. vm_incref (page_addr phys i)) [0..<pages] s1))"

definition vm_cow_write_fault :: "u64 \<Rightarrow> u64 \<Rightarrow> 'a vm_scheme \<Rightarrow> int \<times> 'a vm_scheme" where
  "vm_cow_write_fault as vaddr s =
     (case arch_vm_user_leaf as vaddr s of None \<Rightarrow> (VM_COW_NOT_COW, s)
      | Some (leaf, pages) \<Rightarrow>
          let e = pte_at leaf s in
          if \<not> arch_pte_cow e then
            (if arch_pte_writable e then (VM_COW_HANDLED, s) else (VM_COW_NOT_COW, s))
          else
            let old_phys = arch_pte_phys e in
            if vm_cow_page_shared old_phys s then
              (case vm_alloc pages s of (new_phys, s1) \<Rightarrow>
                 if new_phys = 0 then (VM_COW_NOMEM, s1)
                 else
                   let s2 = fold (\<lambda>k. copy_page (page_addr new_phys k) (page_addr old_phys k)) [0..<pages] s1;
                       s3 = wr_pte leaf (arch_pte_mkwrite e new_phys) s2
                   in (VM_COW_HANDLED, vm_free old_phys pages s3))
            else (VM_COW_HANDLED, wr_pte leaf (arch_pte_mkwrite e old_phys) s))"

definition vm_cow_protect_page :: "u64 \<Rightarrow> u64 \<Rightarrow> bool \<Rightarrow> bool \<Rightarrow> 'a vm_scheme \<Rightarrow> 'a vm_scheme" where
  "vm_cow_protect_page as vaddr writable executable s =
     (case arch_vm_user_leaf as vaddr s of None \<Rightarrow> s
      | Some (leaf, _) \<Rightarrow>
          let cow = writable \<and> (arch_pte_cow (pte_at leaf s) \<or> vm_cow_page_shared (arch_pte_phys (pte_at leaf s)) s);
              s1 = arch_vm_protect_page as vaddr (writable \<and> \<not> cow) executable s
          in case arch_vm_user_leaf as vaddr s1 of None \<Rightarrow> s1
             | Some (leaf1, _) \<Rightarrow>
                 wr_pte leaf1 (if cow then arch_pte_mkcow (pte_at leaf1 s1) else arch_pte_clear_cow (pte_at leaf1 s1)) s1)"

text \<open>The protection as the process sees it; \<^const>\<open>None\<close> for the result -1.\<close>

definition vm_cow_get_page_prot :: "u64 \<Rightarrow> u64 \<Rightarrow> 'a vm_scheme \<Rightarrow> (bool \<times> bool) option" where
  "vm_cow_get_page_prot as vaddr s =
     (case arch_vm_get_page_prot as vaddr s of None \<Rightarrow> None
      | Some (w, x) \<Rightarrow>
          (case arch_vm_user_leaf as vaddr s of None \<Rightarrow> Some (w, x)
           | Some (leaf, _) \<Rightarrow> if arch_pte_cow (pte_at leaf s) then Some (True, x) else Some (w, x)))"

section \<open>Copying and freeing an address space\<close>

definition copy_pt_step :: "u64 \<Rightarrow> u64 \<Rightarrow> nat \<Rightarrow> 'a vm_scheme \<Rightarrow> 'a vm_scheme" where
  "copy_pt_step old new l s =
     (if \<not> present (mem s old l) then wr new l 0 s
      else case vm_cow_share_leaf (old, l) 1 s of (e, s1) \<Rightarrow> wr new l e s1)"

definition copy_pt :: "u64 \<Rightarrow> u64 \<Rightarrow> 'a vm_scheme \<Rightarrow> 'a vm_scheme" where
  "copy_pt old new s = fold (copy_pt_step old new) [0..<512] s"

text \<open>A table for the copy and its entry, with the rights of the entry of the original.\<close>

definition copy_table :: "(u64 \<Rightarrow> u64 \<Rightarrow> 'a vm_scheme \<Rightarrow> 'a vm_scheme) \<Rightarrow> u64 \<Rightarrow> u64 \<Rightarrow> nat \<Rightarrow> 'a vm_scheme \<Rightarrow> 'a vm_scheme" where
  "copy_table f old new i s =
     (case vm_alloc 1 s of (p, s1) \<Rightarrow>
        f (mem s1 old i AND PTE_ADDR_MASK) p (wr new i (p OR (mem s1 old i AND NOT PTE_ADDR_MASK)) s1))"

definition copy_pd_step :: "u64 \<Rightarrow> u64 \<Rightarrow> nat \<Rightarrow> 'a vm_scheme \<Rightarrow> 'a vm_scheme" where
  "copy_pd_step old new k s =
     (if \<not> present (mem s old k) then wr new k 0 s
      else if huge (mem s old k) then
        (case vm_cow_share_leaf (old, k) (HUGE_PAGE_SIZE div PAGE_SIZE) s of (e, s1) \<Rightarrow> wr new k e s1)
      else copy_table copy_pt old new k s)"

definition copy_pd :: "u64 \<Rightarrow> u64 \<Rightarrow> 'a vm_scheme \<Rightarrow> 'a vm_scheme" where
  "copy_pd old new s = fold (copy_pd_step old new) [0..<512] s"

definition copy_pdp_step :: "u64 \<Rightarrow> u64 \<Rightarrow> nat \<Rightarrow> 'a vm_scheme \<Rightarrow> 'a vm_scheme" where
  "copy_pdp_step old new j s =
     (if \<not> present (mem s old j) then wr new j 0 s else copy_table copy_pd old new j s)"

definition copy_pdp :: "u64 \<Rightarrow> u64 \<Rightarrow> 'a vm_scheme \<Rightarrow> 'a vm_scheme" where
  "copy_pdp old new s = fold (copy_pdp_step old new) [0..<512] s"

definition copy_pml4_step :: "u64 \<Rightarrow> u64 \<Rightarrow> nat \<Rightarrow> 'a vm_scheme \<Rightarrow> 'a vm_scheme" where
  "copy_pml4_step old new i s =
     (if \<not> present (mem s old i) then wr new i 0 s else copy_table copy_pdp old new i s)"

definition vmm_copy_pml4 :: "u64 \<Rightarrow> 'a vm_scheme \<Rightarrow> u64 \<times> 'a vm_scheme" where
  "vmm_copy_pml4 old_pml4 s =
     (case vm_alloc 1 s of (p, s1) \<Rightarrow>
        if p = 0 then (0, s1)
        else (p, fold (copy_pml4_step old_pml4 p) [0..<256] (fold (\<lambda>i s. wr p i (mem s old_pml4 i) s) [256..<512] s1)))"

definition arch_vm_clone_address_space :: "u64 \<Rightarrow> 'a vm_scheme \<Rightarrow> u64 \<times> 'a vm_scheme" where
  "arch_vm_clone_address_space as s = vmm_copy_pml4 as s"

text \<open>A loop over the entries of a table whose body may panic.\<close>

fun each_entry :: "(nat \<Rightarrow> 'a vm_scheme \<Rightarrow> 'a vm_scheme option) \<Rightarrow> nat list \<Rightarrow> 'a vm_scheme \<Rightarrow> 'a vm_scheme option" where
  "each_entry f [] s = Some s"
| "each_entry f (i # is) s = do { s1 \<leftarrow> f i s; each_entry f is s1 }"

definition free_leaf :: "u64 \<Rightarrow> nat \<Rightarrow> 'a vm_scheme \<Rightarrow> 'a vm_scheme option" where
  "free_leaf phys pages s = (if \<not> vm_ref phys s > 0 then None else Some (vm_free phys pages s))"

definition free_pt_step :: "u64 \<Rightarrow> nat \<Rightarrow> 'a vm_scheme \<Rightarrow> 'a vm_scheme option" where
  "free_pt_step pt l s =
     (if \<not> present (mem s pt l) then Some s else free_leaf (mem s pt l AND PTE_ADDR_MASK) 1 s)"

definition free_pd_step :: "u64 \<Rightarrow> nat \<Rightarrow> 'a vm_scheme \<Rightarrow> 'a vm_scheme option" where
  "free_pd_step pd k s =
     (if \<not> present (mem s pd k) then Some s
      else if huge (mem s pd k) then free_leaf (mem s pd k AND PTE_ADDR_MASK) 512 s
      else let pt = mem s pd k AND PTE_ADDR_MASK in
           if \<not> vmm_page_aligned pt then None
           else do { s1 \<leftarrow> each_entry (free_pt_step pt) [0..<512] s; Some (vm_free pt 1 s1) })"

definition free_pdp_step :: "u64 \<Rightarrow> nat \<Rightarrow> 'a vm_scheme \<Rightarrow> 'a vm_scheme option" where
  "free_pdp_step pdp j s =
     (if \<not> present (mem s pdp j) then Some s
      else let pd = mem s pdp j AND PTE_ADDR_MASK in
           if \<not> vmm_page_aligned pd then None
           else do { s1 \<leftarrow> each_entry (free_pd_step pd) [0..<512] s; Some (vm_free pd 1 s1) })"

definition free_pml4_step :: "u64 \<Rightarrow> nat \<Rightarrow> 'a vm_scheme \<Rightarrow> 'a vm_scheme option" where
  "free_pml4_step pml4 i s =
     (if \<not> present (mem s pml4 i) then Some s
      else let pdp = mem s pml4 i AND PTE_ADDR_MASK in
           do { s1 \<leftarrow> each_entry (free_pdp_step pdp) [0..<512] s; Some (vm_free pdp 1 s1) })"

definition vmm_free_user_pml4 :: "u64 \<Rightarrow> 'a vm_scheme \<Rightarrow> 'a vm_scheme option" where
  "vmm_free_user_pml4 pml4 s =
     (if pml4 = 0 then Some s
      else if pml4 = kernel_pml4 s \<or> \<not> vmm_page_aligned pml4 then None
      else do { s1 \<leftarrow> each_entry (free_pml4_step pml4) [0..<256] s; Some (vm_free pml4 1 s1) })"

definition arch_vm_destroy_user_address_space :: "u64 \<Rightarrow> 'a vm_scheme \<Rightarrow> 'a vm_scheme option" where
  "arch_vm_destroy_user_address_space as s = vmm_free_user_pml4 as s"

section \<open>Page faults\<close>

text \<open>A fault is handled and the instruction retried, the current task is killed with exit status 139 for
  the given reason, or the machine halts. The stack limits are those of the current task, if there is one.\<close>

datatype fault_result = Fault_retry | Fault_killed string | Fault_halt

definition kill_current_task_on_user_fault :: "bool \<Rightarrow> u64 \<Rightarrow> string \<Rightarrow> fault_result" where
  "kill_current_task_on_user_fault has_task error_code reason =
     (if error_code AND 4 \<noteq> 0 \<and> has_task then Fault_killed reason else Fault_halt)"

definition classify_user_fault_reason :: "(u64 \<times> u64) option \<Rightarrow> u64 \<Rightarrow> u64 \<Rightarrow> string option" where
  "classify_user_fault_reason current error_code fault_vaddr =
     (case current of None \<Rightarrow> None
      | Some (guard, bottom) \<Rightarrow>
          if guard \<noteq> 0 \<and> bottom \<noteq> 0 \<and> fault_vaddr \<ge> guard \<and> fault_vaddr < bottom
          then Some (if error_code AND 2 \<noteq> 0 then ''stack-guard-write'' else ''stack-overflow'') else None)"

definition fault_reason :: "u64 \<Rightarrow> u64 \<Rightarrow> 'a vm_scheme \<Rightarrow> string" where
  "fault_reason pml4 vaddr s =
     (let e4 = mem s pml4 (PML4_IDX vaddr) in
      if \<not> present e4 then ''pml4e-not-present'' else
      let e3 = mem s (e4 AND PTE_ADDR_MASK) (PDP_IDX vaddr) in
      if \<not> present e3 then ''pdpe-not-present'' else
      let e2 = mem s (e3 AND PTE_ADDR_MASK) (PD_IDX vaddr) in
      if \<not> huge e2 \<and> \<not> present e2 then ''pde-not-present'' else ''write-to-nonwritable'')"

definition vmm_page_fault_handler :: "(u64 \<times> u64) option \<Rightarrow> u64 \<Rightarrow> u64 \<Rightarrow> u64 \<Rightarrow> 'a vm_scheme \<Rightarrow> fault_result \<times> 'a vm_scheme" where
  "vmm_page_fault_handler current error_code cr3 fault_vaddr s =
     (let kill = kill_current_task_on_user_fault (current \<noteq> None) error_code in
      case classify_user_fault_reason current error_code fault_vaddr of
        Some reason \<Rightarrow> (kill reason, s)
      | None \<Rightarrow>
          if error_code AND 2 = 0 then (kill ''read/page-not-present'', s)
          else case vm_cow_write_fault (cr3 AND NOT (of_nat PAGE_SIZE - 1)) fault_vaddr s of (rc, s1) \<Rightarrow>
            if rc = VM_COW_HANDLED then (Fault_retry, s1)
            else if rc = VM_COW_NOMEM then (kill ''cow-alloc-failed'', s1)
            else (kill (fault_reason cr3 fault_vaddr s1), s1))"

text \<open>\<open>fb\<close> is the frame buffer the boot loader reports: its address, \<open>pitch\<close> and \<open>height\<close>.\<close>

definition sys_map_framebuffer :: "u64 \<Rightarrow> (u64 \<times> u64 \<times> u64) option \<Rightarrow> u64 option \<Rightarrow> 'a vm_scheme \<Rightarrow> (u64 \<times> 'a vm_scheme) option" where
  "sys_map_framebuffer hhdm_offset fb cr3 s =
     (case (fb, cr3) of
        (Some (address, pitch, height), Some pml4) \<Rightarrow>
          do { let vaddr = 0x1000000000;
               let paddr = (if address \<ge> hhdm_offset then address - hhdm_offset else address);
               let sz = (pitch * height + of_nat PAGE_SIZE - 1) AND NOT (of_nat PAGE_SIZE - 1);
               s1 \<leftarrow> vmm_map_range pml4 vaddr paddr sz (PTE_PRESENT OR PTE_WRITABLE OR PTE_USER) s;
               Some (vaddr, s1) }
      | _ \<Rightarrow> Some (0, s))"

end
