(* ===== verification/Mmap.thy ===== *)
theory Mmap
  imports Vm
begin

text \<open>
  The memory system calls of \<open>kernel/sys_mmap.c\<close>: \<open>mmap\<close>, \<open>munmap\<close>, \<open>mprotect\<close>, \<open>mremap\<close> and \<open>brk\<close>, on
  the page tables of \<open>Vm\<close>, as built for x86-64. The state adds the current task, as far as these calls use it.
  Results that are pointers are 64-bit words, an error being the negated error number. What
  \<open>sys_pread64\<close> stores into a page is a parameter, \<open>pread fd off\<close>, applied to the contents of the page.
\<close>

unbundle bit_operations_syntax

section \<open>State and constants\<close>

datatype file_type = FT_UNUSED | FT_CONSOLE | FT_MODULE | FT_RAMFS | FT_PIPE | FT_SOCKET | FT_USB | FT_XV6FS
  | FT_RAWDEV | FT_CHARDEV | FT_DIR

text \<open>A descriptor, with the type of the open file it refers to, if any.\<close>

record file_descriptor =
  in_use :: bool
  fd_type :: file_type
  fd_file :: "file_type option"

definition fs_fd_type :: "file_descriptor \<Rightarrow> file_type" where
  "fs_fd_type fd = (case fd_file fd of Some ty \<Rightarrow> ty | None \<Rightarrow> fd_type fd)"

record task_mm =
  address_space :: u64
  heap_break :: u64
  mmap_end :: u64
  fds :: "file_descriptor list"

record mm = vm +
  current :: "task_mm option"

definition USER_MMAP_BASE_VADDR :: u64 where "USER_MMAP_BASE_VADDR = 0x0000200000000000"
definition USER_MMAP_TOP_VADDR :: u64 where "USER_MMAP_TOP_VADDR = 0x00007F0000000000"
definition MAX_FDS :: int where "MAX_FDS = 256"
definition LINUX_ESRCH :: int where "LINUX_ESRCH = 3"
definition LINUX_EBADF :: int where "LINUX_EBADF = 9"
definition LINUX_ENOMEM :: int where "LINUX_ENOMEM = 12"
definition LINUX_ENODEV :: int where "LINUX_ENODEV = 19"
definition LINUX_EINVAL :: int where "LINUX_EINVAL = 22"
definition LINUX_ENOSYS :: int where "LINUX_ENOSYS = 38"
definition PROT_READ :: u32 where "PROT_READ = 1"
definition PROT_WRITE :: u32 where "PROT_WRITE = 2"
definition PROT_EXEC :: u32 where "PROT_EXEC = 4"
definition MAP_SHARED :: u32 where "MAP_SHARED = 1"
definition MAP_PRIVATE :: u32 where "MAP_PRIVATE = 2"
definition MAP_FIXED :: u32 where "MAP_FIXED = 0x10"
definition MAP_ANONYMOUS :: u32 where "MAP_ANONYMOUS = 0x20"
definition MREMAP_MAYMOVE_FLAG :: u32 where "MREMAP_MAYMOVE_FLAG = 1"
definition MREMAP_FIXED_FLAG :: u32 where "MREMAP_FIXED_FLAG = 2"

abbreviation page_mask :: u64 where
  "page_mask \<equiv> of_nat PAGE_SIZE - 1"

definition upd_task :: "(task_mm \<Rightarrow> task_mm) \<Rightarrow> mm \<Rightarrow> mm" where
  "upd_task f s = s\<lparr>current := map_option f (current s)\<rparr>"

text \<open>The offsets that a loop from 0 in steps of a page visits below \<open>sz\<close>.\<close>

definition page_offs :: "u64 \<Rightarrow> u64 list" where
  "page_offs sz = map (\<lambda>k. of_nat (k * PAGE_SIZE)) [0..<(unat sz + PAGE_SIZE - 1) div PAGE_SIZE]"

section \<open>Ranges\<close>

definition mmap_err :: "int \<Rightarrow> u64" where
  "mmap_err err = word_of_int (- err)"

definition mmap_align_up :: "u64 \<Rightarrow> u64" where
  "mmap_align_up v = (v + of_nat PAGE_SIZE - 1) AND NOT page_mask"

definition mmap_range_valid :: "u64 \<Rightarrow> u64 \<Rightarrow> bool" where
  "mmap_range_valid vaddr sz =
     (if sz = 0 then False
      else if vaddr AND page_mask \<noteq> 0 then False
      else if vaddr < USER_MMAP_BASE_VADDR then False
      else if vaddr \<ge> USER_MMAP_TOP_VADDR then False
      else if vaddr + sz < vaddr then False
      else if vaddr + sz > USER_MMAP_TOP_VADDR then False
      else True)"

definition mmap_range_unmapped :: "u64 \<Rightarrow> u64 \<Rightarrow> u64 \<Rightarrow> mm \<Rightarrow> bool" where
  "mmap_range_unmapped as base sz s \<longleftrightarrow> list_all (\<lambda>off. vmm_get_phys as (base + off) s = 0) (page_offs sz)"

definition mmap_drop_page :: "u64 \<Rightarrow> u64 \<Rightarrow> mm \<Rightarrow> mm" where
  "mmap_drop_page as vaddr s =
     (let phys = vmm_get_phys as vaddr s; s1 = arch_vm_unmap_page as vaddr s
      in if phys \<noteq> 0 \<and> vmm_get_phys as vaddr s1 = 0 then vm_free (phys AND NOT page_mask) 1 s1 else s1)"

definition mmap_drop_range :: "u64 \<Rightarrow> u64 \<Rightarrow> u64 \<Rightarrow> mm \<Rightarrow> mm" where
  "mmap_drop_range as base sz s = fold (\<lambda>off. mmap_drop_page as (base + off)) (page_offs sz) s"

partial_function (option) find_gap_loop :: "u64 \<Rightarrow> u64 \<Rightarrow> u64 \<Rightarrow> u64 \<Rightarrow> mm \<Rightarrow> u64 option" where
  "find_gap_loop as sz stop base s =
     (if base + sz \<le> stop then
        if mmap_range_unmapped as base sz s then Some base
        else find_gap_loop as sz stop (base + of_nat PAGE_SIZE) s
      else Some 0)"

definition mmap_find_gap_from :: "u64 \<Rightarrow> u64 \<Rightarrow> u64 \<Rightarrow> u64 \<Rightarrow> mm \<Rightarrow> u64 option" where
  "mmap_find_gap_from as sz start stop s =
     (let start1 = (if start < USER_MMAP_BASE_VADDR then USER_MMAP_BASE_VADDR else start)
      in find_gap_loop as sz stop (mmap_align_up start1) s)"

definition mmap_find_gap :: "u64 \<Rightarrow> u64 \<Rightarrow> u64 \<Rightarrow> mm \<Rightarrow> u64 option" where
  "mmap_find_gap as sz hint s =
     (if sz = 0 \<or> sz > USER_MMAP_TOP_VADDR - USER_MMAP_BASE_VADDR then Some 0
      else let hint1 = (if hint < USER_MMAP_BASE_VADDR \<or> hint \<ge> USER_MMAP_TOP_VADDR then USER_MMAP_BASE_VADDR else hint)
      in do { base \<leftarrow> mmap_find_gap_from as sz hint1 USER_MMAP_TOP_VADDR s;
              (if base \<noteq> 0 then Some base
               else if hint1 > USER_MMAP_BASE_VADDR then mmap_find_gap_from as sz USER_MMAP_BASE_VADDR hint1 s
               else Some 0) })"

section \<open>Mapping and unmapping\<close>

definition mmap_can_map_file :: bool where
  "mmap_can_map_file = True"

definition mmap_fill_from_file :: "(int \<Rightarrow> u64 \<Rightarrow> page \<Rightarrow> page) \<Rightarrow> int \<Rightarrow> u64 \<Rightarrow> page \<Rightarrow> page" where
  "mmap_fill_from_file pread fd file_off dest = (if fd < 0 then dest else pread fd file_off dest)"

text \<open>The loop that maps fresh pages; when memory runs out it removes the pages mapped so far.\<close>

fun mmap_pages :: "(u64 \<Rightarrow> page \<Rightarrow> page) \<Rightarrow> u64 \<Rightarrow> u64 \<Rightarrow> u64 \<Rightarrow> u64 \<Rightarrow> u64 list \<Rightarrow> mm \<Rightarrow> (bool \<times> mm) option" where
  "mmap_pages fill as base flags mapped [] s = Some (True, s)"
| "mmap_pages fill as base flags mapped (off # offs) s =
     (case vm_alloc 1 s of (phys, s1) \<Rightarrow>
        if phys = 0 then Some (False, mmap_drop_range as base mapped s1)
        else do { let s2 = zero_page phys s1;
                  let s3 = s2\<lparr>mem := (mem s2)(phys := fill off (mem s2 phys))\<rparr>;
                  s4 \<leftarrow> vmm_map_page as (base + off) phys flags s3;
                  mmap_pages fill as base flags (mapped + of_nat PAGE_SIZE) offs s4 })"

definition fd_ok :: "task_mm \<Rightarrow> int \<Rightarrow> int" where
  "fd_ok t fd =
     (if fd < 0 \<or> fd \<ge> MAX_FDS \<or> \<not> in_use (fds t ! nat fd) then LINUX_EBADF
      else if fs_fd_type (fds t ! nat fd) = FT_PIPE then LINUX_ENODEV
      else if \<not> mmap_can_map_file then LINUX_ENOSYS else 0)"

text \<open>The choice of the base address: an error, or the base with the state after what a fixed mapping replaces.\<close>

definition mmap_base :: "u64 \<Rightarrow> u64 \<Rightarrow> u64 \<Rightarrow> u32 \<Rightarrow> task_mm \<Rightarrow> mm \<Rightarrow> ((int + u64) \<times> mm) option" where
  "mmap_base as addr sz flags t s =
     (let base = mmap_align_up addr in
      if base = 0 \<or> flags AND MAP_FIXED = 0 then
        do { gap \<leftarrow> mmap_find_gap as sz (mmap_end t) s;
             (if gap = 0 then Some (Inl LINUX_ENOMEM, s)
              else Some (Inr gap, upd_task (\<lambda>t. t\<lparr>mmap_end := mmap_align_up (gap + sz)\<rparr>) s)) }
      else if addr \<noteq> base then Some (Inl LINUX_EINVAL, s)
      else if \<not> mmap_range_valid base sz then Some (Inl LINUX_EINVAL, s)
      else if \<not> mmap_range_unmapped as base sz s then Some (Inr base, mmap_drop_range as base sz s)
      else Some (Inr base, s))"

definition sys_mmap :: "(int \<Rightarrow> u64 \<Rightarrow> page \<Rightarrow> page) \<Rightarrow> u64 \<Rightarrow> u64 \<Rightarrow> u32 \<Rightarrow> u32 \<Rightarrow> int \<Rightarrow> int \<Rightarrow> mm \<Rightarrow> (u64 \<times> mm) option" where
  "sys_mmap pread addr len prot flags fd offset s =
     (case current s of None \<Rightarrow> Some (mmap_err LINUX_ESRCH, s)
      | Some t \<Rightarrow>
          if len = 0 then Some (mmap_err LINUX_EINVAL, s)
          else if flags AND (MAP_PRIVATE OR MAP_SHARED) = 0 then Some (mmap_err LINUX_EINVAL, s)
          else if offset < 0 then Some (mmap_err LINUX_EINVAL, s)
          else if offset mod int PAGE_SIZE \<noteq> 0 then Some (mmap_err LINUX_EINVAL, s)
          else let sz = mmap_align_up len in
          if sz = 0 then Some (mmap_err LINUX_EINVAL, s)
          else let as = address_space t; is_anonymous = flags AND MAP_ANONYMOUS \<noteq> 0;
                   err = (if is_anonymous then (if fd \<noteq> -1 \<and> fd \<noteq> 0 then LINUX_EINVAL
                                               else if offset \<noteq> 0 then LINUX_EINVAL else 0)
                          else fd_ok t fd) in
          if err \<noteq> 0 then Some (mmap_err err, s)
          else do { (r, s1) \<leftarrow> mmap_base as addr sz flags t s;
                    (case r of Inl e \<Rightarrow> Some (mmap_err e, s1)
                     | Inr base \<Rightarrow>
                         if \<not> mmap_range_valid base sz then Some (mmap_err LINUX_EINVAL, s1)
                         else do { let map_flags = arch_vm_user_page_flags (prot AND PROT_WRITE \<noteq> 0) (prot AND PROT_EXEC \<noteq> 0);
                                   let fill = (\<lambda>off pg. if is_anonymous then pg
                                                else mmap_fill_from_file pread fd (word_of_int offset + off) pg);
                                   (done, s2) \<leftarrow> mmap_pages fill as base map_flags 0 (page_offs sz) s1;
                                   (if \<not> done then Some (mmap_err LINUX_ENOMEM, s2)
                                    else Some (base, upd_task (\<lambda>t. if base + sz > mmap_end t
                                                                 then t\<lparr>mmap_end := base + sz\<rparr> else t) s2)) }) })"

definition sys_munmap :: "u64 \<Rightarrow> u64 \<Rightarrow> mm \<Rightarrow> int \<times> mm" where
  "sys_munmap addr len s =
     (case current s of None \<Rightarrow> (- LINUX_EINVAL, s)
      | Some t \<Rightarrow>
          if len = 0 then (- LINUX_EINVAL, s)
          else if addr AND page_mask \<noteq> 0 then (- LINUX_EINVAL, s)
          else let sz = mmap_align_up len in
          if \<not> mmap_range_valid addr sz then (- LINUX_EINVAL, s)
          else (0, mmap_drop_range (address_space t) addr sz s))"

definition sys_mprotect :: "u64 \<Rightarrow> u64 \<Rightarrow> u32 \<Rightarrow> mm \<Rightarrow> int \<times> mm" where
  "sys_mprotect addr len prot s =
     (case current s of None \<Rightarrow> (- LINUX_ESRCH, s)
      | Some t \<Rightarrow>
          if addr AND page_mask \<noteq> 0 then (- LINUX_EINVAL, s)
          else if len = 0 then (0, s)
          else let sz = mmap_align_up len; as = address_space t in
          if sz = 0 \<or> addr + sz < addr then (- LINUX_EINVAL, s)
          else if \<not> list_all (\<lambda>off. arch_vm_is_user_page as (addr + off) s) (page_offs sz) then (- LINUX_ENOMEM, s)
          else (0, fold (\<lambda>off. vm_cow_protect_page as (addr + off) (prot AND PROT_WRITE \<noteq> 0) (prot AND PROT_EXEC \<noteq> 0))
                     (page_offs sz) s))"

section \<open>Resizing\<close>

definition mremap_copy :: "u64 \<Rightarrow> u64 \<Rightarrow> u64 \<Rightarrow> u64 \<Rightarrow> mm \<Rightarrow> mm" where
  "mremap_copy as old_base new_base off s =
     (let old_phys = vmm_get_phys as (old_base + off) s; new_phys = vmm_get_phys as (new_base + off) s
      in if old_phys \<noteq> 0 \<and> new_phys \<noteq> 0 then copy_page (new_phys AND NOT page_mask) (old_phys AND NOT page_mask) s else s)"

text \<open>The pages from \<open>new_size\<close> up to \<open>old_size\<close>, both multiples of the page size.\<close>

definition mremap_shrink :: "u64 \<Rightarrow> u64 \<Rightarrow> u64 \<Rightarrow> u64 \<Rightarrow> mm \<Rightarrow> mm" where
  "mremap_shrink as base new_size old_size s =
     fold (\<lambda>off. mmap_drop_page as (base + off)) (filter (\<lambda>off. off \<ge> new_size) (page_offs old_size)) s"

definition mremap_move :: "(int \<Rightarrow> u64 \<Rightarrow> page \<Rightarrow> page) \<Rightarrow> u64 \<Rightarrow> u64 \<Rightarrow> u64 \<Rightarrow> u64 \<Rightarrow> u32 \<Rightarrow> u32 \<Rightarrow> u64 \<Rightarrow> mm \<Rightarrow> (u64 \<times> mm) option" where
  "mremap_move pread as old_base old_size new_size prot flags new_addr s =
     (let fixed = flags AND MREMAP_FIXED_FLAG \<noteq> 0 in
      do { (mapped, s1) \<leftarrow> sys_mmap pread (if fixed then new_addr else 0) new_size prot
             (MAP_PRIVATE OR MAP_ANONYMOUS OR (if fixed then MAP_FIXED else 0)) (-1) 0 s;
           (if sint mapped < 0 \<and> sint mapped > -4096 then Some (mapped, s1)
            else let s2 = fold (mremap_copy as old_base mapped) (filter (\<lambda>off. off < new_size) (page_offs old_size)) s1
                 in Some (mapped, snd (sys_munmap old_base old_size s2))) })"

definition sys_mremap :: "(int \<Rightarrow> u64 \<Rightarrow> page \<Rightarrow> page) \<Rightarrow> u64 \<Rightarrow> u64 \<Rightarrow> u64 \<Rightarrow> u32 \<Rightarrow> u64 \<Rightarrow> mm \<Rightarrow> (u64 \<times> mm) option" where
  "sys_mremap pread old_base old_len new_len flags new_addr s =
     (case current s of None \<Rightarrow> Some (mmap_err LINUX_ESRCH, s)
      | Some t \<Rightarrow>
          if old_base = 0 \<or> old_len = 0 \<or> new_len = 0 then Some (mmap_err LINUX_EINVAL, s)
          else if old_base AND page_mask \<noteq> 0 then Some (mmap_err LINUX_EINVAL, s)
          else if flags AND NOT (MREMAP_MAYMOVE_FLAG OR MREMAP_FIXED_FLAG) \<noteq> 0 then Some (mmap_err LINUX_EINVAL, s)
          else if flags AND MREMAP_FIXED_FLAG \<noteq> 0 \<and> flags AND MREMAP_MAYMOVE_FLAG = 0 then Some (mmap_err LINUX_EINVAL, s)
          else let old_size = mmap_align_up old_len; new_size = mmap_align_up new_len; as = address_space t in
          if \<not> list_all (\<lambda>off. arch_vm_is_user_page as (old_base + off) s) (page_offs old_size)
          then Some (mmap_err LINUX_EINVAL, s)
          else case (case vm_cow_get_page_prot as old_base s of None \<Rightarrow> (True, False) | Some p \<Rightarrow> p) of (writable, executable) \<Rightarrow>
          let prot = PROT_READ OR (if writable then PROT_WRITE else 0) OR (if executable then PROT_EXEC else 0);
              end_addr = old_base + old_size; grow = new_size - old_size in
          if new_size = old_size then Some (old_base, s)
          else if new_size < old_size then Some (old_base, mremap_shrink as old_base new_size old_size s)
          else if mmap_range_valid end_addr grow \<and> mmap_range_unmapped as end_addr grow s then
            do { (done, s1) \<leftarrow> mmap_pages (\<lambda>_ pg. pg) as end_addr (arch_vm_user_page_flags writable executable) 0 (page_offs grow) s;
                 Some (if done then old_base else mmap_err LINUX_ENOMEM, s1) }
          else if flags AND MREMAP_MAYMOVE_FLAG = 0 then Some (mmap_err LINUX_ENOMEM, s)
          else mremap_move pread as old_base old_size new_size prot flags new_addr s)"

section \<open>The heap\<close>

text \<open>The loop of \<open>sys_brk\<close>; \<^const>\<open>False\<close> when memory runs out, the pages mapped so far staying mapped.\<close>

partial_function (option) brk_loop :: "u64 \<Rightarrow> u64 \<Rightarrow> u64 \<Rightarrow> u64 \<Rightarrow> mm \<Rightarrow> (bool \<times> mm) option" where
  "brk_loop as map_flags current_page target_page s =
     (if current_page < target_page then
        (case vm_alloc 1 s of (phys, s1) \<Rightarrow>
           if phys = 0 then Some (False, s1)
           else do { s2 \<leftarrow> vmm_map_page as current_page phys map_flags (zero_page phys s1);
                     brk_loop as map_flags (current_page + of_nat PAGE_SIZE) target_page s2 })
      else Some (True, s))"

definition sys_brk :: "u64 \<Rightarrow> mm \<Rightarrow> (u64 \<times> mm) option" where
  "sys_brk addr s =
     (case current s of None \<Rightarrow> Some (0, s)
      | Some t \<Rightarrow>
          let old_break = heap_break t in
          if addr = 0 \<or> addr \<le> old_break \<or> addr \<ge> USER_MMAP_BASE_VADDR then Some (old_break, s)
          else do { (done, s1) \<leftarrow> brk_loop (address_space t) (arch_vm_user_page_flags True False)
                      (mmap_align_up old_break) (mmap_align_up addr) s;
                    (if \<not> done then Some (old_break, s1)
                     else Some (addr, upd_task (\<lambda>t. t\<lparr>heap_break := addr\<rparr>) s1)) })"

end
