(* ===== verification/RefCount.thy ===== *)
theory RefCount
  imports Prelude
begin

text \<open>
  The contract between the page allocator and its clients: pages with reference counts, and a client that
  accounts for its references. \<open>counted L tgt s\<close> says that the holders \<open>L\<close>, where holder \<open>l\<close> refers to page
  \<open>tgt l\<close>, are covered by the counts. The locale is interpreted on the allocator of the kernel in \<open>VmInv\<close>.
\<close>

definition holders :: "'l set \<Rightarrow> ('l \<Rightarrow> 'p) \<Rightarrow> 'p \<Rightarrow> 'l set" where
  "holders L tgt p = {l \<in> L. tgt l = p}"

lemma holders_upd_in:
  assumes "l \<in> L"
  shows "holders L (tgt(l := q)) p = (if p = q then insert l (holders L tgt p) else holders L tgt p - {l})"
  using assms by (auto simp: holders_def)

lemma holders_upd_new:
  assumes "l \<notin> L"
  shows "holders (insert l L) (tgt(l := q)) p = (if p = q then insert l (holders L tgt p) else holders L tgt p)"
  using assms by (auto simp: holders_def)

lemma holders_Diff: "holders (L - {l}) tgt p = holders L tgt p - {l}"
  by (auto simp: holders_def)

lemma finite_holders [simp]: "finite L \<Longrightarrow> finite (holders L tgt p)"
  by (simp add: holders_def)

locale ref_counted =
  fixes wf :: "'s \<Rightarrow> bool"
    and man :: "'p \<Rightarrow> 's \<Rightarrow> bool"
    and ref :: "'p \<Rightarrow> 's \<Rightarrow> nat"
    and alloc :: "'s \<Rightarrow> 'p option \<times> 's"
    and free :: "'p \<Rightarrow> 's \<Rightarrow> 's"
    and share :: "'p \<Rightarrow> 's \<Rightarrow> 's"
    and limit :: nat
  assumes alloc_man: "alloc s = (r, t) \<Longrightarrow> wf s \<Longrightarrow> wf t \<and> man p t = man p s"
    and alloc_none: "alloc s = (None, t) \<Longrightarrow> wf s \<Longrightarrow> man p s \<Longrightarrow> ref p t = ref p s"
    and alloc_some: "alloc s = (Some q, t) \<Longrightarrow> wf s \<Longrightarrow>
      man q s \<and> ref q s = 0 \<and> (man p s \<longrightarrow> ref p t = (if p = q then 1 else ref p s))"
    and free_man: "wf s \<Longrightarrow> man q s \<Longrightarrow> wf (free q s) \<and> man p (free q s) = man p s"
    and free_ref: "wf s \<Longrightarrow> man q s \<Longrightarrow> man p s \<Longrightarrow> ref p (free q s) = (if p = q then ref p s - 1 else ref p s)"
    and share_man: "wf s \<Longrightarrow> man q s \<Longrightarrow> 0 < ref q s \<Longrightarrow> wf (share q s) \<and> man p (share q s) = man p s"
    and share_ref: "wf s \<Longrightarrow> man q s \<Longrightarrow> man p s \<Longrightarrow> 0 < ref q s \<Longrightarrow> ref q s < limit \<Longrightarrow>
      ref p (share q s) = (if p = q then ref p s + 1 else ref p s)"
begin

definition counted :: "'l set \<Rightarrow> ('l \<Rightarrow> 'p) \<Rightarrow> 's \<Rightarrow> bool" where
  "counted L tgt s \<longleftrightarrow> finite L \<and> (\<forall>p. man p s \<longrightarrow> card (holders L tgt p) \<le> ref p s)"

lemma counted_card: "counted L tgt s \<Longrightarrow> man p s \<Longrightarrow> card (holders L tgt p) \<le> ref p s"
  by (simp add: counted_def)

lemma counted_pos:
  assumes "counted L tgt s" and "man (tgt l) s" and "l \<in> L"
  shows "0 < ref (tgt l) s"
proof -
  have "l \<in> holders L tgt (tgt l)" using assms(3) by (simp add: holders_def)
  moreover have "finite (holders L tgt (tgt l))" using assms(1) by (simp add: counted_def)
  ultimately have "0 < card (holders L tgt (tgt l))" by (auto simp: card_gt_0_iff)
  then show ?thesis using counted_card [OF assms(1,2)] by simp
qed

lemma sole_holder:
  assumes "counted L tgt s" and "man (tgt l) s" and "ref (tgt l) s \<le> 1" and "l \<in> L" and "l' \<in> L" and "tgt l' = tgt l"
  shows "l' = l"
proof (rule ccontr)
  assume ne: "l' \<noteq> l"
  have "{l, l'} \<subseteq> holders L tgt (tgt l)" using assms(4-6) by (simp add: holders_def)
  then have "card {l, l'} \<le> card (holders L tgt (tgt l))"
    using assms(1) by (intro card_mono) (simp_all add: counted_def)
  then show False using counted_card [OF assms(1,2)] assms(3) ne by simp
qed

lemma counted_subset:
  assumes "counted L tgt s" and "L' \<subseteq> L" and "\<And>l. l \<in> L' \<Longrightarrow> tgt' l = tgt l"
  shows "counted L' tgt' s"
proof -
  have "card (holders L' tgt' p) \<le> card (holders L tgt p)" for p
    using assms by (intro card_mono) (auto simp: counted_def holders_def)
  then show ?thesis using assms(1,2) finite_subset unfolding counted_def by (meson le_trans)
qed

lemma fresh_unheld:
  assumes "counted L tgt s" and "wf s" and "alloc s = (Some q, t)"
  shows "holders L tgt q = {}"
proof -
  have "man q s" "ref q s = 0" using alloc_some [OF assms(3,2)] by simp_all
  then have "card (holders L tgt q) = 0" using counted_card [OF assms(1), of q] by simp
  then show ?thesis using assms(1) by (simp add: counted_def)
qed

lemma counted_alloc:
  assumes "counted L tgt s" and "wf s" and "alloc s = (r, t)"
  shows "counted L tgt t"
proof (cases r)
  case None
  have "ref p t = ref p s" if "man p s" for p using alloc_none [of s t p] assms(2,3) None that by simp
  then show ?thesis using assms(1) alloc_man [OF assms(3,2)] by (simp add: counted_def)
next
  case (Some q)
  have "ref p s \<le> ref p t" if "man p s" for p
    using alloc_some [of s q t p] assms(2,3) Some that by auto
  then show ?thesis using assms(1) alloc_man [OF assms(3,2)] unfolding counted_def by (meson le_trans)
qed

lemma counted_new:
  assumes "counted L tgt s" and "wf s" and "alloc s = (Some q, t)" and "l \<notin> L"
  shows "counted (insert l L) (tgt(l := q)) t"
proof -
  have "card (holders (insert l L) (tgt(l := q)) p) \<le> ref p t" if m: "man p t" for p
  proof (cases "p = q")
    case True
    then show ?thesis
      using fresh_unheld [OF assms(1-3)] alloc_some [OF assms(3,2), of p] alloc_man [OF assms(3,2), of p] m
      by (simp add: holders_upd_new [OF assms(4)])
  next
    case False
    have "card (holders L tgt p) \<le> ref p t" using counted_alloc [OF assms(1-3)] m by (simp add: counted_def)
    then show ?thesis using False by (simp add: holders_upd_new [OF assms(4)])
  qed
  then show ?thesis using assms(1) by (simp add: counted_def)
qed

text \<open>A reference that is counted but not yet accounted for gets a holder.\<close>

lemma counted_adopt:
  assumes "counted L tgt s" and "l \<notin> L" and "man q s \<Longrightarrow> card (holders L tgt q) < ref q s"
  shows "counted (insert l L) (tgt(l := q)) s"
proof -
  have "card (holders (insert l L) (tgt(l := q)) p) \<le> ref p s" if m: "man p s" for p
  proof (cases "p = q")
    case True
    have "card (insert l (holders L tgt q)) \<le> Suc (card (holders L tgt q))" by (rule card_insert_le_m1) simp_all
    then show ?thesis using True assms(3) m by (simp add: holders_upd_new [OF assms(2)])
  qed (use counted_card [OF assms(1) m] in \<open>simp add: holders_upd_new [OF assms(2)]\<close>)
  then show ?thesis using assms(1) by (simp add: counted_def)
qed

lemma counted_drop:
  assumes "counted L tgt s" and "wf s" and "l \<in> L" and "man (tgt l) s"
  shows "counted (L - {l}) tgt (free (tgt l) s)"
proof -
  have "card (holders L tgt p - {l}) \<le> ref p (free (tgt l) s)" if m: "man p s" for p
  proof (cases "p = tgt l")
    case True
    have "l \<in> holders L tgt p" using True assms(3) by (simp add: holders_def)
    then show ?thesis using True counted_card [OF assms(1) m] free_ref [OF assms(2,4) m] by simp
  next
    case False
    then have "holders L tgt p - {l} = holders L tgt p" by (auto simp: holders_def)
    then show ?thesis using False counted_card [OF assms(1) m] free_ref [OF assms(2,4) m] by simp
  qed
  then show ?thesis using assms(1) free_man [OF assms(2,4)] by (simp add: counted_def holders_Diff)
qed

text \<open>A holder moves to a fresh page and gives up its reference to the old one.\<close>

lemma counted_move:
  assumes "counted L tgt s" and "wf s" and "alloc s = (Some q, t)" and "l \<in> L" and "man (tgt l) s"
  shows "counted L (tgt(l := q)) (free (tgt l) t)"
proof -
  have wt: "wf t" and mt: "man p t = man p s" for p using alloc_man [OF assms(3,2)] by simp_all
  have "counted (L - {l}) tgt s" using assms(1) by (rule counted_subset) auto
  from counted_new [OF this assms(2,3), of l] have c: "counted (insert l (L - {l})) (tgt(l := q)) t" by simp
  have ne: "tgt l \<noteq> q" using fresh_unheld [OF assms(1-3)] assms(4) by (auto simp: holders_def)
  have "card (holders L (tgt(l := q)) p) \<le> ref p (free (tgt l) t)" if m: "man p t" for p
  proof (cases "p = tgt l")
    case True
    have "l \<in> holders L tgt p" using True assms(4) by (simp add: holders_def)
    moreover have "card (holders L tgt p) \<le> ref p t" using counted_alloc [OF assms(1-3)] m by (simp add: counted_def)
    ultimately show ?thesis
      using True ne free_ref [OF wt _ m, of "tgt l"] mt assms(5) by (simp add: holders_upd_in [OF assms(4)])
  next
    case False
    then show ?thesis
      using counted_card [OF c m] free_ref [OF wt _ m, of "tgt l"] mt assms(4,5) by (simp add: insert_absorb)
  qed
  then show ?thesis using assms(1) free_man [OF wt, of "tgt l"] mt assms(5) by (simp add: counted_def)
qed

lemma counted_share:
  assumes "counted L tgt s" and "wf s" and "l \<notin> L" and "man q s" and "0 < ref q s" and "ref q s < limit"
  shows "counted (insert l L) (tgt(l := q)) (share q s)"
proof -
  have "card (holders (insert l L) (tgt(l := q)) p) \<le> ref p (share q s)" if m: "man p s" for p
  proof -
    have "card (insert l (holders L tgt p)) \<le> Suc (card (holders L tgt p))" by (rule card_insert_le_m1) simp_all
    then show ?thesis
      using counted_card [OF assms(1) m] share_ref [OF assms(2,4) m assms(5,6)] by (auto simp: holders_upd_new [OF assms(3)])
  qed
  then show ?thesis using assms(1) share_man [OF assms(2,4,5)] by (simp add: counted_def)
qed

end

end
