(* ===== verification/VmInv.thy ===== *)
theory VmInv
  imports Vm RefCount
begin

text \<open>
  The invariant of the page tables. The page allocator keeps the contract of \<open>RefCount\<close>; the entries of the
  user halves of the address spaces and their roots are the holders it counts. From the counts follows that
  page tables are never shared and that a page that may be written has one owner.
\<close>

unbundle bit_operations_syntax

section \<open>Bits of an entry\<close>

lemma and_push_bit_0: "n < 64 \<Longrightarrow> (e AND push_bit n 1 = 0) \<longleftrightarrow> \<not> bit e n" for e :: u64
proof
  assume "n < 64" and "e AND push_bit n 1 = 0"
  then have "\<not> bit (e AND push_bit n 1) n" by simp
  then show "\<not> bit e n" using \<open>n < 64\<close> by (simp add: bit_simps)
next
  assume "\<not> bit e n"
  then show "e AND push_bit n 1 = 0" by (intro bit_word_eqI) (auto simp: bit_simps)
qed

lemma pte_bits:
  "present e \<longleftrightarrow> bit e 0" "arch_pte_writable e \<longleftrightarrow> bit e 1" "user e \<longleftrightarrow> bit e 2" "huge e \<longleftrightarrow> bit e 7" "arch_pte_cow e \<longleftrightarrow> bit e 9"
  unfolding present_def arch_pte_writable_def user_def huge_def arch_pte_cow_def
    PTE_PRESENT_def PTE_WRITABLE_def PTE_USER_def PTE_HUGE_def PTE_COW_def
  using and_push_bit_0 [of 0 e] and_push_bit_0 [of 1 e] and_push_bit_0 [of 2 e] and_push_bit_0 [of 7 e] and_push_bit_0 [of 9 e]
  by simp_all

lemma pte_flag_bits:
  "bit PTE_PRESENT n \<longleftrightarrow> n = 0" "bit PTE_WRITABLE n \<longleftrightarrow> n = 1" "bit PTE_USER n \<longleftrightarrow> n = 2" "bit PTE_HUGE n \<longleftrightarrow> n = 7"
  "bit PTE_COW n \<longleftrightarrow> n = 9" "bit PTE_NX n \<longleftrightarrow> n = 63"
  unfolding PTE_PRESENT_def PTE_WRITABLE_def PTE_USER_def PTE_HUGE_def PTE_COW_def PTE_NX_def
  by (simp_all only: bit_push_bit_iff bit_1_iff possible_bit_word) auto

lemma addr_mask: "PTE_ADDR_MASK = push_bit 12 (mask 40)"
  by (simp add: PTE_ADDR_MASK_def mask_eq_exp_minus_1)

lemma bit_addr_mask [simp]: "bit PTE_ADDR_MASK n \<longleftrightarrow> 12 \<le> n \<and> n < 52"
  unfolding addr_mask by (auto simp: bit_simps)

lemma page_mask_eq: "of_nat PAGE_SIZE - 1 = (mask 12 :: u64)"
  by (simp add: PAGE_SIZE_def mask_eq_exp_minus_1)

lemma aligned_bits: "vmm_page_aligned p \<longleftrightarrow> (\<forall>n < 12. \<not> bit p n)"
proof -
  have "vmm_page_aligned p \<longleftrightarrow> take_bit 12 p = 0"
    by (simp add: vmm_page_aligned_def page_mask_eq take_bit_eq_mask and.commute)
  also have "\<dots> \<longleftrightarrow> (\<forall>n < 12. \<not> bit p n)" by (auto simp: bit_eq_iff bit_simps)
  finally show ?thesis .
qed

lemma addr_aligned [simp]: "vmm_page_aligned (e AND PTE_ADDR_MASK)"
  by (simp add: aligned_bits bit_simps)

lemma phys_aligned [simp]: "vmm_page_aligned (arch_pte_phys e)"
  by (simp add: arch_pte_phys_def)

section \<open>The allocator as provider of counted pages\<close>

text \<open>On x86-64 the allocator manages physical memory from address 0, within the 52 bits of an entry, and
  keeps the page at address 0 out of use.\<close>

definition pm_ok :: "'a vm_scheme \<Rightarrow> bool" where
  "pm_ok s \<longleftrightarrow> pmm_inv (pm s) \<and> null_reserved (pm s) \<and> g_rc (pm s) 0 = 0 \<and> g_base_pa (pm s) = 0 \<and> g_pages (pm s) \<le> 2 ^ 40"

definition managed :: "u64 \<Rightarrow> 'a vm_scheme \<Rightarrow> bool" where
  "managed p s \<longleftrightarrow> vmm_page_aligned p \<and> unat p div PAGE_SIZE < g_pages (pm s)"

definition nref :: "u64 \<Rightarrow> 'a vm_scheme \<Rightarrow> nat" where
  "nref p s = unat (vm_ref p s)"

definition alloc_page :: "'a vm_scheme \<Rightarrow> u64 option \<times> 'a vm_scheme" where
  "alloc_page s = (case vm_alloc 1 s of (p, t) \<Rightarrow> (if p = 0 then None else Some p, t))"

lemma aligned_mult: "vmm_page_aligned p \<longleftrightarrow> unat p mod PAGE_SIZE = 0"
proof -
  have "vmm_page_aligned p \<longleftrightarrow> take_bit 12 p = 0"
    by (simp add: vmm_page_aligned_def page_mask_eq take_bit_eq_mask and.commute)
  also have "\<dots> \<longleftrightarrow> unat (take_bit 12 p) = 0" by (simp add: unat_eq_zero)
  finally show ?thesis by (simp add: take_bit_eq_mod PAGE_SIZE_def unat_mod)
qed

lemma page_of_managed:
  "g_base_pa (pm s) = 0 \<Longrightarrow> managed p s \<Longrightarrow> pmm_page_of (pm s) (unat p) = Some (unat p div PAGE_SIZE)"
  by (simp add: pmm_page_of_def managed_def)

lemma nref_managed: "pm_ok s \<Longrightarrow> managed p s \<Longrightarrow> nref p s = unat (g_rc (pm s) (unat p div PAGE_SIZE))"
  by (simp add: nref_def vm_ref_def pmm_get_ref_def page_of_managed pm_ok_def)

lemma page_inj: "vmm_page_aligned p \<Longrightarrow> vmm_page_aligned q \<Longrightarrow> unat p div PAGE_SIZE = unat q div PAGE_SIZE \<longleftrightarrow> p = q"
  unfolding aligned_mult by (metis div_mod_decomp unat_eq_unat)

lemma alloc_page_cases:
  assumes "alloc_page s = (r, t)" and "pm_ok s"
  obtains (none) "r = None" "pm_ok t" "g_rc (pm t) = g_rc (pm s)" "g_pages (pm t) = g_pages (pm s)" "mem t = mem s"
      "kernel_pml4 t = kernel_pml4 s" "vm.more t = vm.more s"
  | (some) q where "r = Some q" "pm_ok t" "managed q s" "q \<noteq> 0" "g_rc (pm s) (unat q div PAGE_SIZE) = 0"
      "g_rc (pm t) = (g_rc (pm s))(unat q div PAGE_SIZE := 1)" "g_pages (pm t) = g_pages (pm s)" "mem t = mem s"
      "kernel_pml4 t = kernel_pml4 s" "vm.more t = vm.more s"
proof -
  obtain pa p where al: "pmm_alloc 1 (pm s) = (pa, p)" by fastforce
  have inv: "pmm_inv (pm s)" "null_reserved (pm s)" and b: "g_base_pa (pm s) = 0" "g_pages (pm s) \<le> 2 ^ 40" "g_rc (pm s) 0 = 0"
    using assms(2) by (simp_all add: pm_ok_def)
  have t: "t = s\<lparr>pm := p\<rparr>" and r: "r = (if of_nat pa = (0 :: u64) then None else Some (of_nat pa))"
    using assms(1) al by (simp_all add: alloc_page_def vm_alloc_def)
  have one: "0 < (1 :: nat)" by simp
  from inv(1) one inv(2) al show thesis
  proof (cases rule: alloc_cases)
    case fail
    have "null_reserved p" using inv(2) fail(2) by (simp add: null_reserved_def same_pages_def)
    then show thesis using fail b by (intro none) (simp_all add: t r pm_ok_def same_pages_def)
  next
    case (ok st)
    have pa: "pa = st * PAGE_SIZE" using ok(1) b by simp
    have st: "st < 2 ^ 40" using ok(3) b by simp
    then have lt: "pa < 2 ^ 64" unfolding pa PAGE_SIZE_def by simp
    then have u: "unat (of_nat pa :: u64) = pa" by (simp add: unat_of_nat)
    then have nz: "of_nat pa \<noteq> (0 :: u64)" using ok(2) by (metis unat_0)
    have d: "unat (of_nat pa :: u64) div PAGE_SIZE = st" using u pa by (simp add: PAGE_SIZE_def)
    have "null_reserved p" using inv(2) ok(5,8) by (simp add: null_reserved_def)
    moreover have "\<not> pmm_test (pm s) st" using ok(4) by (simp add: free_run_def)
    then have "g_rc (pm s) st = 0" using inv(1) ok(3) unfolding pmm_inv_def by (metis Suc_eq_plus1 Suc_le_eq)
    moreover have "g_rc p = (g_rc (pm s))(st := 1)" using ok(9) by (auto simp: fun_eq_iff)
    moreover have "managed (of_nat pa) s"
      using u pa ok(3) by (simp add: managed_def aligned_mult PAGE_SIZE_def)
    moreover have "st \<noteq> 0" using ok(2) pa by auto
    ultimately show thesis
      using ok(5,6,10) b d nz by (intro some [of "of_nat pa"]) (simp_all add: t r pm_ok_def)
  qed
qed

lemma vm_free_1:
  assumes "pm_ok s" and "managed q s"
  shows "pm_ok (vm_free q 1 s)" "g_pages (pm (vm_free q 1 s)) = g_pages (pm s)"
    "g_rc (pm (vm_free q 1 s)) p =
      (if p = unat q div PAGE_SIZE \<and> g_rc (pm s) p \<noteq> 0 then g_rc (pm s) p - 1 else g_rc (pm s) p)"
proof -
  let ?p = "unat q div PAGE_SIZE"
  have b: "g_base_pa (pm s) = 0" using assms(1) by (simp add: pm_ok_def)
  have "unat q < 2 ^ 64" using unsigned_less [of q, where 'a = nat] by simp
  from free_pages_once [OF _ page_of_managed [OF b assms(2)] this]
  have f: "pmm_inv (pmm_free (unat q) 1 (pm s))" "dropped (pm s) {?p} (pmm_free (unat q) 1 (pm s))"
    using assms(1) by (simp_all add: pm_ok_def)
  show "g_pages (pm (vm_free q 1 s)) = g_pages (pm s)"
    "g_rc (pm (vm_free q 1 s)) p = (if p = ?p \<and> g_rc (pm s) p \<noteq> 0 then g_rc (pm s) p - 1 else g_rc (pm s) p)"
    using f(2) by (simp_all add: vm_free_def dropped_def)
  show "pm_ok (vm_free q 1 s)"
    using f assms(1) by (simp add: pm_ok_def vm_free_def dropped_def null_reserved_def)
qed

lemma vm_incref_eq:
  assumes "pm_ok s" and "managed q s" and "0 < nref q s" and "nref q s < 65535"
  shows "vm_incref q s = s\<lparr>pm := rc_set (unat q div PAGE_SIZE) (g_rc (pm s) (unat q div PAGE_SIZE) + 1) (pm s)\<rparr>"
    "pmm_inv (pm (vm_incref q s))"
proof -
  let ?p = "unat q div PAGE_SIZE"
  have b: "g_base_pa (pm s) = 0" "pmm_inv (pm s)" using assms(1) by (simp_all add: pm_ok_def)
  have rc: "g_rc (pm s) ?p < 0xffff" "g_rc (pm s) ?p \<noteq> 0"
    using assms(3,4) nref_managed [OF assms(1,2)] by (auto simp: word_less_nat_alt)
  from incref_spec [OF b(2) page_of_managed [OF b(1) assms(2)] rc]
  show "vm_incref q s = s\<lparr>pm := rc_set ?p (g_rc (pm s) ?p + 1) (pm s)\<rparr>" "pmm_inv (pm (vm_incref q s))"
    by (simp_all add: vm_incref_def, metis)
qed

interpretation pc: ref_counted pm_ok managed nref alloc_page "\<lambda>p. vm_free p 1" vm_incref 65535
proof unfold_locales
  fix s t :: "'a vm_scheme" and r p q
  show "pm_ok t \<and> managed p t = managed p s" if "alloc_page s = (r, t)" "pm_ok s"
    using that by (cases rule: alloc_page_cases) (simp_all add: managed_def)
  show "nref p t = nref p s" if a: "alloc_page s = (None, t)" "pm_ok s" "managed p s"
    using a(1,2)
  proof (cases rule: alloc_page_cases)
    case none
    then show ?thesis using a(2,3) nref_managed [of s p] nref_managed [of t p] by (simp add: managed_def)
  qed simp
  show "managed q s \<and> nref q s = 0 \<and> (managed p s \<longrightarrow> nref p t = (if p = q then 1 else nref p s))"
    if a: "alloc_page s = (Some q, t)" "pm_ok s"
    using a
  proof (cases rule: alloc_page_cases)
    case (some q')
    then show ?thesis using a(2) nref_managed [of s p] nref_managed [of t p] nref_managed [of s q] page_inj [of p q]
      by (auto simp: managed_def)
  qed simp
  show "pm_ok (vm_free q 1 s) \<and> managed p (vm_free q 1 s) = managed p s" if "pm_ok s" "managed q s"
    using vm_free_1 [OF that] by (simp add: managed_def)
  show "nref p (vm_free q 1 s) = (if p = q then nref p s - 1 else nref p s)" if a: "pm_ok s" "managed q s" "managed p s"
    using vm_free_1 [OF a(1,2)] a nref_managed [of s p] nref_managed [of "vm_free q 1 s" p] page_inj [of p q]
    by (auto simp: managed_def unat_minus_one)
  show "pm_ok (vm_incref q s) \<and> managed p (vm_incref q s) = managed p s" if a: "pm_ok s" "managed q s" "0 < nref q s"
  proof (cases "nref q s < 65535")
    case True
    have "unat q div PAGE_SIZE \<noteq> 0"
    proof
      assume "unat q div PAGE_SIZE = 0"
      then show False using a nref_managed [OF a(1,2)] by (simp add: pm_ok_def)
    qed
    then show ?thesis using vm_incref_eq [OF a True] a(1) by (auto simp: pm_ok_def null_reserved_def managed_def)
  next
    case False
    then have "\<not> g_rc (pm s) (unat q div PAGE_SIZE) < 0xffff"
      using nref_managed [OF a(1,2)] by (simp add: word_less_nat_alt)
    then have "vm_incref q s = s"
      using page_of_managed [OF _ a(2)] a(1) by (simp add: vm_incref_def pmm_incref_def pm_ok_def)
    then show ?thesis using a(1) by simp
  qed
  show "nref p (vm_incref q s) = (if p = q then nref p s + 1 else nref p s)"
    if a: "pm_ok s" "managed q s" "managed p s" "0 < nref q s" "nref q s < 65535"
  proof -
    let ?q = "unat q div PAGE_SIZE"
    have lt: "unat (g_rc (pm s) ?q) < 65535" using a(5) nref_managed [OF a(1,2)] by simp
    have "unat (g_rc (pm s) ?q + 1) = unat (g_rc (pm s) ?q) + 1"
      using lt by (simp add: unat_word_ariths)
    moreover have "g_base_pa (pm s) = 0" using a(1) by (simp add: pm_ok_def)
    ultimately show ?thesis
      using vm_incref_eq(1) [OF a(1,2,4,5)] nref_managed [OF a(1,3)] nref_managed [OF a(1,2)] page_inj [of p q] a(2,3)
      by (auto simp: nref_def vm_ref_def pmm_get_ref_def pmm_page_of_def managed_def)
  qed
qed

section \<open>Page-table trees\<close>

text \<open>The table at the end of a path of indices.\<close>

primrec tbl :: "'a vm_scheme \<Rightarrow> u64 \<Rightarrow> nat list \<Rightarrow> u64 option" where
  "tbl s r [] = Some r"
| "tbl s r (i # p) = (if present (mem s r i) \<and> \<not> huge (mem s r i) then tbl s (arch_pte_phys (mem s r i)) p else None)"

lemma tbl_snoc:
  "tbl s r (p @ [i]) = (case tbl s r p of None \<Rightarrow> None
     | Some t \<Rightarrow> if present (mem s t i) \<and> \<not> huge (mem s t i) then Some (arch_pte_phys (mem s t i)) else None)"
  by (induction p arbitrary: r) simp_all

text \<open>Paths of the user half.\<close>

definition upath :: "nat list \<Rightarrow> bool" where
  "upath p \<longleftrightarrow> (\<forall>i \<in> set p. i < 512) \<and> (p \<noteq> [] \<longrightarrow> hd p < 256)"

lemma upath_snoc: "upath (p @ [i]) \<longleftrightarrow> upath p \<and> i < 512 \<and> (p = [] \<longrightarrow> i < 256)"
  by (cases p) (auto simp: upath_def)

lemma upath_Nil [simp]: "upath []"
  by (simp add: upath_def)

datatype holder = Root u64 | Entry u64 nat

fun target :: "'a vm_scheme \<Rightarrow> holder \<Rightarrow> u64" where
  "target s (Root r) = r"
| "target s (Entry t i) = arch_pte_phys (mem s t i)"

definition entries :: "u64 set \<Rightarrow> 'a vm_scheme \<Rightarrow> (u64 \<times> nat) set" where
  "entries A s = {(t, i). \<exists>r \<in> A. \<exists>p. length p \<le> 3 \<and> upath (p @ [i]) \<and> tbl s r p = Some t \<and> present (mem s t i)}"

definition hold :: "u64 set \<Rightarrow> 'a vm_scheme \<Rightarrow> holder set" where
  "hold A s = Root ` A \<union> (\<lambda>(t, i). Entry t i) ` entries A s"

lemma hold_iff [simp]: "Root r \<in> hold A s \<longleftrightarrow> r \<in> A" "Entry t i \<in> hold A s \<longleftrightarrow> (t, i) \<in> entries A s"
  by (auto simp: hold_def)

text \<open>The invariant for the address spaces with roots \<open>A\<close>: the counts cover all entries; a table has one
  reference; 2 MiB pages occur only at their level, are present, map memory outside of the allocator and are not marked; and a
  4 KiB page that may be written has one reference.\<close>

definition vm_ok :: "u64 set \<Rightarrow> 'a vm_scheme \<Rightarrow> bool" where
  "vm_ok A s \<longleftrightarrow> pm_ok s \<and> pc.counted (hold A s) (target s) s \<and>
     (\<forall>r \<in> A. \<forall>p t. length p \<le> 3 \<longrightarrow> upath p \<longrightarrow> tbl s r p = Some t \<longrightarrow> managed t s \<and> nref t s = 1) \<and>
     (\<forall>r \<in> A. \<forall>p t i. length p \<le> 2 \<longrightarrow> upath (p @ [i]) \<longrightarrow> tbl s r p = Some t \<longrightarrow> huge (mem s t i) \<longrightarrow>
        present (mem s t i) \<and> length p = 2 \<and> \<not> arch_pte_cow (mem s t i) \<and> (\<forall>k < 512. \<not> managed (page_addr (arch_pte_phys (mem s t i)) k) s)) \<and>
     (\<forall>r \<in> A. \<forall>p t i. length p = 3 \<longrightarrow> upath (p @ [i]) \<longrightarrow> tbl s r p = Some t \<longrightarrow> present (mem s t i) \<longrightarrow>
        arch_pte_writable (mem s t i) \<longrightarrow> managed (arch_pte_phys (mem s t i)) s \<longrightarrow> nref (arch_pte_phys (mem s t i)) s = 1)"

lemma vm_okD:
  assumes "vm_ok A s"
  shows "pm_ok s" "pc.counted (hold A s) (target s) s"
    "r \<in> A \<Longrightarrow> length p \<le> 3 \<Longrightarrow> upath p \<Longrightarrow> tbl s r p = Some t \<Longrightarrow> managed t s \<and> nref t s = 1"
    "r \<in> A \<Longrightarrow> length p \<le> 2 \<Longrightarrow> upath (p @ [i]) \<Longrightarrow> tbl s r p = Some t \<Longrightarrow> huge (mem s t i) \<Longrightarrow>
      present (mem s t i) \<and> length p = 2 \<and> \<not> arch_pte_cow (mem s t i) \<and> (\<forall>k < 512. \<not> managed (page_addr (arch_pte_phys (mem s t i)) k) s)"
    "r \<in> A \<Longrightarrow> length p = 3 \<Longrightarrow> upath (p @ [i]) \<Longrightarrow> tbl s r p = Some t \<Longrightarrow> present (mem s t i) \<Longrightarrow>
      arch_pte_writable (mem s t i) \<Longrightarrow> managed (arch_pte_phys (mem s t i)) s \<Longrightarrow> nref (arch_pte_phys (mem s t i)) s = 1"
  using assms unfolding vm_ok_def by blast+

lemma entries_step:
  assumes "r \<in> A" and "length p \<le> 2" and "upath (p @ [i])" and "tbl s r p = Some u" and "tbl s r (p @ [i]) = Some t"
  shows "(u, i) \<in> entries A s" "arch_pte_phys (mem s u i) = t"
proof -
  have "present (mem s u i)" "arch_pte_phys (mem s u i) = t" using assms(4,5) by (auto simp: tbl_snoc split: if_splits)
  moreover have "length p \<le> 3" using assms(2) by simp
  ultimately show "(u, i) \<in> entries A s" "arch_pte_phys (mem s u i) = t" using assms(1,3,4) unfolding entries_def by blast+
qed

text \<open>No table is shared: a table determines its address space and its path.\<close>

lemma tbl_unique:
  assumes "vm_ok A s" and "r \<in> A" and "r' \<in> A" and "length p \<le> 3" and "length p' \<le> 3" and "upath p" and "upath p'"
    and "tbl s r p = Some t" and "tbl s r' p' = Some t"
  shows "r' = r \<and> p' = p"
  using assms(4-9)
proof (induction p arbitrary: p' t rule: rev_induct)
  case Nil
  then have t: "t = r" by simp
  show ?case
  proof (cases p' rule: rev_exhaust)
    case (snoc q i)
    with Nil obtain u where u: "tbl s r' q = Some u" by (auto simp: tbl_snoc split: option.splits)
    have "length q \<le> 2" "upath (q @ [i])" "tbl s r' (q @ [i]) = Some r" using Nil snoc t by simp_all
    from entries_step [OF assms(3) this(1,2) u this(3)] have e: "Entry u i \<in> hold A s" "target s (Entry u i) = r" by simp_all
    have "managed r s" "nref r s = 1" using vm_okD(3) [OF assms(1,2), of "[]"] by simp_all
    then have "Entry u i = Root r"
      using pc.sole_holder [OF vm_okD(2) [OF assms(1)], of "Root r" "Entry u i"] e assms(2) by simp
    then show ?thesis by simp
  qed (use Nil t in simp)
next
  case (snoc i p)
  from snoc.prems obtain u where u: "tbl s r p = Some u" by (auto simp: tbl_snoc split: option.splits)
  have p: "length p \<le> 2" "upath p" using snoc.prems by (simp_all add: upath_snoc)
  from entries_step [OF assms(2) p(1) snoc.prems(3) u snoc.prems(5)]
  have e: "Entry u i \<in> hold A s" "target s (Entry u i) = t" by simp_all
  have t: "managed t s" "nref t s = 1" using vm_okD(3) [OF assms(1,2) snoc.prems(1,3,5)] by simp_all
  note sole = pc.sole_holder [OF vm_okD(2) [OF assms(1)], of "Entry u i", unfolded e(2), OF t(1) _ e(1)]
  show ?case
  proof (cases p' rule: rev_exhaust)
    case Nil
    then have "Root t \<in> hold A s" using snoc.prems assms(3) by simp
    then show ?thesis using sole [of "Root t"] t(2) by simp
  next
    case (snoc q j)
    with snoc.prems obtain v where v: "tbl s r' q = Some v" by (auto simp: tbl_snoc split: option.splits)
    have q: "length q \<le> 2" "upath (q @ [j])" "tbl s r' (q @ [j]) = Some t" "upath q"
      using snoc.prems snoc by (simp_all add: upath_snoc)
    from entries_step [OF assms(3) q(1,2) v q(3)] have "Entry v j \<in> hold A s" "target s (Entry v j) = t" by simp_all
    then have "Entry v j = Entry u i" using sole [of "Entry v j"] t(2) by simp
    then have vj: "v = u" "j = i" by simp_all
    have "r' = r \<and> q = p" using snoc.IH [of q u] p q(1,4) u v vj by simp
    then show ?thesis using snoc vj by simp
  qed
qed

end
