(* ===== verification/VmCow.thy ===== *)
theory VmCow
  imports VmInv
begin

text \<open>
  Copy-on-write keeps address spaces apart: what a write fault does to the invariant of \<open>VmInv\<close> and to the
  memory that the processes see.
\<close>

unbundle bit_operations_syntax

section \<open>Only the page allocator matters for the counts\<close>

lemma pm_only:
  assumes "pm t = pm s"
  shows "pm_ok t = pm_ok s" "managed p t = managed p s" "nref p t = nref p s" "pc.counted L tgt t = pc.counted L tgt s"
proof -
  show m: "pm_ok t = pm_ok s" "managed p t = managed p s" "nref p t = nref p s" for p
    using assms by (simp_all add: pm_ok_def managed_def nref_def vm_ref_def)
  then show "pc.counted L tgt t = pc.counted L tgt s" by (simp add: pc.counted_def)
qed

lemma mem_simps [simp]:
  "pm (wr t i v s) = pm s" "mem (wr t i v s) = (mem s)(t := (mem s t)(i := v))"
  "pm (wr_pte l v s) = pm s" "pm (copy_page d c s) = pm s" "mem (copy_page d c s) = (mem s)(d := mem s c)"
  "mem (vm_free q n s) = mem s" "mem (vm_incref q s) = mem s" "pm (zero_page q s) = pm s" "mem (zero_page q s) = (mem s)(q := (\<lambda>_. 0))"
  by (simp_all add: wr_def wr_pte_def copy_page_def vm_free_def vm_incref_def zero_page_def)

lemma mem_wr_pte: "mem (wr_pte (t, i) v s) u j = (if u = t \<and> j = i then v else mem s u j)"
  by (simp add: wr_pte_def)

section \<open>Frame rules for trees\<close>

lemma entriesI:
  "r \<in> A \<Longrightarrow> length p \<le> 3 \<Longrightarrow> upath (p @ [i]) \<Longrightarrow> tbl s r p = Some u \<Longrightarrow> present (mem s u i) \<Longrightarrow> (u, i) \<in> entries A s"
  unfolding entries_def by blast

text \<open>The tables above the last level.\<close>

definition inner :: "u64 set \<Rightarrow> 'a vm_scheme \<Rightarrow> u64 \<Rightarrow> bool" where
  "inner A s u \<longleftrightarrow> (\<exists>r \<in> A. \<exists>p. length p \<le> 2 \<and> upath p \<and> tbl s r p = Some u)"

lemma tbl_frame:
  assumes "\<And>u i. inner A s u \<Longrightarrow> mem t u i = mem s u i" and "r \<in> A" and "length p \<le> 3" and "upath p"
  shows "tbl t r p = tbl s r p"
  using assms(3,4)
proof (induction p rule: rev_induct)
  case (snoc i p)
  then have p: "length p \<le> 2" "upath p" "tbl t r p = tbl s r p" by (simp_all add: upath_snoc)
  show ?case
  proof (cases "tbl s r p")
    case (Some u)
    then have "inner A s u" using p assms(2) by (auto simp: inner_def)
    then show ?thesis using p Some by (simp add: tbl_snoc assms(1))
  qed (use p in \<open>simp add: tbl_snoc\<close>)
qed simp

lemma leaf_table_not_inner:
  assumes "vm_ok A s" and "r \<in> A" and "length p = 3" and "upath p" and "tbl s r p = Some u"
  shows "\<not> inner A s u"
proof
  assume "inner A s u"
  then obtain r' p' where p': "r' \<in> A" "length p' \<le> 2" "upath p'" "tbl s r' p' = Some u" by (auto simp: inner_def)
  have "r' = r \<and> p' = p"
    using tbl_unique [OF assms(1,2) p'(1), of p p' u] assms(3-5) p'(2-4) by simp
  then show False using assms(3) p'(2) by simp
qed

lemma inner_managed: "vm_ok A s \<Longrightarrow> inner A s u \<Longrightarrow> managed u s \<and> nref u s = 1"
proof -
  assume "vm_ok A s" "inner A s u"
  then obtain r p where "r \<in> A" "length p \<le> 2" "upath p" "tbl s r p = Some u" by (auto simp: inner_def)
  then show ?thesis using vm_okD(3) [OF \<open>vm_ok A s\<close>, of r p u] by simp
qed

text \<open>The frame of a leaf is never a table.\<close>

lemma leaf_frame_not_table:
  assumes "vm_ok A s" and "r \<in> A" and "length p = 3" and "upath (p @ [i])" and "tbl s r p = Some u" and "present (mem s u i)"
    and "r' \<in> A" and "length p' \<le> 3" and "upath p'" and "tbl s r' p' = Some v"
  shows "arch_pte_phys (mem s u i) \<noteq> v"
proof
  assume f: "arch_pte_phys (mem s u i) = v"
  have v: "managed v s" "nref v s = 1" using vm_okD(3) [OF assms(1,7-10)] by simp_all
  have up: "upath p" using assms(4) by (simp add: upath_snoc)
  have e: "Entry u i \<in> hold A s" using entriesI [OF assms(2) _ assms(4-6)] assms(3) by simp
  note sole = pc.sole_holder [OF vm_okD(2) [OF assms(1)], of "Entry u i", simplified f target.simps, OF v(1) _ e]
  show False
  proof (cases p' rule: rev_exhaust)
    case Nil
    then show False using sole [of "Root v"] assms(7,10) v(2) by simp
  next
    case (snoc q j)
    then obtain w where w: "tbl s r' q = Some w" using assms(10) by (auto simp: tbl_snoc split: option.splits)
    have q: "length q \<le> 2" "upath (q @ [j])" "tbl s r' (q @ [j]) = Some v" "upath q"
      using assms(8-10) snoc by (simp_all add: upath_snoc)
    from entries_step [OF assms(7) q(1,2) w q(3)] have "Entry w j \<in> hold A s" "target s (Entry w j) = v" by simp_all
    then have "w = u" using sole [of "Entry w j"] v(2) by simp
    then have "inner A s u" using w q assms(7) by (auto simp: inner_def)
    then show False using leaf_table_not_inner [OF assms(1-3) up assms(5)] by simp
  qed
qed

text \<open>A step that changes one leaf entry, which stays present, and memory outside of the tables.\<close>

lemma entries_frame:
  assumes "\<And>r p. r \<in> A \<Longrightarrow> length p \<le> 3 \<Longrightarrow> upath p \<Longrightarrow> tbl t r p = tbl s r p"
    and "\<And>r p u i. r \<in> A \<Longrightarrow> length p \<le> 3 \<Longrightarrow> upath (p @ [i]) \<Longrightarrow> tbl s r p = Some u \<Longrightarrow> present (mem t u i) = present (mem s u i)"
  shows "entries A t = entries A s"
proof -
  have "(\<exists>p. length p \<le> 3 \<and> upath (p @ [i]) \<and> tbl t r p = Some u \<and> present (mem t u i)) \<longleftrightarrow>
      (\<exists>p. length p \<le> 3 \<and> upath (p @ [i]) \<and> tbl s r p = Some u \<and> present (mem s u i))" if "r \<in> A" for r u i
    using assms that by (metis upath_snoc)
  then show ?thesis by (auto simp: entries_def)
qed

lemma vm_ok_leaf_step:
  assumes ok: "vm_ok A s"
    and leaf: "r0 \<in> A" "length p0 = 3" "upath (p0 @ [i0])" "tbl s r0 p0 = Some t0" "present (mem s t0 i0)"
    and mem: "\<And>u j. mem t u j = mem s u j \<or> (u = t0 \<and> j = i0) \<or> u \<in> D"
    and D: "\<And>r p u. r \<in> A \<Longrightarrow> length p \<le> 3 \<Longrightarrow> upath p \<Longrightarrow> tbl s r p = Some u \<Longrightarrow> u \<notin> D"
    and new: "present (mem t t0 i0)"
    and counts: "pm_ok t" "pc.counted (hold A s) ((target s)(Entry t0 i0 := arch_pte_phys (mem t t0 i0))) t"
    and man: "\<And>p. managed p t = managed p s"
    and one: "\<And>p. managed p s \<Longrightarrow> nref p s = 1 \<Longrightarrow> nref p t = 1"
    and excl: "arch_pte_writable (mem t t0 i0) \<Longrightarrow> managed (arch_pte_phys (mem t t0 i0)) s \<Longrightarrow> nref (arch_pte_phys (mem t t0 i0)) t = 1"
  shows "vm_ok A t" "\<And>r p. r \<in> A \<Longrightarrow> length p \<le> 3 \<Longrightarrow> upath p \<Longrightarrow> tbl t r p = tbl s r p"
    "\<And>u i. inner A s u \<Longrightarrow> mem t u i = mem s u i"
proof -
  have up0: "upath p0" using leaf(3) by (simp add: upath_snoc)
  show inner: "mem t u i = mem s u i" if "inner A s u" for u i
  proof -
    have "u \<noteq> t0" using leaf_table_not_inner [OF ok leaf(1,2) up0 leaf(4)] that by blast
    moreover have "u \<notin> D" using that D by (force simp: inner_def)
    ultimately show ?thesis using mem [of u i] by blast
  qed
  show tbl: "tbl t r p = tbl s r p" if "r \<in> A" "length p \<le> 3" "upath p" for r p
    using tbl_frame [of A s t, OF inner that] .
  have slot: "mem t u i = mem s u i \<or> (u = t0 \<and> i = i0)"
    if "r \<in> A" "length p \<le> 3" "upath p" "tbl s r p = Some u" for r p u i
    using mem [of u i] D [OF that] by blast
  have ent: "entries A t = entries A s"
  proof (rule entries_frame [OF tbl])
    fix r p u i assume a: "r \<in> A" "length p \<le> 3" "upath (p @ [i])" "tbl s r p = Some u"
    then have "upath p" by (simp add: upath_snoc)
    from slot [OF a(1,2) this a(4), of i] show "present (mem t u i) = present (mem s u i)" using new leaf(5) by auto
  qed
  then have hold: "hold A t = hold A s" by (simp add: hold_def)
  have "pc.counted (hold A t) (target t) t"
    unfolding hold
  proof (rule pc.counted_subset [OF counts(2) subset_refl])
    fix l assume l: "l \<in> hold A s"
    show "target t l = ((target s)(Entry t0 i0 := arch_pte_phys (mem t t0 i0))) l"
    proof (cases l)
      case (Entry u i)
      then obtain r p where "r \<in> A" "length p \<le> 3" "upath (p @ [i])" "tbl s r p = Some u" using l by (auto simp: entries_def)
      then show ?thesis using slot [of r p u i] Entry by (auto simp: upath_snoc)
    qed simp
  qed
  moreover have "managed u t \<and> nref u t = 1" if "r \<in> A" "length p \<le> 3" "upath p" "tbl t r p = Some u" for r p u
    using that vm_okD(3) [OF ok that(1-3), of u] tbl man one by auto
  moreover have "present (mem t u i) \<and> length p = 2 \<and> \<not> arch_pte_cow (mem t u i) \<and> (\<forall>k < 512. \<not> managed (page_addr (arch_pte_phys (mem t u i)) k) t)"
    if a: "r \<in> A" "length p \<le> 2" "upath (p @ [i])" "tbl t r p = Some u" "huge (mem t u i)" for r p u i
  proof -
    have up: "upath p" and s: "tbl s r p = Some u" using a tbl by (auto simp: upath_snoc)
    then have "inner A s u" using a(1,2) by (auto simp: inner_def)
    then show ?thesis using vm_okD(4) [OF ok a(1-3) s] a(5) man by (simp add: inner)
  qed
  moreover have "nref (arch_pte_phys (mem t u i)) t = 1"
    if a: "r \<in> A" "length p = 3" "upath (p @ [i])" "tbl t r p = Some u" "present (mem t u i)"
      "arch_pte_writable (mem t u i)" "managed (arch_pte_phys (mem t u i)) t" for r p u i
  proof -
    have up: "upath p" and s: "tbl s r p = Some u" using a tbl by (auto simp: upath_snoc)
    from slot [OF a(1) _ up s, of i] a(2) consider "mem t u i = mem s u i" | "u = t0" "i = i0" by auto
    then show ?thesis
    proof cases
      case 1
      then show ?thesis using vm_okD(5) [OF ok a(1-3) s] a(5-7) man one by simp
    next
      case 2
      then show ?thesis using excl a(6,7) man by simp
    qed
  qed
  ultimately show "vm_ok A t" unfolding vm_ok_def using counts(1) by blast
qed

section \<open>What a process sees\<close>

definition vpath :: "u64 \<Rightarrow> nat list" where
  "vpath va = [PML4_IDX va, PDP_IDX va, PD_IDX va]"

text \<open>The contents of the page at a user address.\<close>

definition user_page :: "u64 \<Rightarrow> u64 \<Rightarrow> 'a vm_scheme \<Rightarrow> page option" where
  "user_page r va s =
     (case arch_vm_user_leaf r va s of None \<Rightarrow> None
      | Some (l, n) \<Rightarrow> Some (mem s (page_addr (arch_pte_phys (pte_at l s)) (if n = 1 then 0 else PT_IDX va))))"

definition user_addr :: "u64 \<Rightarrow> bool" where
  "user_addr va \<longleftrightarrow> PML4_IDX va < 256"

lemma idx_less [simp]: "PML4_IDX va < 512" "PDP_IDX va < 512" "PD_IDX va < 512" "PT_IDX va < 512"
proof -
  have "unat (x AND 0x1FF) < 512" for x :: u64
  proof -
    have "x AND 0x1FF = take_bit 9 x" by (simp add: take_bit_eq_mask mask_eq_exp_minus_1)
    then have "unat (x AND 0x1FF) = take_bit 9 (unat x)" by (simp add: unsigned_take_bit_eq)
    then show ?thesis using take_bit_nat_less_exp [of 9 "unat x"] by simp
  qed
  then show "PML4_IDX va < 512" "PDP_IDX va < 512" "PD_IDX va < 512" "PT_IDX va < 512"
    by (simp_all add: PML4_IDX_def PDP_IDX_def PD_IDX_def PT_IDX_def)
qed

lemma upath_vpath [simp]: "user_addr va \<Longrightarrow> upath (vpath va)" "length (vpath va) = 3"
  "user_addr va \<Longrightarrow> upath [PML4_IDX va, PDP_IDX va]" "user_addr va \<Longrightarrow> upath [PML4_IDX va]"
  by (auto simp: vpath_def upath_def user_addr_def)

lemma vpath_not_Nil [simp]: "vpath va \<noteq> []"
  by (simp add: vpath_def)

lemma page_addr_0 [simp]: "page_addr p 0 = p"
  by (simp add: page_addr_def)

text \<open>The walk of \<open>arch_vm_user_leaf\<close>, given that there are no large entries above the page directory.\<close>

lemma user_leaf_tbl:
  assumes "vm_ok A s" and "r \<in> A" and "user_addr va"
  shows "arch_vm_user_leaf r va s = (case tbl s r [PML4_IDX va, PDP_IDX va] of None \<Rightarrow> None | Some pd \<Rightarrow>
    (case tbl s r (vpath va) of
       Some pt \<Rightarrow> if present (mem s pt (PT_IDX va)) \<and> user (mem s pt (PT_IDX va)) then Some ((pt, PT_IDX va), 1) else None
     | None \<Rightarrow> if present (mem s pd (PD_IDX va)) \<and> user (mem s pd (PD_IDX va)) then Some ((pd, PD_IDX va), 512) else None))"
proof -
  let ?e4 = "mem s r (PML4_IDX va)" and ?pdp = "arch_pte_phys (mem s r (PML4_IDX va))"
  have h4: "\<not> huge ?e4" if "present ?e4"
    using vm_okD(4) [OF assms(1,2), of "[]" "PML4_IDX va" r] assms(3) that by (auto simp: upath_def user_addr_def)
  have h3: "\<not> huge (mem s ?pdp (PDP_IDX va))" if "present ?e4" "present (mem s ?pdp (PDP_IDX va))"
    using vm_okD(4) [OF assms(1,2), of "[PML4_IDX va]" "PDP_IDX va" ?pdp] assms(3) that h4 by (auto simp: upath_def user_addr_def)
  show ?thesis
    using h4 h3 by (auto simp: arch_vm_user_leaf_def vpath_def Let_def arch_pte_phys_def [symmetric] HUGE_PAGE_SIZE_def PAGE_SIZE_def)
qed

lemma user_page_tbl:
  assumes "vm_ok A s" and "r \<in> A" and "user_addr va"
  shows "user_page r va s = (case tbl s r [PML4_IDX va, PDP_IDX va] of None \<Rightarrow> None | Some pd \<Rightarrow>
    (case tbl s r (vpath va) of
       Some pt \<Rightarrow> if present (mem s pt (PT_IDX va)) \<and> user (mem s pt (PT_IDX va))
                   then Some (mem s (arch_pte_phys (mem s pt (PT_IDX va)))) else None
     | None \<Rightarrow> if present (mem s pd (PD_IDX va)) \<and> user (mem s pd (PD_IDX va))
                then Some (mem s (page_addr (arch_pte_phys (mem s pd (PD_IDX va))) (PT_IDX va))) else None))"
  by (auto simp: user_page_def user_leaf_tbl [OF assms] pte_at_def split: option.splits)

lemma user_page_frame1:
  assumes ok: "vm_ok A s" "vm_ok A t"
    and tbl: "\<And>r p. r \<in> A \<Longrightarrow> length p \<le> 3 \<Longrightarrow> upath p \<Longrightarrow> tbl t r p = tbl s r p"
    and inner: "\<And>u i. inner A s u \<Longrightarrow> \<not> present (mem s u i) \<or> huge (mem s u i) \<Longrightarrow> mem t u i = mem s u i"
    and leaf: "\<And>u. tbl s r (vpath va) = Some u \<Longrightarrow> present (mem t u (PT_IDX va)) = present (mem s u (PT_IDX va)) \<and>
      user (mem t u (PT_IDX va)) = user (mem s u (PT_IDX va))"
    and frame: "\<And>u. tbl s r (vpath va) = Some u \<Longrightarrow> present (mem s u (PT_IDX va)) \<Longrightarrow>
      mem t (arch_pte_phys (mem t u (PT_IDX va))) = mem s (arch_pte_phys (mem s u (PT_IDX va)))"
    and out: "\<And>q. \<not> managed q s \<Longrightarrow> mem t q = mem s q"
    and a: "r \<in> A" "user_addr va"
  shows "user_page r va t = user_page r va s"
proof (cases "tbl s r [PML4_IDX va, PDP_IDX va]")
  case None
  then show ?thesis using a tbl [OF a(1), of "[PML4_IDX va, PDP_IDX va]"] by (simp add: user_page_tbl [OF ok(1) a] user_page_tbl [OF ok(2) a])
next
  case (Some pd)
  have t2: "tbl t r [PML4_IDX va, PDP_IDX va] = Some pd" using Some a tbl [OF a(1), of "[PML4_IDX va, PDP_IDX va]"] by simp
  have t3: "tbl t r (vpath va) = tbl s r (vpath va)" using a tbl [OF a(1), of "vpath va"] by simp
  show ?thesis
  proof (cases "tbl s r (vpath va)")
    case None
    let ?e = "mem s pd (PD_IDX va)"
    have vp: "[PML4_IDX va, PDP_IDX va] @ [PD_IDX va] = vpath va" by (simp add: vpath_def)
    have h: "\<not> present ?e \<or> huge ?e"
      using None Some tbl_snoc [of s r "[PML4_IDX va, PDP_IDX va]" "PD_IDX va", unfolded vp] by (auto split: if_splits)
    have "inner A s pd" using Some a by (auto simp: inner_def intro!: bexI [of _ r] exI [of _ "[PML4_IDX va, PDP_IDX va]"])
    then have e: "mem t pd (PD_IDX va) = ?e" using h by (rule inner)
    have "present ?e \<Longrightarrow> \<not> managed (page_addr (arch_pte_phys ?e) (PT_IDX va)) s"
      using vm_okD(4) [OF ok(1) a(1) _ _ Some, of "PD_IDX va"] a vp h by simp
    then show ?thesis using Some None t2 t3 e out by (simp add: user_page_tbl [OF ok(1) a] user_page_tbl [OF ok(2) a])
  next
    case (Some pt)
    then show ?thesis
      using leaf [OF Some] frame [OF Some] \<open>tbl s r [PML4_IDX va, PDP_IDX va] = Some pd\<close> t2 t3
      by (simp add: user_page_tbl [OF ok(1) a] user_page_tbl [OF ok(2) a])
  qed
qed

lemma user_page_frame:
  assumes ok: "vm_ok A s" "vm_ok A t"
    and tbl: "\<And>r p. r \<in> A \<Longrightarrow> length p \<le> 3 \<Longrightarrow> upath p \<Longrightarrow> tbl t r p = tbl s r p"
    and inner: "\<And>u i. inner A s u \<Longrightarrow> mem t u i = mem s u i"
    and leaf: "\<And>r p u i. r \<in> A \<Longrightarrow> length p = 3 \<Longrightarrow> upath (p @ [i]) \<Longrightarrow> tbl s r p = Some u \<Longrightarrow>
      present (mem t u i) = present (mem s u i) \<and> user (mem t u i) = user (mem s u i)"
    and frame: "\<And>r p u i. r \<in> A \<Longrightarrow> length p = 3 \<Longrightarrow> upath (p @ [i]) \<Longrightarrow> tbl s r p = Some u \<Longrightarrow> present (mem s u i) \<Longrightarrow>
      mem t (arch_pte_phys (mem t u i)) = mem s (arch_pte_phys (mem s u i))"
    and out: "\<And>q. \<not> managed q s \<Longrightarrow> mem t q = mem s q"
    and a: "r \<in> A" "user_addr va"
  shows "user_page r va t = user_page r va s"
proof (rule user_page_frame1 [OF ok tbl inner _ _ out a])
  fix u assume u: "tbl s r (vpath va) = Some u"
  have up: "upath (vpath va @ [PT_IDX va])" using a by (simp add: upath_snoc)
  show "present (mem t u (PT_IDX va)) = present (mem s u (PT_IDX va)) \<and> user (mem t u (PT_IDX va)) = user (mem s u (PT_IDX va))"
    using leaf [OF a(1) _ up u] by simp
  show "mem t (arch_pte_phys (mem t u (PT_IDX va))) = mem s (arch_pte_phys (mem s u (PT_IDX va)))" if "present (mem s u (PT_IDX va))"
    using frame [OF a(1) _ up u that] by simp
qed simp_all

section \<open>The write fault\<close>

lemma mkwrite_simps:
  "present (arch_pte_mkwrite e f) = present e" "user (arch_pte_mkwrite e f) = user e" "arch_pte_writable (arch_pte_mkwrite e f)"
  "\<not> arch_pte_cow (arch_pte_mkwrite e f)" "arch_pte_phys (arch_pte_mkwrite e f) = f AND PTE_ADDR_MASK"
  unfolding pte_bits arch_pte_mkwrite_def
  by (auto simp: bit_simps pte_flag_bits arch_pte_phys_def intro!: bit_word_eqI)

lemma managed_mask: "pm_ok s \<Longrightarrow> managed q s \<Longrightarrow> q AND PTE_ADDR_MASK = q"
proof -
  assume "pm_ok s" "managed q s"
  then have "unat q div PAGE_SIZE < 2 ^ 40" and al: "vmm_page_aligned q" by (auto simp: pm_ok_def managed_def)
  then have "unat q < 2 ^ 52" by (simp add: PAGE_SIZE_def div_less_iff_less_mult)
  have "n < 52" if "bit q n" for n
  proof (rule ccontr)
    assume "\<not> n < 52"
    then have "(2 :: nat) ^ 52 \<le> 2 ^ n" by (intro power_increasing) simp_all
    then have "unat q div 2 ^ n = 0" using \<open>unat q < 2 ^ 52\<close> by (intro div_less) linarith
    moreover have "odd (unat q div 2 ^ n)" using that by (simp add: bit_unsigned_iff flip: bit_iff_odd)
    ultimately show False by simp
  qed
  then show ?thesis using al by (intro bit_word_eqI) (auto simp: aligned_bits bit_simps not_less)
qed

lemma phys_mask [simp]: "arch_pte_phys e AND PTE_ADDR_MASK = arch_pte_phys e"
  by (simp add: arch_pte_phys_def and.assoc)

lemma alloc_page_eq: "vm_alloc 1 s = (q, t) \<Longrightarrow> alloc_page s = (if q = 0 then None else Some q, t)"
  by (simp add: alloc_page_def)

lemma nref_pos_managed: "pm_ok s \<Longrightarrow> vmm_page_aligned p \<Longrightarrow> 0 < nref p s \<Longrightarrow> managed p s"
  by (auto simp: nref_def vm_ref_def pmm_get_ref_def managed_def pmm_page_of_def pm_ok_def Let_def split: if_splits)

lemma fresh_not_leaf:
  assumes "vm_ok A s" and "alloc_page s = (Some q, t)" and "(u, i) \<in> entries A s"
  shows "arch_pte_phys (mem s u i) \<noteq> q"
proof
  assume "arch_pte_phys (mem s u i) = q"
  then have "Entry u i \<in> holders (hold A s) (target s) q" using assms(3) by (simp add: holders_def)
  then show False using pc.fresh_unheld [OF vm_okD(2,1) [OF assms(1)] assms(2)] by simp
qed

lemma fresh_not_table:
  assumes "vm_ok A s" and "alloc_page s = (Some q, t)" and "r \<in> A" and "length p \<le> 3" and "upath p" and "tbl s r p = Some u"
  shows "u \<noteq> q"
  using vm_okD(3) [OF assms(1,3-6)] pc.alloc_some [OF assms(2) vm_okD(1) [OF assms(1)]] by auto

text \<open>A shared page is copied.\<close>

lemma cow_copy:
  assumes ok: "vm_ok A s" and leaf: "r \<in> A" "length p = 3" "upath (p @ [i])" "tbl s r p = Some u" "present (mem s u i)"
    and f: "f = arch_pte_phys (mem s u i)" "1 < nref f s" and al: "alloc_page s = (Some q, s1)"
    and t: "t = vm_free f 1 (wr_pte (u, i) (arch_pte_mkwrite (mem s u i) q) (copy_page q f s1))"
  shows "vm_ok A t" "\<And>r va. r \<in> A \<Longrightarrow> user_addr va \<Longrightarrow> user_page r va t = user_page r va s"
    "mem t u i = arch_pte_mkwrite (mem s u i) q" "\<And>r p. r \<in> A \<Longrightarrow> length p \<le> 3 \<Longrightarrow> upath p \<Longrightarrow> tbl t r p = tbl s r p"
    "managed q t" "nref q t = 1"
proof -
  note pm = vm_okD(1) [OF ok]
  have mf: "managed f s" using nref_pos_managed [OF pm, of f] f by simp
  from al pm obtain m1: "mem s1 = mem s" by (cases rule: alloc_page_cases) simp_all
  have q: "managed q s" "nref q s = 0" using pc.alloc_some [OF al pm] by simp_all
  have s1: "pm_ok s1" "managed x s1 = managed x s" "managed x s \<Longrightarrow> nref x s1 = (if x = q then 1 else nref x s)" for x
    using pc.alloc_man [OF al pm] pc.alloc_some [OF al pm] by simp_all
  let ?t1 = "vm_free f 1 s1"
  have pt: "pm t = pm ?t1" by (simp add: t vm_free_def)
  have t1: "pm_ok ?t1" "managed x ?t1 = managed x s" "managed x s \<Longrightarrow> nref x ?t1 = (if x = f then nref f s - 1 else if x = q then 1 else nref x s)" for x
    using pc.free_man [OF s1(1), of f] pc.free_ref [OF s1(1), of f x] mf s1 q f(2) by auto
  have up: "upath p" using leaf(3) by (simp add: upath_snoc)
  have nq: "u \<noteq> q" "q \<noteq> f" using fresh_not_table [OF ok al leaf(1) _ up leaf(4)] leaf(2) q f(2) by auto
  have memt: "mem t v j = (if v = u \<and> j = i then arch_pte_mkwrite (mem s u i) q else if v = q then mem s f j else mem s v j)" for v j
    using nq by (simp add: t m1 mem_wr_pte)
  show e: "mem t u i = arch_pte_mkwrite (mem s u i) q" by (simp add: memt)
  have ph: "arch_pte_phys (mem t u i) = q" unfolding e by (simp add: mkwrite_simps managed_mask [OF pm q(1)])
  have in_ent: "(u, i) \<in> entries A s" using entriesI [OF leaf(1) _ leaf(3-5)] leaf(2) by simp
  have "pc.counted (hold A s) ((target s)(Entry u i := q)) ?t1"
    using pc.counted_move [OF vm_okD(2) [OF ok] pm al, of "Entry u i"] in_ent mf f(1) by simp
  then have ct: "pc.counted (hold A s) ((target s)(Entry u i := arch_pte_phys (mem t u i))) t"
    unfolding ph by (simp add: pm_only(4) [OF pt])
  have pres: "present (mem t u i)" using leaf(5) by (simp add: e mkwrite_simps)
  have one: "nref x t = 1" if "managed x s" "nref x s = 1" for x
    using that t1(3) [of x] f(2) q(2) by (auto simp: pm_only(3) [OF pt])
  show mq: "managed q t" "nref q t = 1"
    using t1(2,3) [of q] q(1) nq by (simp_all add: pm_only [OF pt])
  have step: "vm_ok A t" "\<And>r p. r \<in> A \<Longrightarrow> length p \<le> 3 \<Longrightarrow> upath p \<Longrightarrow> tbl t r p = tbl s r p" "\<And>v j. inner A s v \<Longrightarrow> mem t v j = mem s v j"
  proof (rule_tac [!] vm_ok_leaf_step [where D = "{q}", OF ok leaf _ _ pres _ ct])
  qed (use memt fresh_not_table [OF ok al] t1(1,2) one mq ph in \<open>auto simp: pm_only [OF pt]\<close>)
  then show "vm_ok A t" "\<And>r p. r \<in> A \<Longrightarrow> length p \<le> 3 \<Longrightarrow> upath p \<Longrightarrow> tbl t r p = tbl s r p" by simp_all
  show "user_page r' va t = user_page r' va s" if "r' \<in> A" "user_addr va" for r' va
  proof (rule user_page_frame [OF ok step])
    fix r' p' v j assume a: "r' \<in> A" "length p' = 3" "upath (p' @ [j])" "tbl s r' p' = Some v"
    then have "v \<noteq> q" using fresh_not_table [OF ok al a(1), of p' v] by (simp add: upath_snoc)
    then show "present (mem t v j) = present (mem s v j) \<and> user (mem t v j) = user (mem s v j)"
      by (simp add: memt mkwrite_simps)
    assume pr: "present (mem s v j)"
    have fr: "arch_pte_phys (mem s v j) \<noteq> q" "arch_pte_phys (mem s v j) \<noteq> u"
      using fresh_not_leaf [OF ok al, of v j] entriesI [OF a(1) _ a(3,4) pr] a(2) leaf_frame_not_table [OF ok a pr leaf(1) _ up leaf(4)] leaf(2) by auto
    show "mem t (arch_pte_phys (mem t v j)) = mem s (arch_pte_phys (mem s v j))"
    proof (cases "v = u \<and> j = i")
      case True
      then show ?thesis using nq ph f(1) by (simp add: fun_eq_iff memt)
    next
      case False
      then have "mem t v j = mem s v j" using \<open>v \<noteq> q\<close> by (auto simp: memt)
      then show ?thesis using fr by (simp add: fun_eq_iff memt)
    qed
  next
    fix x assume x: "\<not> managed x s"
    have "managed u s" using vm_okD(3) [OF ok leaf(1) _ up leaf(4)] leaf(2) by simp
    then show "mem t x = mem s x" using x q(1) by (auto simp: fun_eq_iff memt)
  qed (use that in auto)
qed

text \<open>An allocation that fails changes nothing that is visible.\<close>

lemma same_mem_pages: "mem t = mem s \<Longrightarrow> user_page r va t = user_page r va s"
  by (simp only: user_page_def arch_vm_user_leaf_def pte_at_def)

lemma tbl_mem: "mem t = mem s \<Longrightarrow> tbl t r p = tbl s r p"
  by (induction p arbitrary: r) simp_all

lemma target_mem: "mem t = mem s \<Longrightarrow> target t = target s"
proof
  fix l assume "mem t = mem s"
  then show "target t l = target s l" by (cases l) simp_all
qed

lemma vm_ok_pm:
  assumes "vm_ok A s" and "mem t = mem s" and "pm_ok t" and "\<And>(L :: holder set) tgt. pc.counted L tgt s \<Longrightarrow> pc.counted L tgt t"
    and "\<And>p. managed p t = managed p s" and "\<And>p. managed p s \<Longrightarrow> nref p s = 1 \<Longrightarrow> nref p t = 1"
  shows "vm_ok A t"
proof -
  have h: "hold A t = hold A s" "target t = target s" by (simp_all add: hold_def entries_def tbl_mem [OF assms(2)] target_mem [OF assms(2)] assms(2))
  note d = vm_okD(3-5) [OF assms(1)]
  show ?thesis
    unfolding vm_ok_def h assms(2) tbl_mem [OF assms(2)] assms(5)
  proof (intro conjI ballI allI impI)
    show "pm_ok t" by (rule assms(3))
    show "pc.counted (hold A s) (target s) t" by (rule assms(4), rule vm_okD(2) [OF assms(1)])
  qed (use d in \<open>simp_all add: assms(6)\<close>)
qed

lemma cow_nomem:
  assumes "vm_ok A s" and "alloc_page s = (None, t)"
  shows "vm_ok A t" "user_page r va t = user_page r va s"
proof -
  note pm = vm_okD(1) [OF assms(1)]
  have m: "mem t = mem s" using assms(2) pm by (cases rule: alloc_page_cases) simp_all
  then show "user_page r va t = user_page r va s" by (rule same_mem_pages)
  show "vm_ok A t"
    using pc.alloc_man [OF assms(2) pm] pc.alloc_none [OF assms(2) pm] pc.counted_alloc [OF _ pm assms(2)]
    by (intro vm_ok_pm [OF assms(1) m]) simp_all
qed

text \<open>The last owner of a page gets it back.\<close>

lemma cow_reuse:
  assumes ok: "vm_ok A s" and leaf: "r \<in> A" "length p = 3" "upath (p @ [i])" "tbl s r p = Some u" "present (mem s u i)"
    and f: "f = arch_pte_phys (mem s u i)" "nref f s \<le> 1"
    and t: "t = wr_pte (u, i) (arch_pte_mkwrite (mem s u i) f) s"
  shows "vm_ok A t" "\<And>r va. r \<in> A \<Longrightarrow> user_addr va \<Longrightarrow> user_page r va t = user_page r va s"
    "mem t u i = arch_pte_mkwrite (mem s u i) f" "\<And>r p. r \<in> A \<Longrightarrow> length p \<le> 3 \<Longrightarrow> upath p \<Longrightarrow> tbl t r p = tbl s r p"
    "managed f t \<Longrightarrow> nref f t = 1"
proof -
  have pt: "pm t = pm s" by (simp add: t)
  have up: "upath p" using leaf(3) by (simp add: upath_snoc)
  have memt: "mem t v j = (if v = u \<and> j = i then arch_pte_mkwrite (mem s u i) f else mem s v j)" for v j
    by (simp add: t mem_wr_pte)
  show e: "mem t u i = arch_pte_mkwrite (mem s u i) f" by (simp add: memt)
  have ph: "arch_pte_phys (mem t u i) = f" unfolding e by (simp add: mkwrite_simps f(1))
  have in_ent: "(u, i) \<in> entries A s" using entriesI [OF leaf(1) _ leaf(3-5)] leaf(2) by simp
  show one: "nref f t = 1" if "managed f t"
    using pc.counted_pos [OF vm_okD(2) [OF ok], of "Entry u i"] that in_ent f by (simp add: pm_only [OF pt])
  have "(target s)(Entry u i := f) = target s" using f(1) by (simp add: fun_upd_idem_iff)
  then have ct: "pc.counted (hold A s) ((target s)(Entry u i := arch_pte_phys (mem t u i))) t"
    unfolding ph using vm_okD(2) [OF ok] by (simp add: pm_only(4) [OF pt])
  have pres: "present (mem t u i)" using leaf(5) by (simp add: e mkwrite_simps)
  have step: "vm_ok A t" "\<And>r p. r \<in> A \<Longrightarrow> length p \<le> 3 \<Longrightarrow> upath p \<Longrightarrow> tbl t r p = tbl s r p" "\<And>v j. inner A s v \<Longrightarrow> mem t v j = mem s v j"
  proof (rule_tac [!] vm_ok_leaf_step [where D = "{}", OF ok leaf _ _ pres _ ct])
  qed (use memt vm_okD(1) [OF ok] one ph in \<open>auto simp: pm_only [OF pt]\<close>)
  then show "vm_ok A t" "\<And>r p. r \<in> A \<Longrightarrow> length p \<le> 3 \<Longrightarrow> upath p \<Longrightarrow> tbl t r p = tbl s r p" by simp_all
  show "user_page r' va t = user_page r' va s" if "r' \<in> A" "user_addr va" for r' va
  proof (rule user_page_frame [OF ok step])
    fix r' p' v j assume a: "r' \<in> A" "length p' = 3" "upath (p' @ [j])" "tbl s r' p' = Some v"
    show "present (mem t v j) = present (mem s v j) \<and> user (mem t v j) = user (mem s v j)" by (simp add: memt mkwrite_simps)
    assume pr: "present (mem s v j)"
    have "arch_pte_phys (mem s v j) \<noteq> u" using leaf_frame_not_table [OF ok a pr leaf(1) _ up leaf(4)] leaf(2) by simp
    moreover have "arch_pte_phys (mem t v j) = arch_pte_phys (mem s v j)" using ph f(1) by (auto simp: memt)
    ultimately show "mem t (arch_pte_phys (mem t v j)) = mem s (arch_pte_phys (mem s v j))" by (simp add: fun_eq_iff memt)
  next
    fix x assume x: "\<not> managed x s"
    have "managed u s" using vm_okD(3) [OF ok leaf(1) _ up leaf(4)] leaf(2) by simp
    then show "mem t x = mem s x" using x by (auto simp: fun_eq_iff memt)
  qed (use that in auto)
qed

section \<open>Stores by a process\<close>

text \<open>The store of a word to a user address: through a writable leaf.\<close>

definition user_store :: "u64 \<Rightarrow> u64 \<Rightarrow> nat \<Rightarrow> u64 \<Rightarrow> 'a vm_scheme \<Rightarrow> 'a vm_scheme option" where
  "user_store r va w v s =
     (case arch_vm_user_leaf r va s of None \<Rightarrow> None
      | Some (l, n) \<Rightarrow> if arch_pte_writable (pte_at l s)
                       then Some (wr (page_addr (arch_pte_phys (pte_at l s)) (if n = 1 then 0 else PT_IDX va)) w v s) else None)"

definition vpage :: "u64 \<Rightarrow> nat list" where
  "vpage va = vpath va @ [PT_IDX va]"

lemma store_private:
  assumes ok: "vm_ok A s" and a: "r \<in> A" "user_addr va" "tbl s r (vpath va) = Some u" and e: "present (mem s u (PT_IDX va))" "user (mem s u (PT_IDX va))"
    and w: "arch_pte_writable (mem s u (PT_IDX va))" and m: "managed (arch_pte_phys (mem s u (PT_IDX va))) s"
    and o: "r' \<in> A" "user_addr va'" "(r', vpage va') \<noteq> (r, vpage va)"
  shows "\<exists>t. user_store r va k v s = Some t \<and> vm_ok A t \<and> user_page r' va' t = user_page r' va' s"
proof -
  let ?e = "mem s u (PT_IDX va)" and ?f = "arch_pte_phys (mem s u (PT_IDX va))"
  define t where "t = wr ?f k v s"
  have up: "upath (vpath va @ [PT_IDX va])" using a by (simp add: upath_snoc)
  have pt: "pm t = pm s" by (simp add: t_def)
  have memt: "mem t x = mem s x" if "x \<noteq> ?f" for x using that by (simp add: t_def)
  have ft: "?f \<noteq> x" if "r1 \<in> A" "length p1 \<le> 3" "upath p1" "tbl s r1 p1 = Some x" for r1 p1 x
    using leaf_frame_not_table [OF ok a(1) _ up a(3) e(1) that] by simp
  have inner: "mem t x i = mem s x i" if "inner A s x" for x i
    using that ft memt by (force simp: inner_def)
  have tbl: "tbl t r1 p1 = tbl s r1 p1" if "r1 \<in> A" "length p1 \<le> 3" "upath p1" for r1 p1
    using tbl_frame [OF inner that] .
  have same: "mem t x i = mem s x i" if "r1 \<in> A" "length p1 \<le> 3" "upath p1" "tbl s r1 p1 = Some x" for r1 p1 x i
    using ft [OF that] memt by simp
  have f1: "nref ?f s = 1" using vm_okD(5) [OF ok a(1) _ up a(3) e(1) w m] by simp
  have eu: "mem t u (PT_IDX va) = ?e" using same [OF a(1) _ _ a(3)] a(2) by simp
  have "(target s)(Entry u (PT_IDX va) := ?f) = target s" by (simp add: fun_upd_idem_iff)
  then have ct: "pc.counted (hold A s) ((target s)(Entry u (PT_IDX va) := arch_pte_phys (mem t u (PT_IDX va)))) t"
    unfolding eu using vm_okD(2) [OF ok] by (simp add: pm_only(4) [OF pt])
  have okt: "vm_ok A t"
  proof (rule vm_ok_leaf_step(1) [where D = "{?f}", OF ok a(1) _ up a(3) e(1) _ _ _ _ ct])
    show "mem t x j = mem s x j \<or> (x = u \<and> j = PT_IDX va) \<or> x \<in> {?f}" for x j using memt [of x] by auto
    show "x \<notin> {?f}" if "r1 \<in> A" "length p1 \<le> 3" "upath p1" "tbl s r1 p1 = Some x" for r1 p1 x using ft [OF that] by simp
  qed (use e(1) f1 vm_okD(1) [OF ok] in \<open>simp_all add: pm_only [OF pt] eu\<close>)
  have "user_page r' va' t = user_page r' va' s"
  proof (rule user_page_frame1 [OF ok okt tbl inner _ _ _ o(1,2)])
    fix x assume x: "tbl s r' (vpath va') = Some x"
    have ex: "mem t x j = mem s x j" for j using same [OF o(1) _ _ x] o(2) by simp
    then show "present (mem t x (PT_IDX va')) = present (mem s x (PT_IDX va')) \<and> user (mem t x (PT_IDX va')) = user (mem s x (PT_IDX va'))"
      by simp
    assume pr: "present (mem s x (PT_IDX va'))"
    have up': "upath (vpath va' @ [PT_IDX va'])" using o by (simp add: upath_snoc)
    have "arch_pte_phys (mem s x (PT_IDX va')) \<noteq> ?f"
    proof
      assume eq: "arch_pte_phys (mem s x (PT_IDX va')) = ?f"
      have h: "Entry u (PT_IDX va) \<in> hold A s" "Entry x (PT_IDX va') \<in> hold A s"
        using entriesI [OF a(1) _ up a(3) e(1)] entriesI [OF o(1) _ up' x pr] by simp_all
      have "Entry x (PT_IDX va') = Entry u (PT_IDX va)"
        using pc.sole_holder [OF vm_okD(2) [OF ok] _ _ h] m f1 eq by simp
      then have xu: "x = u" "PT_IDX va' = PT_IDX va" by simp_all
      have "r' = r \<and> vpath va' = vpath va" using tbl_unique [OF ok a(1) o(1), of "vpath va" "vpath va'" u] a(2,3) x xu o(2) by simp
      then show False using o(3) xu by (simp add: vpage_def)
    qed
    then show "mem t (arch_pte_phys (mem t x (PT_IDX va'))) = mem s (arch_pte_phys (mem s x (PT_IDX va')))" by (simp add: ex memt)
  next
    fix x assume "\<not> managed x s"
    then show "mem t x = mem s x" using m memt [of x] by blast
  qed
  moreover have "user_store r va k v s = Some t"
    using a e w by (simp add: user_store_def user_leaf_tbl [OF ok a(1,2)] pte_at_def t_def vpath_def split: if_splits option.splits)
  ultimately show ?thesis using okt by blast
qed

section \<open>Faults are handled privately\<close>

definition may_write :: "u64 \<Rightarrow> u64 \<Rightarrow> 'a vm_scheme \<Rightarrow> bool" where
  "may_write r va s = (case arch_vm_user_leaf r va s of None \<Rightarrow> False
     | Some (l, _) \<Rightarrow> arch_pte_cow (pte_at l s) \<or> arch_pte_writable (pte_at l s))"

text \<open>The leaf is writable, and stores through it are private if the allocator owns the page.\<close>

definition writes_privately :: "u64 set \<Rightarrow> u64 \<Rightarrow> u64 \<Rightarrow> 'a vm_scheme \<Rightarrow> bool" where
  "writes_privately A r va t \<longleftrightarrow> (\<exists>l n. arch_vm_user_leaf r va t = Some (l, n) \<and> arch_pte_writable (pte_at l t) \<and>
     (managed (arch_pte_phys (pte_at l t)) t \<longrightarrow>
        (\<forall>k v. \<forall>r' \<in> A. \<forall>va'. user_addr va' \<longrightarrow> (r', vpage va') \<noteq> (r, vpage va) \<longrightarrow>
           (\<exists>u. user_store r va k v t = Some u \<and> user_page r' va' u = user_page r' va' t))))"

lemma user_leaf_cases:
  assumes "vm_ok A s" and "r \<in> A" and "user_addr va" and "arch_vm_user_leaf r va s = Some (l, n)"
  obtains (small) u where "n = 1" "tbl s r (vpath va) = Some u" "l = (u, PT_IDX va)" "present (mem s u (PT_IDX va))" "user (mem s u (PT_IDX va))"
  | (large) u where "n = 512" "tbl s r [PML4_IDX va, PDP_IDX va] = Some u" "l = (u, PD_IDX va)" "\<not> arch_pte_cow (mem s u (PD_IDX va))"
      "\<not> managed (arch_pte_phys (mem s u (PD_IDX va))) s"
proof (cases "tbl s r (vpath va)")
  case (Some u)
  then show thesis using assms(4) small [of u]
    by (auto simp: user_leaf_tbl [OF assms(1-3)] split: option.splits if_splits)
next
  case None
  then obtain u where u: "n = 512" "tbl s r [PML4_IDX va, PDP_IDX va] = Some u" "l = (u, PD_IDX va)" "present (mem s u (PD_IDX va))"
    using assms(4) by (auto simp: user_leaf_tbl [OF assms(1-3)] split: option.splits if_splits)
  have vp: "[PML4_IDX va, PDP_IDX va] @ [PD_IDX va] = vpath va" by (simp add: vpath_def)
  have "huge (mem s u (PD_IDX va))"
    using None u tbl_snoc [of s r "[PML4_IDX va, PDP_IDX va]" "PD_IDX va", unfolded vp] by (auto split: if_splits)
  then have c: "\<not> arch_pte_cow (mem s u (PD_IDX va))" and m: "\<forall>k < 512. \<not> managed (page_addr (arch_pte_phys (mem s u (PD_IDX va))) k) s"
    using vm_okD(4) [OF assms(1,2) _ _ u(2), of "PD_IDX va"] u(4) assms(3) vp by simp_all
  show thesis using large [OF u(1-3) c] m [rule_format, of 0] by simp
qed

lemma writes_privatelyI:
  assumes "vm_ok A s" and "r \<in> A" and "user_addr va" and "arch_vm_user_leaf r va s = Some (l, n)" and "arch_pte_writable (pte_at l s)"
  shows "writes_privately A r va s"
proof -
  have "\<exists>t. user_store r va k v s = Some t \<and> user_page r' va' t = user_page r' va' s"
    if m: "managed (arch_pte_phys (pte_at l s)) s" and o: "r' \<in> A" "user_addr va'" "(r', vpage va') \<noteq> (r, vpage va)" for k v r' va'
    using assms(1-4)
  proof (cases rule: user_leaf_cases)
    case (small u)
    then show ?thesis using store_private [OF assms(1-3) small(2,4,5) _ _ o, of k v] assms(5) m by (auto simp: pte_at_def)
  next
    case (large u)
    then show ?thesis using m by (simp add: pte_at_def)
  qed
  then show ?thesis using assms(4,5) unfolding writes_privately_def by blast
qed

lemma leaf_after:
  assumes "vm_ok A t" and "r \<in> A" and "user_addr va" and "tbl t r (vpath va) = Some u"
    and "present (mem t u (PT_IDX va))" and "user (mem t u (PT_IDX va))"
  shows "arch_vm_user_leaf r va t = Some ((u, PT_IDX va), 1)"
  using assms(4-6) by (auto simp: user_leaf_tbl [OF assms(1-3)] vpath_def split: option.splits if_splits)


section \<open>An example\<close>

text \<open>One address space with root at \<open>0x1000\<close>, tables at \<open>0x2000\<close>, \<open>0x3000\<close> and \<open>0x4000\<close>, and the page at
  \<open>0x5000\<close>, marked and shared, at address 0. Ten pages are free.\<close>

definition ex_pm :: pmm where
  "ex_pm = \<lparr>g_base_pa = 0, g_pages = 16, g_used = 6, g_bitmap_pa = 0, g_refcount_pa = 0, g_next_page = 0, g_bm_ptr = 0, g_rc_ptr = 0,
     g_bm = (\<lambda>i. if i = 0 then 0x3f else 0), g_rc = (\<lambda>p. if p = 5 then 2 else if 1 \<le> p \<and> p \<le> 4 then 1 else 0),
     g_scan_pages = 0, g_claim_calls = 0, g_claim_wrap = 0\<rparr>"

definition ex_mem :: "u64 \<Rightarrow> page" where
  "ex_mem p i = (if i \<noteq> 0 then 0 else if p = 0x1000 then 0x2007 else if p = 0x2000 then 0x3007 else if p = 0x3000 then 0x4007
     else if p = 0x4000 then 0x5205 else 0)"

definition vm_ex :: "'a \<Rightarrow> 'a vm_scheme" where
  "vm_ex m = \<lparr>pm = ex_pm, mem = ex_mem, kernel_pml4 = 0x7000, \<dots> = m\<rparr>"

lemma ex_pm_fields [simp]:
  "g_base_pa ex_pm = 0" "g_pages ex_pm = 16" "g_used ex_pm = 6" "g_next_page ex_pm = 0"
  "g_rc ex_pm p = (if p = 5 then 2 else if 1 \<le> p \<and> p \<le> 4 then 1 else 0)"
  by (simp_all add: ex_pm_def)

lemma ex_test: "p < 16 \<Longrightarrow> pmm_test ex_pm p \<longleftrightarrow> p < 6"
proof -
  assume "p < 16"
  moreover have "list_all (\<lambda>p. pmm_test ex_pm p \<longleftrightarrow> p < 6) [0..<16]" by code_simp
  ultimately show ?thesis by (simp add: list_all_iff)
qed

lemma ex_pm_ok: "pm_ok (vm_ex m)"
proof -
  have "used_set ex_pm = {..<6}"
    by (rule set_eqI) (auto simp: used_set_def ex_test)
  then have "card (used_set ex_pm) = 6" by simp
  moreover have "\<forall>p < 16. g_rc ex_pm p \<noteq> 0 \<longrightarrow> pmm_test ex_pm p" by (auto simp: ex_test)
  ultimately show ?thesis
    by (simp add: pm_ok_def vm_ex_def pmm_inv_def null_reserved_def PAGE_SIZE_def ex_test)
qed

lemma ex_present: "present (ex_mem p i) \<longleftrightarrow> i = 0 \<and> p \<in> {0x1000, 0x2000, 0x3000, 0x4000}"
  by (auto simp: ex_mem_def present_def PTE_PRESENT_def)

lemma ex_tbl: "tbl (vm_ex m) 0x1000 p = Some t \<Longrightarrow> length p \<le> 3 \<Longrightarrow>
    (p = [] \<and> t = 0x1000) \<or> (p = [0] \<and> t = 0x2000) \<or> (p = [0, 0] \<and> t = 0x3000) \<or> (p = [0, 0, 0] \<and> t = 0x4000)"
proof (induction p arbitrary: t rule: rev_induct)
  case (snoc i p)
  then obtain u where u: "tbl (vm_ex m) 0x1000 p = Some u" by (auto simp: tbl_snoc split: option.splits)
  with snoc have "(p = [] \<and> u = 0x1000) \<or> (p = [0] \<and> u = 0x2000) \<or> (p = [0, 0] \<and> u = 0x3000)" by fastforce
  moreover have "present (ex_mem u i)" "t = arch_pte_phys (ex_mem u i)"
    using snoc.prems u by (auto simp: tbl_snoc vm_ex_def split: if_splits)
  ultimately show ?case by (auto simp: ex_present) (auto simp: ex_mem_def arch_pte_phys_def PTE_ADDR_MASK_def)
qed simp

definition ex_hold :: "holder set" where
  "ex_hold = {Root 0x1000, Entry 0x1000 0, Entry 0x2000 0, Entry 0x3000 0, Entry 0x4000 0}"

lemma ex_refs:
  "nref 0x1000 (vm_ex m) = 1" "nref 0x2000 (vm_ex m) = 1" "nref 0x3000 (vm_ex m) = 1" "nref 0x4000 (vm_ex m) = 1" "nref 0x5000 (vm_ex m) = 2"
  "managed 0x1000 (vm_ex m)" "managed 0x2000 (vm_ex m)" "managed 0x3000 (vm_ex m)" "managed 0x4000 (vm_ex m)" "managed 0x5000 (vm_ex m)"
  by (simp_all add: nref_def vm_ref_def pmm_get_ref_def pmm_page_of_def vm_ex_def PAGE_SIZE_def managed_def vmm_page_aligned_def)

lemma ex_targets:
  "target (vm_ex m) (Entry 0x1000 0) = 0x2000" "target (vm_ex m) (Entry 0x2000 0) = 0x3000"
  "target (vm_ex m) (Entry 0x3000 0) = 0x4000" "target (vm_ex m) (Entry 0x4000 0) = 0x5000"
  by (simp_all add: vm_ex_def ex_mem_def arch_pte_phys_def PTE_ADDR_MASK_def)

lemma ex_hold_sub: "hold {0x1000} (vm_ex m) \<subseteq> ex_hold"
proof
  fix l assume l: "l \<in> hold {0x1000} (vm_ex m)"
  show "l \<in> ex_hold"
  proof (cases l)
    case (Entry t i)
    then obtain p where "tbl (vm_ex m) 0x1000 p = Some t" "length p \<le> 3" "present (ex_mem t i)" using l by (auto simp: entries_def vm_ex_def)
    then show ?thesis using ex_tbl [of m p t] Entry by (auto simp: ex_present ex_hold_def)
  qed (use l in \<open>simp add: ex_hold_def\<close>)
qed

lemma ex_counted: "pc.counted ex_hold (target (vm_ex m)) (vm_ex m)"
proof -
  have "card (holders ex_hold (target (vm_ex m)) p) \<le> nref p (vm_ex m)" for p
  proof (cases "holders ex_hold (target (vm_ex m)) p = {}")
    case False
    then obtain l where l: "l \<in> ex_hold" "target (vm_ex m) l = p" by (auto simp: holders_def)
    have "l' = l" if "l' \<in> ex_hold" "target (vm_ex m) l' = target (vm_ex m) l" for l'
      using that l unfolding ex_hold_def by (elim insertE emptyE) (simp_all del: target.simps(2) add: ex_targets)
    then have "holders ex_hold (target (vm_ex m)) p \<subseteq> {l}" using l(2) by (auto simp: holders_def)
    then have "card (holders ex_hold (target (vm_ex m)) p) \<le> 1" using card_mono [of "{l}"] by fastforce
    moreover have "1 \<le> nref p (vm_ex m)"
      using l unfolding ex_hold_def by (elim insertE emptyE) (simp_all del: target.simps(2) add: ex_targets ex_refs flip: l(2))
    ultimately show ?thesis by simp
  qed simp
  then show ?thesis by (simp add: pc.counted_def ex_hold_def)
qed

lemma vm_ex_ok: "vm_ok {0x1000} (vm_ex m)"
  unfolding vm_ok_def
proof (intro conjI ballI allI impI)
  show "pm_ok (vm_ex m)" by (rule ex_pm_ok)
  show "pc.counted (hold {0x1000} (vm_ex m)) (target (vm_ex m)) (vm_ex m)"
    by (rule pc.counted_subset [OF ex_counted ex_hold_sub]) simp
  fix r p t i assume r: "r \<in> {0x1000 :: u64}"
  show "managed t (vm_ex m)" "nref t (vm_ex m) = 1" if "length p \<le> 3" "tbl (vm_ex m) r p = Some t"
    using ex_tbl [of m p t] that r by (auto simp: ex_refs)
  have small: "\<not> huge (mem (vm_ex m) t i)" "\<not> arch_pte_writable (mem (vm_ex m) t i) \<or> t \<noteq> 0x4000"
    by (auto simp: vm_ex_def ex_mem_def huge_def PTE_HUGE_def arch_pte_writable_def PTE_WRITABLE_def)
  show "present (mem (vm_ex m) t i)" "length p = 2" "\<not> arch_pte_cow (mem (vm_ex m) t i)" "\<And>k. \<not> managed (page_addr (arch_pte_phys (mem (vm_ex m) t i)) k) (vm_ex m)"
    if "huge (mem (vm_ex m) t i)"
    using small(1) that by auto
  show "nref (arch_pte_phys (mem (vm_ex m) t i)) (vm_ex m) = 1"
    if "length p = 3" "tbl (vm_ex m) r p = Some t" "arch_pte_writable (mem (vm_ex m) t i)"
    using ex_tbl [of m p t] that r small(2) by auto
qed

lemma ex_leaf: "arch_vm_user_leaf 0x1000 0 (vm_ex m) = Some ((0x4000, 0), 1)"
  by (simp add: arch_vm_user_leaf_def vm_ex_def ex_mem_def PML4_IDX_def PDP_IDX_def PD_IDX_def PT_IDX_def present_def huge_def user_def
      PTE_PRESENT_def PTE_HUGE_def PTE_USER_def PTE_ADDR_MASK_def Let_def)

lemma ex_handled: "fst (vm_cow_write_fault 0x1000 0 (vm_ex m)) = VM_COW_HANDLED"
proof -
  have "fst (pmm_alloc 1 ex_pm) = 24576"
    by (simp add: pmm_alloc_def pmm_claim_locked_def pmm_scan_locked_def Let_def PMM_BIG_PAGES_def scan_loop.simps pmm_test_def ex_pm_def
        add64_def PAGE_SIZE_def split: prod.split)
  then have "fst (vm_alloc 1 (vm_ex m)) = 0x6000" by (auto simp: vm_alloc_def vm_ex_def split: prod.split)
  then obtain s1 where al: "vm_alloc 1 (vm_ex m) = (0x6000, s1)" by (cases "vm_alloc 1 (vm_ex m)") simp
  have e: "pte_at (0x4000, 0) (vm_ex m) = 0x5205" by (simp add: pte_at_def vm_ex_def ex_mem_def)
  have "vm_cow_page_shared 0x5000 (vm_ex m)" using ex_refs(5) [of m] by (simp add: vm_cow_page_shared_def nref_def word_less_nat_alt)
  then show ?thesis
    using al e by (simp add: vm_cow_write_fault_def ex_leaf Let_def arch_pte_cow_def PTE_COW_def arch_pte_phys_def PTE_ADDR_MASK_def)
qed


end
