(* ===== verification/VmMap.thy ===== *)
theory VmMap
  imports VmCow
begin

text \<open>
  Mapping and unmapping of pages: what \<open>get_next_level\<close>, \<open>vmm_map_page\<close> and \<open>arch_vm_unmap_page\<close> do to the
  translation of addresses, to the invariant and to what the processes see.
\<close>

unbundle bit_operations_syntax

section \<open>Free pages\<close>

definition nfree :: "'a vm_scheme \<Rightarrow> nat" where
  "nfree s = g_pages (pm s) - g_used (pm s)"

lemma nfree_pm: "pm t = pm s \<Longrightarrow> nfree t = nfree s"
  by (simp add: nfree_def)

lemma alloc_page_free:
  assumes "alloc_page s = (x, t)" and "pm_ok s"
  shows "case x of None \<Rightarrow> nfree s = 0 | Some q \<Rightarrow> nfree s = Suc (nfree t)"
proof -
  obtain pa p where al: "pmm_alloc 1 (pm s) = (pa, p)" by fastforce
  have inv: "pmm_inv (pm s)" "null_reserved (pm s)" and b: "g_base_pa (pm s) = 0" "g_pages (pm s) \<le> 2 ^ 40"
    using assms(2) by (simp_all add: pm_ok_def)
  have t: "t = s\<lparr>pm := p\<rparr>" and x: "x = (if of_nat pa = (0 :: u64) then None else Some (of_nat pa))"
    using assms(1) al by (simp_all add: alloc_page_def vm_alloc_def)
  have one: "0 < (1 :: nat)" by simp
  from inv(1) one inv(2) al show ?thesis
  proof (cases rule: alloc_cases)
    case fail
    have "pmm_test (pm s) q" if "q < g_pages (pm s)" for q
      using fail(4) [of q] that by (auto simp: free_run_def le_antisym less_Suc_eq_le)
    then have "used_set (pm s) = {..<g_pages (pm s)}" by (auto simp: used_set_def)
    then show ?thesis using fail(1) inv(1) x by (simp add: nfree_def pmm_inv_def)
  next
    case (ok st)
    have "g_used p \<le> g_pages p" using used_le_pages [OF ok(10)] .
    moreover have "of_nat pa \<noteq> (0 :: u64)"
    proof -
      have "pa < 2 ^ 64" using ok(1,3) b by (simp add: PAGE_SIZE_def)
      then have "unat (of_nat pa :: u64) = pa" by (simp add: unat_of_nat)
      then show ?thesis using ok(2) by (metis unat_0)
    qed
    ultimately show ?thesis using ok(6,7) t x by (simp add: nfree_def)
  qed
qed

section \<open>Walking down\<close>

lemma widen_simps [simp]:
  "present (widen flags e) = present e" "huge (widen flags e) = huge e" "arch_pte_phys (widen flags e) = arch_pte_phys e"
  unfolding pte_bits widen_def Let_def arch_pte_phys_def
  by (auto simp: bit_simps pte_flag_bits intro!: bit_word_eqI)

definition table_entry :: "u64 \<Rightarrow> u64 \<Rightarrow> u64" where
  "table_entry q flags = q OR (PTE_PRESENT OR (flags AND PTE_USER) OR (flags AND PTE_WRITABLE))"

lemma table_entry_simps:
  assumes "pm_ok s" and "managed q s"
  shows "present (table_entry q flags)" "\<not> huge (table_entry q flags)" "arch_pte_phys (table_entry q flags) = q"
proof -
  have b: "12 \<le> n \<and> n < 52" if "bit q n" for n
    using managed_mask [OF assms] bit_and_iff [of q PTE_ADDR_MASK n] that by simp
  show "present (table_entry q flags)" "\<not> huge (table_entry q flags)"
    unfolding pte_bits table_entry_def using b [of 7] by (auto simp: bit_simps pte_flag_bits)
  show "arch_pte_phys (table_entry q flags) = q"
    unfolding table_entry_def arch_pte_phys_def
    by (intro bit_word_eqI) (auto simp: bit_simps pte_flag_bits dest: b)
qed

lemma get_next_level_cases:
  assumes "get_next_level (Some u) i True flags s = Some (x, t)" and "pm_ok s" and "\<not> (present (mem s u i) \<and> huge (mem s u i))"
  obtains (old) "present (mem s u i)" "x = Some (arch_pte_phys (mem s u i))" "t = wr u i (widen flags (mem s u i)) s"
  | (none) "\<not> present (mem s u i)" "x = None" "alloc_page s = (None, t)"
  | (new) q s1 where "\<not> present (mem s u i)" "x = Some q" "alloc_page s = (Some q, s1)"
      "t = wr u i (table_entry q flags) (zero_page q s1)"
proof -
  obtain q s1 where al: "vm_alloc 1 s = (q, s1)" by fastforce
  show thesis
  proof (cases "present (mem s u i)")
    case True
    then show thesis using assms old by (auto simp: get_next_level_def Let_def arch_pte_phys_def [symmetric] split: if_splits)
  next
    case False
    then show thesis
      using assms(1) al none new [of q s1] alloc_page_eq [OF al]
      by (auto simp: get_next_level_def Let_def table_entry_def split: if_splits)
  qed
qed

lemma get_next_level_returns:
  assumes "i < 512"
  shows "\<exists>x t. get_next_level (Some u) i True flags s = Some (x, t)"
  using assms by (auto simp: get_next_level_def Let_def split: prod.split)

section \<open>Translation\<close>

text \<open>The entry that translates a user address and whether it is a 2 MiB page.\<close>

definition translate :: "u64 \<Rightarrow> u64 \<Rightarrow> 'a vm_scheme \<Rightarrow> (u64 \<times> bool) option" where
  "translate r va s =
     (case tbl s r [PML4_IDX va, PDP_IDX va] of None \<Rightarrow> None
      | Some pd \<Rightarrow>
          if huge (mem s pd (PD_IDX va)) then Some (mem s pd (PD_IDX va), True)
          else (case tbl s r (vpath va) of None \<Rightarrow> None
                | Some pt \<Rightarrow> if present (mem s pt (PT_IDX va)) then Some (mem s pt (PT_IDX va), False) else None))"

definition frame_of :: "u64 \<Rightarrow> u64 \<times> bool \<Rightarrow> u64" where
  "frame_of va x = (if snd x then page_addr (arch_pte_phys (fst x)) (PT_IDX va) else arch_pte_phys (fst x))"

lemma vpath_snoc: "[PML4_IDX va, PDP_IDX va] @ [PD_IDX va] = vpath va"
  by (simp add: vpath_def)

lemma vpath_next: "tbl s r (vpath va) = (case tbl s r [PML4_IDX va, PDP_IDX va] of None \<Rightarrow> None
     | Some pd \<Rightarrow> if present (mem s pd (PD_IDX va)) \<and> \<not> huge (mem s pd (PD_IDX va)) then Some (arch_pte_phys (mem s pd (PD_IDX va))) else None)"
  using tbl_snoc [of s r "[PML4_IDX va, PDP_IDX va]" "PD_IDX va", unfolded vpath_snoc] .

lemma upath_pd [simp]: "user_addr va \<Longrightarrow> upath ([PML4_IDX va, PDP_IDX va] @ [PD_IDX va])"
  by (simp only: vpath_snoc upath_vpath)

lemma upath_pt [simp]: "user_addr va \<Longrightarrow> upath (vpath va @ [PT_IDX va])"
  by (simp add: upath_snoc)

lemma pd_huge:
  assumes "vm_ok A s" and "r \<in> A" and "user_addr va" and "tbl s r [PML4_IDX va, PDP_IDX va] = Some pd" and "huge (mem s pd (PD_IDX va))"
  shows "present (mem s pd (PD_IDX va))" "k < 512 \<Longrightarrow> \<not> managed (page_addr (arch_pte_phys (mem s pd (PD_IDX va))) k) s"
  using vm_okD(4) [OF assms(1,2) _ upath_pd [OF assms(3)] assms(4,5)] by simp_all

lemma user_page_translate:
  assumes "vm_ok A s" and "r \<in> A" and "user_addr va"
  shows "user_page r va s = (case translate r va s of None \<Rightarrow> None
    | Some x \<Rightarrow> if user (fst x) then Some (mem s (frame_of va x)) else None)"
  using pd_huge(1) [OF assms]
  by (auto simp: user_page_tbl [OF assms] translate_def frame_of_def vpath_next split: option.splits if_splits)

lemma upper_not_huge:
  assumes "vm_ok A s" and "r \<in> A" and "user_addr va"
  shows "\<not> huge (mem s r (PML4_IDX va))"
    "present (mem s r (PML4_IDX va)) \<Longrightarrow> \<not> huge (mem s (arch_pte_phys (mem s r (PML4_IDX va))) (PDP_IDX va))"
proof -
  let ?e4 = "mem s r (PML4_IDX va)" and ?pdp = "arch_pte_phys (mem s r (PML4_IDX va))"
  show h4: "\<not> huge ?e4"
    using vm_okD(4) [OF assms(1,2), of "[]" "PML4_IDX va" r] assms(3) by (auto simp: upath_def user_addr_def)
  show "\<not> huge (mem s ?pdp (PDP_IDX va))" if "present ?e4"
    using vm_okD(4) [OF assms(1,2), of "[PML4_IDX va]" "PDP_IDX va" ?pdp] assms(3) that h4 by (auto simp: upath_def user_addr_def)
qed

lemma get_phys_translate:
  assumes "vm_ok A s" and "r \<in> A" and "user_addr va"
  shows "vmm_get_phys r va s = (case translate r va s of None \<Rightarrow> 0
    | Some (e, b) \<Rightarrow> arch_pte_phys e + va mod of_nat (if b then HUGE_PAGE_SIZE else PAGE_SIZE))"
  using upper_not_huge [OF assms]
  by (simp add: vmm_get_phys_def translate_def vpath_next Let_def arch_pte_phys_def [symmetric])

lemma user_pte_translate:
  assumes "vm_ok A s" and "r \<in> A" and "user_addr va"
  shows "x86_user_pte r va s = map_option (\<lambda>pt. (pt, PT_IDX va)) (tbl s r (vpath va))"
  using upper_not_huge [OF assms] by (simp add: x86_user_pte_def vpath_next Let_def arch_pte_phys_def [symmetric])

section \<open>Growing the tree\<close>

definition istable :: "u64 set \<Rightarrow> 'a vm_scheme \<Rightarrow> u64 \<Rightarrow> bool" where
  "istable A s z \<longleftrightarrow> (\<exists>r \<in> A. \<exists>p. length p \<le> 3 \<and> upath p \<and> tbl s r p = Some z)"

lemma istableI: "r \<in> A \<Longrightarrow> length p \<le> 3 \<Longrightarrow> upath p \<Longrightarrow> tbl s r p = Some z \<Longrightarrow> istable A s z"
  by (auto simp: istable_def)

lemma innerI: "r \<in> A \<Longrightarrow> length p \<le> 2 \<Longrightarrow> upath p \<Longrightarrow> tbl s r p = Some z \<Longrightarrow> inner A s z"
  by (auto simp: inner_def)

lemma inner_istable: "inner A s u \<Longrightarrow> istable A s u"
  by (force simp: istable_def inner_def)

lemma istable_managed: "vm_ok A s \<Longrightarrow> istable A s u \<Longrightarrow> managed u s \<and> nref u s = 1"
  using vm_okD(3) [of A s] by (auto simp: istable_def)

text \<open>Page tables are added and rights of entries above the last level are widened; nothing else changes.\<close>

definition grows :: "u64 set \<Rightarrow> 'a vm_scheme \<Rightarrow> 'a vm_scheme \<Rightarrow> bool" where
  "grows A s t \<longleftrightarrow> vm_ok A t \<and> (\<forall>z. managed z t = managed z s) \<and>
     (\<forall>z. managed z s \<longrightarrow> nref z s \<noteq> 0 \<longrightarrow> nref z t = nref z s) \<and>
     (\<forall>r \<in> A. \<forall>p u. length p \<le> 3 \<longrightarrow> upath p \<longrightarrow> tbl s r p = Some u \<longrightarrow> tbl t r p = Some u) \<and>
     (\<forall>r \<in> A. \<forall>p u. length p \<le> 3 \<longrightarrow> upath p \<longrightarrow> tbl t r p = Some u \<longrightarrow> tbl s r p = None \<longrightarrow>
        managed u s \<and> nref u s = 0 \<and> (\<forall>i. \<not> huge (mem t u i)) \<and> (length p = 3 \<longrightarrow> mem t u = (\<lambda>_. 0))) \<and>
     (\<forall>u i. inner A s u \<longrightarrow> huge (mem t u i) = huge (mem s u i) \<and> (huge (mem s u i) \<longrightarrow> mem t u i = mem s u i)) \<and>
     (\<forall>z. \<not> inner A s z \<longrightarrow> (managed z s \<longrightarrow> nref z s \<noteq> 0) \<longrightarrow> mem t z = mem s z)"

lemma growsD:
  assumes "grows A s t"
  shows "vm_ok A t" "managed z t = managed z s" "managed z s \<Longrightarrow> nref z s \<noteq> 0 \<Longrightarrow> nref z t = nref z s"
    "r \<in> A \<Longrightarrow> length p \<le> 3 \<Longrightarrow> upath p \<Longrightarrow> tbl s r p = Some u \<Longrightarrow> tbl t r p = Some u"
    "r \<in> A \<Longrightarrow> length p \<le> 3 \<Longrightarrow> upath p \<Longrightarrow> tbl t r p = Some u \<Longrightarrow> tbl s r p = None \<Longrightarrow>
      managed u s \<and> nref u s = 0 \<and> (\<forall>i. \<not> huge (mem t u i)) \<and> (length p = 3 \<longrightarrow> mem t u = (\<lambda>_. 0))"
    "inner A s u \<Longrightarrow> huge (mem t u i) = huge (mem s u i) \<and> (huge (mem s u i) \<longrightarrow> mem t u i = mem s u i)"
    "\<not> inner A s z \<Longrightarrow> (managed z s \<Longrightarrow> nref z s \<noteq> 0) \<Longrightarrow> mem t z = mem s z"
  using assms unfolding grows_def by blast+

lemma grows_refl: "vm_ok A s \<Longrightarrow> grows A s s"
  unfolding grows_def by simp

lemma grows_inner: "grows A s t \<Longrightarrow> inner A s u \<Longrightarrow> inner A t u"
proof -
  assume g: "grows A s t" and "inner A s u"
  then obtain r p where p: "r \<in> A" "length p \<le> 2" "upath p" "tbl s r p = Some u" by (auto simp: inner_def)
  then have "tbl t r p = Some u" using growsD(4) [OF g p(1) _ p(3,4)] by simp
  then show ?thesis by (rule innerI [OF p(1-3)])
qed

lemma grows_not_inner:
  assumes "grows A s t" and "vm_ok A s" and "\<not> inner A s z" and "managed z s \<Longrightarrow> nref z s \<noteq> 0"
  shows "\<not> inner A t z"
proof
  assume "inner A t z"
  then obtain r p where p: "r \<in> A" "length p \<le> 2" "upath p" "tbl t r p = Some z" by (auto simp: inner_def)
  then have "tbl s r p \<noteq> Some z" using assms(3) by (auto simp: inner_def)
  show False
  proof (cases "tbl s r p")
    case None
    then show False using growsD(5) [OF assms(1) p(1) _ p(3,4)] p(2) assms(4) by simp
  next
    case (Some v)
    then show False using growsD(4) [OF assms(1) p(1) _ p(3)] p \<open>tbl s r p \<noteq> Some z\<close> by fastforce
  qed
qed

lemma grows_trans:
  assumes st: "grows A s t" and tv: "grows A t v" and ok: "vm_ok A s"
  shows "grows A s v"
  unfolding grows_def
proof (intro conjI allI impI ballI)
  note a = growsD [OF st] and b = growsD [OF tv]
  show "vm_ok A v" by (rule b(1))
  show "managed z v = managed z s" for z by (simp add: a(2) b(2))
  show "nref z v = nref z s" if "managed z s" "nref z s \<noteq> 0" for z using that a(2,3) b(3) by simp
  show "tbl v r p = Some u" if "r \<in> A" "length p \<le> 3" "upath p" "tbl s r p = Some u" for r p u
    using b(4) [OF that(1-3)] a(4) [OF that] by blast
  fix r p u assume p: "r \<in> A" "length p \<le> 3" "upath p" "tbl v r p = Some u" "tbl s r p = None"
  show "managed u s" "nref u s = 0" "\<not> huge (mem v u i)" "length p = 3 \<Longrightarrow> mem v u = (\<lambda>_. 0)" for i
  proof -
    have "managed u s \<and> nref u s = 0 \<and> \<not> huge (mem v u i) \<and> (length p = 3 \<longrightarrow> mem v u = (\<lambda>_. 0))"
    proof (cases "tbl t r p")
      case None
      have n: "managed u t" "nref u t = 0" "\<not> huge (mem v u i)" "length p = 3 \<Longrightarrow> mem v u = (\<lambda>_. 0)"
        using b(5) [OF p(1-4) None] by simp_all
      moreover have "nref u s = 0" using n(1,2) a(2) a(3) [of u] by fastforce
      ultimately show ?thesis using a(2) by simp
    next
      case (Some w)
      then have w: "w = u" using b(4) [OF p(1-3) Some] p(4) by simp
      note n = a(5) [OF p(1-3) Some p(5), unfolded w]
      have m: "managed u t \<and> nref u t = 1" using vm_okD(3) [OF a(1) p(1-3) Some] w by simp
      show ?thesis
      proof (cases "length p = 3")
        case True
        have "\<not> inner A t u" using leaf_table_not_inner [OF a(1) p(1) True p(3) Some] w by simp
        then have "mem v u = mem t u" using b(7) m by simp
        then show ?thesis using n by simp
      next
        case False
        then have "inner A t u" using innerI [OF p(1) _ p(3) Some] p(2) w by simp
        then show ?thesis using n b(6) [of u i] False by simp
      qed
    qed
    then show "managed u s" "nref u s = 0" "\<not> huge (mem v u i)" "length p = 3 \<Longrightarrow> mem v u = (\<lambda>_. 0)" by blast+
  qed
next
  note a = growsD [OF st] and b = growsD [OF tv]
  fix u i assume u: "inner A s u"
  show "huge (mem v u i) = huge (mem s u i)" using a(6) [OF u, of i] b(6) [OF grows_inner [OF st u], of i] by simp
  show "mem v u i = mem s u i" if "huge (mem s u i)" using that a(6) [OF u, of i] b(6) [OF grows_inner [OF st u], of i] by simp
next
  note a = growsD [OF st] and b = growsD [OF tv]
  fix z assume z: "\<not> inner A s z" "managed z s \<longrightarrow> nref z s \<noteq> 0"
  have "mem v z = mem t z" using grows_not_inner [OF st ok] z a(2,3) by (intro b(7)) auto
  then show "mem v z = mem s z" using a(7) z by simp
qed

lemma translate_cases:
  assumes "translate r va s = Some x"
  obtains (small) pt where "tbl s r (vpath va) = Some pt" "present (mem s pt (PT_IDX va))" "x = (mem s pt (PT_IDX va), False)"
  | (large) pd where "tbl s r [PML4_IDX va, PDP_IDX va] = Some pd" "huge (mem s pd (PD_IDX va))" "x = (mem s pd (PD_IDX va), True)"
  using assms by (auto simp: translate_def split: option.splits if_splits)

lemma frame_facts:
  assumes "vm_ok A s" and "r \<in> A" and "user_addr va" and "translate r va s = Some x"
  shows "\<not> istable A s (frame_of va x)" "managed (frame_of va x) s \<Longrightarrow> nref (frame_of va x) s \<noteq> 0"
proof -
  from assms(4) have "\<not> istable A s (frame_of va x) \<and> (managed (frame_of va x) s \<longrightarrow> nref (frame_of va x) s \<noteq> 0)"
  proof (cases rule: translate_cases)
    case (small pt)
    have l: "length (vpath va) = 3" "upath (vpath va @ [PT_IDX va])" using assms(3) by simp_all
    have "(pt, PT_IDX va) \<in> entries A s" using entriesI [OF assms(2) _ l(2) small(1,2)] by simp
    then have "Entry pt (PT_IDX va) \<in> hold A s" by simp
    then show ?thesis
      using leaf_frame_not_table [OF assms(1,2) l small(1,2)] small(3)
        pc.counted_pos [OF vm_okD(2) [OF assms(1)], of "Entry pt (PT_IDX va)"]
      by (auto simp: istable_def frame_of_def)
  next
    case (large pd)
    then show ?thesis
      using pd_huge(2) [OF assms(1-3) large(1,2), of "PT_IDX va"] istable_managed [OF assms(1)] by (auto simp: frame_of_def)
  qed
  then show "\<not> istable A s (frame_of va x)" "managed (frame_of va x) s \<Longrightarrow> nref (frame_of va x) s \<noteq> 0" by blast+
qed

lemma grows_translate:
  assumes ok: "vm_ok A s" and g: "grows A s t" and a: "r \<in> A" "user_addr va"
  shows "translate r va t = translate r va s"
proof -
  note g4 = growsD(4) [OF g a(1)] and g5 = growsD(5) [OF g a(1)] and g6 = growsD(6) [OF g] and g7 = growsD(7) [OF g]
  have pt0: "mem t pt = (\<lambda>_. 0)" if "tbl t r (vpath va) = Some pt" "tbl s r (vpath va) = None" for pt
    using g5 [of "vpath va" pt] that a(2) by simp
  have p0: "\<not> present 0" by (simp add: present_def)
  show ?thesis
  proof (cases "tbl s r [PML4_IDX va, PDP_IDX va]")
    case None
    then have n: "tbl s r (vpath va) = None" by (simp add: vpath_next)
    show ?thesis
    proof (cases "tbl t r [PML4_IDX va, PDP_IDX va]")
      case (Some pd)
      then have "\<not> huge (mem t pd (PD_IDX va))" using g5 [of _ pd, OF _ _ Some None] a(2) by simp
      then show ?thesis using None n Some pt0 p0 by (auto simp: translate_def split: option.split)
    qed (use None in \<open>simp add: translate_def\<close>)
  next
    case (Some pd)
    have t: "tbl t r [PML4_IDX va, PDP_IDX va] = Some pd" using g4 [OF _ _ Some] a(2) by simp
    have h: "huge (mem t pd (PD_IDX va)) = huge (mem s pd (PD_IDX va)) \<and> (huge (mem s pd (PD_IDX va)) \<longrightarrow> mem t pd (PD_IDX va) = mem s pd (PD_IDX va))"
      by (rule g6, rule innerI [OF a(1) _ _ Some]) (use a in simp_all)
    show ?thesis
    proof (cases "tbl s r (vpath va)")
      case None
      then show ?thesis using Some t h pt0 p0 by (auto simp: translate_def split: option.split)
    next
      fix pt assume pt: "tbl s r (vpath va) = Some pt"
      have "mem t pt = mem s pt"
        using leaf_table_not_inner [OF ok a(1) _ _ pt] vm_okD(3) [OF ok a(1) _ _ pt] a(2) by (intro g7) auto
      moreover have "tbl t r (vpath va) = Some pt" using g4 [OF _ _ pt] a(2) by simp
      ultimately show ?thesis using Some t h pt by (simp add: translate_def)
    qed
  qed
qed

lemma grows_user_page:
  assumes ok: "vm_ok A s" and g: "grows A s t" and a: "r \<in> A" "user_addr va"
  shows "user_page r va t = user_page r va s"
proof (cases "translate r va s")
  case None
  then show ?thesis using user_page_translate [OF ok a] user_page_translate [OF growsD(1) [OF g] a] grows_translate [OF ok g a] by simp
next
  case (Some x)
  have "mem t (frame_of va x) = mem s (frame_of va x)"
    using frame_facts [OF ok a Some] inner_istable by (intro growsD(7) [OF g]) blast+
  then show ?thesis
    using Some user_page_translate [OF ok a] user_page_translate [OF growsD(1) [OF g] a] grows_translate [OF ok g a] by simp
qed

text \<open>An existing table: only rights of its entry change.\<close>

lemma widen_grows:
  assumes ok: "vm_ok A s" and u: "inner A s u" and e: "present (mem s u i)" "\<not> huge (mem s u i)"
    and e': "present e'" "\<not> huge e'" "arch_pte_phys e' = arch_pte_phys (mem s u i)"
  shows "grows A s (wr u i e' s)" "tbl (wr u i e' s) r p = tbl s r p"
proof -
  let ?t = "wr u i e' s"
  have m: "mem ?t v j = (if v = u \<and> j = i then e' else mem s v j)" for v j by simp
  have same: "present (mem ?t v j) = present (mem s v j)" "huge (mem ?t v j) = huge (mem s v j)"
    "arch_pte_phys (mem ?t v j) = arch_pte_phys (mem s v j)" for v j
    using e e' by (simp_all add: m)
  show tbl: "tbl ?t r p = tbl s r p" for r p
    by (induction p arbitrary: r) (simp_all only: tbl.simps same)
  have tgt: "target ?t = target s"
  proof
    show "target ?t l = target s l" for l by (cases l) (simp_all only: target.simps same)
  qed
  have "entries A ?t = entries A s" by (simp only: entries_def tbl same)
  then have hold: "hold A ?t = hold A s" by (simp add: hold_def)
  have pm: "pm ?t = pm s" by simp
  have leaf: "v \<noteq> u" if "r \<in> A" "length p = 3" "upath (p @ [j])" "tbl s r p = Some v" for r p v j
    using leaf_table_not_inner [OF ok that(1,2) _ that(4)] that(3) u by (auto simp: upath_snoc)
  have "vm_ok A ?t"
    unfolding vm_ok_def hold tgt pm_only [OF pm] tbl
  proof (intro conjI ballI allI impI)
    fix r p v j assume a: "r \<in> A" "length p \<le> 2" "upath (p @ [j])" "tbl s r p = Some v" "huge (mem ?t v j)"
    then have h: "huge (mem s v j)" and "v \<noteq> u \<or> j \<noteq> i" using e(2) by (auto simp only: same)
    then have "mem ?t v j = mem s v j" by (auto simp: m)
    with vm_okD(4) [OF ok a(1-4) h]
    show "present (mem ?t v j)" "length p = 2" "\<not> arch_pte_cow (mem ?t v j)"
      "k < 512 \<Longrightarrow> \<not> managed (page_addr (arch_pte_phys (mem ?t v j)) k) s" for k by simp_all
  next
    fix r p v j assume a: "r \<in> A" "length p = 3" "upath (p @ [j])" "tbl s r p = Some v" "present (mem ?t v j)"
      "arch_pte_writable (mem ?t v j)" "managed (arch_pte_phys (mem ?t v j)) s"
    have "mem ?t v j = mem s v j" using leaf [OF a(1-4)] by (simp add: m)
    then show "nref (arch_pte_phys (mem ?t v j)) s = 1" using vm_okD(5) [OF ok a(1-4)] a(5-7) by simp
  qed (use vm_okD [OF ok] in blast)+
  then show "grows A s ?t"
    unfolding grows_def pm_only [OF pm] tbl using u e e' by (auto simp: fun_eq_iff m)
qed

text \<open>A new table, cleared.\<close>

lemma new_table_tree:
  assumes ok: "vm_ok A s" and u: "r \<in> A" "length p \<le> 2" "upath (p @ [i])" "tbl s r p = Some u"
    and np: "\<not> present (mem s u i)" and al: "alloc_page s = (Some q, s1)"
    and t: "t = wr u i e' (zero_page q s1)" and e': "present e'" "\<not> huge e'" "arch_pte_phys e' = q"
  shows "u \<noteq> q" "mem t v j = (if v = u \<and> j = i then e' else if v = q then 0 else mem s v j)"
    "r' \<in> A \<Longrightarrow> length p' \<le> 3 \<Longrightarrow> upath p' \<Longrightarrow> tbl t r' p' = (if r' = r \<and> p' = p @ [i] then Some q else tbl s r' p')"
proof -
  have up: "upath p" using u(3) by (simp add: upath_snoc)
  show uq: "u \<noteq> q" using fresh_not_table [OF ok al u(1) _ up u(4)] u(2) by simp
  have m1: "mem s1 = mem s" using al vm_okD(1) [OF ok] by (cases rule: alloc_page_cases) simp_all
  show m: "mem t v j = (if v = u \<and> j = i then e' else if v = q then 0 else mem s v j)" for v j
    using uq by (simp add: t m1)
  assume r': "r' \<in> A"
  have nt: "tbl s r (p @ [i]) = None" using np u(4) by (simp add: tbl_snoc)
  assume "length p' \<le> 3" "upath p'"
  then show "tbl t r' p' = (if r' = r \<and> p' = p @ [i] then Some q else tbl s r' p')"
  proof (induction p' rule: rev_induct)
    case (snoc j p')
    then have IH: "tbl t r' p' = (if r' = r \<and> p' = p @ [i] then Some q else tbl s r' p')"
      and l: "length p' \<le> 3" "upath p'" by (simp_all add: upath_snoc)
    show ?case
    proof (cases "r' = r \<and> p' = p @ [i]")
      case True
      then have "mem t q j = 0" using uq by (simp add: m)
      then have "tbl t r' (p' @ [j]) = None" using True IH by (subst tbl_snoc) (simp add: present_def)
      moreover have "tbl s r' (p' @ [j]) = None" using True nt by (subst tbl_snoc) simp
      ultimately show ?thesis using True by simp
    next
      case False
      show ?thesis
      proof (cases "tbl s r' p'")
        case None
        then have "\<not> (r' = r \<and> p' = p)" using u(4) by auto
        then show ?thesis using None IH False by (auto simp: tbl_snoc)
      next
        case (Some v)
        have "v \<noteq> q" using fresh_not_table [OF ok al r' l Some] .
        moreover have "r' = r \<and> p' = p" if "v = u"
          using tbl_unique [OF ok u(1) r' _ l(1) up l(2) u(4), of] Some that u(2) by simp
        ultimately show ?thesis using Some IH False e' u(4) by (auto simp: tbl_snoc m)
      qed
    qed
  qed simp
qed

lemma new_table_grows:
  assumes ok: "vm_ok A s" and u: "r \<in> A" "length p \<le> 2" "upath (p @ [i])" "tbl s r p = Some u"
    and np: "\<not> present (mem s u i)" and al: "alloc_page s = (Some q, s1)"
    and t: "t = wr u i e' (zero_page q s1)" and e': "present e'" "\<not> huge e'" "arch_pte_phys e' = q"
  shows "grows A s t"
proof -
  note tree = new_table_tree [OF ok u np al t e'] and pm = vm_okD(1) [OF ok]
  have up: "upath p" using u(3) by (simp add: upath_snoc)
  have pt: "pm t = pm s1" by (simp add: t)
  have q: "managed q s" "nref q s = 0" using pc.alloc_some [OF al pm] by simp_all
  have s1: "pm_ok s1" "managed x s1 = managed x s" "managed x s \<Longrightarrow> nref x s1 = (if x = q then 1 else nref x s)" for x
    using pc.alloc_man [OF al pm] pc.alloc_some [OF al pm] by simp_all
  have nt: "tbl s r (p @ [i]) = None" using np u(4) by (simp add: tbl_snoc)
  have hq: "\<not> present 0" "\<not> huge 0" by (simp_all add: present_def huge_def)
  have old: "mem t v j = mem s v j" if "istable A s v" "(v, j) \<noteq> (u, i)" for v j
    using that istable_managed [OF ok that(1)] q(2) by (auto simp: tree(2))
  have ent: "entries A t \<subseteq> insert (u, i) (entries A s)"
  proof (rule subrelI)
    fix v j assume "(v, j) \<in> entries A t"
    then obtain r' p' where a: "r' \<in> A" "length p' \<le> 3" "upath (p' @ [j])" "tbl t r' p' = Some v" "present (mem t v j)"
      by (auto simp: entries_def)
    then have up': "upath p'" by (simp add: upath_snoc)
    have "v \<noteq> q" using a(5) hq tree(1) by (auto simp: tree(2))
    then have s: "tbl s r' p' = Some v" using a(4) tree(3) [OF a(1,2) up'] by (auto split: if_splits)
    show "(v, j) \<in> insert (u, i) (entries A s)"
    proof (cases "(v, j) = (u, i)")
      case False
      then show ?thesis using entriesI [OF a(1-3) s] a(5) old [OF istableI [OF a(1,2) up' s], of j] by simp
    qed simp
  qed
  have nu: "Entry u i \<notin> hold A s" using np by (simp add: entries_def)
  have hold: "hold A t \<subseteq> insert (Entry u i) (hold A s)" using ent by (auto simp: hold_def)
  have "pc.counted (hold A t) (target t) s1"
  proof (rule pc.counted_subset [OF pc.counted_new [OF vm_okD(2) [OF ok] pm al nu] hold])
    fix l assume "l \<in> hold A t"
    show "target t l = ((target s)(Entry u i := q)) l"
    proof (cases l)
      case (Entry v j)
      show ?thesis
      proof (cases "(v, j) = (u, i)")
        case False
        then have "(v, j) \<in> entries A s" using \<open>l \<in> hold A t\<close> ent Entry by auto
        then have "istable A s v" by (force simp: entries_def istable_def upath_snoc)
        then show ?thesis using old [of v j] False Entry by auto
      qed (use Entry e' tree(2) in simp)
    qed simp
  qed
  then have cnt: "pc.counted (hold A t) (target t) t" by (simp add: pm_only(4) [OF pt])
  have tab: "managed v t \<and> nref v t = 1" if "r' \<in> A" "length p' \<le> 3" "upath p'" "tbl t r' p' = Some v" for r' p' v
    using that(4) tree(3) [OF that(1-3)] q s1(2,3) vm_okD(3) [OF ok that(1-3)] by (auto simp: pm_only [OF pt] split: if_splits)
  have slot: "(v = q \<and> mem t v j = 0) \<or> (v = u \<and> j = i \<and> p' = p) \<or> (tbl s r' p' = Some v \<and> mem t v j = mem s v j)"
    if a: "r' \<in> A" "length p' \<le> 3" "upath p'" "tbl t r' p' = Some v" for r' p' v j
  proof (cases "v = q")
    case False
    then have s: "tbl s r' p' = Some v" using a(4) tree(3) [OF a(1-3)] by (auto split: if_splits)
    have "p' = p" if "v = u" using tbl_unique [OF ok u(1) a(1) _ a(2) up a(3) u(4)] s that u(2) by simp
    then show ?thesis using s old [OF istableI [OF a(1-3) s], of j] by auto
  qed (use tree(1,2) in simp)
  have "vm_ok A t"
    unfolding vm_ok_def
  proof (intro conjI ballI allI impI)
    show "pm_ok t" using s1(1) by (simp add: pm_only [OF pt])
    show "pc.counted (hold A t) (target t) t" by (rule cnt)
  next
    fix r' p' v assume "r' \<in> A" "length p' \<le> 3" "upath p'" "tbl t r' p' = Some v"
    from tab [OF this] show "managed v t" "nref v t = 1" by simp_all
  next
    fix r' p' v j assume a: "r' \<in> A" "length p' \<le> 2" "upath (p' @ [j])" "tbl t r' p' = Some v" "huge (mem t v j)"
    have "mem t v j \<noteq> 0" "\<not> (v = u \<and> j = i)" using a(5) hq e' tree(2) [of u i] by auto
    then have s: "tbl s r' p' = Some v" "mem t v j = mem s v j" using slot [OF a(1) _ _ a(4), of j] a(2,3) by (auto simp: upath_snoc)
    show "present (mem t v j)" "length p' = 2" "\<not> arch_pte_cow (mem t v j)"
      "k < 512 \<Longrightarrow> \<not> managed (page_addr (arch_pte_phys (mem t v j)) k) t" for k
      using vm_okD(4) [OF ok a(1-3) s(1)] a(5) s1(2) by (simp_all add: s(2) pm_only [OF pt])
  next
    fix r' p' v j assume a: "r' \<in> A" "length p' = 3" "upath (p' @ [j])" "tbl t r' p' = Some v" "present (mem t v j)"
      "arch_pte_writable (mem t v j)" "managed (arch_pte_phys (mem t v j)) t"
    have "mem t v j \<noteq> 0" "p' \<noteq> p" using a(2,5) hq u(2) by auto
    then have s: "tbl s r' p' = Some v" "mem t v j = mem s v j" using slot [OF a(1) _ _ a(4), of j] a(2,3) by (auto simp: upath_snoc)
    have m: "managed (arch_pte_phys (mem s v j)) s" using a(7) s1(2) by (simp add: s(2) pm_only [OF pt])
    have "nref (arch_pte_phys (mem s v j)) s = 1" using vm_okD(5) [OF ok a(1-3) s(1) _ _ m] a(5,6) by (simp add: s(2))
    then show "nref (arch_pte_phys (mem t v j)) t = 1" using s1(3) [OF m] q(2) by (simp add: s(2) pm_only [OF pt])
  qed
  then show ?thesis
    unfolding grows_def
  proof (intro conjI ballI allI impI)
    show "managed z t = managed z s" for z by (simp add: s1 pm_only [OF pt])
    show "nref z t = nref z s" if "managed z s" "nref z s \<noteq> 0" for z using that q(2) by (auto simp: s1 pm_only [OF pt])
  next
    fix r' p' v assume a: "r' \<in> A" "length p' \<le> 3" "upath p'"
    show "tbl t r' p' = Some v" if "tbl s r' p' = Some v" using that nt tree(3) [OF a] by auto
    assume b: "tbl t r' p' = Some v" "tbl s r' p' = None"
    then have "v = q" using tree(3) [OF a] by (auto split: if_splits)
    then show "managed v s" "nref v s = 0" "\<not> huge (mem t v j)" "mem t v = (\<lambda>_. 0)" for j
      using q tree(1,2) hq by (simp_all add: fun_eq_iff)
  next
    fix v j assume i: "inner A s v"
    have "v \<noteq> q" using inner_managed [OF ok i] q(2) by auto
    have hu: "\<not> huge (mem s u i)" using vm_okD(4) [OF ok u] np by blast
    show "huge (mem t v j) = huge (mem s v j)" "huge (mem s v j) \<Longrightarrow> mem t v j = mem s v j"
      using \<open>v \<noteq> q\<close> e' hu by (auto simp: tree(2))
  next
    fix z assume "\<not> inner A s z" "managed z s \<longrightarrow> nref z s \<noteq> 0"
    moreover have "inner A s u" using innerI [OF u(1,2) up u(4)] .
    ultimately have "z \<noteq> u" "z \<noteq> q" using q by auto
    then show "mem t z = mem s z" by (simp add: fun_eq_iff tree(2))
  qed
qed

lemma next_level_grows:
  assumes ok: "vm_ok A s" and u: "r \<in> A" "length p \<le> 2" "upath (p @ [i])" "tbl s r p = Some u" and h: "\<not> huge (mem s u i)"
    and g: "get_next_level (Some u) i True flags s = Some (x, t)"
  shows "grows A s t" "tbl t r (p @ [i]) = x" "x = None \<Longrightarrow> nfree s = 0" "nfree s \<le> Suc (nfree t)"
proof -
  note pm = vm_okD(1) [OF ok]
  have i: "inner A s u" using innerI [OF u(1,2) _ u(4)] u(3) by (simp add: upath_snoc)
  have h': "\<not> (present (mem s u i) \<and> huge (mem s u i))" using h by simp
  from g pm h' have "grows A s t \<and> tbl t r (p @ [i]) = x \<and> (x = None \<longrightarrow> nfree s = 0) \<and> nfree s \<le> Suc (nfree t)"
  proof (cases rule: get_next_level_cases)
    case old
    have t: "nfree t = nfree s" using old(3) by (intro nfree_pm) simp
    have "grows A s t" "tbl t r (p @ [i]) = tbl s r (p @ [i])" for r p
      unfolding old(3) using old(1) h by (intro widen_grows [OF ok i] widen_grows(2) [OF ok i]; simp)+
    then show ?thesis using old(1,2) h u(4) t by (simp add: tbl_snoc)
  next
    case none
    have m: "mem t = mem s" using none(3) pm by (cases rule: alloc_page_cases) simp_all
    have n: "managed z t = managed z s" "managed z s \<Longrightarrow> nref z t = nref z s" for z
      using pc.alloc_man [OF none(3) pm] pc.alloc_none [OF none(3) pm] by simp_all
    have "grows A s t" unfolding grows_def using cow_nomem(1) [OF ok none(3)] n by (simp add: m tbl_mem [OF m])
    then show ?thesis using none u(4) alloc_page_free [OF none(3) pm] by (simp add: tbl_mem [OF m] tbl_snoc m)
  next
    case (new q s1)
    have mq: "managed q s" using pc.alloc_some [OF new(3) pm] by simp
    note e = table_entry_simps [OF pm mq, of flags]
    have l: "length (p @ [i]) \<le> 3" using u(2) by simp
    show ?thesis
      using new_table_grows [OF ok u new(1,3,4) e] new_table_tree(3) [OF ok u new(1,3,4) e u(1) l u(3)] new(2,4)
        alloc_page_free [OF new(3) pm] nfree_pm [of t s1] by simp
  qed
  then show "grows A s t" "tbl t r (p @ [i]) = x" "x = None \<Longrightarrow> nfree s = 0" "nfree s \<le> Suc (nfree t)" by blast+
qed

lemma table_held: "istable A s f \<Longrightarrow> f \<in> target s ` hold A s"
proof -
  assume "istable A s f"
  then obtain r p where p: "r \<in> A" "length p \<le> 3" "upath p" "tbl s r p = Some f" by (auto simp: istable_def)
  show ?thesis
  proof (cases p rule: rev_exhaust)
    case Nil
    then have "Root f \<in> hold A s" using p by simp
    then show ?thesis by (metis imageI target.simps(1))
  next
    case (snoc q i)
    then obtain u where u: "tbl s r q = Some u" using p(4) by (auto simp: tbl_snoc split: option.splits)
    have q: "length q \<le> 2" "upath (q @ [i])" "tbl s r (q @ [i]) = Some f" using p snoc by simp_all
    then have "Entry u i \<in> hold A s" "target s (Entry u i) = f" using entries_step [OF p(1) q(1,2) u q(3)] by simp_all
    then show ?thesis using imageI [of "Entry u i" "hold A s" "target s"] by metis
  qed
qed

lemma grows_unheld:
  assumes ok: "vm_ok A s" and g: "grows A s t" and f: "managed f s" "nref f s \<noteq> 0" "f \<notin> target s ` hold A s"
  shows "f \<notin> target t ` hold A t"
proof
  have nt: "\<not> istable A s f" using table_held [of A s f] f(3) by blast
  have ntt: "tbl t r p \<noteq> Some f" if p: "r \<in> A" "length p \<le> 3" "upath p" for r p
  proof
    assume t: "tbl t r p = Some f"
    show False
    proof (cases "tbl s r p")
      case None
      then show False using growsD(5) [OF g p t] f(2) by simp
    next
      case (Some v)
      then show False using growsD(4) [OF g p Some] t istableI [OF p, of s f] nt by simp
    qed
  qed
  assume "f \<in> target t ` hold A t"
  then obtain l where l: "l \<in> hold A t" "target t l = f" by auto
  show False
  proof (cases l)
    case (Root r)
    then show False using l ntt [of r "[]"] by simp
  next
    case (Entry u i)
    then obtain r p where a: "r \<in> A" "length p \<le> 3" "upath (p @ [i])" "tbl t r p = Some u" "present (mem t u i)"
      using l(1) by (auto simp: entries_def)
    have up: "upath p" using a(3) by (simp add: upath_snoc)
    have ph: "arch_pte_phys (mem t u i) = f" using l(2) Entry by simp
    have "mem t u i = mem s u i \<and> tbl s r p = Some u"
    proof (cases "length p = 3")
      case True
      then show ?thesis
      proof (cases "tbl s r p")
        case None
        then show ?thesis using growsD(5) [OF g a(1,2) up a(4) None] True a(5) by (simp add: present_def)
      next
        case (Some v)
        then have v: "v = u" using growsD(4) [OF g a(1,2) up Some] a(4) by simp
        have "mem t u = mem s u"
          using leaf_table_not_inner [OF ok a(1) True up Some] vm_okD(3) [OF ok a(1,2) up Some] v by (intro growsD(7) [OF g]) simp_all
        then show ?thesis using Some v by simp
      qed
    next
      case False
      then have le: "length p \<le> 2" using a(2) by simp
      have "huge (mem t u i)"
      proof (rule ccontr)
        assume "\<not> huge (mem t u i)"
        then have "tbl t r (p @ [i]) = Some f" using a(4,5) ph by (simp add: tbl_snoc)
        then show False using ntt [OF a(1) _ a(3)] le by simp
      qed
      moreover have s: "tbl s r p = Some u"
      proof (cases "tbl s r p")
        case None
        then show ?thesis using growsD(5) [OF g a(1,2) up a(4) None] \<open>huge (mem t u i)\<close> by simp
      next
        case (Some v)
        then show ?thesis using growsD(4) [OF g a(1,2) up Some] a(4) by simp
      qed
      ultimately show ?thesis using growsD(6) [OF g innerI [OF a(1) le up s], of i] by simp
    qed
    then have "Entry u i \<in> hold A s" "target s (Entry u i) = f" using entriesI [OF a(1-3), of s u] a(5) ph by simp_all
    then show False using f(3) imageI [of "Entry u i" "hold A s" "target s"] by metis
  qed
qed

lemma map_page_walk:
  assumes ok: "vm_ok A s" and r: "r \<in> A" "user_addr va" and h: "translate r va s = None" and al: "vmm_page_aligned pa"
  shows "vmm_map_page r va pa flags s = Some t \<Longrightarrow> \<exists>pt t3. grows A s t3 \<and> tbl t3 r (vpath va) = Some pt \<and> nfree s \<le> nfree t3 + 3 \<and>
      t = wr pt (PT_IDX va) ((pa AND PTE_ADDR_MASK) OR flags OR PTE_PRESENT) t3"
    and "3 \<le> nfree s \<Longrightarrow> vmm_map_page r va pa flags s \<noteq> None"
proof -
  let ?p1 = "[PML4_IDX va]" and ?p2 = "[PML4_IDX va, PDP_IDX va]"
  have up: "upath ([] @ [PML4_IDX va])" "upath (?p1 @ [PDP_IDX va])" "upath (?p2 @ [PD_IDX va])" using r(2) upath_pd [OF r(2)] by simp_all
  obtain x1 s1 where g1: "get_next_level (Some r) (PML4_IDX va) True flags s = Some (x1, s1)"
    using get_next_level_returns [of "PML4_IDX va" r flags s] by auto
  note h1 = upper_not_huge(1) [OF ok r]
  have n1: "grows A s s1" "tbl s1 r ?p1 = x1" "x1 = None \<Longrightarrow> nfree s = 0" "nfree s \<le> Suc (nfree s1)"
    using next_level_grows [OF ok r(1) _ up(1) _ h1 g1] by simp_all
  note ok1 = growsD(1) [OF n1(1)]
  have step2: "grows A s s2 \<and> tbl s2 r ?p2 = x2 \<and> (x2 = None \<longrightarrow> nfree s \<le> 1) \<and> nfree s \<le> nfree s2 + 2"
    if g2: "get_next_level x1 (PDP_IDX va) True flags s1 = Some (x2, s2)" for x2 s2
  proof -
    obtain u where u: "x1 = Some u" using g2 by (cases x1) (simp_all add: get_next_level_def)
    have h2: "\<not> huge (mem s1 u (PDP_IDX va))" using vm_okD(4) [OF ok1 r(1) _ up(2), of u] n1(2) u by auto
    have n2: "grows A s1 s2" "tbl s2 r ?p2 = x2" "x2 = None \<Longrightarrow> nfree s1 = 0" "nfree s1 \<le> Suc (nfree s2)"
      using next_level_grows [OF ok1 r(1) _ up(2) _ h2 g2 [unfolded u]] n1(2) u by simp_all
    then show ?thesis using grows_trans [OF n1(1) n2(1) ok] n1(4) by auto
  qed
  have step3: "grows A s s3 \<and> tbl s3 r (vpath va) = x3 \<and> (x3 = None \<longrightarrow> nfree s \<le> 2) \<and> nfree s \<le> nfree s3 + 3"
    if g2: "get_next_level x1 (PDP_IDX va) True flags s1 = Some (x2, s2)" and g3: "get_next_level x2 (PD_IDX va) True flags s2 = Some (x3, s3)" for x2 s2 x3 s3
  proof -
    obtain u where u: "x2 = Some u" using g3 by (cases x2) (simp_all add: get_next_level_def)
    note n2 = step2 [OF g2]
    then have t: "translate r va s2 = None" and ok2: "vm_ok A s2" using grows_translate [OF ok _ r] h growsD(1) by auto
    have h3: "\<not> huge (mem s2 u (PD_IDX va))" using t n2 u by (auto simp: translate_def split: if_splits)
    have n3: "grows A s2 s3" "tbl s3 r (vpath va) = x3" "x3 = None \<Longrightarrow> nfree s2 = 0" "nfree s2 \<le> Suc (nfree s3)"
      using next_level_grows [OF ok2 r(1) _ up(3) _ h3 g3 [unfolded u]] n2 u by (simp_all add: vpath_def)
    then show ?thesis using grows_trans [OF _ n3(1) ok] n2 by auto
  qed
  show "\<exists>pt t3. grows A s t3 \<and> tbl t3 r (vpath va) = Some pt \<and> nfree s \<le> nfree t3 + 3 \<and>
      t = wr pt (PT_IDX va) ((pa AND PTE_ADDR_MASK) OR flags OR PTE_PRESENT) t3" if mp: "vmm_map_page r va pa flags s = Some t"
  proof -
    obtain x2 s2 pt s3 where g: "get_next_level x1 (PDP_IDX va) True flags s1 = Some (x2, s2)"
        "get_next_level x2 (PD_IDX va) True flags s2 = Some (Some pt, s3)"
        "t = wr pt (PT_IDX va) ((pa AND PTE_ADDR_MASK) OR flags OR PTE_PRESENT) s3"
      using mp al g1 by (auto simp: vmm_map_page_def bind_eq_Some_conv)
    show ?thesis using step3 [OF g(1,2)] g(3) by blast
  qed
  assume n: "3 \<le> nfree s"
  obtain u where u: "x1 = Some u" using n1(3) n by (cases x1) simp_all
  obtain x2 s2 where g2: "get_next_level x1 (PDP_IDX va) True flags s1 = Some (x2, s2)"
    using get_next_level_returns [of "PDP_IDX va" u flags s1] u by auto
  obtain v where v: "x2 = Some v" using step2 [OF g2] n by (cases x2) simp_all
  obtain x3 s3 where g3: "get_next_level x2 (PD_IDX va) True flags s2 = Some (x3, s3)"
    using get_next_level_returns [of "PD_IDX va" v flags s2] v by auto
  obtain w where "x3 = Some w" using step3 [OF g2 g3] n by (cases x3) simp_all
  then show "vmm_map_page r va pa flags s \<noteq> None" using al g1 g2 g3 by (simp add: vmm_map_page_def)
qed

section \<open>Changing an entry of the last level\<close>

lemma slot_tree:
  assumes ok: "vm_ok A s" and r: "r \<in> A" "user_addr va" and pt: "tbl s r (vpath va) = Some pt"
    and m: "\<And>v j. mem t v j = (if v = pt \<and> j = PT_IDX va then e else mem s v j)"
  shows "r' \<in> A \<Longrightarrow> length p' \<le> 3 \<Longrightarrow> upath p' \<Longrightarrow> tbl t r' p' = tbl s r' p'"
    "entries A t = (if present e then insert (pt, PT_IDX va) (entries A s) else entries A s - {(pt, PT_IDX va)})"
    "r' \<in> A \<Longrightarrow> user_addr va' \<Longrightarrow> translate r' va' t =
      (if r' = r \<and> vpage va' = vpage va then if present e then Some (e, False) else None else translate r' va' s)"
proof -
  have ni: "\<not> inner A s pt" using leaf_table_not_inner [OF ok r(1) _ _ pt] r(2) by simp
  then have inner: "mem t v j = mem s v j" if "inner A s v" for v j using that by (auto simp: m)
  show tbl: "tbl t r' p' = tbl s r' p'" if "r' \<in> A" "length p' \<le> 3" "upath p'" for r' p'
    using tbl_frame [of A s t, OF inner that] .
  show "entries A t = (if present e then insert (pt, PT_IDX va) (entries A s) else entries A s - {(pt, PT_IDX va)})"
  proof -
    have "(v, j) \<in> entries A t \<longleftrightarrow> (if v = pt \<and> j = PT_IDX va then present e else (v, j) \<in> entries A s)" for v j
    proof (cases "v = pt \<and> j = PT_IDX va")
      case True
      have "(pt, PT_IDX va) \<in> entries A t" if "present e"
        using tbl [OF r(1), of "vpath va"] r(2) pt that by (intro entriesI [OF r(1), of "vpath va"]) (simp_all add: m)
      then show ?thesis using True by (auto simp: entries_def m)
    next
      case False
      then have "mem t v j = mem s v j" by (auto simp: m)
      then show ?thesis using tbl False by (force simp: entries_def upath_snoc)
    qed
    then show ?thesis by (auto split: if_splits)
  qed
  assume a: "r' \<in> A" "user_addr va'"
  have t2: "tbl t r' [PML4_IDX va', PDP_IDX va'] = tbl s r' [PML4_IDX va', PDP_IDX va']"
    and t3: "tbl t r' (vpath va') = tbl s r' (vpath va')" by (rule tbl [OF a(1)], use a in simp_all)+
  have pd: "mem t pd j = mem s pd j" if "tbl s r' [PML4_IDX va', PDP_IDX va'] = Some pd" for pd j
    using innerI [OF a(1) _ _ that] a(2) by (intro inner) simp
  have uniq: "r' = r \<and> vpath va' = vpath va" if "tbl s r' (vpath va') = Some pt"
    using tbl_unique [OF ok r(1) a(1) _ _ _ _ pt that] r(2) a(2) by simp
  show "translate r' va' t =
      (if r' = r \<and> vpage va' = vpage va then if present e then Some (e, False) else None else translate r' va' s)"
  proof (cases "r' = r \<and> vpage va' = vpage va")
    case True
    then have v: "vpath va' = vpath va" "PT_IDX va' = PT_IDX va" by (simp_all add: vpage_def)
    then obtain pd where pd': "tbl s r' [PML4_IDX va', PDP_IDX va'] = Some pd" "\<not> huge (mem s pd (PD_IDX va'))"
      using True pt vpath_next [of s r' va'] by (auto split: option.splits if_splits)
    then show ?thesis using True v t2 t3 pd pt by (simp add: translate_def m)
  next
    case False
    then have "tbl s r' (vpath va') = Some pt \<Longrightarrow> PT_IDX va' \<noteq> PT_IDX va" using uniq by (auto simp: vpage_def)
    then show ?thesis using False t2 t3 pd by (auto simp: translate_def m split: option.splits)
  qed
qed

lemma slot_ok:
  assumes ok: "vm_ok A s" and r: "r \<in> A" "user_addr va" and pt: "tbl s r (vpath va) = Some pt"
    and m: "\<And>v j. mem t v j = (if v = pt \<and> j = PT_IDX va then e else mem s v j)"
    and counts: "pm_ok t" "pc.counted (hold A t) (target t) t"
    and man: "\<And>z. managed z t = managed z s"
    and tab: "\<And>z. istable A s z \<Longrightarrow> nref z t = 1"
    and leaf: "\<And>v j. (v, j) \<in> entries A s \<Longrightarrow> (v, j) \<noteq> (pt, PT_IDX va) \<Longrightarrow> managed (arch_pte_phys (mem s v j)) s \<Longrightarrow>
      nref (arch_pte_phys (mem s v j)) s = 1 \<Longrightarrow> nref (arch_pte_phys (mem s v j)) t = 1"
    and excl: "present e \<Longrightarrow> arch_pte_writable e \<Longrightarrow> managed (arch_pte_phys e) s \<Longrightarrow> nref (arch_pte_phys e) t = 1"
  shows "vm_ok A t"
  unfolding vm_ok_def
proof (intro conjI ballI allI impI)
  note tree = slot_tree [OF ok r pt m]
  have ni: "\<not> inner A s pt" using leaf_table_not_inner [OF ok r(1) _ _ pt] r(2) by simp
  show "pm_ok t" "pc.counted (hold A t) (target t) t" by (rule counts)+
  show "managed v t" "nref v t = 1" if "r' \<in> A" "length p' \<le> 3" "upath p'" "tbl t r' p' = Some v" for r' p' v
    using that tree(1) [OF that(1-3)] istable_managed [OF ok istableI [OF that(1-3)]] tab [OF istableI [OF that(1-3)]] man by simp_all
  fix r' p' v j assume a: "r' \<in> A" "upath (p' @ [j])" "tbl t r' p' = Some v"
  have up: "upath p'" using a(2) by (simp add: upath_snoc)
  show "present (mem t v j)" "length p' = 2" "\<not> arch_pte_cow (mem t v j)"
      "k < 512 \<Longrightarrow> \<not> managed (page_addr (arch_pte_phys (mem t v j)) k) t" if l: "length p' \<le> 2" "huge (mem t v j)" for k
  proof -
    have s: "tbl s r' p' = Some v" using tree(1) [OF a(1) _ up] a(3) l(1) by simp
    have "mem t v j = mem s v j" using innerI [OF a(1) l(1) up s] ni by (auto simp: m)
    then show "present (mem t v j)" "length p' = 2" "\<not> arch_pte_cow (mem t v j)"
      "k < 512 \<Longrightarrow> \<not> managed (page_addr (arch_pte_phys (mem t v j)) k) t"
      using vm_okD(4) [OF ok a(1) l(1) a(2) s] l(2) by (simp_all add: man)
  qed
  assume l: "length p' = 3" "present (mem t v j)" "arch_pte_writable (mem t v j)" "managed (arch_pte_phys (mem t v j)) t"
  have s: "tbl s r' p' = Some v" using tree(1) [OF a(1) _ up] a(3) l(1) by simp
  show "nref (arch_pte_phys (mem t v j)) t = 1"
  proof (cases "(v, j) = (pt, PT_IDX va)")
    case True
    then show ?thesis using excl l man by (simp add: m)
  next
    case False
    then have e: "mem t v j = mem s v j" by (auto simp: m)
    show ?thesis
      using leaf [OF entriesI [OF a(1) _ a(2) s] False] vm_okD(5) [OF ok a(1) l(1) a(2) s] l man by (simp add: e)
  qed
qed

text \<open>A frame that no holder refers to yet gets an entry.\<close>

lemma map_leaf:
  assumes ok: "vm_ok A s" and r: "r \<in> A" "user_addr va" and pt: "tbl s r (vpath va) = Some pt" and np: "\<not> present (mem s pt (PT_IDX va))"
    and e: "present e" and f: "managed (arch_pte_phys e) s \<Longrightarrow> nref (arch_pte_phys e) s = 1 \<and> arch_pte_phys e \<notin> target s ` hold A s"
  shows "vm_ok A (wr pt (PT_IDX va) e s)"
proof -
  let ?t = "wr pt (PT_IDX va) e s" and ?l = "Entry pt (PT_IDX va)"
  have m: "mem ?t v j = (if v = pt \<and> j = PT_IDX va then e else mem s v j)" for v j by simp
  note tree = slot_tree [OF ok r pt m]
  have pm: "pm ?t = pm s" by simp
  have nl: "?l \<notin> hold A s" using np by (simp add: entries_def)
  have hold: "hold A ?t = insert ?l (hold A s)" using tree(2) e by (auto simp: hold_def)
  have c: "card (holders (hold A s) (target s) (arch_pte_phys e)) < nref (arch_pte_phys e) s" if "managed (arch_pte_phys e) s"
  proof -
    have "holders (hold A s) (target s) (arch_pte_phys e) = {}" using f [OF that] by (auto simp: holders_def) (metis imageI)
    then show ?thesis using f [OF that] by simp
  qed
  have "pc.counted (insert ?l (hold A s)) ((target s)(?l := arch_pte_phys e)) s"
    by (rule pc.counted_adopt [OF vm_okD(2) [OF ok] nl c])
  then have "pc.counted (hold A ?t) (target ?t) s"
  proof (rule pc.counted_subset)
    show "target ?t l = ((target s)(?l := arch_pte_phys e)) l" for l by (cases l) auto
  qed (simp add: hold)
  then have cnt: "pc.counted (hold A ?t) (target ?t) ?t" by (simp add: pm_only(4) [OF pm])
  show ?thesis
    using slot_ok [OF ok r pt m _ cnt] vm_okD(1) [OF ok] istable_managed [OF ok] f by (simp add: pm_only [OF pm])
qed

lemma user_page_same:
  assumes ok: "vm_ok A s" "vm_ok A t" and r: "r \<in> A" "user_addr va" and tr: "translate r va t = translate r va s"
    and m: "\<And>z. \<not> istable A s z \<Longrightarrow> (managed z s \<Longrightarrow> nref z s \<noteq> 0) \<Longrightarrow> mem t z = mem s z"
  shows "user_page r va t = user_page r va s"
proof (cases "translate r va s")
  case (Some x)
  have "mem t (frame_of va x) = mem s (frame_of va x)" by (rule m) (rule frame_facts [OF ok(1) r Some], assumption?)+
  then show ?thesis using Some tr by (simp add: user_page_translate [OF ok(1) r] user_page_translate [OF ok(2) r])
qed (use tr in \<open>simp add: user_page_translate [OF ok(1) r] user_page_translate [OF ok(2) r]\<close>)

text \<open>What the processes see is the same outside of the given pages.\<close>

definition sees_same :: "u64 set \<Rightarrow> (u64 \<times> nat list) set \<Rightarrow> 'a vm_scheme \<Rightarrow> 'a vm_scheme \<Rightarrow> bool" where
  "sees_same A R s t \<longleftrightarrow> (\<forall>r \<in> A. \<forall>va. user_addr va \<longrightarrow> (r, vpage va) \<notin> R \<longrightarrow>
     translate r va t = translate r va s \<and> user_page r va t = user_page r va s)"

lemma sees_same_refl [simp]: "sees_same A R s s"
  by (simp add: sees_same_def)

lemma sees_same_trans: "sees_same A R s t \<Longrightarrow> sees_same A R' t v \<Longrightarrow> sees_same A (R \<union> R') s v"
  by (simp add: sees_same_def)

lemma sees_same_mono: "sees_same A R s t \<Longrightarrow> R \<subseteq> R' \<Longrightarrow> sees_same A R' s t"
  by (auto simp: sees_same_def)

lemma leaf_entry_simps:
  assumes "vmm_page_aligned pa" and "pa AND PTE_ADDR_MASK = pa" and "flags AND PTE_ADDR_MASK = 0"
  shows "present ((pa AND PTE_ADDR_MASK) OR flags OR PTE_PRESENT)" "arch_pte_phys ((pa AND PTE_ADDR_MASK) OR flags OR PTE_PRESENT) = pa"
proof -
  show "present ((pa AND PTE_ADDR_MASK) OR flags OR PTE_PRESENT)"
    by (simp add: pte_bits bit_simps pte_flag_bits)
  have "\<not> (bit flags n \<and> 12 \<le> n \<and> n < 52)" for n
    using assms(3) by (metis bit_0_eq bit_addr_mask bit_and_iff bot_apply bot_bool_def)
  moreover have "bit pa n \<Longrightarrow> 12 \<le> n \<and> n < 52" for n using assms(2) bit_and_iff [of pa PTE_ADDR_MASK n] by simp
  ultimately show "arch_pte_phys ((pa AND PTE_ADDR_MASK) OR flags OR PTE_PRESENT) = pa"
    unfolding arch_pte_phys_def by (intro bit_word_eqI) (auto simp: bit_simps pte_flag_bits)
qed

lemma map_page_maps:
  assumes ok: "vm_ok A s" and r: "r \<in> A" "user_addr va" and h: "translate r va s = None"
    and pa: "vmm_page_aligned pa" "pa AND PTE_ADDR_MASK = pa" "flags AND PTE_ADDR_MASK = 0"
    and f: "managed pa s \<Longrightarrow> nref pa s = 1 \<and> pa \<notin> target s ` hold A s" and mp: "vmm_map_page r va pa flags s = Some t"
  shows "vm_ok A t" "sees_same A {(r, vpage va)} s t" "translate r va t = Some (pa OR flags OR PTE_PRESENT, False)"
    "nfree s \<le> nfree t + 3" "mem t pa = mem s pa" "managed z t = managed z s" "managed z s \<Longrightarrow> nref z s \<noteq> 0 \<Longrightarrow> nref z t = nref z s"
proof -
  let ?e = "(pa AND PTE_ADDR_MASK) OR flags OR PTE_PRESENT"
  obtain pt t3 where w: "grows A s t3" "tbl t3 r (vpath va) = Some pt" "nfree s \<le> nfree t3 + 3" "t = wr pt (PT_IDX va) ?e t3"
    using map_page_walk(1) [OF ok r h pa(1) mp] by blast
  note ok3 = growsD(1) [OF w(1)] and e = leaf_entry_simps [OF pa]
  have m: "mem t v j = (if v = pt \<and> j = PT_IDX va then ?e else mem t3 v j)" for v j by (simp add: w(4))
  note tree = slot_tree [OF ok3 r w(2) m]
  have h3: "translate r va t3 = None" using grows_translate [OF ok w(1) r] h by simp
  have np: "\<not> present (mem t3 pt (PT_IDX va))"
    using h3 w(2) vpath_next [of t3 r va] by (auto simp: translate_def split: option.splits if_splits)
  have f3: "nref pa t3 = 1 \<and> pa \<notin> target t3 ` hold A t3" if "managed pa t3"
    using f growsD(2,3) [OF w(1), of pa] that grows_unheld [OF ok w(1), of pa] by simp
  show okt: "vm_ok A t" unfolding w(4) by (rule map_leaf [OF ok3 r w(2) np e(1)]) (use f3 e(2) in simp)
  show "translate r va t = Some (pa OR flags OR PTE_PRESENT, False)" using tree(3) [OF r] e(1) pa(2) by simp
  show "nfree s \<le> nfree t + 3" using w(3,4) nfree_pm [of t t3] by simp
  have pm: "pm t = pm t3" by (simp add: w(4))
  show "managed z t = managed z s" "managed z s \<Longrightarrow> nref z s \<noteq> 0 \<Longrightarrow> nref z t = nref z s" for z
    using growsD(2,3) [OF w(1)] by (simp_all add: pm_only [OF pm])
  have it: "istable A t3 pt" using istableI [OF r(1) _ _ w(2)] r(2) by simp
  have mt: "mem t z = mem t3 z" if "\<not> istable A t3 z" for z using it that by (auto simp: fun_eq_iff m)
  show "sees_same A {(r, vpage va)} s t"
    unfolding sees_same_def
  proof (intro ballI allI impI)
    fix r' va' assume a: "r' \<in> A" "user_addr va'" "(r', vpage va') \<notin> {(r, vpage va)}"
    then have tr: "translate r' va' t = translate r' va' t3" using tree(3) [OF a(1,2)] by auto
    then show "translate r' va' t = translate r' va' s \<and> user_page r' va' t = user_page r' va' s"
      using grows_translate [OF ok w(1) a(1,2)] grows_user_page [OF ok w(1) a(1,2)]
        user_page_same [OF ok3 okt a(1,2) tr mt] by simp
  qed
  have "\<not> istable A s pa" using f table_held [of A s pa] istable_managed [OF ok] by blast
  moreover have "\<not> istable A t3 pa" using f3 table_held [of A t3 pa] istable_managed [OF ok3] by blast
  ultimately show "mem t pa = mem s pa" using mt growsD(7) [OF w(1), of pa] inner_istable [of A s pa] f by auto
qed

section \<open>Removing an entry of the last level\<close>

lemma vm_free_unmanaged: "pm_ok s \<Longrightarrow> vmm_page_aligned q \<Longrightarrow> \<not> managed q s \<Longrightarrow> vm_free q 1 s = s"
  using unsigned_less [of q, where 'a = nat]
  by (simp add: vm_free_def pmm_free_def pmm_free_step_def add64_def pmm_page_of_def managed_def pm_ok_def)

lemma vm_free_nfree: "pm_ok s \<Longrightarrow> managed q s \<Longrightarrow> nfree s \<le> nfree (vm_free q 1 s)"
proof -
  assume a: "pm_ok s" "managed q s"
  let ?p = "unat q div PAGE_SIZE"
  have b: "g_base_pa (pm s) = 0" "pmm_inv (pm s)" using a(1) by (simp_all add: pm_ok_def)
  have "unat q < 2 ^ 64" using unsigned_less [of q, where 'a = nat] by simp
  from free_pages_once [OF b(2) page_of_managed [OF b(1) a(2)] this]
  have "dropped (pm s) {?p} (pmm_free (unat q) 1 (pm s))" by simp
  then show ?thesis by (auto simp: nfree_def vm_free_def dropped_def)
qed

lemma unmap_leaf:
  assumes ok: "vm_ok A s" and r: "r \<in> A" "user_addr va" and pt: "tbl s r (vpath va) = Some pt" and p: "present (mem s pt (PT_IDX va))"
  shows "vm_ok A (wr pt (PT_IDX va) 0 s)"
    "vm_ok A (vm_free (arch_pte_phys (mem s pt (PT_IDX va))) 1 (wr pt (PT_IDX va) 0 s))"
    "managed z (vm_free (arch_pte_phys (mem s pt (PT_IDX va))) 1 (wr pt (PT_IDX va) 0 s)) = managed z s"
    "nfree s \<le> nfree (vm_free (arch_pte_phys (mem s pt (PT_IDX va))) 1 (wr pt (PT_IDX va) 0 s))"
    "managed z s \<Longrightarrow> nref z (vm_free (arch_pte_phys (mem s pt (PT_IDX va))) 1 (wr pt (PT_IDX va) 0 s)) =
       nref z s - (if arch_pte_phys (mem s pt (PT_IDX va)) = z then 1 else 0)"
proof -
  let ?i = "PT_IDX va" and ?f = "arch_pte_phys (mem s pt (PT_IDX va))"
  let ?w = "wr pt ?i 0 s" and ?l = "Entry pt (PT_IDX va)"
  note pmo = vm_okD(1) [OF ok] and cnt = vm_okD(2) [OF ok]
  have m: "mem ?w v j = (if v = pt \<and> j = ?i then 0 else mem s v j)" for v j by simp
  have np: "\<not> present 0" by (simp add: present_def)
  note tree = slot_tree [OF ok r pt m]
  have pm: "pm ?w = pm s" by simp
  have in_l: "?l \<in> hold A s" using entriesI [OF r(1) _ upath_pt [OF r(2)] pt p] by simp
  have hold: "hold A ?w = hold A s - {?l}" using tree(2) np by (auto simp: hold_def)
  have tgt: "target ?w l = target s l" if "l \<in> hold A s - {?l}" for l using that by (cases l) auto
  have "pc.counted (hold A ?w) (target ?w) s"
    by (rule pc.counted_subset [OF cnt]) (use hold tgt in auto)
  then have cw: "pc.counted (hold A ?w) (target ?w) ?w" by (simp add: pm_only(4) [OF pm])
  show ow: "vm_ok A ?w"
    using slot_ok [OF ok r pt m _ cw] pmo istable_managed [OF ok] np by (simp add: pm_only [OF pm])
  have free: "vm_ok A (vm_free ?f 1 ?w) \<and> managed z (vm_free ?f 1 ?w) = managed z s \<and> nfree s \<le> nfree (vm_free ?f 1 ?w) \<and>
    (managed z s \<longrightarrow> nref z (vm_free ?f 1 ?w) = nref z s - (if ?f = z then 1 else 0))" for z
  proof (cases "managed ?f s")
    case False
    then have "vm_free ?f 1 ?w = ?w" using vm_free_unmanaged [of ?w ?f] pmo by (simp add: pm_only [OF pm])
    then show ?thesis using ow False by (auto simp: pm_only [OF pm] nfree_pm [OF pm])
  next
    case True
    let ?t = "vm_free ?f 1 ?w"
    have pt': "pm ?t = pm (vm_free ?f 1 s)" by (simp add: vm_free_def)
    have mt: "mem ?t v j = (if v = pt \<and> j = ?i then 0 else mem s v j)" for v j by simp
    note fm = pc.free_man [OF pmo True] and fr = pc.free_ref [OF pmo True]
    have hold_t: "hold A ?t = hold A s - {?l}" using slot_tree(2) [OF ok r pt mt] np by (auto simp: hold_def)
    have tgt_t: "target ?t l = target s l" if "l \<in> hold A s - {?l}" for l using that by (cases l) auto
    have "pc.counted (hold A s - {?l}) (target s) (vm_free ?f 1 s)"
      using pc.counted_drop [OF cnt pmo in_l] True by simp
    then have "pc.counted (hold A ?t) (target ?t) (vm_free ?f 1 s)"
      by (rule pc.counted_subset) (use hold_t tgt_t in auto)
    then have ct: "pc.counted (hold A ?t) (target ?t) ?t" by (simp only: pm_only(4) [OF pt'])
    have ftab: "z \<noteq> ?f" if "istable A s z" for z
      using that leaf_frame_not_table [OF ok r(1) _ upath_pt [OF r(2)] pt p] by (auto simp: istable_def)
    have "vm_ok A ?t"
    proof (rule slot_ok [OF ok r pt mt _ ct])
      show "pm_ok ?t" "managed z ?t = managed z s" for z unfolding pm_only [OF pt'] using fm by simp_all
      show "nref z ?t = 1" if z: "istable A s z" for z
        unfolding pm_only [OF pt'] using fr [of z] istable_managed [OF ok z] ftab [OF z] by simp
      fix v j assume a: "(v, j) \<in> entries A s" "(v, j) \<noteq> (pt, ?i)" "managed (arch_pte_phys (mem s v j)) s" "nref (arch_pte_phys (mem s v j)) s = 1"
      have "arch_pte_phys (mem s v j) \<noteq> ?f"
      proof
        assume "arch_pte_phys (mem s v j) = ?f"
        then have "?l = Entry v j" using pc.sole_holder [OF cnt, of "Entry v j" ?l] a in_l by simp
        then show False using a(2) by simp
      qed
      then show "nref (arch_pte_phys (mem s v j)) ?t = 1" unfolding pm_only [OF pt'] using fr [OF a(3)] a(4) by simp
    qed (use np in simp)
    then show ?thesis unfolding pm_only [OF pt'] nfree_pm [OF pt'] using fm fr [of z] vm_free_nfree [OF pmo True] by auto
  qed
  then show "vm_ok A (vm_free ?f 1 ?w)" "managed z (vm_free ?f 1 ?w) = managed z s" "nfree s \<le> nfree (vm_free ?f 1 ?w)"
    "managed z s \<Longrightarrow> nref z (vm_free ?f 1 ?w) = nref z s - (if ?f = z then 1 else 0)" by blast+
qed

section \<open>Mapping a page\<close>

lemma page_flags_bits:
  "arch_vm_user_page_flags w x AND PTE_ADDR_MASK = 0"
  "user (pa OR arch_vm_user_page_flags w x OR PTE_PRESENT)"
  "pa AND PTE_ADDR_MASK = pa \<Longrightarrow> arch_pte_writable (pa OR arch_vm_user_page_flags w x OR PTE_PRESENT) = w"
  "pa AND PTE_ADDR_MASK = pa \<Longrightarrow> ((pa OR arch_vm_user_page_flags w x OR PTE_PRESENT) AND PTE_NX = 0) = x"
  "pa AND PTE_ADDR_MASK = pa \<Longrightarrow> arch_pte_phys (pa OR arch_vm_user_page_flags w x OR PTE_PRESENT) = pa"
  "pa AND PTE_ADDR_MASK = pa \<Longrightarrow> \<not> arch_pte_cow (pa OR arch_vm_user_page_flags w x OR PTE_PRESENT)"
proof -
  let ?f = "arch_vm_user_page_flags w x"
  have b: "bit ?f n \<longleftrightarrow> n = 0 \<or> n = 2 \<or> n = 1 \<and> w \<or> n = 63 \<and> \<not> x" for n
    by (auto simp: arch_vm_user_page_flags_def Let_def bit_simps pte_flag_bits)
  show "?f AND PTE_ADDR_MASK = 0" by (intro bit_word_eqI) (auto simp: bit_simps b)
  show "user (pa OR ?f OR PTE_PRESENT)" by (simp add: pte_bits bit_simps b)
  assume "pa AND PTE_ADDR_MASK = pa"
  then have p: "12 \<le> n \<and> n < 52" if "bit pa n" for n using that bit_and_iff [of pa PTE_ADDR_MASK n] by simp
  show "arch_pte_writable (pa OR ?f OR PTE_PRESENT) = w" "\<not> arch_pte_cow (pa OR ?f OR PTE_PRESENT)"
    by (auto simp: pte_bits bit_simps b pte_flag_bits dest: p)
  have "(pa OR ?f OR PTE_PRESENT) AND PTE_NX = 0 \<longleftrightarrow> \<not> bit (pa OR ?f OR PTE_PRESENT) 63"
    unfolding PTE_NX_def by (rule and_push_bit_0) simp
  then show "((pa OR ?f OR PTE_PRESENT) AND PTE_NX = 0) = x" by (auto simp: bit_simps b pte_flag_bits dest: p)
  show "arch_pte_phys (pa OR ?f OR PTE_PRESENT) = pa"
    unfolding arch_pte_phys_def by (intro bit_word_eqI) (auto simp: bit_simps b pte_flag_bits dest: p)
qed

lemma page_prot_translate:
  assumes "vm_ok A s" and "r \<in> A" and "user_addr va" and "translate r va s = Some (e, False)"
  shows "arch_vm_get_page_prot r va s = Some (arch_pte_writable e, e AND PTE_NX = 0)"
  using assms(4) by (cases rule: translate_cases)
    (simp_all add: arch_vm_get_page_prot_def user_pte_translate [OF assms(1-3)] pte_at_def arch_pte_writable_def)

lemma aligned_mod: "vmm_page_aligned va \<Longrightarrow> va mod of_nat PAGE_SIZE = 0"
proof -
  assume "vmm_page_aligned va"
  then have "va AND mask 12 = 0" by (simp add: vmm_page_aligned_def PAGE_SIZE_def mask_eq_exp_minus_1)
  then have "take_bit 12 va = 0" by (simp add: take_bit_eq_mask)
  then show ?thesis by (simp add: take_bit_eq_mod PAGE_SIZE_def)
qed

text \<open>C13. \<open>vmm_map_page\<close> maps a page at an unmapped user address, creating up to three tables: the address then
  translates to the page, the process sees the contents of the page there and has the requested rights, and no other page of
  any address space is affected. The page is one that the allocator has handed out and nothing refers to, or
  one outside of the allocator.\<close>

theorem map_page_correct:
  assumes "vm_ok A s" and "r \<in> A" and "user_addr va" and "vmm_page_aligned va" and "translate r va s = None"
    and "vmm_page_aligned pa" and "pa AND PTE_ADDR_MASK = pa"
    and "managed pa s \<Longrightarrow> nref pa s = 1 \<and> pa \<notin> target s ` hold A s" and "3 \<le> nfree s"
  shows "\<exists>t. vmm_map_page r va pa (arch_vm_user_page_flags w x) s = Some t \<and> vm_ok A t \<and>
    vmm_get_phys r va t = pa \<and> user_page r va t = Some (mem s pa) \<and> arch_vm_get_page_prot r va t = Some (w, x) \<and>
    (\<forall>r' \<in> A. \<forall>va'. user_addr va' \<longrightarrow> (r', vpage va') \<noteq> (r, vpage va) \<longrightarrow>
       vmm_get_phys r' va' t = vmm_get_phys r' va' s \<and> user_page r' va' t = user_page r' va' s)"
proof -
  obtain t where t: "vmm_map_page r va pa (arch_vm_user_page_flags w x) s = Some t"
    using map_page_walk(2) [OF assms(1-3,5,6,9)] by blast
  note m = map_page_maps [OF assms(1-3,5-7) page_flags_bits(1) assms(8) t]
  note f = page_flags_bits(2-6) [of pa w x]
  have "vmm_get_phys r va t = pa" "user_page r va t = Some (mem s pa)" "arch_vm_get_page_prot r va t = Some (w, x)"
    using m(3) f assms(7) aligned_mod [OF assms(4)]
    by (simp_all add: get_phys_translate [OF m(1) assms(2,3)] user_page_translate [OF m(1) assms(2,3)]
        page_prot_translate [OF m(1) assms(2,3) m(3)] frame_of_def m(5))
  moreover have "vmm_get_phys r' va' t = vmm_get_phys r' va' s \<and> user_page r' va' t = user_page r' va' s"
    if "r' \<in> A" "user_addr va'" "(r', vpage va') \<noteq> (r, vpage va)" for r' va'
    using m(2) that unfolding sees_same_def
    by (auto simp: get_phys_translate [OF m(1) that(1,2)] get_phys_translate [OF assms(1) that(1,2)])
  ultimately show ?thesis using t m(1) by blast
qed

lemma ex_nfree: "nfree (vm_ex m) = 10"
  by (simp add: nfree_def vm_ex_def)

lemma ex_unmapped: "translate 0x1000 0x1000 (vm_ex m) = None"
  by (simp add: translate_def vpath_def vm_ex_def ex_mem_def PML4_IDX_def PDP_IDX_def PD_IDX_def PT_IDX_def present_def huge_def
      PTE_PRESENT_def PTE_HUGE_def arch_pte_phys_def PTE_ADDR_MASK_def)

theorem map_page_correct_witness:
  "\<exists>t. vmm_map_page 0x1000 0x1000 0xFD000000 (arch_vm_user_page_flags True False) (vm_ex ()) = Some t \<and>
     vmm_get_phys 0x1000 0x1000 t = 0xFD000000"
proof -
  have "user_addr 0x1000" "vmm_page_aligned 0x1000" "vmm_page_aligned 0xFD000000" "0xFD000000 AND PTE_ADDR_MASK = 0xFD000000"
    by (simp_all add: user_addr_def PML4_IDX_def vmm_page_aligned_def PAGE_SIZE_def PTE_ADDR_MASK_def)
  moreover have "\<not> managed 0xFD000000 (vm_ex ())" by (simp add: managed_def vm_ex_def PAGE_SIZE_def)
  ultimately show ?thesis
    using map_page_correct [OF vm_ex_ok [of "()"], of "0x1000" "0x1000" "0xFD000000" True False] ex_unmapped [of "()"] ex_nfree [of "()"] by auto
qed

end
