(* ===== verification/MmapSafe.thy ===== *)
theory MmapSafe
  imports Mmap VmMap
begin

text \<open>
  The memory system calls keep the invariant of the page tables and affect only the pages they are asked to:
  the search for a free range, \<open>mmap\<close> and \<open>munmap\<close>.
\<close>

unbundle bit_operations_syntax

section \<open>Addresses\<close>

lemma page_mask_word: "page_mask = mask 12"
  by (simp add: PAGE_SIZE_def mask_eq_exp_minus_1)

lemma unat_le_word: "a \<le> b \<longleftrightarrow> unat a \<le> unat b" for a b :: u64
  by (simp add: word_le_nat_alt)

lemma aligned_dvd: "vmm_page_aligned va \<longleftrightarrow> 4096 dvd unat va"
proof -
  have "vmm_page_aligned va \<longleftrightarrow> take_bit 12 va = 0"
    unfolding vmm_page_aligned_def page_mask_word by (simp add: take_bit_eq_mask)
  also have "\<dots> \<longleftrightarrow> take_bit 12 (unat va) = 0"
    using unsigned_eq_0_iff [of "take_bit 12 va", where 'a = nat] by (simp add: unsigned_take_bit_eq)
  also have "\<dots> \<longleftrightarrow> 4096 dvd unat va" by (simp add: take_bit_eq_mod dvd_eq_mod_eq_0)
  finally show ?thesis .
qed

lemma dvd_next: "a < b \<Longrightarrow> k dvd a \<Longrightarrow> k dvd b \<Longrightarrow> a + k \<le> b" for a b k :: nat
proof -
  assume "a < b" "k dvd a" "k dvd b"
  then have "k \<le> b - a" by (intro dvd_imp_le dvd_diff_nat) simp_all
  then show ?thesis using \<open>a < b\<close> by simp
qed

lemma align_down: "unat (v AND NOT page_mask) = unat v div 4096 * 4096"
proof -
  have "v AND NOT page_mask = push_bit 12 (drop_bit 12 v)"
    unfolding page_mask_word by (intro bit_word_eqI) (auto simp: bit_simps)
  also have "\<dots> = of_nat (unat v div 4096 * 4096)"
    by (simp add: push_bit_eq_mult drop_bit_eq_div word_arith_nat_div)
  finally have e: "v AND NOT page_mask = of_nat (unat v div 4096 * 4096)" .
  have "unat v div 4096 * 4096 \<le> unat v" by simp
  then have "unat v div 4096 * 4096 < 2 ^ LENGTH(64)" using unsigned_less [of v] by (rule le_less_trans)
  with e [symmetric] show ?thesis by (rule of_nat_inverse)
qed

lemma align_up:
  assumes "unat v + 4095 < 2 ^ 64"
  shows "unat (mmap_align_up v) = (unat v + 4095) div 4096 * 4096"
proof -
  have "v + of_nat PAGE_SIZE - 1 = v + 4095" by (simp add: PAGE_SIZE_def)
  moreover have "unat (v + 4095) = unat v + 4095" using assms by (simp add: unat_word_ariths)
  ultimately show ?thesis by (simp only: mmap_align_up_def align_down)
qed

lemma align_up_aligned: "vmm_page_aligned (mmap_align_up v)"
  unfolding aligned_dvd mmap_align_up_def align_down by simp

lemma window_nat: "unat USER_MMAP_BASE_VADDR = 0x200000000000" "unat USER_MMAP_TOP_VADDR = 0x7F0000000000"
  by (simp_all add: USER_MMAP_BASE_VADDR_def USER_MMAP_TOP_VADDR_def)

lemma range_valid_iff:
  assumes "sz \<noteq> 0"
  shows "mmap_range_valid c sz \<longleftrightarrow> vmm_page_aligned c \<and> unat USER_MMAP_BASE_VADDR \<le> unat c \<and> unat c + unat sz \<le> unat USER_MMAP_TOP_VADDR"
proof -
  have p: "0 < unat sz" using assms by (simp add: unat_gt_0)
  have l: "unat c < 2 ^ 64" "unat sz < 2 ^ 64" using unsigned_less [of c, where 'a = nat] unsigned_less [of sz, where 'a = nat] by simp_all
  show ?thesis
  proof (cases "unat c + unat sz < 2 ^ 64")
    case True
    then have "unat (c + sz) = unat c + unat sz" by (simp add: unat_word_ariths)
    then show ?thesis using assms p by (auto simp: mmap_range_valid_def vmm_page_aligned_def word_less_nat_alt unat_le_word)
  next
    case False
    then have "unat (c + sz) = unat c + unat sz - 2 ^ 64" using l by (simp add: unat_word_ariths mod_if)
    then have "c + sz < c" using l False by (simp add: word_less_nat_alt)
    then show ?thesis using False by (simp add: mmap_range_valid_def window_nat)
  qed
qed

section \<open>The search for a free range\<close>

text \<open>The answer of a search from \<open>lo\<close>: a page-aligned range that ends at \<open>stop\<close> or below and is unmapped, or 0 when
  there is none.\<close>

definition gap_found :: "u64 \<Rightarrow> u64 \<Rightarrow> nat \<Rightarrow> nat \<Rightarrow> mm \<Rightarrow> u64 \<Rightarrow> bool" where
  "gap_found r sz lo stop s b \<longleftrightarrow>
     (if b = 0 then \<forall>c. vmm_page_aligned c \<longrightarrow> lo \<le> unat c \<longrightarrow> unat c + unat sz \<le> stop \<longrightarrow> \<not> mmap_range_unmapped r c sz s
      else lo \<le> unat b \<and> unat b + unat sz \<le> stop \<and> vmm_page_aligned b \<and> mmap_range_unmapped r b sz s)"

lemma find_gap_loop_spec:
  assumes sz: "unat sz \<le> 2 ^ 48" "0 < unat sz" "4096 dvd unat sz"
    and b: "0 < unat base" "unat base \<le> 2 ^ 48" "unat stop \<le> 2 ^ 48" "vmm_page_aligned base"
  shows "\<exists>b. find_gap_loop r sz stop base s = Some b \<and> gap_found r sz (unat base) (unat stop) s b"
  using b
proof (induction "2 ^ 49 - unat base" arbitrary: base rule: less_induct)
  case less
  have add: "unat (base + sz) = unat base + unat sz" using less.prems(2) sz(1) by (simp add: unat_word_ariths)
  show ?case
  proof (cases "unat base + unat sz \<le> unat stop")
    case False
    then have f: "find_gap_loop r sz stop base s = Some 0" by (subst find_gap_loop.simps) (simp add: unat_le_word add)
    show ?thesis using False by (simp add: f gap_found_def)
  next
    case True
    have le: "base + sz \<le> stop" using True by (simp add: unat_le_word add)
    show ?thesis
    proof (cases "mmap_range_unmapped r base sz s")
      case un: True
      have f: "find_gap_loop r sz stop base s = Some base" by (subst find_gap_loop.simps) (simp add: le un)
      have "base \<noteq> 0" using less.prems(1) by auto
      then show ?thesis using True un less.prems by (simp add: f gap_found_def)
    next
      case nu: False
      let ?n = "base + of_nat PAGE_SIZE"
      have page: "unat base + 4096 \<le> unat stop" using True sz(2,3) dvd_imp_le [of 4096 "unat sz"] by simp
      then have n: "unat ?n = unat base + 4096" using less.prems by (simp add: unat_word_ariths PAGE_SIZE_def)
      have f: "find_gap_loop r sz stop base s = find_gap_loop r sz stop ?n s"
        by (subst find_gap_loop.simps) (simp add: le nu)
      have dec: "2 ^ 49 - unat ?n < 2 ^ 49 - unat base" using less.prems(2) n by simp
      have "vmm_page_aligned ?n" using less.prems(4) by (simp add: aligned_dvd n)
      then obtain b where b: "find_gap_loop r sz stop ?n s = Some b" "gap_found r sz (unat ?n) (unat stop) s b"
        using less.hyps [OF dec] n page less.prems(3) by auto
      have "\<not> mmap_range_unmapped r c sz s"
        if z: "b = 0" "vmm_page_aligned c" "unat base \<le> unat c" "unat c + unat sz \<le> unat stop" for c
      proof (cases "c = base")
        case False
        then have "unat base < unat c" using z(3) by (metis le_neq_implies_less word_unat_eq_iff)
        then have "unat base + 4096 \<le> unat c" using z(2) less.prems(4) unfolding aligned_dvd by (intro dvd_next)
        then show ?thesis using b(2) z n by (simp add: gap_found_def)
      qed (use nu in simp)
      then have "gap_found r sz (unat base) (unat stop) s b" using b(2) n by (auto simp: gap_found_def)
      then show ?thesis using f b(1) by auto
    qed
  qed
qed

lemma find_gap_from_spec:
  assumes "sz \<noteq> 0" and "4096 dvd unat sz" and "sz \<le> USER_MMAP_TOP_VADDR" and "start \<le> USER_MMAP_TOP_VADDR" and "stop \<le> USER_MMAP_TOP_VADDR"
  shows "\<exists>b. mmap_find_gap_from r sz start stop s = Some b \<and> gap_found r sz (max (unat start) (unat USER_MMAP_BASE_VADDR)) (unat stop) s b"
proof -
  define st where "st = (if start < USER_MMAP_BASE_VADDR then USER_MMAP_BASE_VADDR else start)"
  have lo: "unat st = max (unat start) (unat USER_MMAP_BASE_VADDR)" by (simp add: st_def word_less_nat_alt)
  have le: "unat st \<le> 0x7F0000000000" "0x200000000000 \<le> unat st" using assms(4) by (simp_all add: lo window_nat unat_le_word)
  have up: "unat (mmap_align_up st) = (unat st + 4095) div 4096 * 4096" using le by (intro align_up) simp
  have "(unat st + 4095) div 4096 \<le> 0x7F0000000" using div_le_mono [of "unat st + 4095" "0x7F0000000000 + 4095" 4096] le(1) by simp
  then have b: "unat (mmap_align_up st) \<le> 0x7F0000000000" unfolding up by simp
  have b': "unat st \<le> unat (mmap_align_up st)" unfolding up by linarith
  have c: "unat (mmap_align_up st) \<le> unat c" if a: "unat st \<le> unat c" "vmm_page_aligned c" for c
  proof -
    obtain k where k: "unat c = 4096 * k" using a(2) by (auto simp: aligned_dvd)
    then have "(unat st + 4095) div 4096 \<le> k" using a(1) by linarith
    then show ?thesis unfolding up k by simp
  qed
  have "0 < unat sz" using assms(1) by (simp add: unat_gt_0)
  then obtain g where g: "find_gap_loop r sz stop (mmap_align_up st) s = Some g" "gap_found r sz (unat (mmap_align_up st)) (unat stop) s g"
    using find_gap_loop_spec [of sz "mmap_align_up st" stop r s] assms(2,3,5) b b' le
    by (auto simp: align_up_aligned unat_le_word window_nat)
  have "gap_found r sz (unat st) (unat stop) s g" using g(2) b' c by (auto simp: gap_found_def split: if_splits)
  then show ?thesis using g(1) unfolding mmap_find_gap_from_def Let_def st_def [symmetric] lo [symmetric] by blast
qed

lemma find_gap_result:
  assumes "vmm_page_aligned sz" and "sz \<noteq> 0" and "sz \<le> USER_MMAP_TOP_VADDR - USER_MMAP_BASE_VADDR"
  shows "\<exists>b. mmap_find_gap r sz hint s = Some b \<and>
    (if b \<noteq> 0 then mmap_range_valid b sz \<and> mmap_range_unmapped r b sz s
     else \<forall>c. mmap_range_valid c sz \<longrightarrow> mmap_range_unmapped r c sz s \<longrightarrow> c < hint \<and> hint < c + sz)"
proof -
  let ?B = "USER_MMAP_BASE_VADDR" and ?T = "USER_MMAP_TOP_VADDR"
  define h where "h = (if hint < ?B \<or> hint \<ge> ?T then ?B else hint)"
  have BT: "?B \<le> ?T" by (simp add: USER_MMAP_BASE_VADDR_def USER_MMAP_TOP_VADDR_def)
  have sz: "sz \<noteq> 0" "4096 dvd unat sz" "sz \<le> ?T"
    using assms by (simp_all add: aligned_dvd unat_le_word USER_MMAP_BASE_VADDR_def USER_MMAP_TOP_VADDR_def)
  have h: "h \<le> ?T" "unat ?B \<le> unat h" using BT by (auto simp: h_def not_less unat_le_word)
  note valid = range_valid_iff [OF sz(1)]
  obtain b1 where b1: "mmap_find_gap_from r sz h ?T s = Some b1" "gap_found r sz (unat h) (unat ?T) s b1"
    using find_gap_from_spec [OF sz h(1) order_refl, of r s] max_absorb1 [OF h(2)] by auto
  obtain b2 where b2: "mmap_find_gap_from r sz ?B h s = Some b2" "gap_found r sz (unat ?B) (unat h) s b2"
    using find_gap_from_spec [OF sz BT h(1), of r s] by auto
  have ns: "\<not> (sz = 0 \<or> sz > ?T - ?B)" using assms(2,3) by (simp add: not_less)
  show ?thesis
  proof (cases "b1 = 0")
    case False
    then have "mmap_find_gap r sz hint s = Some b1" using b1(1) ns by (simp add: mmap_find_gap_def h_def Let_def)
    then show ?thesis using False b1(2) h(2) by (auto simp: gap_found_def valid)
  next
    case z: True
    then have up: "\<not> mmap_range_unmapped r c sz s" if "mmap_range_valid c sz" "unat h \<le> unat c" for c
      using b1(2) that by (auto simp: gap_found_def valid)
    show ?thesis
    proof (cases "h > ?B")
      case False
      then have "mmap_find_gap r sz hint s = Some 0" using b1(1) ns z by (simp add: mmap_find_gap_def h_def Let_def)
      moreover have "unat h = unat ?B" using False h(2) by (simp add: word_less_nat_alt)
      ultimately show ?thesis using up by (auto simp: valid)
    next
      case True
      then have r: "mmap_find_gap r sz hint s = Some b2" using b1(1) b2(1) ns z by (simp add: mmap_find_gap_def h_def Let_def)
      have hh: "h = hint" using True by (auto simp: h_def)
      show ?thesis
      proof (cases "b2 = 0")
        case False
        then show ?thesis using r b2(2) h(1) by (auto simp: gap_found_def valid unat_le_word)
      next
        case z2: True
        have "c < hint \<and> hint < c + sz" if c: "mmap_range_valid c sz" "mmap_range_unmapped r c sz s" for c
        proof -
          have "unat c < unat h" using up [OF c(1)] c(2) by (meson not_le)
          moreover have "\<not> unat c + unat sz \<le> unat h" using b2(2) z2 c by (auto simp: gap_found_def valid)
          moreover have "unat (c + sz) = unat c + unat sz" using c(1) by (simp add: valid window_nat unat_word_ariths)
          ultimately show ?thesis by (simp add: word_less_nat_alt hh)
        qed
        then show ?thesis using r z2 by simp
      qed
    qed
  qed
qed

text \<open>C17. \<open>mmap_find_gap\<close> always returns. A result other than 0 is the page-aligned start of a range of the requested size
  inside the window for mappings, no page of which is mapped. The result 0 means that every such range contains the point where the
  search began: the search goes up from there and then from the bottom up to there.\<close>

theorem mmap_find_gap_correct:
  assumes "vmm_page_aligned sz" and "sz \<noteq> 0" and "sz \<le> USER_MMAP_TOP_VADDR - USER_MMAP_BASE_VADDR"
  shows "\<exists>b. mmap_find_gap r sz hint s = Some b \<and>
    (if b \<noteq> 0 then mmap_range_valid b sz \<and> mmap_range_unmapped r b sz s
     else \<forall>c. mmap_range_valid c sz \<longrightarrow> mmap_range_unmapped r c sz s \<longrightarrow> c < hint \<and> hint < c + sz)"
  using assms by (rule find_gap_result)

section \<open>The pages of a range\<close>

lemma page_offs_eq: "4096 dvd unat sz \<Longrightarrow> page_offs sz = map (\<lambda>k. of_nat (k * PAGE_SIZE)) [0..<unat sz div 4096]"
proof -
  assume "4096 dvd unat sz"
  then obtain k where "unat sz = 4096 * k" by auto
  then show ?thesis by (simp add: page_offs_def PAGE_SIZE_def)
qed

definition page_at :: "u64 \<Rightarrow> nat \<Rightarrow> u64" where
  "page_at base k = base + of_nat (k * PAGE_SIZE)"

text \<open>A range of pages that ends below \<open>2 ^ 47\<close>.\<close>

definition low_range :: "u64 \<Rightarrow> nat \<Rightarrow> bool" where
  "low_range base n \<longleftrightarrow> vmm_page_aligned base \<and> unat base + n * 4096 \<le> 2 ^ 47"

lemma unat_page_at_le:
  assumes "low_range base n" and "k \<le> n"
  shows "unat (page_at base k) = unat base + k * 4096"
proof -
  have "k * 4096 \<le> n * 4096" using assms(2) by simp
  then have lt: "unat base + k * 4096 \<le> 2 ^ 47" using assms(1) unfolding low_range_def by linarith
  then have "k * 4096 < 2 ^ LENGTH(64)" by simp
  then have o: "unat (of_nat (k * 4096) :: u64) = k * 4096" by (rule of_nat_inverse [OF refl])
  have "unat base + unat (of_nat (k * 4096) :: u64) < 2 ^ LENGTH(64)" unfolding o using lt by simp
  then have "unat (base + of_nat (k * 4096)) = unat base + unat (of_nat (k * 4096) :: u64)" by (simp only: unat_word_ariths mod_less)
  then show ?thesis unfolding page_at_def PAGE_SIZE_def o .
qed

lemma unat_page_at: "low_range base n \<Longrightarrow> k < n \<Longrightarrow> unat (page_at base k) = unat base + k * 4096"
  using unat_page_at_le [of base n k] by simp

lemma page_at_aligned: "low_range base n \<Longrightarrow> k < n \<Longrightarrow> vmm_page_aligned (page_at base k)"
  unfolding aligned_dvd by (simp only: unat_page_at) (simp add: low_range_def aligned_dvd)

lemma idx_nat:
  "PML4_IDX va = unat va div 2 ^ 39 mod 512" "PDP_IDX va = unat va div 2 ^ 30 mod 512"
  "PD_IDX va = unat va div 2 ^ 21 mod 512" "PT_IDX va = unat va div 2 ^ 12 mod 512"
proof -
  have "unat (drop_bit m va AND 0x1FF) = unat va div 2 ^ m mod 512" for m
  proof -
    have "drop_bit m va AND 0x1FF = take_bit 9 (drop_bit m va)" by (simp add: take_bit_eq_mask mask_eq_exp_minus_1)
    then have "unat (drop_bit m va AND 0x1FF) = take_bit 9 (drop_bit m (unat va))"
      by (simp only: unsigned_take_bit_eq unat_drop_bit_eq)
    then show ?thesis by (simp add: take_bit_eq_mod drop_bit_eq_div)
  qed
  then show "PML4_IDX va = unat va div 2 ^ 39 mod 512" "PDP_IDX va = unat va div 2 ^ 30 mod 512"
    "PD_IDX va = unat va div 2 ^ 21 mod 512" "PT_IDX va = unat va div 2 ^ 12 mod 512"
    by (simp_all only: PML4_IDX_def PDP_IDX_def PD_IDX_def PT_IDX_def)
qed

lemma low_user_addr: "unat va < 2 ^ 47 \<Longrightarrow> user_addr va"
proof -
  assume "unat va < 2 ^ 47"
  then have "unat va div 2 ^ 39 < 256" by (simp add: less_mult_imp_div_less)
  then show ?thesis by (simp add: user_addr_def idx_nat)
qed

lemma page_at_user:
  assumes "low_range base n" and "k < n"
  shows "user_addr (page_at base k)"
proof (rule low_user_addr)
  have "k * 4096 + 4096 \<le> n * 4096" using assms(2) by simp
  then show "unat (page_at base k) < 2 ^ 47" using assms unfolding unat_page_at [OF assms] low_range_def by linarith
qed

text \<open>The four indices are the digits of the page number.\<close>

lemma vpage_number:
  assumes "unat va < 2 ^ 48"
  shows "unat va div 4096 = ((PML4_IDX va * 512 + PDP_IDX va) * 512 + PD_IDX va) * 512 + PT_IDX va"
proof -
  define n where "n = unat va div 4096"
  have n: "n < 512 * (512 * (512 * 512))" using assms by (simp add: n_def less_mult_imp_div_less)
  have "unat va div 2 ^ 12 = n" "unat va div 2 ^ 21 = n div 512" "unat va div 2 ^ 30 = n div 512 div 512" "unat va div 2 ^ 39 = n div 512 div 512 div 512"
    by (simp_all add: n_def div_mult2_eq [symmetric])
  moreover have "n div 512 div 512 div 512 mod 512 = n div 512 div 512 div 512"
    using n by (simp add: less_mult_imp_div_less mult.commute)
  ultimately have "((PML4_IDX va * 512 + PDP_IDX va) * 512 + PD_IDX va) * 512 + PT_IDX va = n"
    unfolding idx_nat by simp
  then show ?thesis by (simp add: n_def)
qed

lemma vpage_inj:
  assumes "unat va < 2 ^ 48" and "unat va' < 2 ^ 48" and "vpage va = vpage va'"
  shows "unat va div 4096 = unat va' div 4096"
  unfolding vpage_number [OF assms(1)] vpage_number [OF assms(2)] using assms(3) by (simp add: vpage_def vpath_def)

lemma page_at_inj:
  assumes "low_range base n" and "k < n" and "l < n" and "vpage (page_at base k) = vpage (page_at base l)"
  shows "k = l"
proof -
  have b: "4096 dvd unat base" using assms(1) by (simp add: low_range_def aligned_dvd)
  have "k * 4096 \<le> n * 4096" "l * 4096 \<le> n * 4096" using assms(2,3) by simp_all
  then have "unat (page_at base k) < 2 ^ 48" "unat (page_at base l) < 2 ^ 48"
    using assms(1) unfolding unat_page_at [OF assms(1,2)] unat_page_at [OF assms(1,3)] low_range_def by simp_all
  from vpage_inj [OF this assms(4)] show ?thesis
    using b by (auto simp: unat_page_at [OF assms(1,2)] unat_page_at [OF assms(1,3)])
qed

definition range_of :: "u64 \<Rightarrow> u64 \<Rightarrow> nat \<Rightarrow> (u64 \<times> nat list) set" where
  "range_of r base n = {(r, vpage (page_at base k)) | k. k < n}"

lemma range_of_iff: "(r', vp) \<in> range_of r base n \<longleftrightarrow> r' = r \<and> (\<exists>k < n. vp = vpage (page_at base k))"
  by (auto simp: range_of_def)

lemma valid_low:
  assumes "mmap_range_valid base sz" and "vmm_page_aligned sz"
  shows "low_range base (unat sz div 4096)" "0 < unat sz div 4096" "page_offs sz = map (\<lambda>k. of_nat (k * PAGE_SIZE)) [0..<unat sz div 4096]"
proof -
  have nz: "sz \<noteq> 0" using assms(1) by (auto simp: mmap_range_valid_def)
  have d: "4096 dvd unat sz" using assms(2) by (simp add: aligned_dvd)
  then show "low_range base (unat sz div 4096)" using assms(1) by (simp add: range_valid_iff [OF nz] low_range_def window_nat)
  have "0 < unat sz" using nz by (simp add: unat_gt_0)
  then show "0 < unat sz div 4096" using dvd_imp_le [OF d] by (simp add: div_greater_zero_iff)
  show "page_offs sz = map (\<lambda>k. of_nat (k * PAGE_SIZE)) [0..<unat sz div 4096]" by (rule page_offs_eq [OF d])
qed

section \<open>Removing pages\<close>

lemma frame_not_null:
  assumes ok: "vm_ok A s" and r: "r \<in> A" "user_addr va" and t: "translate r va s = Some x"
  shows "arch_pte_phys (fst x) \<noteq> 0"
proof
  assume z: "arch_pte_phys (fst x) = 0"
  have "managed r s" using vm_okD(3) [OF ok r(1), of "[]"] by simp
  then have m0: "managed 0 s" by (simp add: managed_def vmm_page_aligned_def)
  from t show False
  proof (cases rule: translate_cases)
    case (small pt)
    then have "frame_of va x = 0" using z by (simp add: frame_of_def)
    then show False using frame_facts(2) [OF ok r t] m0 vm_okD(1) [OF ok] nref_managed [OF vm_okD(1) [OF ok] m0] by (simp add: pm_ok_def)
  next
    case (large pd)
    then show False using pd_huge(2) [OF ok r large(1,2), of 0] m0 z by simp
  qed
qed

lemma get_phys_0:
  assumes ok: "vm_ok A s" and r: "r \<in> A" "user_addr va"
  shows "vmm_get_phys r va s = 0 \<longleftrightarrow> translate r va s = None"
proof (cases "translate r va s")
  case (Some x)
  obtain e b where x: "x = (e, b)" by fastforce
  let ?m = "va mod of_nat (if b then HUGE_PAGE_SIZE else PAGE_SIZE) :: u64"
  have "0 < unat (arch_pte_phys e)" using frame_not_null [OF ok r Some] x by (simp add: unat_gt_0)
  moreover have "unat (arch_pte_phys e) < 2 ^ 52"
  proof -
    have "arch_pte_phys e \<le> PTE_ADDR_MASK" unfolding arch_pte_phys_def by (rule word_and_le1)
    then show ?thesis by (simp add: PTE_ADDR_MASK_def unat_le_word)
  qed
  moreover have "unat ?m < 2 ^ 21" by (simp add: unat_mod HUGE_PAGE_SIZE_def PAGE_SIZE_def) (use mod_less_divisor [of 4096 "unat va"] in linarith)
  ultimately have "unat (arch_pte_phys e + ?m) \<noteq> 0" by (simp add: unat_word_ariths)
  then show ?thesis using Some x by (auto simp: get_phys_translate [OF ok r])
qed (simp add: get_phys_translate [OF ok r])

lemma drop_page_cases:
  assumes ok: "vm_ok A s" and r: "r \<in> A" "user_addr va" and al: "vmm_page_aligned va"
  obtains (small) pt where "tbl s r (vpath va) = Some pt" "present (mem s pt (PT_IDX va))"
      "mmap_drop_page r va s = vm_free (arch_pte_phys (mem s pt (PT_IDX va))) 1 (wr pt (PT_IDX va) 0 s)"
  | (same) "mmap_drop_page r va s = s" "\<And>e. translate r va s \<noteq> Some (e, False)"
proof (cases "\<exists>e. translate r va s = Some (e, False)")
  case True
  then obtain e where e: "translate r va s = Some (e, False)" by blast
  then obtain pt where pt: "tbl s r (vpath va) = Some pt" "present (mem s pt (PT_IDX va))" "e = mem s pt (PT_IDX va)"
    by (cases rule: translate_cases) auto
  have u: "arch_vm_unmap_page r va s = wr pt (PT_IDX va) 0 s"
    using pt by (simp add: arch_vm_unmap_page_def user_pte_translate [OF ok r] pte_at_def wr_pte_def)
  have ph: "vmm_get_phys r va s AND NOT page_mask = arch_pte_phys (mem s pt (PT_IDX va))"
  proof -
    have "vmm_get_phys r va s = arch_pte_phys e" using e aligned_mod [OF al] by (simp add: get_phys_translate [OF ok r])
    moreover have "arch_pte_phys e AND NOT page_mask = arch_pte_phys e"
      unfolding page_mask_word arch_pte_phys_def by (intro bit_word_eqI) (auto simp: bit_simps)
    ultimately show ?thesis using pt(3) by simp
  qed
  let ?w = "wr pt (PT_IDX va) 0 s"
  have m: "mem ?w v j = (if v = pt \<and> j = PT_IDX va then 0 else mem s v j)" for v j by simp
  have "translate r va ?w = None" using slot_tree(3) [OF ok r pt(1) m r] by (simp add: present_def)
  then have "vmm_get_phys r va ?w = 0" using get_phys_0 [OF unmap_leaf(1) [OF ok r pt(1,2)] r] by simp
  moreover have "vmm_get_phys r va s \<noteq> 0" using get_phys_0 [OF ok r] e by simp
  ultimately show thesis using small [OF pt(1,2)] by (simp add: mmap_drop_page_def u ph Let_def)
next
  case False
  have u: "arch_vm_unmap_page r va s = s"
  proof (cases "tbl s r (vpath va)")
    case (Some pt)
    have "\<not> present (mem s pt (PT_IDX va))"
      using False Some vpath_next [of s r va] by (auto simp: translate_def split: option.splits if_splits)
    then show ?thesis using Some by (simp add: arch_vm_unmap_page_def user_pte_translate [OF ok r] pte_at_def)
  qed (simp add: arch_vm_unmap_page_def user_pte_translate [OF ok r])
  show thesis using same False by (auto simp: mmap_drop_page_def u Let_def)
qed

text \<open>A 4 KiB page maps the given frame.\<close>

definition maps :: "u64 \<Rightarrow> u64 \<Rightarrow> 'a vm_scheme \<Rightarrow> u64 \<Rightarrow> bool" where
  "maps r va s z \<longleftrightarrow> (\<exists>e. translate r va s = Some (e, False) \<and> arch_pte_phys e = z)"

lemma drop_page_ok:
  assumes ok: "vm_ok A s" and r: "r \<in> A" "user_addr va" and al: "vmm_page_aligned va"
  shows "vm_ok A (mmap_drop_page r va s)" "sees_same A {(r, vpage va)} s (mmap_drop_page r va s)"
    "translate r va (mmap_drop_page r va s) = (case translate r va s of Some (e, True) \<Rightarrow> Some (e, True) | _ \<Rightarrow> None)"
    "nfree s \<le> nfree (mmap_drop_page r va s)" "managed z (mmap_drop_page r va s) = managed z s"
    "managed z s \<Longrightarrow> nref z (mmap_drop_page r va s) = nref z s - (if maps r va s z then 1 else 0)"
proof -
  let ?t = "mmap_drop_page r va s"
  have "vm_ok A ?t \<and> sees_same A {(r, vpage va)} s ?t \<and>
     translate r va ?t = (case translate r va s of Some (e, True) \<Rightarrow> Some (e, True) | _ \<Rightarrow> None) \<and> nfree s \<le> nfree ?t \<and> managed z ?t = managed z s \<and>
     (managed z s \<longrightarrow> nref z ?t = nref z s - (if maps r va s z then 1 else 0))" for z
    using ok r al
  proof (cases rule: drop_page_cases)
    case (small pt)
    note un = unmap_leaf [OF ok r small(1,2)]
    have okt: "vm_ok A ?t" unfolding small(3) by (rule un(2))
    have m: "mem ?t v j = (if v = pt \<and> j = PT_IDX va then 0 else mem s v j)" for v j by (simp add: small(3))
    have np: "\<not> present 0" by (simp add: present_def)
    note tree = slot_tree(3) [OF ok r small(1) m]
    have it: "istable A s pt" using istableI [OF r(1) _ _ small(1)] r(2) by simp
    have mt: "mem ?t z = mem s z" if "\<not> istable A s z" for z using it that by (auto simp: fun_eq_iff m)
    have same: "translate r' va' ?t = translate r' va' s \<and> user_page r' va' ?t = user_page r' va' s"
      if "r' \<in> A" "user_addr va'" "(r', vpage va') \<notin> {(r, vpage va)}" for r' va'
    proof -
      have tr: "translate r' va' ?t = translate r' va' s" using that tree [OF that(1,2)] by auto
      then show ?thesis using user_page_same [OF ok okt that(1,2) tr mt] by simp
    qed
    have "translate r va s = Some (mem s pt (PT_IDX va), False)"
      using small(1,2) vpath_next [of s r va] by (auto simp: translate_def split: option.splits if_splits)
    moreover have "nfree s \<le> nfree ?t" "managed z ?t = managed z s" "managed z s \<Longrightarrow> nref z ?t = nref z s - (if arch_pte_phys (mem s pt (PT_IDX va)) = z then 1 else 0)"
      unfolding small(3) by (rule un(3,4,5))+
    ultimately show ?thesis using okt same tree [OF r] np by (simp add: sees_same_def maps_def)
  next
    case same
    then show ?thesis using ok by (auto simp: maps_def split: option.splits bool.splits)
  qed
  then show "vm_ok A ?t" "sees_same A {(r, vpage va)} s ?t"
    "translate r va ?t = (case translate r va s of Some (e, True) \<Rightarrow> Some (e, True) | _ \<Rightarrow> None)" "nfree s \<le> nfree ?t" "managed z ?t = managed z s"
    "managed z s \<Longrightarrow> nref z ?t = nref z s - (if maps r va s z then 1 else 0)" by blast+
qed

lemma current_simps [simp]:
  "current (wr t i v s) = current s" "current (wr_pte l v s) = current s" "current (zero_page q s) = current s"
  "current (vm_free q n s) = current s" "current (copy_page d c s) = current s" "current (vm_incref q s) = current s"
  by (simp_all add: wr_def wr_pte_def zero_page_def vm_free_def copy_page_def vm_incref_def)

lemma drop_page_current [simp]: "current (mmap_drop_page r va s) = current s"
  by (simp add: mmap_drop_page_def arch_vm_unmap_page_def Let_def split: option.split)

lemma range_of_Suc: "range_of r base (Suc n) = range_of r base n \<union> {(r, vpage (page_at base n))}"
  by (auto simp: range_of_def less_Suc_eq)

lemma low_range_mono: "low_range base n \<Longrightarrow> m \<le> n \<Longrightarrow> low_range base m"
proof -
  assume "low_range base n" "m \<le> n"
  then have "m * 4096 \<le> n * 4096" "vmm_page_aligned base" "unat base + n * 4096 \<le> 2 ^ 47" by (simp_all add: low_range_def)
  then show ?thesis unfolding low_range_def by linarith
qed

lemma page_at_outside: "low_range base n \<Longrightarrow> k < n \<Longrightarrow> m \<le> k \<Longrightarrow> (r, vpage (page_at base k)) \<notin> range_of r base m"
proof
  assume a: "low_range base n" "k < n" "m \<le> k" "(r, vpage (page_at base k)) \<in> range_of r base m"
  then obtain l where l: "l < m" "vpage (page_at base k) = vpage (page_at base l)" by (auto simp: range_of_def)
  then have "k = l" using page_at_inj [OF a(1,2), of l] a(2,3) by simp
  then show False using l(1) a(3) by simp
qed

abbreviation drop_pages :: "u64 \<Rightarrow> u64 \<Rightarrow> nat list \<Rightarrow> mm \<Rightarrow> mm" where
  "drop_pages r base ks \<equiv> fold (\<lambda>k. mmap_drop_page r (page_at base k)) ks"

lemma drop_pages_ok:
  assumes ok: "vm_ok A s" and r: "r \<in> A" and lr: "low_range base n" and t: "t = drop_pages r base [0..<n] s"
  shows "vm_ok A t" "sees_same A (range_of r base n) s t" "nfree s \<le> nfree t" "current t = current s" "\<And>z. managed z t = managed z s"
    "\<And>z. managed z s \<Longrightarrow> nref z t = nref z s - card {k. k < n \<and> maps r (page_at base k) s z}"
    "\<And>k. k < n \<Longrightarrow> translate r (page_at base k) t = (case translate r (page_at base k) s of Some (e, True) \<Rightarrow> Some (e, True) | _ \<Rightarrow> None)"
proof -
  let ?d = "\<lambda>m. drop_pages r base [0..<m] s"
  have "vm_ok A (?d m) \<and> sees_same A (range_of r base m) s (?d m) \<and> nfree s \<le> nfree (?d m) \<and> current (?d m) = current s \<and>
     (\<forall>z. managed z (?d m) = managed z s) \<and> (\<forall>z. managed z s \<longrightarrow> nref z (?d m) = nref z s - card {k. k < m \<and> maps r (page_at base k) s z}) \<and>
     (\<forall>k < m. translate r (page_at base k) (?d m) = (case translate r (page_at base k) s of Some (e, True) \<Rightarrow> Some (e, True) | _ \<Rightarrow> None))"
    if "m \<le> n" for m
    using that
  proof (induction m)
    case 0
    then show ?case using ok by simp
  next
    case (Suc m)
    let ?s = "?d m" and ?va = "page_at base m"
    have d: "?d (Suc m) = mmap_drop_page r ?va ?s" by simp
    have IH: "vm_ok A ?s" "sees_same A (range_of r base m) s ?s" "nfree s \<le> nfree ?s" "current ?s = current s" "\<forall>z. managed z ?s = managed z s"
      "\<forall>z. managed z s \<longrightarrow> nref z ?s = nref z s - card {k. k < m \<and> maps r (page_at base k) s z}"
      "\<forall>k < m. translate r (page_at base k) ?s = (case translate r (page_at base k) s of Some (e, True) \<Rightarrow> Some (e, True) | _ \<Rightarrow> None)"
      using Suc by simp_all
    have mn: "m < n" using Suc.prems by simp
    note u = page_at_user [OF lr mn] and step = drop_page_ok [OF IH(1) r page_at_user [OF lr mn] page_at_aligned [OF lr mn]]
    have "sees_same A (range_of r base (Suc m)) s (?d (Suc m))"
      unfolding range_of_Suc d by (rule sees_same_trans [OF IH(2) step(2)])
    moreover have tm: "translate r ?va ?s = translate r ?va s"
      using IH(2) r u page_at_outside [OF lr mn, of m r] by (simp add: sees_same_def)
    moreover have "nref z (?d (Suc m)) = nref z s - card {k. k < Suc m \<and> maps r (page_at base k) s z}" if "managed z s" for z
    proof -
      have "{k. k < Suc m \<and> maps r (page_at base k) s z} =
          (if maps r ?va s z then insert m {k. k < m \<and> maps r (page_at base k) s z} else {k. k < m \<and> maps r (page_at base k) s z})"
        by (auto simp: less_Suc_eq)
      moreover have "maps r ?va ?s z = maps r ?va s z" by (simp add: maps_def tm)
      ultimately show ?thesis unfolding d using step(6) [of z] IH(5,6) that by auto
    qed
    moreover have "translate r (page_at base k) (?d (Suc m)) = translate r (page_at base k) ?s" if "k < m" for k
    proof -
      have "vpage (page_at base k) \<noteq> vpage ?va" using page_at_inj [OF lr _ mn, of k] that mn by auto
      then show ?thesis unfolding d using step(2) r page_at_user [OF lr, of k] that mn by (simp add: sees_same_def)
    qed
    ultimately show ?case using step IH unfolding d by (auto simp: less_Suc_eq)
  qed
  from this [OF order_refl] show "vm_ok A t" "sees_same A (range_of r base n) s t" "nfree s \<le> nfree t" "current t = current s"
    "\<And>z. managed z t = managed z s"
    "\<And>z. managed z s \<Longrightarrow> nref z t = nref z s - card {k. k < n \<and> maps r (page_at base k) s z}"
    "\<And>k. k < n \<Longrightarrow> translate r (page_at base k) t = (case translate r (page_at base k) s of Some (e, True) \<Rightarrow> Some (e, True) | _ \<Rightarrow> None)"
    unfolding t by blast+
qed

lemma drop_range_pages: "4096 dvd unat sz \<Longrightarrow> mmap_drop_range r base sz s = drop_pages r base [0..<unat sz div 4096] s"
  by (simp add: mmap_drop_range_def page_offs_eq fold_map o_def page_at_def)

text \<open>C14. \<open>sys_munmap\<close> refuses an empty or unaligned range and one that is not inside the window for mappings, changing
  nothing. Otherwise it removes the 4 KiB pages of the range from the address space of the caller and gives up their
  references; 2 MiB mappings stay. The invariant is kept and no page outside of the range is affected, in any address space.\<close>

theorem munmap_correct:
  assumes "vm_ok A s" and "current s = Some t" and "address_space t \<in> A" and "sys_munmap addr len s = (rc, s')"
  shows "if len = 0 \<or> \<not> vmm_page_aligned addr \<or> \<not> mmap_range_valid addr (mmap_align_up len) then rc = - LINUX_EINVAL \<and> s' = s
    else rc = 0 \<and> vm_ok A s' \<and> current s' = current s \<and>
      sees_same A (range_of (address_space t) addr (unat (mmap_align_up len) div 4096)) s s' \<and>
      (\<forall>k < unat (mmap_align_up len) div 4096. \<forall>e. translate (address_space t) (page_at addr k) s' \<noteq> Some (e, False)) \<and>
      (\<forall>z. managed z s \<longrightarrow> nref z s' = nref z s - card {k. k < unat (mmap_align_up len) div 4096 \<and> maps (address_space t) (page_at addr k) s z})"
proof (cases "len = 0 \<or> \<not> vmm_page_aligned addr \<or> \<not> mmap_range_valid addr (mmap_align_up len)")
  case True
  then show ?thesis using assms(2,4) by (auto simp: sys_munmap_def vmm_page_aligned_def Let_def split: if_splits)
next
  case False
  let ?sz = "mmap_align_up len" and ?r = "address_space t"
  note v = valid_low [of addr ?sz, OF _ align_up_aligned]
  have d: "4096 dvd unat ?sz" using align_up_aligned by (simp add: aligned_dvd)
  have s': "rc = 0" "s' = drop_pages ?r addr [0..<unat ?sz div 4096] s"
    using False assms(2,4) by (auto simp: sys_munmap_def vmm_page_aligned_def Let_def drop_range_pages [OF d])
  have lr: "low_range addr (unat ?sz div 4096)" using v(1) False by simp
  note dp = drop_pages_ok [OF assms(1,3) lr s'(2)]
  show ?thesis using False s'(1) dp(1,2,4,6,7) by (auto split: option.splits bool.splits)
qed

section \<open>Adding pages\<close>

text \<open>A fresh page, filled.\<close>

lemma fill_grows:
  assumes ok: "vm_ok A s" and al: "alloc_page s = (Some q, s1)" and t: "t = s1\<lparr>mem := (mem s1)(q := pg)\<rparr>"
  shows "grows A s t" "managed q t" "nref q t = 1" "q \<notin> target t ` hold A t" "nfree s = Suc (nfree t)" "mem t q = pg"
proof -
  note pm = vm_okD(1) [OF ok]
  have m1: "mem s1 = mem s" using al pm by (cases rule: alloc_page_cases) simp_all
  have pt: "pm t = pm s1" by (simp add: t)
  have m: "mem t z = (if z = q then pg else mem s z)" for z by (simp add: t m1)
  have q: "managed q s" "nref q s = 0" using pc.alloc_some [OF al pm] by simp_all
  have s1: "pm_ok s1" "managed x s1 = managed x s" "managed x s \<Longrightarrow> nref x s1 = (if x = q then 1 else nref x s)" for x
    using pc.alloc_man [OF al pm] pc.alloc_some [OF al pm] by simp_all
  have ntab: "\<not> istable A s q" using istable_managed [OF ok, of q] q by auto
  have inner: "mem t u = mem s u" if "inner A s u" for u using inner_istable [OF that] ntab by (auto simp: m)
  have tbl: "tbl t r p = tbl s r p" if "r \<in> A" "length p \<le> 3" "upath p" for r p
    using tbl_frame [of A s t, OF _ that] inner by simp
  have old: "mem t u = mem s u" if "r \<in> A" "length p \<le> 3" "upath p" "tbl s r p = Some u" for r p u
    using istableI [OF that] ntab by (auto simp: m)
  have ent: "entries A t = entries A s" by (rule entries_frame [OF tbl]) (auto simp: upath_snoc old)
  then have hold: "hold A t = hold A s" by (simp add: hold_def)
  have tgt: "target t l = target s l" if l: "l \<in> hold A s" for l
  proof (cases l)
    case (Entry u i)
    then obtain r p where "r \<in> A" "length p \<le> 3" "upath p" "tbl s r p = Some u" using l by (auto simp: entries_def upath_snoc)
    then show ?thesis using old Entry by simp
  qed simp
  have "pc.counted (hold A t) (target t) s1"
    by (rule pc.counted_subset [OF pc.counted_alloc [OF vm_okD(2) [OF ok] pm al]]) (simp_all add: hold tgt)
  then have cnt: "pc.counted (hold A t) (target t) t" by (simp add: pm_only(4) [OF pt])
  have n: "managed z t = managed z s" "managed z s \<Longrightarrow> nref z s \<noteq> 0 \<Longrightarrow> nref z t = nref z s" for z
    using s1(2,3) q(2) by (auto simp: pm_only [OF pt])
  have okt: "vm_ok A t"
    unfolding vm_ok_def
  proof (intro conjI ballI allI impI)
    show "pm_ok t" "pc.counted (hold A t) (target t) t" using s1(1) cnt by (simp_all add: pm_only [OF pt])
    fix r p u i assume r: "r \<in> A"
    show "managed u t" "nref u t = 1" if "length p \<le> 3" "upath p" "tbl t r p = Some u"
      using vm_okD(3) [OF ok r, of p u] tbl [OF r, of p] that n by simp_all
    assume up: "upath (p @ [i])" and tb: "tbl t r p = Some u"
    have s: "tbl s r p = Some u" "mem t u = mem s u" if "length p \<le> 3"
      using tb tbl [OF r that] old [OF r that] up by (auto simp: upath_snoc)
    show "\<not> managed (page_addr (arch_pte_phys (mem t u i)) k) t" if "length p \<le> 2" "huge (mem t u i)" "k < 512" for k
      using vm_okD(4) [OF ok r that(1) up] s that n(1) by simp
    show "present (mem t u i)" "length p = 2" "\<not> arch_pte_cow (mem t u i)"
      if "length p \<le> 2" "huge (mem t u i)"
      using vm_okD(4) [OF ok r that(1) up] s that by simp_all
    show "nref (arch_pte_phys (mem t u i)) t = 1"
      if "length p = 3" "present (mem t u i)" "arch_pte_writable (mem t u i)" "managed (arch_pte_phys (mem t u i)) t"
      using vm_okD(5) [OF ok r that(1) up] s that n by simp
  qed
  then show "grows A s t"
    unfolding grows_def using n tbl inner q by (auto simp: m)
  show "managed q t" "nref q t = 1" using q s1(2,3) [of q] by (simp_all add: pm_only [OF pt])
  show "q \<notin> target t ` hold A t"
    using pc.fresh_unheld [OF vm_okD(2) [OF ok] pm al] tgt unfolding hold by (auto simp: holders_def)
  show "nfree s = Suc (nfree t)" using alloc_page_free [OF al pm] nfree_pm [OF pt] by simp
  show "mem t q = pg" by (simp add: m)
qed

lemma next_level_current: "get_next_level u i b f s = Some (x, t) \<Longrightarrow> current t = current s"
  by (auto simp: get_next_level_def vm_alloc_def Let_def split: option.splits if_splits prod.splits)

lemma map_page_current: "vmm_map_page r va pa f s = Some t \<Longrightarrow> current t = current s"
  by (auto simp: vmm_map_page_def bind_eq_Some_conv split: if_splits dest!: next_level_current)

definition tail_of :: "u64 \<Rightarrow> u64 \<Rightarrow> nat \<Rightarrow> nat \<Rightarrow> (u64 \<times> nat list) set" where
  "tail_of r base m n = {(r, vpage (page_at base k)) | k. m \<le> k \<and> k < n}"

lemma tail_of_step: "m < n \<Longrightarrow> tail_of r base m n = {(r, vpage (page_at base m))} \<union> tail_of r base (Suc m) n"
  unfolding tail_of_def by (auto simp: Suc_le_eq) (metis le_neq_implies_less)

lemma tail_of_0: "tail_of r base 0 n = range_of r base n"
  by (simp add: tail_of_def range_of_def)

lemma outside_tail: "low_range base n \<Longrightarrow> k < m \<Longrightarrow> m \<le> n \<Longrightarrow> (r, vpage (page_at base k)) \<notin> tail_of r base m n"
proof
  assume a: "low_range base n" "k < m" "m \<le> n" "(r, vpage (page_at base k)) \<in> tail_of r base m n"
  then obtain l where l: "m \<le> l" "l < n" "vpage (page_at base k) = vpage (page_at base l)" by (auto simp: tail_of_def)
  then have "k = l" using page_at_inj [OF a(1), of k l] a(2,3) by simp
  then show False using l(1) a(2) by simp
qed

lemma sees_sameD: "sees_same A R s t \<Longrightarrow> r \<in> A \<Longrightarrow> user_addr va \<Longrightarrow> (r, vpage va) \<notin> R \<Longrightarrow>
    translate r va t = translate r va s \<and> user_page r va t = user_page r va s"
  by (simp add: sees_same_def)

lemma grows_sees: "vm_ok A s \<Longrightarrow> grows A s t \<Longrightarrow> sees_same A {} s t"
  by (simp add: sees_same_def grows_translate grows_user_page)

text \<open>One page of the loop of \<open>sys_mmap\<close>.\<close>

lemma mmap_page_step:
  assumes ok: "vm_ok A s" and r: "r \<in> A" "user_addr va" and tr: "translate r va s = None" and al: "vm_alloc 1 s = (q, s1)" "q \<noteq> 0"
    and s3: "s3 = (zero_page q s1)\<lparr>mem := (mem (zero_page q s1))(q := pg)\<rparr>"
  shows "vmm_map_page r va q (arch_vm_user_page_flags w x) s3 = Some t \<Longrightarrow> vm_ok A t \<and> sees_same A {(r, vpage va)} s t \<and>
      user_page r va t = Some pg \<and> arch_vm_get_page_prot r va t = Some (w, x) \<and> (\<exists>e. translate r va t = Some (e, False)) \<and>
      current t = current s \<and> nfree s \<le> nfree t + 4"
    and "4 \<le> nfree s \<Longrightarrow> vmm_map_page r va q (arch_vm_user_page_flags w x) s3 \<noteq> None"
proof -
  have ap: "alloc_page s = (Some q, s1)" using alloc_page_eq [OF al(1)] al(2) by simp
  have s3': "s3 = s1\<lparr>mem := (mem s1)(q := pg)\<rparr>" by (simp add: s3 zero_page_def)
  note g = fill_grows [OF ok ap s3']
  note ok3 = growsD(1) [OF g(1)]
  have tr3: "translate r va s3 = None" using grows_translate [OF ok g(1) r] tr by simp
  have q: "vmm_page_aligned q" "q AND PTE_ADDR_MASK = q" using g(2) managed_mask [OF vm_okD(1) [OF ok3] g(2)] by (simp_all add: managed_def)
  have c3: "current s3 = current s" using al by (auto simp: s3' vm_alloc_def split: prod.splits)
  show "vmm_map_page r va q (arch_vm_user_page_flags w x) s3 \<noteq> None" if "4 \<le> nfree s"
    using map_page_walk(2) [OF ok3 r tr3 q(1)] g(5) that by simp
  assume mp: "vmm_map_page r va q (arch_vm_user_page_flags w x) s3 = Some t"
  note m = map_page_maps [OF ok3 r tr3 q page_flags_bits(1) _ mp]
  have f: "nref q s3 = 1 \<and> q \<notin> target s3 ` hold A s3" using g(3,4) by simp
  note m = m [OF f]
  have "sees_same A ({} \<union> {(r, vpage va)}) s t" by (rule sees_same_trans [OF grows_sees [OF ok g(1)] m(2)])
  moreover have "user_page r va t = Some pg" "arch_vm_get_page_prot r va t = Some (w, x)"
    using m(3,5) g(6) page_flags_bits(2-6) [of q w x] q(2)
    by (simp_all add: user_page_translate [OF m(1) r] page_prot_translate [OF m(1) r m(3)] frame_of_def)
  ultimately show "vm_ok A t \<and> sees_same A {(r, vpage va)} s t \<and> user_page r va t = Some pg \<and> arch_vm_get_page_prot r va t = Some (w, x) \<and>
      (\<exists>e. translate r va t = Some (e, False)) \<and> current t = current s \<and> nfree s \<le> nfree t + 4"
    using m(1,3,4) g(5) c3 map_page_current [OF mp] by simp
qed

lemma prot_translate_eq:
  assumes "vm_ok A s" "vm_ok A t" "r \<in> A" "user_addr va" "translate r va t = translate r va s" "translate r va s = Some (e, False)"
  shows "arch_vm_get_page_prot r va t = arch_vm_get_page_prot r va s"
  using assms page_prot_translate [OF assms(1,3,4,6)] page_prot_translate [OF assms(2-4)] by simp

text \<open>The pages of a range that have been filled and mapped with the given rights.\<close>

definition filled :: "(u64 \<Rightarrow> page \<Rightarrow> page) \<Rightarrow> u64 \<Rightarrow> u64 \<Rightarrow> bool \<Rightarrow> bool \<Rightarrow> nat \<Rightarrow> 'a vm_scheme \<Rightarrow> bool" where
  "filled fill r base w x k t \<longleftrightarrow> user_page r (page_at base k) t = Some (fill (of_nat (k * PAGE_SIZE)) (\<lambda>_. 0)) \<and>
     arch_vm_get_page_prot r (page_at base k) t = Some (w, x) \<and> (\<exists>e. translate r (page_at base k) t = Some (e, False))"

lemma filled_same:
  assumes "vm_ok A s" "vm_ok A t" "r \<in> A" "user_addr (page_at base k)" "sees_same A R s t" "(r, vpage (page_at base k)) \<notin> R" "filled fill r base w x k s"
  shows "filled fill r base w x k t"
proof -
  note d = sees_sameD [OF assms(5,3,4,6)]
  then show ?thesis using assms(7) prot_translate_eq [OF assms(1-4)] unfolding filled_def by auto
qed

abbreviation offs :: "nat \<Rightarrow> nat \<Rightarrow> u64 list" where
  "offs m n \<equiv> map (\<lambda>k. of_nat (k * PAGE_SIZE)) [m..<n]"

text \<open>The loop is at page \<open>m\<close>: the rest of the range is unmapped, and no page before is a 2 MiB page.\<close>

definition ready :: "u64 \<Rightarrow> u64 \<Rightarrow> nat \<Rightarrow> nat \<Rightarrow> 'a vm_scheme \<Rightarrow> bool" where
  "ready r base m n s \<longleftrightarrow> (\<forall>k. m \<le> k \<longrightarrow> k < n \<longrightarrow> translate r (page_at base k) s = None) \<and>
     (\<forall>k < m. \<forall>e. translate r (page_at base k) s \<noteq> Some (e, True))"

lemma ready_step:
  assumes lr: "low_range base n" and mn: "m < n" and r: "r \<in> A" and rd: "ready r base m n s"
    and same: "sees_same A {(r, vpage (page_at base m))} s t" and e: "\<exists>e. translate r (page_at base m) t = Some (e, False)"
  shows "ready r base (Suc m) n t"
proof -
  have other: "translate r (page_at base k) t = translate r (page_at base k) s" if "k < n" "k \<noteq> m" for k
    using sees_sameD [OF same r page_at_user [OF lr that(1)]] page_at_inj [OF lr that(1) mn] that(2) by auto
  show ?thesis
    unfolding ready_def
  proof (intro conjI allI impI)
    show "translate r (page_at base k) t = None" if "Suc m \<le> k" "k < n" for k
      using other [of k] rd that by (simp add: ready_def)
    show "translate r (page_at base k) t \<noteq> Some (e', True)" if "k < Suc m" for k e'
      using other [of k] rd e that mn by (cases "k = m") (auto simp: ready_def)
  qed
qed

lemma offs_Cons: "m < n \<Longrightarrow> offs m n = of_nat (m * PAGE_SIZE) # offs (Suc m) n"
  by (simp add: upt_conv_Cons)

lemma mmap_pages_fail:
  assumes ok: "vm_ok A s" and r: "r \<in> A" and lr: "low_range base n" and mn: "m < n" and rd: "ready r base m n s"
    and ap: "alloc_page s = (None, s1)" and t: "t = mmap_drop_range r base (of_nat (m * PAGE_SIZE)) s1"
  shows "vm_ok A t" "current t = current s1" "sees_same A (range_of r base n) s t" "\<forall>k < n. translate r (page_at base k) t = None"
proof -
  have ok1: "vm_ok A s1" by (rule cow_nomem(1) [OF ok ap])
  have m1: "mem s1 = mem s" using ap vm_okD(1) [OF ok] by (cases rule: alloc_page_cases) simp_all
  have lm: "low_range base m" using low_range_mono [OF lr] mn by simp
  have "m * 4096 \<le> 2 ^ 47" using lm unfolding low_range_def by linarith
  then have "m * PAGE_SIZE < 2 ^ LENGTH(64)" by (simp add: PAGE_SIZE_def)
  then have sz: "unat (of_nat (m * PAGE_SIZE) :: u64) = m * PAGE_SIZE" by (rule of_nat_inverse [OF refl])
  have d: "4096 dvd unat (of_nat (m * PAGE_SIZE) :: u64)" unfolding sz by (simp add: PAGE_SIZE_def)
  have t': "t = drop_pages r base [0..<m] s1" unfolding t drop_range_pages [OF d] sz by (simp add: PAGE_SIZE_def)
  note dp = drop_pages_ok [OF ok1 r lm t']
  show "vm_ok A t" "current t = current s1" by (rule dp)+
  have tr1: "translate r' va s1 = translate r' va s" "user_page r' va s1 = user_page r' va s" for r' va
    by (simp_all only: translate_def tbl_mem [OF m1] m1 same_mem_pages [OF m1])
  show "\<forall>k < n. translate r (page_at base k) t = None"
  proof (intro allI impI)
    fix k assume k: "k < n"
    show "translate r (page_at base k) t = None"
    proof (cases "k < m")
      case True
      then have "\<forall>e. translate r (page_at base k) s1 \<noteq> Some (e, True)" using rd tr1 by (simp add: ready_def)
      then show ?thesis using dp(7) [OF True] by (auto split: option.splits bool.splits)
    next
      case False
      then show ?thesis
        using sees_sameD [OF dp(2) r page_at_user [OF lr k] page_at_outside [OF lr k, of m r]] rd k tr1 by (simp add: ready_def)
    qed
  qed
  have "range_of r base m \<subseteq> range_of r base n" using mn by (auto simp: range_of_def)
  then show "sees_same A (range_of r base n) s t"
    using sees_same_mono [OF dp(2)] tr1 by (simp add: sees_same_def)
qed

lemma mmap_pages_ok:
  assumes "vm_ok A s" and "r \<in> A" and "low_range base n" and "m \<le> n" and "ready r base m n s"
    and "mmap_pages fill r base (arch_vm_user_page_flags w x) (of_nat (m * PAGE_SIZE)) (offs m n) s = Some (d, t)"
  shows "vm_ok A t \<and> current t = current s \<and>
      (if d then sees_same A (tail_of r base m n) s t \<and> (\<forall>k. m \<le> k \<longrightarrow> k < n \<longrightarrow> filled fill r base w x k t)
       else sees_same A (range_of r base n) s t \<and> (\<forall>k < n. translate r (page_at base k) t = None))"
  using assms
proof (induction "n - m" arbitrary: m s)
  case 0
  then show ?case by simp
next
  case (Suc j)
  note ok = Suc.prems(1) and r = Suc.prems(2) and lr = Suc.prems(3) and rd = Suc.prems(5)
  have mn: "m < n" and j: "j = n - Suc m" and le: "Suc m \<le> n" using Suc.hyps(2) by simp_all
  note u = page_at_user [OF lr mn]
  obtain q s1 where al: "vm_alloc 1 s = (q, s1)" by fastforce
  have run: "(if q = 0 then Some (False, mmap_drop_range r base (of_nat (m * PAGE_SIZE)) s1)
      else do { let s2 = zero_page q s1; let s3 = s2\<lparr>mem := (mem s2)(q := fill (of_nat (m * PAGE_SIZE)) (mem s2 q))\<rparr>;
                s4 \<leftarrow> vmm_map_page r (page_at base m) q (arch_vm_user_page_flags w x) s3;
                mmap_pages fill r base (arch_vm_user_page_flags w x) (of_nat (m * PAGE_SIZE) + of_nat PAGE_SIZE) (offs (Suc m) n) s4 }) = Some (d, t)"
    using Suc.prems(6) unfolding offs_Cons [OF mn] page_at_def by (simp only: mmap_pages.simps al prod.case)
  show ?case
  proof (cases "q = 0")
    case True
    have ap: "alloc_page s = (None, s1)" using alloc_page_eq [OF al] True by simp
    have t: "\<not> d" "t = mmap_drop_range r base (of_nat (m * PAGE_SIZE)) s1" using run True by simp_all
    have "current s1 = current s" using al by (auto simp: vm_alloc_def split: prod.splits)
    then show ?thesis using mmap_pages_fail [OF ok r lr mn rd ap t(2)] t(1) by simp
  next
    case False
    define s3 where "s3 = (zero_page q s1)\<lparr>mem := (mem (zero_page q s1))(q := fill (of_nat (m * PAGE_SIZE)) (\<lambda>_. 0))\<rparr>"
    have mp: "of_nat (m * PAGE_SIZE) + of_nat PAGE_SIZE = (of_nat (Suc m * PAGE_SIZE) :: u64)" by simp
    have z: "mem (zero_page q s1) q = (\<lambda>_. 0)" by simp
    obtain s4 where s4: "vmm_map_page r (page_at base m) q (arch_vm_user_page_flags w x) s3 = Some s4"
      "mmap_pages fill r base (arch_vm_user_page_flags w x) (of_nat (Suc m * PAGE_SIZE)) (offs (Suc m) n) s4 = Some (d, t)"
      using run False unfolding Let_def z mp s3_def [symmetric] by (auto simp only: if_False bind_eq_Some_conv)
    have tm: "translate r (page_at base m) s = None" using rd mn by (simp add: ready_def)
    from mmap_page_step(1) [OF ok r u tm al False s3_def s4(1)]
    have st: "vm_ok A s4" "sees_same A {(r, vpage (page_at base m))} s s4" "filled fill r base w x m s4" "current s4 = current s"
      "\<exists>e. translate r (page_at base m) s4 = Some (e, False)"
      by (simp_all add: filled_def)
    note IH = Suc.hyps(1) [OF j st(1) r lr le ready_step [OF lr mn r rd st(2,5)] s4(2)]
    show ?thesis
    proof (cases d)
      case True
      then have ss: "sees_same A (tail_of r base (Suc m) n) s4 t" and okt: "vm_ok A t" using IH by simp_all
      have "filled fill r base w x m t"
        by (rule filled_same [OF st(1) okt r u ss outside_tail [OF lr _ le] st(3)]) simp
      then have "filled fill r base w x k t" if "m \<le> k" "k < n" for k
        using IH True that by (cases "k = m") auto
      then show ?thesis using True IH st(4) sees_same_trans [OF st(2) ss] by (simp add: tail_of_step [OF mn])
    next
      case False
      have sub: "{(r, vpage (page_at base m))} \<union> range_of r base n = range_of r base n" using mn by (auto simp: range_of_def)
      show ?thesis using IH False st(4) sees_same_trans [OF st(2), of "range_of r base n" t] unfolding sub by simp
    qed
  qed
qed

lemma mmap_pages_returns:
  assumes "vm_ok A s" and "r \<in> A" and "low_range base n" and "m \<le> n" and "ready r base m n s" and "4 * (n - m) \<le> nfree s"
  shows "\<exists>t. mmap_pages fill r base (arch_vm_user_page_flags w x) (of_nat (m * PAGE_SIZE)) (offs m n) s = Some (True, t)"
  using assms
proof (induction "n - m" arbitrary: m s)
  case 0
  then show ?case by simp
next
  case (Suc j)
  note ok = Suc.prems(1) and r = Suc.prems(2) and lr = Suc.prems(3) and rd = Suc.prems(5)
  have mn: "m < n" and j: "j = n - Suc m" and le: "Suc m \<le> n" using Suc.hyps(2) by simp_all
  note u = page_at_user [OF lr mn]
  obtain q s1 where al: "vm_alloc 1 s = (q, s1)" by fastforce
  have n4: "4 \<le> nfree s" using Suc.prems(6) mn by simp
  have q: "q \<noteq> 0" using alloc_page_free [OF alloc_page_eq [OF al] vm_okD(1) [OF ok]] n4 by (auto split: if_splits)
  define s3 where "s3 = (zero_page q s1)\<lparr>mem := (mem (zero_page q s1))(q := fill (of_nat (m * PAGE_SIZE)) (\<lambda>_. 0))\<rparr>"
  have tm: "translate r (page_at base m) s = None" using rd mn by (simp add: ready_def)
  obtain s4 where s4: "vmm_map_page r (page_at base m) q (arch_vm_user_page_flags w x) s3 = Some s4"
    using mmap_page_step(2) [OF ok r u tm al q s3_def n4] by blast
  from mmap_page_step(1) [OF ok r u tm al q s3_def s4]
  have st: "vm_ok A s4" "sees_same A {(r, vpage (page_at base m))} s s4" "\<exists>e. translate r (page_at base m) s4 = Some (e, False)"
    "nfree s \<le> nfree s4 + 4" by simp_all
  have nf: "4 * (n - Suc m) \<le> nfree s4" using mn Suc.prems(6) st(4) by simp
  obtain t where t: "mmap_pages fill r base (arch_vm_user_page_flags w x) (of_nat (Suc m * PAGE_SIZE)) (offs (Suc m) n) s4 = Some (True, t)"
    using Suc.hyps(1) [OF j st(1) r lr le ready_step [OF lr mn r rd st(2,3)] nf] by blast
  have mp: "of_nat (m * PAGE_SIZE) + of_nat PAGE_SIZE = (of_nat (Suc m * PAGE_SIZE) :: u64)" by simp
  have z: "mem (zero_page q s1) q = (\<lambda>_. 0)" by simp
  have "mmap_pages fill r base (arch_vm_user_page_flags w x) (of_nat (m * PAGE_SIZE)) (offs m n) s = Some (True, t)"
    unfolding offs_Cons [OF mn] mmap_pages.simps al prod.case page_at_def [symmetric] Let_def z mp s3_def [symmetric]
    using q s4 t by simp
  then show ?case by blast
qed

section \<open>The system call mmap\<close>

lemma vpage_translate:
  assumes "vpage va = vpage va'"
  shows "translate r va s = translate r va' s" "user_addr va = user_addr va'"
  using assms by (simp_all add: vpage_def vpath_def translate_def user_addr_def)

lemma sees_same_unmapped:
  assumes ok: "vm_ok A s" "vm_ok A t" and r: "r \<in> A" and same: "sees_same A (range_of r base n) s t"
    and un: "\<And>k. k < n \<Longrightarrow> translate r (page_at base k) s = None \<and> translate r (page_at base k) t = None"
  shows "sees_same A {} s t"
  unfolding sees_same_def
proof (intro ballI allI impI)
  fix r' va assume a: "r' \<in> A" "user_addr va"
  show "translate r' va t = translate r' va s \<and> user_page r' va t = user_page r' va s"
  proof (cases "(r', vpage va) \<in> range_of r base n")
    case True
    then obtain k where k: "r' = r" "k < n" "vpage va = vpage (page_at base k)" by (auto simp: range_of_def)
    then have "translate r' va s = None" "translate r' va t = None" using un [OF k(2)] k(1) vpage_translate(1) [OF k(3), of r s] vpage_translate(1) [OF k(3), of r t] by simp_all
    then show ?thesis by (simp add: user_page_translate [OF ok(1) a] user_page_translate [OF ok(2) a])
  qed (use same a in \<open>simp add: sees_same_def\<close>)
qed

lemma vm_ok_cong:
  assumes "pm t = pm s" and "mem t = mem s"
  shows "vm_ok A t = vm_ok A s" "translate r va t = translate r va s" "user_page r va t = user_page r va s"
    "arch_vm_get_page_prot r va t = arch_vm_get_page_prot r va s" "sees_same A R s' t = sees_same A R s' s" "nfree t = nfree s"
    "filled fill r base w x k t = filled fill r base w x k s" "ready r base m n t = ready r base m n s"
proof -
  have e: "hold A t = hold A s" by (simp only: hold_def entries_def tbl_mem [OF assms(2)] assms(2))
  show "vm_ok A t = vm_ok A s"
    by (simp only: vm_ok_def e pm_only [OF assms(1)] tbl_mem [OF assms(2)] target_mem [OF assms(2)] assms(2))
  show tr: "translate r va t = translate r va s" for r va by (simp only: translate_def tbl_mem [OF assms(2)] assms(2))
  show up: "user_page r va t = user_page r va s" for r va by (rule same_mem_pages [OF assms(2)])
  show pr: "arch_vm_get_page_prot r va t = arch_vm_get_page_prot r va s" for r va
    by (simp only: arch_vm_get_page_prot_def x86_user_pte_def pte_at_def assms(2))
  show "sees_same A R s' t = sees_same A R s' s" by (simp add: sees_same_def tr up)
  show "nfree t = nfree s" by (rule nfree_pm [OF assms(1)])
  show "filled fill r base w x k t = filled fill r base w x k s" by (simp add: filled_def tr up pr)
  show "ready r base m n t = ready r base m n s" by (simp add: ready_def tr)
qed

lemma upd_task_simps [simp]: "pm (upd_task f s) = pm s" "mem (upd_task f s) = mem s"
  by (simp_all add: upd_task_def)

lemma unmapped_ready:
  assumes "vm_ok A s" and "r \<in> A" and "mmap_range_valid base sz" and "vmm_page_aligned sz"
  shows "mmap_range_unmapped r base sz s \<longleftrightarrow> (\<forall>k < unat sz div 4096. translate r (page_at base k) s = None)"
proof -
  note v = valid_low [OF assms(3,4)]
  have "vmm_get_phys r (page_at base k) s = 0 \<longleftrightarrow> translate r (page_at base k) s = None" if "k < unat sz div 4096" for k
    by (rule get_phys_0 [OF assms(1,2) page_at_user [OF v(1) that]])
  then show ?thesis by (auto simp: mmap_range_unmapped_def v(3) list_all_iff page_at_def)
qed

text \<open>The window for mappings has no 2 MiB pages.\<close>

definition window_small :: "u64 \<Rightarrow> 'a vm_scheme \<Rightarrow> bool" where
  "window_small r s \<longleftrightarrow> (\<forall>va e. USER_MMAP_BASE_VADDR \<le> va \<longrightarrow> va < USER_MMAP_TOP_VADDR \<longrightarrow> translate r va s \<noteq> Some (e, True))"

lemma page_at_window:
  assumes "mmap_range_valid base sz" and "vmm_page_aligned sz" and "k < unat sz div 4096"
  shows "USER_MMAP_BASE_VADDR \<le> page_at base k" "page_at base k < USER_MMAP_TOP_VADDR"
proof -
  note v = valid_low [OF assms(1,2)]
  have nz: "sz \<noteq> 0" using assms(1) by (auto simp: mmap_range_valid_def)
  have b: "unat USER_MMAP_BASE_VADDR \<le> unat base" "unat base + unat sz \<le> unat USER_MMAP_TOP_VADDR"
    using assms(1) by (simp_all add: range_valid_iff [OF nz])
  have u: "unat (page_at base k) = unat base + k * 4096" by (rule unat_page_at [OF v(1) assms(3)])
  have "Suc k * 4096 \<le> unat sz div 4096 * 4096" using assms(3) by (intro mult_le_mono1) simp
  then have "k * 4096 < unat sz" using div_times_less_eq_dividend [of "unat sz" 4096] by simp
  then show "USER_MMAP_BASE_VADDR \<le> page_at base k" "page_at base k < USER_MMAP_TOP_VADDR"
    using b by (simp_all add: unat_le_word word_less_nat_alt u)
qed

text \<open>The choice of the base: an error, with nothing changed, or a valid base with its range unmapped.\<close>

lemma mmap_base_spec:
  assumes ok: "vm_ok A s" and r: "r \<in> A" and ws: "window_small r s" and sz: "vmm_page_aligned sz" "sz \<noteq> 0"
  obtains (err) e where "mmap_base r addr sz flags t s = Some (Inl e, s)" "e = LINUX_ENOMEM \<and> mmap_find_gap r sz (mmap_end t) s = Some 0 \<or> e = LINUX_EINVAL"
  | (gap) g s1 where "mmap_base r addr sz flags t s = Some (Inr g, s1)" "mmap_range_valid g sz" "g \<noteq> 0" "vm_ok A s1" "ready r g 0 (unat sz div 4096) s1"
      "nfree s \<le> nfree s1" "ready r g 0 (unat sz div 4096) s" "sees_same A {} s s1"
  | (fixed) s1 where "mmap_base r addr sz flags t s = Some (Inr addr, s1)" "flags AND MAP_FIXED \<noteq> 0" "mmap_range_valid addr sz" "vm_ok A s1"
      "ready r addr 0 (unat sz div 4096) s1" "nfree s \<le> nfree s1" "sees_same A (range_of r addr (unat sz div 4096)) s s1"
proof (cases "mmap_align_up addr = 0 \<or> flags AND MAP_FIXED = 0")
  case True
  show thesis
  proof (cases "sz > USER_MMAP_TOP_VADDR - USER_MMAP_BASE_VADDR")
    case big: True
    then have "mmap_find_gap r sz (mmap_end t) s = Some 0" by (simp add: mmap_find_gap_def)
    then show thesis using True err [of LINUX_ENOMEM] by (simp add: mmap_base_def)
  next
    case False
    then obtain g where g: "mmap_find_gap r sz (mmap_end t) s = Some g"
      "g \<noteq> 0 \<Longrightarrow> mmap_range_valid g sz \<and> mmap_range_unmapped r g sz s"
      using find_gap_result [OF sz, of r "mmap_end t" s] by (auto simp: not_less)
    show thesis
    proof (cases "g = 0")
      case True
      then show thesis using g \<open>mmap_align_up addr = 0 \<or> _\<close> err [of LINUX_ENOMEM] by (simp add: mmap_base_def)
    next
      case nz: False
      let ?s1 = "upd_task (\<lambda>t. t\<lparr>mmap_end := mmap_align_up (g + sz)\<rparr>) s"
      have "ready r g 0 (unat sz div 4096) s" using g(2) [OF nz] unmapped_ready [OF ok r _ sz(1), of g] by (simp add: ready_def)
      moreover have "pm ?s1 = pm s" "mem ?s1 = mem s" by simp_all
      note c = vm_ok_cong [OF this]
      have "mmap_base r addr sz flags t s = Some (Inr g, ?s1)" using True g(1) nz by (simp add: mmap_base_def Let_def)
      ultimately show thesis using g(2) [OF nz] nz ok by (intro gap [of g ?s1]) (simp_all add: c)
    qed
  qed
next
  case False
  show thesis
  proof (cases "addr = mmap_align_up addr \<and> mmap_range_valid addr sz")
    case bad: False
    then show thesis using False err [of LINUX_EINVAL] by (auto simp: mmap_base_def Let_def)
  next
    case True
    then have v: "mmap_range_valid addr sz" and a: "mmap_align_up addr = addr" by simp_all
    note vl = valid_low [OF v sz(1)]
    show thesis
    proof (cases "mmap_range_unmapped r addr sz s")
      case un: True
      have "ready r addr 0 (unat sz div 4096) s" using un unmapped_ready [OF ok r v sz(1)] by (simp add: ready_def)
      then show thesis using False un v a ok by (intro fixed [of s]) (simp_all add: mmap_base_def)
    next
      case nu: False
      have d: "4096 dvd unat sz" using sz(1) by (simp add: aligned_dvd)
      let ?s1 = "drop_pages r addr [0..<unat sz div 4096] s"
      note dp = drop_pages_ok [OF ok r vl(1) refl]
      have "translate r (page_at addr k) ?s1 = None" if "k < unat sz div 4096" for k
      proof -
        have "translate r (page_at addr k) s \<noteq> Some (e, True)" for e
          using ws page_at_window [OF v sz(1) that] by (simp add: window_small_def)
        then show ?thesis using dp(7) [OF that] by (auto split: option.splits bool.splits)
      qed
      then show thesis using False nu v a dp(1-3)
        by (intro fixed [of ?s1]) (simp_all add: mmap_base_def drop_range_pages [OF d] ready_def)
    qed
  qed
qed

text \<open>A request for an anonymous mapping that passes the checks on its arguments.\<close>

definition anon_request :: "u64 \<Rightarrow> u32 \<Rightarrow> int \<Rightarrow> bool" where
  "anon_request len flags fd \<longleftrightarrow> len \<noteq> 0 \<and> unat len + 4095 < 2 ^ 64 \<and> flags AND (MAP_PRIVATE OR MAP_SHARED) \<noteq> 0 \<and>
     flags AND MAP_ANONYMOUS \<noteq> 0 \<and> (fd = -1 \<or> fd = 0)"

lemma anon_mmap:
  assumes "anon_request len flags fd" and "current s = Some t"
  shows "mmap_align_up len \<noteq> 0"
    "sys_mmap pread addr len prot flags fd 0 s =
      do { (b, s1) \<leftarrow> mmap_base (address_space t) addr (mmap_align_up len) flags t s;
           (case b of Inl e \<Rightarrow> Some (mmap_err e, s1)
            | Inr base \<Rightarrow>
                if \<not> mmap_range_valid base (mmap_align_up len) then Some (mmap_err LINUX_EINVAL, s1)
                else do { (done, s2) \<leftarrow> mmap_pages (\<lambda>_ pg. pg) (address_space t) base
                            (arch_vm_user_page_flags (prot AND PROT_WRITE \<noteq> 0) (prot AND PROT_EXEC \<noteq> 0)) 0 (page_offs (mmap_align_up len)) s1;
                          (if \<not> done then Some (mmap_err LINUX_ENOMEM, s2)
                           else Some (base, upd_task (\<lambda>t. if base + mmap_align_up len > mmap_end t
                                                        then t\<lparr>mmap_end := base + mmap_align_up len\<rparr> else t) s2)) }) }"
    (is "_ = ?rhs")
proof -
  have l: "0 < unat len" "unat len + 4095 < 2 ^ 64" using assms(1) by (simp_all add: anon_request_def unat_gt_0)
  have "4096 \<le> unat len + 4095" using l(1) by simp
  then have "0 < (unat len + 4095) div 4096" by (simp add: div_greater_zero_iff)
  then have "0 < unat (mmap_align_up len)" unfolding align_up [OF l(2)] by simp
  then show nz: "mmap_align_up len \<noteq> 0" by auto
  have a: "len \<noteq> 0" "flags AND (MAP_PRIVATE OR MAP_SHARED) \<noteq> 0" "flags AND MAP_ANONYMOUS \<noteq> 0" "fd = -1 \<or> fd = 0"
    using assms(1) by (simp_all add: anon_request_def)
  from a(4) show "sys_mmap pread addr len prot flags fd 0 s = ?rhs"
    unfolding sys_mmap_def Let_def assms(2) option.case eqTrueI [OF a(3)] if_True by (elim disjE) (simp_all add: a(1,2) nz)
qed

text \<open>C5. An anonymous \<open>mmap\<close> that returns keeps the invariant and either fails or succeeds. When it fails, with \<open>ENOMEM\<close> or \<open>EINVAL\<close>,
  every page of every address space is as before; only a fixed mapping may already have lost the pages it was to replace. When it succeeds, the
  result is the start of a valid range, every page of which holds zeros and has the requested rights; without \<open>MAP_FIXED\<close>
  the range was unmapped; no page outside of it is affected, in any address space.\<close>

theorem mmap_anonymous_safe:
  assumes "vm_ok A s" and "current s = Some t" and "address_space t \<in> A" and "window_small (address_space t) s"
    and "anon_request len flags fd" and "sys_mmap pread addr len prot flags fd 0 s = Some (res, s')"
  shows "vm_ok A s' \<and>
    ((res = mmap_err LINUX_ENOMEM \<or> res = mmap_err LINUX_EINVAL) \<and>
       sees_same A (if flags AND MAP_FIXED \<noteq> 0 then range_of (address_space t) addr (unat (mmap_align_up len) div 4096) else {}) s s' \<or>
     mmap_range_valid res (mmap_align_up len) \<and>
       sees_same A (range_of (address_space t) res (unat (mmap_align_up len) div 4096)) s s' \<and>
       (\<forall>k < unat (mmap_align_up len) div 4096.
          user_page (address_space t) (page_at res k) s' = Some (\<lambda>_. 0) \<and>
          arch_vm_get_page_prot (address_space t) (page_at res k) s' = Some (prot AND PROT_WRITE \<noteq> 0, prot AND PROT_EXEC \<noteq> 0) \<and>
          (flags AND MAP_FIXED = 0 \<longrightarrow> user_page (address_space t) (page_at res k) s = None)))"
proof -
  let ?r = "address_space t" and ?sz = "mmap_align_up len" and ?w = "prot AND PROT_WRITE \<noteq> 0" and ?x = "prot AND PROT_EXEC \<noteq> 0"
  let ?n = "unat ?sz div 4096"
  note eq = anon_mmap [OF assms(5,2)]
  have good: ?thesis
    if b: "mmap_base ?r addr ?sz flags t s = Some (Inr base, s1)" and v: "mmap_range_valid base ?sz" and ok1: "vm_ok A s1" and rd: "ready ?r base 0 ?n s1"
      and same: "sees_same A R s s1" "R \<subseteq> range_of ?r base ?n" and fx: "flags AND MAP_FIXED = 0 \<Longrightarrow> ready ?r base 0 ?n s \<and> R = {}"
      and fx': "flags AND MAP_FIXED \<noteq> 0 \<Longrightarrow> base = addr \<or> R = {} \<and> ready ?r base 0 ?n s" for base s1 R
  proof -
    note vl = valid_low [OF v align_up_aligned]
    obtain d s2 where mp: "mmap_pages (\<lambda>_ pg. pg) ?r base (arch_vm_user_page_flags ?w ?x) 0 (page_offs ?sz) s1 = Some (d, s2)"
      and fin: "(if \<not> d then (mmap_err LINUX_ENOMEM, s2) else (base, upd_task (\<lambda>t. if base + ?sz > mmap_end t then t\<lparr>mmap_end := base + ?sz\<rparr> else t) s2)) = (res, s')"
      using assms(6) b v unfolding eq(2) by (auto simp: bind_eq_Some_conv split: if_splits)
    have mp0: "mmap_pages (\<lambda>_ pg. pg) ?r base (arch_vm_user_page_flags ?w ?x) (of_nat (0 * PAGE_SIZE)) (offs 0 ?n) s1 = Some (d, s2)"
      using mp vl(3) by simp
    note st = mmap_pages_ok [OF ok1 assms(3) vl(1) le0 rd mp0]
    have Rr: "R \<union> range_of ?r base ?n = range_of ?r base ?n" using same(2) by auto
    show ?thesis
    proof (cases d)
      case True
      have s': "res = base" "pm s' = pm s2" "mem s' = mem s2" using fin True by auto
      have ss: "sees_same A (range_of ?r base ?n) s s2" using sees_same_trans [OF same(1), of "range_of ?r base ?n" s2] st True unfolding Rr by (simp add: tail_of_0)
      have up: "user_page ?r (page_at base k) s = None" if "k < ?n" "flags AND MAP_FIXED = 0" for k
        using fx [OF that(2)] that(1) user_page_translate [OF assms(1,3) page_at_user [OF vl(1) that(1)]] by (simp add: ready_def)
      show ?thesis
        using True st s'(1) v ss up unfolding vm_ok_cong [OF s'(2,3)] by (simp add: filled_def)
    next
      case False
      have s': "res = mmap_err LINUX_ENOMEM" "s' = s2" using fin False by auto
      have ok2: "vm_ok A s2" and u2: "\<And>k. k < ?n \<Longrightarrow> translate ?r (page_at base k) s2 = None" and ss: "sees_same A (range_of ?r base ?n) s1 s2"
        using st False by simp_all
      have s12: "sees_same A {} s1 s2"
        using sees_same_unmapped [OF ok1 ok2 assms(3) ss] u2 rd by (simp add: ready_def)
      have "sees_same A R s s2" using sees_same_trans [OF same(1) s12] by simp
      moreover have "R \<subseteq> (if flags AND MAP_FIXED \<noteq> 0 then range_of ?r addr ?n else {})" using fx fx' same(2) by auto
      ultimately have "sees_same A (if flags AND MAP_FIXED \<noteq> 0 then range_of ?r addr ?n else {}) s s2" by (rule sees_same_mono)
      then show ?thesis using ok2 s' by simp
    qed
  qed
  from assms(1,3,4) align_up_aligned eq(1) show ?thesis
  proof (cases rule: mmap_base_spec [where addr = addr and flags = flags and t = t])
    case (err e)
    then have "res = mmap_err e" "s' = s" using assms(6) unfolding eq(2) by simp_all
    then show ?thesis using err(2) assms(1) by auto
  next
    case (gap g s1)
    then show ?thesis by (intro good [of g s1 "{}"]) simp_all
  next
    case (fixed s1)
    then show ?thesis by (intro good [of addr s1 "range_of ?r addr ?n"]) simp_all
  qed
qed

lemma anon_mmap_returns:
  assumes "vm_ok A s" and "current s = Some t" and "address_space t \<in> A" and "window_small (address_space t) s"
    and "anon_request len flags fd" and "4 * (unat (mmap_align_up len) div 4096) \<le> nfree s"
  shows "\<exists>res s'. sys_mmap pread addr len prot flags fd 0 s = Some (res, s') \<and>
    (res = mmap_err LINUX_ENOMEM \<longrightarrow> mmap_find_gap (address_space t) (mmap_align_up len) (mmap_end t) s = Some 0)"
proof -
  let ?r = "address_space t" and ?sz = "mmap_align_up len" and ?w = "prot AND PROT_WRITE \<noteq> 0" and ?x = "prot AND PROT_EXEC \<noteq> 0"
  let ?n = "unat ?sz div 4096"
  note eq = anon_mmap [OF assms(5,2)]
  have ne: "mmap_err LINUX_ENOMEM \<noteq> mmap_err LINUX_EINVAL" by (simp add: mmap_err_def LINUX_ENOMEM_def LINUX_EINVAL_def)
  have good: ?thesis
    if b: "mmap_base ?r addr ?sz flags t s = Some (Inr base, s1)" and v: "mmap_range_valid base ?sz" and ok1: "vm_ok A s1" and rd: "ready ?r base 0 ?n s1"
      and nf: "nfree s \<le> nfree s1" for base s1
  proof -
    note vl = valid_low [OF v align_up_aligned]
    have "4 * (?n - 0) \<le> nfree s1" using assms(6) nf by simp
    from mmap_pages_returns [OF ok1 assms(3) vl(1) le0 rd this, of "\<lambda>_ pg. pg" ?w ?x]
    obtain s2 where mp: "mmap_pages (\<lambda>_ pg. pg) ?r base (arch_vm_user_page_flags ?w ?x) 0 (page_offs ?sz) s1 = Some (True, s2)"
      using vl(3) by auto
    have "base \<noteq> mmap_err LINUX_ENOMEM"
      using v by (auto simp: mmap_range_valid_def mmap_err_def LINUX_ENOMEM_def USER_MMAP_TOP_VADDR_def split: if_splits)
    then show ?thesis unfolding eq(2) using b v mp by simp
  qed
  from assms(1,3,4) align_up_aligned eq(1) show ?thesis
  proof (cases rule: mmap_base_spec [where addr = addr and flags = flags and t = t])
    case (err e)
    then show ?thesis unfolding eq(2) using ne by auto
  next
    case (gap g s1)
    then show ?thesis by (intro good)
  next
    case (fixed s1)
    then show ?thesis by (intro good)
  qed
qed

text \<open>C19. With four free pages for each page of the request, an anonymous \<open>mmap\<close> returns, and it reports \<open>ENOMEM\<close> only
  when the search for a free range has found none.\<close>

theorem mmap_anonymous_returns:
  assumes "vm_ok A s" and "current s = Some t" and "address_space t \<in> A" and "window_small (address_space t) s"
    and "anon_request len flags fd" and "4 * (unat (mmap_align_up len) div 4096) \<le> nfree s"
  shows "\<exists>res s'. sys_mmap pread addr len prot flags fd 0 s = Some (res, s') \<and>
    (res = mmap_err LINUX_ENOMEM \<longrightarrow> mmap_find_gap (address_space t) (mmap_align_up len) (mmap_end t) s = Some 0)"
  using assms by (rule anon_mmap_returns)

end
