(* ===== verification/MmapProt.thy ===== *)
theory MmapProt
  imports MmapSafe
begin

text \<open>
  The system calls that change mappings in place: \<open>mprotect\<close> and \<open>brk\<close>, and the bounds of \<open>mremap\<close>.
\<close>

unbundle bit_operations_syntax

section \<open>The system call mprotect\<close>

text \<open>The entry that \<open>vm_cow_protect_page\<close> leaves behind.\<close>

definition protected :: "bool \<Rightarrow> bool \<Rightarrow> bool \<Rightarrow> u64 \<Rightarrow> u64" where
  "protected cow w x e =
     (let e0 = e AND NOT (PTE_WRITABLE OR PTE_NX); e1 = (if w \<and> \<not> cow then e0 OR PTE_WRITABLE else e0);
          e2 = (if \<not> x then e1 OR PTE_NX else e1)
      in if cow then arch_pte_mkcow e2 else arch_pte_clear_cow e2)"

lemma protected_simps:
  "present (protected cow w x e) = present e" "user (protected cow w x e) = user e" "arch_pte_phys (protected cow w x e) = arch_pte_phys e"
  "arch_pte_writable (protected cow w x e) \<longleftrightarrow> w \<and> \<not> cow" "arch_pte_cow (protected cow w x e) = cow"
  "(protected cow w x e AND PTE_NX = 0) = x"
proof -
  have b: "bit (protected cow w x e) n \<longleftrightarrow> n < 64 \<and> (if n = 1 then w \<and> \<not> cow else if n = 63 then \<not> x else if n = 9 then cow else bit e n)" for n
    by (auto simp: protected_def Let_def arch_pte_mkcow_def arch_pte_clear_cow_def bit_simps pte_flag_bits dest: bit_imp_le_length)
  show "present (protected cow w x e) = present e" "user (protected cow w x e) = user e"
    "arch_pte_writable (protected cow w x e) \<longleftrightarrow> w \<and> \<not> cow" "arch_pte_cow (protected cow w x e) = cow"
    by (simp_all add: pte_bits b)
  show "arch_pte_phys (protected cow w x e) = arch_pte_phys e"
    unfolding arch_pte_phys_def by (intro bit_word_eqI) (auto simp: bit_simps b)
  have "protected cow w x e AND PTE_NX = 0 \<longleftrightarrow> \<not> bit (protected cow w x e) 63"
    unfolding PTE_NX_def by (rule and_push_bit_0) simp
  then show "(protected cow w x e AND PTE_NX = 0) = x" by (simp add: b)
qed

lemma user_page_entry:
  assumes ok: "vm_ok A s" and r: "r \<in> A" "user_addr va" and u: "arch_vm_is_user_page r va s"
  obtains pt where "tbl s r (vpath va) = Some pt" "present (mem s pt (PT_IDX va))" "user (mem s pt (PT_IDX va))"
    "translate r va s = Some (mem s pt (PT_IDX va), False)" "arch_vm_user_leaf r va s = Some ((pt, PT_IDX va), 1)"
proof -
  obtain pt where pt: "tbl s r (vpath va) = Some pt" "present (mem s pt (PT_IDX va))" "user (mem s pt (PT_IDX va))"
    using u by (auto simp: arch_vm_is_user_page_def user_pte_translate [OF ok r] pte_at_def split: option.splits)
  obtain pd where pd: "tbl s r [PML4_IDX va, PDP_IDX va] = Some pd" "\<not> huge (mem s pd (PD_IDX va))"
    using pt(1) vpath_next [of s r va] by (auto split: option.splits if_splits)
  have "translate r va s = Some (mem s pt (PT_IDX va), False)" unfolding translate_def using pt pd by (simp only: option.case) simp
  moreover have "arch_vm_user_leaf r va s = Some ((pt, PT_IDX va), 1)"
    unfolding user_leaf_tbl [OF ok r] using pt pd by (simp only: option.case) simp
  ultimately show thesis using that pt by blast
qed

lemma user_page_entryI:
  assumes ok: "vm_ok A s" and r: "r \<in> A" "user_addr va" and pt: "tbl s r (vpath va) = Some pt" "present (mem s pt (PT_IDX va))" "user (mem s pt (PT_IDX va))"
  shows "arch_vm_is_user_page r va s" "arch_vm_user_leaf r va s = Some ((pt, PT_IDX va), 1)"
proof -
  show u: "arch_vm_is_user_page r va s" using pt by (simp add: arch_vm_is_user_page_def user_pte_translate [OF ok r] pte_at_def)
  show "arch_vm_user_leaf r va s = Some ((pt, PT_IDX va), 1)" using user_page_entry [OF ok r u] pt(1) by auto
qed

text \<open>The entry of a page is replaced by one for the same frame.\<close>

lemma rewrite_leaf:
  assumes ok: "vm_ok A s" and r: "r \<in> A" "user_addr va" and pt: "tbl s r (vpath va) = Some pt" "present (mem s pt (PT_IDX va))"
    and e: "present e" "arch_pte_phys e = arch_pte_phys (mem s pt (PT_IDX va))"
    and excl: "arch_pte_writable e \<Longrightarrow> managed (arch_pte_phys e) s \<Longrightarrow> nref (arch_pte_phys e) s = 1" and t: "t = wr pt (PT_IDX va) e s"
  shows "vm_ok A t" "tbl t r (vpath va) = Some pt" "sees_same A {(r, vpage va)} s t" "translate r va t = Some (e, False)"
    "user e \<Longrightarrow> user_page r va t = Some (mem s (arch_pte_phys e))"
proof -
  have m: "mem t v j = (if v = pt \<and> j = PT_IDX va then e else mem s v j)" for v j by (simp add: t)
  note tree = slot_tree [OF ok r pt(1) m]
  have pm: "pm t = pm s" by (simp add: t)
  have "(pt, PT_IDX va) \<in> entries A s" using entriesI [OF r(1) _ upath_pt [OF r(2)] pt] by simp
  then have hold: "hold A t = hold A s" using tree(2) e(1) by (simp add: hold_def insert_absorb)
  have tgt: "target t = target s"
  proof
    show "target t l = target s l" for l using e(2) by (cases l) (auto simp: m)
  qed
  have cnt: "pc.counted (hold A t) (target t) t" using vm_okD(2) [OF ok] by (simp add: hold tgt pm_only(4) [OF pm])
  show okt: "vm_ok A t"
    using slot_ok [OF ok r pt(1) m _ cnt] vm_okD(1) [OF ok] istable_managed [OF ok] excl by (simp add: pm_only [OF pm])
  show "tbl t r (vpath va) = Some pt" using tree(1) [OF r(1), of "vpath va"] r(2) pt(1) by simp
  have it: "istable A s pt" using istableI [OF r(1) _ _ pt(1)] r(2) by simp
  have mt: "mem t z = mem s z" if "\<not> istable A s z" for z using it that by (auto simp: fun_eq_iff m)
  show "sees_same A {(r, vpage va)} s t"
    unfolding sees_same_def
  proof (intro ballI allI impI)
    fix r' va' assume a: "r' \<in> A" "user_addr va'" "(r', vpage va') \<notin> {(r, vpage va)}"
    then have tr: "translate r' va' t = translate r' va' s" using tree(3) [OF a(1,2)] by auto
    then show "translate r' va' t = translate r' va' s \<and> user_page r' va' t = user_page r' va' s"
      using user_page_same [OF ok okt a(1,2) tr mt] by simp
  qed
  show tr: "translate r va t = Some (e, False)" using tree(3) [OF r] e(1) by simp
  have "\<not> istable A s (arch_pte_phys e)"
    using leaf_frame_not_table [OF ok r(1) _ upath_pt [OF r(2)] pt] e(2) by (auto simp: istable_def)
  then show "user_page r va t = Some (mem s (arch_pte_phys e))" if "user e"
    using that mt by (simp add: user_page_translate [OF okt r] tr frame_of_def)
qed

lemma protect_page_ok:
  assumes ok: "vm_ok A s" and r: "r \<in> A" "user_addr va" and u: "arch_vm_is_user_page r va s"
    and t: "t = vm_cow_protect_page r va w x s"
  shows "vm_ok A t" "sees_same A {(r, vpage va)} s t" "user_page r va t = user_page r va s"
    "vm_cow_get_page_prot r va t = Some (w, x)" "\<exists>e. translate r va t = Some (e, False) \<and> user e"
proof -
  obtain pt where pt: "tbl s r (vpath va) = Some pt" "present (mem s pt (PT_IDX va))" "user (mem s pt (PT_IDX va))"
    "translate r va s = Some (mem s pt (PT_IDX va), False)" "arch_vm_user_leaf r va s = Some ((pt, PT_IDX va), 1)"
    using user_page_entry [OF ok r u] by blast
  let ?e = "mem s pt (PT_IDX va)" and ?i = "PT_IDX va"
  define cow where "cow \<longleftrightarrow> w \<and> (arch_pte_cow ?e \<or> vm_cow_page_shared (arch_pte_phys ?e) s)"
  define t1 where "t1 = arch_vm_protect_page r va (w \<and> \<not> cow) x s"
  define e1 where "e1 = (let e0 = ?e AND NOT (PTE_WRITABLE OR PTE_NX); e1 = (if w \<and> \<not> cow then e0 OR PTE_WRITABLE else e0)
      in if \<not> x then e1 OR PTE_NX else e1)"
  have t1: "t1 = wr pt ?i e1 s"
    using pt(2) by (simp add: t1_def arch_vm_protect_page_def user_pte_translate [OF ok r] pt(1) pte_at_def wr_pte_def e1_def Let_def)
  have e1: "present e1" "user e1"
    using pt(2,3) by (auto simp: e1_def Let_def pte_bits bit_simps pte_flag_bits)
  have p1: "protected cow w x ?e = (if cow then arch_pte_mkcow e1 else arch_pte_clear_cow e1)"
    by (simp add: protected_def e1_def Let_def)
  have phys1: "arch_pte_phys e1 = arch_pte_phys ?e"
    unfolding arch_pte_phys_def by (intro bit_word_eqI) (auto simp: e1_def Let_def bit_simps pte_flag_bits)
  have one: "nref (arch_pte_phys ?e) s = 1" if "w \<and> \<not> cow" "managed (arch_pte_phys ?e) s"
  proof -
    have "Entry pt ?i \<in> hold A s" using entriesI [OF r(1) _ upath_pt [OF r(2)] pt(1,2)] by simp
    then have "0 < nref (arch_pte_phys ?e) s" using pc.counted_pos [OF vm_okD(2) [OF ok], of "Entry pt ?i"] that(2) by simp
    moreover have "\<not> 1 < nref (arch_pte_phys ?e) s" using that(1) by (auto simp: cow_def vm_cow_page_shared_def nref_def word_less_nat_alt)
    ultimately show ?thesis by simp
  qed
  have w1: "arch_pte_writable e1 \<Longrightarrow> w \<and> \<not> cow" by (auto simp: e1_def Let_def pte_bits bit_simps pte_flag_bits split: if_splits)
  have x1: "arch_pte_writable e1 \<Longrightarrow> managed (arch_pte_phys e1) s \<Longrightarrow> nref (arch_pte_phys e1) s = 1" using one w1 phys1 by simp
  note r1 = rewrite_leaf [OF ok r pt(1,2) e1(1) phys1 x1 t1]
  have leaf1: "arch_vm_user_leaf r va t1 = Some ((pt, ?i), 1)"
    using user_page_entryI(2) [OF r1(1) r r1(2)] e1 by (simp add: t1)
  have at: "pte_at (pt, ?i) s = ?e" "pte_at (pt, ?i) t1 = e1" by (simp_all add: pte_at_def t1)
  have "t = wr_pte (pt, ?i) (if cow then arch_pte_mkcow e1 else arch_pte_clear_cow e1) t1"
    unfolding t vm_cow_protect_page_def pt(5) Let_def option.case prod.case at(1) cow_def [symmetric] t1_def [symmetric] leaf1 at(2) ..
  then have tw: "t = wr pt ?i (protected cow w x ?e) s" by (simp add: wr_pte_def p1 t1 wr_def)
  note ps = protected_simps [of cow w x ?e]
  have x2: "arch_pte_writable (protected cow w x ?e) \<Longrightarrow> managed (arch_pte_phys (protected cow w x ?e)) s \<Longrightarrow>
      nref (arch_pte_phys (protected cow w x ?e)) s = 1" using one ps(3,4) by simp
  have p2: "present (protected cow w x ?e)" using ps(1) pt(2) by simp
  note r2 = rewrite_leaf [OF ok r pt(1,2) p2 ps(3) x2 tw]
  show "vm_ok A t" "sees_same A {(r, vpage va)} s t" using r2(1,3) by simp_all
  show "\<exists>e. translate r va t = Some (e, False) \<and> user e" using r2(4) ps(2) pt(3) by blast
  show "user_page r va t = user_page r va s"
    using r2(5) ps(2,3) pt(3,4) by (simp add: user_page_translate [OF ok r] frame_of_def)
  have "arch_vm_user_leaf r va t = Some ((pt, ?i), 1)"
    using user_page_entryI(2) [OF r2(1) r r2(2)] ps(1,2) pt(2,3) by (simp add: tw)
  moreover have "mem t pt ?i = protected cow w x ?e" by (simp add: tw)
  ultimately show "vm_cow_get_page_prot r va t = Some (w, x)"
    using page_prot_translate [OF r2(1) r r2(4)] ps(4-6) by (auto simp: vm_cow_get_page_prot_def pte_at_def cow_def)
qed

lemma is_user_translate:
  assumes "vm_ok A s" and "r \<in> A" and "user_addr va"
  shows "arch_vm_is_user_page r va s \<longleftrightarrow> (\<exists>e. translate r va s = Some (e, False) \<and> user e)"
proof
  assume "arch_vm_is_user_page r va s"
  from user_page_entry [OF assms this] show "\<exists>e. translate r va s = Some (e, False) \<and> user e" by blast
next
  assume "\<exists>e. translate r va s = Some (e, False) \<and> user e"
  then obtain e where e: "translate r va s = Some (e, False)" "user e" by blast
  from e(1) show "arch_vm_is_user_page r va s"
    by (cases rule: translate_cases) (use e(2) user_page_entryI(1) [OF assms] in auto)
qed

lemma cow_prot_translate:
  assumes "vm_ok A s" and "r \<in> A" and "user_addr va" and "translate r va s = Some (e, False)" and "user e"
  shows "vm_cow_get_page_prot r va s = Some (arch_pte_writable e \<or> arch_pte_cow e, e AND PTE_NX = 0)"
proof -
  have "arch_vm_is_user_page r va s" using is_user_translate [OF assms(1-3)] assms(4,5) by blast
  from user_page_entry [OF assms(1-3) this] obtain pt
    where pt: "arch_vm_user_leaf r va s = Some ((pt, PT_IDX va), 1)" "mem s pt (PT_IDX va) = e" using assms(4) by auto
  show ?thesis
    using page_prot_translate [OF assms(1-4)] pt by (auto simp: vm_cow_get_page_prot_def pte_at_def)
qed

lemma vpage_user_page:
  assumes "vm_ok A s" "r \<in> A" "user_addr va" "vpage va = vpage va'"
  shows "user_page r va s = user_page r va' s"
proof -
  have u: "user_addr va'" using assms(3) vpage_translate(2) [OF assms(4)] by simp
  have "frame_of va x = frame_of va' x" for x using assms(4) by (simp add: frame_of_def vpage_def)
  then show ?thesis
    unfolding user_page_translate [OF assms(1-3)] user_page_translate [OF assms(1,2) u] vpage_translate(1) [OF assms(4)]
    by (simp split: option.split)
qed

lemma protect_pages_ok:
  assumes ok: "vm_ok A s" and r: "r \<in> A" and lr: "low_range base n"
    and u: "\<And>k. k < n \<Longrightarrow> arch_vm_is_user_page r (page_at base k) s"
    and t: "t = fold (\<lambda>k. vm_cow_protect_page r (page_at base k) w x) [0..<n] s"
  shows "vm_ok A t \<and> sees_same A (range_of r base n) s t \<and> (\<forall>k < n. user_page r (page_at base k) t = user_page r (page_at base k) s \<and>
    vm_cow_get_page_prot r (page_at base k) t = Some (w, x))"
proof -
  let ?d = "\<lambda>m. fold (\<lambda>k. vm_cow_protect_page r (page_at base k) w x) [0..<m] s"
  have "vm_ok A (?d m) \<and> sees_same A (range_of r base m) s (?d m) \<and> (\<forall>k < m. user_page r (page_at base k) (?d m) = user_page r (page_at base k) s \<and>
    vm_cow_get_page_prot r (page_at base k) (?d m) = Some (w, x) \<and> (\<exists>e. translate r (page_at base k) (?d m) = Some (e, False) \<and> user e))"
    if "m \<le> n" for m
    using that
  proof (induction m)
    case 0
    then show ?case using ok by simp
  next
    case (Suc m)
    let ?s = "?d m" and ?va = "page_at base m"
    have d: "?d (Suc m) = vm_cow_protect_page r ?va w x ?s" by simp
    have mn: "m < n" using Suc.prems by simp
    note um = page_at_user [OF lr mn]
    have IH: "vm_ok A ?s" "sees_same A (range_of r base m) s ?s"
      "\<And>k. k < m \<Longrightarrow> user_page r (page_at base k) ?s = user_page r (page_at base k) s \<and> vm_cow_get_page_prot r (page_at base k) ?s = Some (w, x)"
      "\<And>k. k < m \<Longrightarrow> \<exists>e. translate r (page_at base k) ?s = Some (e, False) \<and> user e"
      using Suc by simp_all
    note sm = sees_sameD [OF IH(2) r um page_at_outside [OF lr mn order_refl]]
    have us: "arch_vm_is_user_page r ?va ?s"
      using u [OF mn] sm by (simp add: is_user_translate [OF IH(1) r um] is_user_translate [OF ok r um])
    note st = protect_page_ok [OF IH(1) r um us d]
    have other: "translate r (page_at base k) (?d (Suc m)) = translate r (page_at base k) ?s \<and> user_page r (page_at base k) (?d (Suc m)) = user_page r (page_at base k) ?s"
      if "k < m" for k
      using sees_sameD [OF st(2) r page_at_user [OF lr, of k]] page_at_inj [OF lr _ mn, of k] that mn by auto
    have "user_page r (page_at base k) (?d (Suc m)) = user_page r (page_at base k) s \<and> vm_cow_get_page_prot r (page_at base k) (?d (Suc m)) = Some (w, x) \<and>
        (\<exists>e. translate r (page_at base k) (?d (Suc m)) = Some (e, False) \<and> user e)" if "k < Suc m" for k
    proof (cases "k = m")
      case True
      then show ?thesis using st(3-5) sm by simp
    next
      case False
      then have k: "k < m" using that by simp
      have uk: "user_addr (page_at base k)" using page_at_user [OF lr, of k] k mn by simp
      obtain e where e: "translate r (page_at base k) ?s = Some (e, False)" "user e" using IH(4) [OF k] by blast
      then show ?thesis
        using other [OF k] IH(3) [OF k] cow_prot_translate [OF IH(1) r uk e] cow_prot_translate [OF st(1) r uk] by simp
    qed
    then show ?case using st(1) sees_same_trans [OF IH(2) st(2)] unfolding range_of_Suc by blast
  qed
  from this [OF order_refl] show ?thesis unfolding t by blast
qed


section \<open>The system call brk\<close>

abbreviation zeroed :: "u64 \<Rightarrow> u64 \<Rightarrow> nat \<Rightarrow> mm \<Rightarrow> bool" where
  "zeroed r base k s \<equiv> filled (\<lambda>_ pg. pg) r base True False k s"

lemma brk_loop_returns:
  assumes "vm_ok A s" and "r \<in> A" and "low_range base n" and "m \<le> n" and "ready r base m n s"
    and "4 * (n - m) \<le> nfree s" and "target_page = page_at base n"
  shows "\<exists>t. brk_loop r (arch_vm_user_page_flags True False) (page_at base m) target_page s = Some (True, t) \<and> vm_ok A t \<and> current t = current s \<and>
    sees_same A (tail_of r base m n) s t \<and> (\<forall>k. m \<le> k \<longrightarrow> k < n \<longrightarrow> zeroed r base k t)"
  using assms(1-6)
proof (induction "n - m" arbitrary: m s)
  case 0
  then have "m = n" by simp
  then show ?case using 0 by (subst brk_loop.simps) (simp add: assms(7))
next
  case (Suc j)
  note ok = Suc.prems(1) and r = Suc.prems(2) and lr = Suc.prems(3) and rd = Suc.prems(5)
  have mn: "m < n" and j: "j = n - Suc m" and le: "Suc m \<le> n" using Suc.hyps(2) by simp_all
  note u = page_at_user [OF lr mn]
  have lt: "page_at base m < target_page"
    using unat_page_at [OF lr mn] unat_page_at_le [OF lr order_refl] mn unfolding assms(7) by (simp add: word_less_nat_alt)
  obtain q s1 where al: "vm_alloc 1 s = (q, s1)" by fastforce
  have n4: "4 \<le> nfree s" using Suc.prems(6) mn by simp
  have q: "q \<noteq> 0" using alloc_page_free [OF alloc_page_eq [OF al] vm_okD(1) [OF ok]] n4 by (auto split: if_splits)
  have z: "zero_page q s1 = (zero_page q s1)\<lparr>mem := (mem (zero_page q s1))(q := (\<lambda>_. 0))\<rparr>" by (simp add: zero_page_def)
  have tm: "translate r (page_at base m) s = None" using rd mn by (simp add: ready_def)
  obtain s4 where s4: "vmm_map_page r (page_at base m) q (arch_vm_user_page_flags True False) (zero_page q s1) = Some s4"
    using mmap_page_step(2) [OF ok r u tm al q z n4] by blast
  from mmap_page_step(1) [OF ok r u tm al q z s4]
  have st: "vm_ok A s4" "sees_same A {(r, vpage (page_at base m))} s s4" "\<exists>e. translate r (page_at base m) s4 = Some (e, False)"
    "nfree s \<le> nfree s4 + 4" "zeroed r base m s4" "current s4 = current s" by (simp_all add: filled_def)
  have nf: "4 * (n - Suc m) \<le> nfree s4" using mn Suc.prems(6) st(4) by simp
  obtain t where t: "brk_loop r (arch_vm_user_page_flags True False) (page_at base (Suc m)) target_page s4 = Some (True, t)"
    "vm_ok A t" "current t = current s4" "sees_same A (tail_of r base (Suc m) n) s4 t" "\<And>k. Suc m \<le> k \<Longrightarrow> k < n \<Longrightarrow> zeroed r base k t"
    using Suc.hyps(1) [OF j st(1) r lr le ready_step [OF lr mn r rd st(2,3)] nf] by blast
  have nx: "page_at base m + of_nat PAGE_SIZE = page_at base (Suc m)" by (simp add: page_at_def algebra_simps)
  have "brk_loop r (arch_vm_user_page_flags True False) (page_at base m) target_page s = Some (True, t)"
    by (subst brk_loop.simps) (simp add: lt al [unfolded One_nat_def] q s4 nx t(1))
  moreover have "zeroed r base m t"
    by (rule filled_same [OF st(1) t(2) r u t(4) outside_tail [OF lr _ le] st(5)]) simp
  then have "zeroed r base k t" if "m \<le> k" "k < n" for k using t(5) that by (cases "k = m") auto
  ultimately show ?case
    using t(2,3) st(6) sees_same_trans [OF st(2) t(4)] by (auto simp: tail_of_step [OF mn])
qed

text \<open>The number of pages that a move of the break adds.\<close>

definition brk_pages :: "u64 \<Rightarrow> u64 \<Rightarrow> nat" where
  "brk_pages old new = (unat (mmap_align_up new) - unat (mmap_align_up old)) div 4096"

lemma brk_range:
  assumes "unat old < unat new" and "unat new < 0x200000000000"
  shows "low_range (mmap_align_up old) (brk_pages old new)" "mmap_align_up new = page_at (mmap_align_up old) (brk_pages old new)"
proof -
  let ?b = "mmap_align_up old" and ?e = "mmap_align_up new"
  have ub: "unat ?b = (unat old + 4095) div 4096 * 4096" by (rule align_up) (use assms in simp)
  have ue: "unat ?e = (unat new + 4095) div 4096 * 4096" by (rule align_up) (use assms in simp)
  have le: "unat ?b \<le> unat ?e" unfolding ub ue using assms(1) by (intro mult_le_mono1 div_le_mono) simp
  have "(unat new + 4095) div 4096 \<le> 0x200000000" using div_le_mono [of "unat new + 4095" "0x200000000000 + 4095" 4096] assms(2) by simp
  then have top: "unat ?e \<le> 0x200000000000" unfolding ue by simp
  have dv: "4096 dvd unat ?e - unat ?b" unfolding ub ue by (intro dvd_diff_nat) simp_all
  then have n: "unat ?b + brk_pages old new * 4096 = unat ?e" unfolding brk_pages_def using le by (simp only: dvd_div_mult_self le_add_diff_inverse)
  show lr: "low_range ?b (brk_pages old new)" unfolding low_range_def n using align_up_aligned top by simp
  have "unat (page_at ?b (brk_pages old new)) = unat ?e" unfolding unat_page_at_le [OF lr order_refl] by (rule n)
  then show "?e = page_at ?b (brk_pages old new)" by (simp only: word_unat_eq_iff)
qed

lemma brk_grows:
  assumes "vm_ok A s" and "current s = Some t" and "address_space t \<in> A"
    and "\<And>k. k < brk_pages (heap_break t) addr \<Longrightarrow> translate (address_space t) (page_at (mmap_align_up (heap_break t)) k) s = None"
    and "4 * brk_pages (heap_break t) addr \<le> nfree s" and lt: "heap_break t < addr" "addr < USER_MMAP_BASE_VADDR"
  shows "\<exists>s'. sys_brk addr s = Some (addr, s') \<and> vm_ok A s' \<and> current s' = Some (t\<lparr>heap_break := addr\<rparr>) \<and>
      sees_same A (range_of (address_space t) (mmap_align_up (heap_break t)) (brk_pages (heap_break t) addr)) s s' \<and>
      (\<forall>k < brk_pages (heap_break t) addr. zeroed (address_space t) (mmap_align_up (heap_break t)) k s')"
proof -
  let ?r = "address_space t" and ?b = "mmap_align_up (heap_break t)" and ?e = "mmap_align_up addr"
  let ?n = "brk_pages (heap_break t) addr"
  have lt: "unat (heap_break t) < unat addr" "unat addr < 0x200000000000"
    using assms(6,7) by (simp_all add: word_less_nat_alt window_nat)
  note br = brk_range [OF lt]
  have rd: "ready ?r ?b 0 ?n s" using assms(4) by (simp add: ready_def)
  have nf: "4 * (?n - 0) \<le> nfree s" using assms(5) by simp
  have p0: "page_at ?b 0 = ?b" by (simp add: page_at_def)
  from brk_loop_returns [OF assms(1,3) br(1) le0 rd nf br(2), unfolded p0 tail_of_0]
  obtain s1 where s1: "brk_loop ?r (arch_vm_user_page_flags True False) ?b ?e s = Some (True, s1)" "vm_ok A s1" "current s1 = current s"
    "sees_same A (range_of ?r ?b ?n) s s1" "\<And>k. k < ?n \<Longrightarrow> zeroed ?r ?b k s1" by blast
  let ?s2 = "upd_task (\<lambda>t. t\<lparr>heap_break := addr\<rparr>) s1"
  have "pm ?s2 = pm s1" "mem ?s2 = mem s1" by simp_all
  note c = vm_ok_cong [OF this]
  have "sys_brk addr s = Some (addr, ?s2)" using assms(2,6,7) s1(1) by (auto simp: sys_brk_def Let_def)
  moreover have "current ?s2 = Some (t\<lparr>heap_break := addr\<rparr>)" using s1(3) assms(2) by (simp add: upd_task_def)
  ultimately show ?thesis using s1(2,4,5) by (simp add: c)
qed


section \<open>The system call mremap\<close>

lemma align_up_wraps:
  assumes "2 ^ 64 \<le> unat v + 4095"
  shows "mmap_align_up v = 0"
proof -
  have v: "unat v < 2 ^ 64" using unsigned_less [of v, where 'a = nat] by simp
  have e: "v + of_nat PAGE_SIZE - 1 = v + 4095" by (simp add: PAGE_SIZE_def)
  have "unat (v + 4095) = unat v + 4095 - 2 ^ 64" using assms v by (simp add: unat_word_ariths mod_if)
  then have "unat (v + 4095) < 4096" using v by simp
  then have "unat (mmap_align_up v) = unat 0" unfolding mmap_align_up_def e align_down by simp
  then show ?thesis by (simp only: word_unat_eq_iff)
qed

text \<open>C36. A new length within a page of \<open>2 ^ 64\<close> wraps around to 0 when \<open>sys_mremap\<close> rounds it up: the call reports success with the old
  address although it has removed every page of the mapping.\<close>

theorem mremap_wraps:
  assumes "vm_ok A s" and "current s = Some t" and "address_space t \<in> A" and "old_base \<noteq> 0" and "old_len \<noteq> 0" and "unat old_len + 4095 < 2 ^ 64"
    and "low_range old_base (unat (mmap_align_up old_len) div 4096)"
    and "\<And>k. k < unat (mmap_align_up old_len) div 4096 \<Longrightarrow> arch_vm_is_user_page (address_space t) (page_at old_base k) s"
    and "2 ^ 64 \<le> unat new_len + 4095"
  shows "\<exists>s'. sys_mremap pread old_base old_len new_len 0 0 s = Some (old_base, s') \<and>
    (\<forall>k < unat (mmap_align_up old_len) div 4096. user_page (address_space t) (page_at old_base k) s' = None)"
proof -
  let ?r = "address_space t" and ?sz = "mmap_align_up old_len"
  let ?n = "unat ?sz div 4096"
  have al: "old_base AND page_mask = 0" using assms(7) by (simp add: low_range_def vmm_page_aligned_def)
  have d: "4096 dvd unat ?sz" using align_up_aligned by (simp add: aligned_dvd)
  have "0 < unat old_len" using assms(5) by (simp add: unat_gt_0)
  then have "0 < (unat old_len + 4095) div 4096" by (simp add: div_greater_zero_iff)
  then have nz: "?sz \<noteq> 0" unfolding word_unat_eq_iff align_up [OF assms(6)] by simp
  then have lt: "0 < ?sz" by (simp add: word_gt_0)
  have u: "list_all (\<lambda>off. arch_vm_is_user_page ?r (old_base + off) s) (page_offs ?sz)"
    using assms(8) unfolding page_offs_eq [OF d] page_at_def list_all_iff by auto
  have new: "new_len \<noteq> 0" using assms(9) by auto
  let ?s' = "drop_pages ?r old_base [0..<?n] s"
  have "mremap_shrink ?r old_base 0 ?sz s = ?s'"
    by (simp add: mremap_shrink_def page_offs_eq [OF d] fold_map o_def page_at_def)
  then have "sys_mremap pread old_base old_len new_len 0 0 s = Some (old_base, ?s')"
    using assms(2,4,5) al u new nz lt by (simp add: sys_mremap_def align_up_wraps [OF assms(9)] Let_def split: prod.split)
  moreover note dp = drop_pages_ok [OF assms(1,3,7) refl]
  moreover have "user_page ?r (page_at old_base k) ?s' = None" if k: "k < ?n" for k
  proof -
    note uk = page_at_user [OF assms(7) k]
    obtain e where "translate ?r (page_at old_base k) s = Some (e, False)"
      using assms(8) [OF k] is_user_translate [OF assms(1,3) uk] by blast
    then show ?thesis using dp(7) [OF k] by (simp add: user_page_translate [OF dp(1) assms(3) uk])
  qed
  ultimately show ?thesis by blast
qed

section \<open>An example\<close>

definition ex_task :: task_mm where
  "ex_task = \<lparr>address_space = 0x1000, heap_break = 0x10000, mmap_end = 0, fds = []\<rparr>"

definition mm_ex :: mm where
  "mm_ex = vm_ex (mm.fields (Some ex_task))"

lemma mm_ex_simps [simp]: "current mm_ex = Some ex_task" "address_space ex_task = 0x1000" "heap_break ex_task = 0x10000" "mmap_end ex_task = 0"
  by (simp_all add: mm_ex_def vm_ex_def mm.defs ex_task_def)

lemma mm_ex_ok: "vm_ok {0x1000} mm_ex" "nfree mm_ex = 10"
  by (simp_all add: mm_ex_def vm_ex_ok ex_nfree)

lemma mm_ex_small: "translate r va mm_ex \<noteq> Some (e, True)"
proof -
  have "\<not> huge (mem mm_ex t i)" for t i by (simp add: mm_ex_def vm_ex_def ex_mem_def huge_def PTE_HUGE_def)
  then show ?thesis by (auto simp: translate_def split: option.splits)
qed

lemma mm_ex_unmapped:
  assumes "vpage va \<noteq> [0, 0, 0, 0]"
  shows "translate 0x1000 va mm_ex = None"
proof (cases "translate 0x1000 va mm_ex")
  case (Some x)
  then show ?thesis
  proof (cases rule: translate_cases)
    case (small pt)
    have "length (vpath va) \<le> 3" "tbl (vm_ex (mm.fields (Some ex_task))) 0x1000 (vpath va) = Some pt" using small(1) by (simp_all add: mm_ex_def)
    from ex_tbl [OF this(2,1)] have "vpath va = [0, 0, 0]" "pt = 0x4000" by (auto simp: vpath_def)
    moreover have "PT_IDX va = 0" using small(2) by (simp add: mm_ex_def vm_ex_def ex_present)
    ultimately show ?thesis using assms by (simp add: vpage_def)
  next
    case (large pd)
    then show ?thesis using Some mm_ex_small by simp
  qed
qed simp

lemma ex_anon: "anon_request 0x1000 (MAP_PRIVATE OR MAP_ANONYMOUS) (-1)"
  by (simp add: anon_request_def MAP_PRIVATE_def MAP_SHARED_def MAP_ANONYMOUS_def)

lemma ex_align: "mmap_align_up 0x1000 = 0x1000"
  by (simp add: mmap_align_up_def PAGE_SIZE_def)

theorem mmap_find_gap_correct_witness:
  "\<exists>b. mmap_find_gap 0x1000 0x1000 0 mm_ex = Some b \<and>
    (if b \<noteq> 0 then mmap_range_valid b 0x1000 \<and> mmap_range_unmapped 0x1000 b 0x1000 mm_ex
     else \<forall>c. mmap_range_valid c 0x1000 \<longrightarrow> mmap_range_unmapped 0x1000 c 0x1000 mm_ex \<longrightarrow> c < 0 \<and> 0 < c + 0x1000)"
  by (rule mmap_find_gap_correct) (simp_all add: vmm_page_aligned_def PAGE_SIZE_def USER_MMAP_BASE_VADDR_def USER_MMAP_TOP_VADDR_def)

theorem munmap_correct_witness:
  "fst (sys_munmap 0x200000000000 0x1000 mm_ex) = 0 \<and> vm_ok {0x1000} (snd (sys_munmap 0x200000000000 0x1000 mm_ex))"
proof -
  have "mmap_range_valid 0x200000000000 (mmap_align_up 0x1000)" "vmm_page_aligned 0x200000000000"
    by (simp_all add: ex_align mmap_range_valid_def PAGE_SIZE_def USER_MMAP_BASE_VADDR_def USER_MMAP_TOP_VADDR_def vmm_page_aligned_def)
  then show ?thesis
    using munmap_correct [OF mm_ex_ok(1) mm_ex_simps(1) _ prod.collapse [symmetric], of "0x1000" "0x200000000000"] by simp
qed

theorem mmap_anonymous_safe_witness:
  "\<exists>res s'. sys_mmap (\<lambda>_ _ p. p) 0 0x1000 PROT_READ (MAP_PRIVATE OR MAP_ANONYMOUS) (-1) 0 mm_ex = Some (res, s') \<and> vm_ok {0x1000} s'"
proof -
  have w: "window_small (address_space ex_task) mm_ex" by (simp add: window_small_def mm_ex_small)
  have a: "address_space ex_task \<in> {0x1000}" by simp
  obtain res s' where r: "sys_mmap (\<lambda>_ _ p. p) 0 0x1000 PROT_READ (MAP_PRIVATE OR MAP_ANONYMOUS) (-1) 0 mm_ex = Some (res, s')"
    using anon_mmap_returns [OF mm_ex_ok(1) mm_ex_simps(1) a w ex_anon, of "\<lambda>_ _ p. p" 0 PROT_READ] by (auto simp: ex_align mm_ex_ok(2))
  then show ?thesis using mmap_anonymous_safe [OF mm_ex_ok(1) mm_ex_simps(1) a w ex_anon r] by blast
qed

theorem mmap_anonymous_returns_witness:
  "\<exists>res s'. sys_mmap (\<lambda>_ _ p. p) 0 0x1000 PROT_READ (MAP_PRIVATE OR MAP_ANONYMOUS) (-1) 0 mm_ex = Some (res, s')"
proof -
  have w: "window_small (address_space ex_task) mm_ex" by (simp add: window_small_def mm_ex_small)
  have a: "address_space ex_task \<in> {0x1000}" by simp
  show ?thesis
    using mmap_anonymous_returns [OF mm_ex_ok(1) mm_ex_simps(1) a w ex_anon, of "\<lambda>_ _ p. p" 0 PROT_READ] by (auto simp: ex_align mm_ex_ok(2))
qed

lemma ex_user_page: "arch_vm_is_user_page 0x1000 0 mm_ex"
  by (simp add: arch_vm_is_user_page_def x86_user_pte_def mm_ex_def vm_ex_def ex_mem_def PML4_IDX_def PDP_IDX_def PD_IDX_def PT_IDX_def present_def huge_def
      user_def PTE_PRESENT_def PTE_HUGE_def PTE_USER_def PTE_ADDR_MASK_def Let_def pte_at_def)


lemma ex_brk:
  "brk_pages 0x10000 0x11000 = 1" "mmap_align_up 0x10000 = 0x10000" "page_at 0x10000 0 = 0x10000" "translate 0x1000 0x10000 mm_ex = None"
proof -
  have "vpage 0x10000 \<noteq> [0, 0, 0, 0]" by (simp add: vpage_def vpath_def PT_IDX_def)
  then show "translate 0x1000 0x10000 mm_ex = None" by (rule mm_ex_unmapped)
qed (simp_all add: brk_pages_def mmap_align_up_def PAGE_SIZE_def page_at_def)


theorem mremap_wraps_witness:
  "\<exists>s s'. sys_brk 0x11000 mm_ex = Some (0x11000, s) \<and> sys_mremap (\<lambda>_ _ p. p) 0x10000 0x1000 0xFFFFFFFFFFFFFFFF 0 0 s = Some (0x10000, s')"
proof -
  obtain s where s: "sys_brk 0x11000 mm_ex = Some (0x11000, s)" "vm_ok {0x1000} s" "current s = Some (ex_task\<lparr>heap_break := 0x11000\<rparr>)"
    "zeroed 0x1000 0x10000 0 s"
    using brk_grows [OF mm_ex_ok(1) mm_ex_simps(1), of "0x11000"] by (auto simp: ex_brk mm_ex_ok(2) USER_MMAP_BASE_VADDR_def)
  have ua: "user_addr 0x10000" by (simp add: user_addr_def PML4_IDX_def)
  have "arch_vm_is_user_page 0x1000 0x10000 s"
    using s(4) by (auto simp: filled_def ex_brk is_user_translate [OF s(2) _ ua] user_page_translate [OF s(2) _ ua] split: if_splits)
  moreover have "low_range 0x10000 1" by (simp add: low_range_def vmm_page_aligned_def PAGE_SIZE_def)
  ultimately show ?thesis
    using mremap_wraps [OF s(2,3), of "0x10000" "0x1000" "0xFFFFFFFFFFFFFFFF" "\<lambda>_ _ p. p"] s(1) by (auto simp: ex_align ex_brk)
qed

end
