(* ===== verification/CString.thy ===== *)
theory CString
  imports Prelude
begin

text \<open>
  The memory and string routines of \<open>kernel/cstring.c\<close> on a byte-addressed memory. The routines work on words of
  eight bytes where the alignment allows it; the theorems say that they do what the bytewise descriptions say, whatever
  the alignment and, for \<open>memmove\<close>, the overlap. Words are little-endian. A routine that scans for a terminator
  may not return; it is a partial function.
\<close>

unbundle bit_operations_syntax

section \<open>Memory\<close>

type_synonym byte_mem = "u64 \<Rightarrow> u8"

definition load64 :: "byte_mem \<Rightarrow> u64 \<Rightarrow> u64" where
  "load64 m a = fold (\<lambda>i v. v OR push_bit (8 * i) (ucast (m (a + of_nat i)))) [0..<8] 0"

definition store64 :: "u64 \<Rightarrow> u64 \<Rightarrow> byte_mem \<Rightarrow> byte_mem" where
  "store64 a v m = fold (\<lambda>i m. m(a + of_nat i := ucast (drop_bit (8 * i) v))) [0..<8] m"

section \<open>memset\<close>

definition memset_word :: "int \<Rightarrow> u64" where
  "memset_word c = (let v0 = ucast (word_of_int c :: u8); v1 = v0 OR push_bit 8 v0; v2 = v1 OR push_bit 16 v1
                    in v2 OR push_bit 32 v2)"

fun memset_head :: "u8 \<Rightarrow> u64 \<Rightarrow> nat \<Rightarrow> byte_mem \<Rightarrow> u64 \<times> nat \<times> byte_mem" where
  "memset_head b p 0 m = (p, 0, m)"
| "memset_head b p (Suc n) m = (if p AND 7 \<noteq> 0 then memset_head b (p + 1) n (m(p := b)) else (p, Suc n, m))"

fun memset_words4 :: "u64 \<Rightarrow> u64 \<Rightarrow> nat \<Rightarrow> byte_mem \<Rightarrow> u64 \<times> nat \<times> byte_mem" where
  "memset_words4 v w n m =
     (if n \<ge> 32 then memset_words4 v (w + 32) (n - 32) (store64 (w + 24) v (store64 (w + 16) v (store64 (w + 8) v (store64 w v m))))
      else (w, n, m))"

fun memset_words :: "u64 \<Rightarrow> u64 \<Rightarrow> nat \<Rightarrow> byte_mem \<Rightarrow> u64 \<times> nat \<times> byte_mem" where
  "memset_words v w n m = (if n \<ge> 8 then memset_words v (w + 8) (n - 8) (store64 w v m) else (w, n, m))"

fun memset_tail :: "u8 \<Rightarrow> u64 \<Rightarrow> nat \<Rightarrow> byte_mem \<Rightarrow> byte_mem" where
  "memset_tail b p 0 m = m"
| "memset_tail b p (Suc n) m = memset_tail b (p + 1) n (m(p := b))"

definition memset :: "u64 \<Rightarrow> int \<Rightarrow> nat \<Rightarrow> byte_mem \<Rightarrow> byte_mem" where
  "memset dst c n m =
     (let v = memset_word c; b = word_of_int c;
          (p1, n1, m1) = memset_head b dst n m;
          (p2, n2, m2) = memset_words4 v p1 n1 m1;
          (p3, n3, m3) = memset_words v p2 n2 m2
      in memset_tail b p3 n3 m3)"

section \<open>memcpy and memmove\<close>

fun memcpy_head :: "u64 \<Rightarrow> u64 \<Rightarrow> nat \<Rightarrow> byte_mem \<Rightarrow> u64 \<times> u64 \<times> nat \<times> byte_mem" where
  "memcpy_head d s 0 m = (d, s, 0, m)"
| "memcpy_head d s (Suc n) m = (if d AND 7 \<noteq> 0 then memcpy_head (d + 1) (s + 1) n (m(d := m s)) else (d, s, Suc n, m))"

fun memcpy_words4 :: "u64 \<Rightarrow> u64 \<Rightarrow> nat \<Rightarrow> byte_mem \<Rightarrow> u64 \<times> u64 \<times> nat \<times> byte_mem" where
  "memcpy_words4 wd ws n m =
     (if n \<ge> 32 then
        let a = load64 m ws; b = load64 m (ws + 8); c = load64 m (ws + 16); e = load64 m (ws + 24)
        in memcpy_words4 (wd + 32) (ws + 32) (n - 32) (store64 (wd + 24) e (store64 (wd + 16) c (store64 (wd + 8) b (store64 wd a m))))
      else (wd, ws, n, m))"

fun memcpy_words :: "u64 \<Rightarrow> u64 \<Rightarrow> nat \<Rightarrow> byte_mem \<Rightarrow> u64 \<times> u64 \<times> nat \<times> byte_mem" where
  "memcpy_words wd ws n m =
     (if n \<ge> 8 then memcpy_words (wd + 8) (ws + 8) (n - 8) (store64 wd (load64 m ws) m) else (wd, ws, n, m))"

fun memcpy_tail :: "u64 \<Rightarrow> u64 \<Rightarrow> nat \<Rightarrow> byte_mem \<Rightarrow> byte_mem" where
  "memcpy_tail d s 0 m = m"
| "memcpy_tail d s (Suc n) m = memcpy_tail (d + 1) (s + 1) n (m(d := m s))"

definition memcpy :: "u64 \<Rightarrow> u64 \<Rightarrow> nat \<Rightarrow> byte_mem \<Rightarrow> byte_mem" where
  "memcpy dst src n m =
     (if (dst XOR src) AND 7 = 0 then
        let (d1, s1, n1, m1) = memcpy_head dst src n m;
            (d2, s2, n2, m2) = memcpy_words4 d1 s1 n1 m1;
            (d3, s3, n3, m3) = memcpy_words d2 s2 n2 m2
        in memcpy_tail d3 s3 n3 m3
      else memcpy_tail dst src n m)"

text \<open>Downwards: the pointers are those past the end of what is left.\<close>

fun memmove_head :: "u64 \<Rightarrow> u64 \<Rightarrow> nat \<Rightarrow> byte_mem \<Rightarrow> u64 \<times> u64 \<times> nat \<times> byte_mem" where
  "memmove_head d s 0 m = (d, s, 0, m)"
| "memmove_head d s (Suc n) m = (if d AND 7 \<noteq> 0 then memmove_head (d - 1) (s - 1) n (m(d - 1 := m (s - 1))) else (d, s, Suc n, m))"

fun memmove_words :: "u64 \<Rightarrow> u64 \<Rightarrow> nat \<Rightarrow> byte_mem \<Rightarrow> u64 \<times> u64 \<times> nat \<times> byte_mem" where
  "memmove_words wd ws n m =
     (if n \<ge> 8 then memmove_words (wd - 8) (ws - 8) (n - 8) (store64 (wd - 8) (load64 m (ws - 8)) m) else (wd, ws, n, m))"

fun memmove_tail :: "u64 \<Rightarrow> u64 \<Rightarrow> nat \<Rightarrow> byte_mem \<Rightarrow> byte_mem" where
  "memmove_tail d s 0 m = m"
| "memmove_tail d s (Suc n) m = memmove_tail (d - 1) (s - 1) n (m(d - 1 := m (s - 1)))"

definition memmove :: "u64 \<Rightarrow> u64 \<Rightarrow> nat \<Rightarrow> byte_mem \<Rightarrow> byte_mem" where
  "memmove dst src n m =
     (if dst = src \<or> n = 0 then m
      else if dst < src \<or> dst \<ge> src + of_nat n then memcpy dst src n m
      else let d = dst + of_nat n; s = src + of_nat n in
      if (d XOR s) AND 7 = 0 then
        let (d1, s1, n1, m1) = memmove_head d s n m;
            (d2, s2, n2, m2) = memmove_words d1 s1 n1 m1
        in memmove_tail d2 s2 n2 m2
      else memmove_tail d s n m)"

fun memcmp :: "u64 \<Rightarrow> u64 \<Rightarrow> nat \<Rightarrow> byte_mem \<Rightarrow> int" where
  "memcmp a b 0 m = 0"
| "memcmp a b (Suc n) m = (if m a \<noteq> m b then uint (m a) - uint (m b) else memcmp (a + 1) (b + 1) n m)"

section \<open>Strings\<close>

partial_function (option) strlen_loop :: "u64 \<Rightarrow> nat \<Rightarrow> byte_mem \<Rightarrow> nat option" where
  "strlen_loop s n m = (if m (s + of_nat n) \<noteq> 0 then strlen_loop s (n + 1) m else Some n)"

definition strlen :: "u64 \<Rightarrow> byte_mem \<Rightarrow> nat option" where
  "strlen s m = (if s = 0 then Some 0 else strlen_loop s 0 m)"

partial_function (option) strcpy_loop :: "u64 \<Rightarrow> u64 \<Rightarrow> nat \<Rightarrow> byte_mem \<Rightarrow> byte_mem option" where
  "strcpy_loop dst src i m =
     (if m (src + of_nat i) \<noteq> 0 then strcpy_loop dst src (i + 1) (m(dst + of_nat i := m (src + of_nat i)))
      else Some (m(dst + of_nat i := 0)))"

definition strcpy :: "u64 \<Rightarrow> u64 \<Rightarrow> byte_mem \<Rightarrow> byte_mem option" where
  "strcpy dst src m = strcpy_loop dst src 0 m"

text \<open>\<open>k\<close> is what is left of \<open>n\<close> at index \<open>i\<close>.\<close>

fun strncpy_pad :: "u64 \<Rightarrow> nat \<Rightarrow> nat \<Rightarrow> byte_mem \<Rightarrow> byte_mem" where
  "strncpy_pad dst i 0 m = m"
| "strncpy_pad dst i (Suc k) m = strncpy_pad dst (i + 1) k (m(dst + of_nat i := 0))"

fun strncpy_loop :: "u64 \<Rightarrow> u64 \<Rightarrow> nat \<Rightarrow> nat \<Rightarrow> byte_mem \<Rightarrow> byte_mem" where
  "strncpy_loop dst src i 0 m = m"
| "strncpy_loop dst src i (Suc k) m =
     (if m (src + of_nat i) \<noteq> 0 then strncpy_loop dst src (i + 1) k (m(dst + of_nat i := m (src + of_nat i)))
      else strncpy_pad dst i (Suc k) m)"

definition strncpy :: "u64 \<Rightarrow> u64 \<Rightarrow> nat \<Rightarrow> byte_mem \<Rightarrow> byte_mem" where
  "strncpy dst src n m = strncpy_loop dst src 0 n m"

partial_function (option) strcmp :: "u64 \<Rightarrow> u64 \<Rightarrow> byte_mem \<Rightarrow> int option" where
  "strcmp a b m = (if m a \<noteq> 0 \<and> m a = m b then strcmp (a + 1) (b + 1) m else Some (uint (m a) - uint (m b)))"

fun strncmp :: "u64 \<Rightarrow> u64 \<Rightarrow> nat \<Rightarrow> byte_mem \<Rightarrow> int" where
  "strncmp a b 0 m = 0"
| "strncmp a b (Suc n) m =
     (if m a \<noteq> 0 \<and> m a = m b then strncmp (a + 1) (b + 1) n m else uint (m a) - uint (m b))"

declare memset_words4.simps [simp del] memset_words.simps [simp del] memcpy_words4.simps [simp del] memcpy_words.simps [simp del]
  memmove_words.simps [simp del]

section \<open>Simultaneous stores\<close>

text \<open>\<open>n\<close> bytes from address \<open>d\<close>, the byte at index \<open>i\<close> being \<open>f i\<close>.\<close>

definition blit :: "u64 \<Rightarrow> (nat \<Rightarrow> u8) \<Rightarrow> nat \<Rightarrow> byte_mem \<Rightarrow> byte_mem" where
  "blit d f n m = (\<lambda>a. if unat (a - d) < n then f (unat (a - d)) else m a)"

definition copied :: "u64 \<Rightarrow> u64 \<Rightarrow> nat \<Rightarrow> byte_mem \<Rightarrow> byte_mem" where
  "copied d s n m = blit d (\<lambda>i. m (s + of_nat i)) n m"

lemma unat_sub_nat:
  fixes x :: u64
  assumes "k \<le> 2 ^ 64"
  shows "unat (x - of_nat k) = (if k \<le> unat x then unat x - k else unat x + 2 ^ 64 - k)"
proof (cases "k = 2 ^ 64")
  case True
  have "unat x < 2 ^ 64" using unsigned_less [of x, where 'a = nat] by simp
  then show ?thesis using True by simp
next
  case False
  then have k: "unat (of_nat k :: u64) = k" using assms by (intro of_nat_inverse [OF refl]) simp
  show ?thesis
  proof (cases "k \<le> unat x")
    case True
    then have "of_nat k \<le> x" by (simp add: word_le_nat_alt k)
    then show ?thesis using True by (simp add: unat_sub k)
  next
    case False
    have "of_nat (2 ^ 64) = (0 :: u64)" by simp
    then have e: "x - of_nat k = x + of_nat (2 ^ 64 - k)" using assms by simp
    have "2 ^ 64 - k < 2 ^ LENGTH(64)" using False by simp
    then have o: "unat (of_nat (2 ^ 64 - k) :: u64) = 2 ^ 64 - k" by (rule of_nat_inverse [OF refl])
    have "unat x + unat (of_nat (2 ^ 64 - k) :: u64) < 2 ^ LENGTH(64)" unfolding o using False assms by simp
    then have "unat (x - of_nat k) = unat x + (2 ^ 64 - k)" unfolding e by (simp only: unat_word_ariths mod_less o)
    then show ?thesis using False assms by simp
  qed
qed

lemma blit_0 [simp]: "blit d f 0 m = m"
  by (simp add: blit_def)

lemma blit_Suc:
  assumes "n < 2 ^ 64"
  shows "(blit d f n m)(d + of_nat n := f n) = blit d f (Suc n) m"
proof
  fix a
  have n: "unat (of_nat n :: u64) = n" using assms by (intro of_nat_inverse [OF refl]) simp
  have "a - d = of_nat n" if "unat (a - d) = n" using arg_cong [OF that, of "of_nat :: nat \<Rightarrow> u64"] by simp
  then have "a = d + of_nat n \<longleftrightarrow> unat (a - d) = n" using n by (auto simp: algebra_simps)
  then show "((blit d f n m)(d + of_nat n := f n)) a = blit d f (Suc n) m a"
    by (auto simp: blit_def less_Suc_eq)
qed

lemma blit_blit:
  assumes "k + n \<le> 2 ^ 64"
  shows "blit (d + of_nat k) g n (blit d f k m) = blit d (\<lambda>i. if i < k then f i else g (i - k)) (k + n) m"
proof
  fix a
  have e: "a - (d + of_nat k) = (a - d) - of_nat k" by simp
  show "blit (d + of_nat k) g n (blit d f k m) a = blit d (\<lambda>i. if i < k then f i else g (i - k)) (k + n) m a"
    unfolding blit_def e using unat_sub_nat [of k "a - d"] assms by auto
qed

lemma blit_cong: "(\<And>i. i < n \<Longrightarrow> f i = g i) \<Longrightarrow> blit d f n m = blit d g n m"
  by (auto simp: blit_def fun_eq_iff)

lemma fold_blit: "n \<le> 2 ^ 64 \<Longrightarrow> fold (\<lambda>i m. m(d + of_nat i := f i)) [0..<n] m = blit d f n m"
  by (induction n) (simp_all add: blit_Suc)

lemma store64_blit: "store64 a v m = blit a (\<lambda>i. ucast (drop_bit (8 * i) v)) 8 m"
  unfolding store64_def by (rule fold_blit) simp

lemma blit_1: "m(d := b) = blit d (\<lambda>_. b) 1 m"
  using blit_Suc [of 0 d "\<lambda>_. b" m] by simp

section \<open>memset fills\<close>

lemma double_word:
  fixes v :: u64
  assumes "\<And>j. bit v j \<longleftrightarrow> j < w \<and> bit b (j mod 8)" and "8 dvd w" and "2 * w \<le> 64"
  shows "bit (v OR push_bit w v) j \<longleftrightarrow> j < 2 * w \<and> bit b (j mod 8)"
proof -
  obtain q where q: "w = 8 * q" using assms(2) by auto
  have "(j - w) mod 8 = j mod 8" if le: "w \<le> j"
  proof -
    obtain r where "j = w + r" using le_Suc_ex [OF le] by blast
    then show ?thesis by (simp add: q)
  qed
  moreover have "bit (v OR push_bit w v) j \<longleftrightarrow> bit v j \<or> w \<le> j \<and> bit v (j - w)"
  proof -
    have "j < 64" if "w \<le> j" "bit v (j - w)" using assms(1) [of "j - w"] assms(3) that by linarith
    then show ?thesis by (auto simp: bit_or_iff bit_push_bit_iff)
  qed
  ultimately show ?thesis unfolding assms(1) by (cases "w \<le> j") auto
qed

lemma memset_word_bits: "bit (memset_word c) j \<longleftrightarrow> j < 64 \<and> bit (word_of_int c :: u8) (j mod 8)"
proof -
  let ?v0 = "ucast (word_of_int c :: u8) :: u64"
  have 0: "bit ?v0 j \<longleftrightarrow> j < 8 \<and> bit (word_of_int c :: u8) (j mod 8)" for j by (auto simp: bit_simps)
  note 1 = double_word [of ?v0 8, OF 0, simplified]
  note 2 = double_word [of "?v0 OR push_bit 8 ?v0" 16, OF 1, simplified]
  note 3 = double_word [of _ 32, OF 2, simplified]
  show ?thesis unfolding memset_word_def Let_def using 3 by simp
qed

lemma memset_word_byte:
  assumes "i < 8"
  shows "ucast (drop_bit (8 * i) (memset_word c)) = (word_of_int c :: u8)"
  by (rule bit_word_eqI) (use assms in \<open>auto simp: bit_simps memset_word_bits\<close>)

text \<open>\<open>k\<close> of the \<open>n\<close> bytes are done.\<close>

definition fills :: "u8 \<Rightarrow> u64 \<Rightarrow> nat \<Rightarrow> byte_mem \<Rightarrow> u64 \<times> nat \<times> byte_mem \<Rightarrow> bool" where
  "fills b p n m x \<longleftrightarrow> (\<exists>k \<le> n. x = (p + of_nat k, n - k, blit p (\<lambda>_. b) k m))"

lemma fills_refl: "fills b p n m (p, n, m)"
  unfolding fills_def by (rule exI [of _ 0]) simp

lemma fills_step:
  assumes "fills b (p + of_nat j) (n - j) (blit p (\<lambda>_. b) j m) x" and "j \<le> n" and "n \<le> 2 ^ 64"
  shows "fills b p n m x"
proof -
  obtain k where k: "k \<le> n - j" "x = (p + of_nat j + of_nat k, n - j - k, blit (p + of_nat j) (\<lambda>_. b) k (blit p (\<lambda>_. b) j m))"
    using assms(1) by (auto simp: fills_def)
  then have "x = (p + of_nat (j + k), n - (j + k), blit p (\<lambda>_. b) (j + k) m)"
    using blit_blit [of j k p "\<lambda>_. b" "\<lambda>_. b" m] assms(2,3) by simp
  then show ?thesis unfolding fills_def using k(1) assms(2) by (intro exI [of _ "j + k"]) simp
qed

lemma memset_head_fills: "n \<le> 2 ^ 64 \<Longrightarrow> fills b p n m (memset_head b p n m)"
proof (induction b p n m rule: memset_head.induct)
  case (2 b p n m)
  then show ?case using fills_step [of b p 1 "Suc n" m] fills_refl [of b p "Suc n" m] by (auto simp: blit_1)
qed (simp add: fills_refl)

lemma store_word_fill: "store64 w (memset_word c) m = blit w (\<lambda>_. word_of_int c) 8 m"
  unfolding store64_blit by (rule blit_cong) (rule memset_word_byte)

lemma memset_words_fills: "n \<le> 2 ^ 64 \<Longrightarrow> fills (word_of_int c) w n m (memset_words (memset_word c) w n m)"
proof (induction "memset_word c" w n m rule: memset_words.induct)
  case (1 w n m)
  then show ?case
    using fills_step [of "word_of_int c" w 8 n m] fills_refl [of "word_of_int c" w n m]
    by (subst memset_words.simps) (auto simp: store_word_fill)
qed

lemma store_words_fill:
  "store64 (w + 24) (memset_word c) (store64 (w + 16) (memset_word c) (store64 (w + 8) (memset_word c) (store64 w (memset_word c) m))) =
   blit w (\<lambda>_. word_of_int c) 32 m"
  using blit_blit [of 8 8 w "\<lambda>_. word_of_int c" "\<lambda>_. word_of_int c" m] blit_blit [of 16 8 w "\<lambda>_. word_of_int c" "\<lambda>_. word_of_int c" m]
    blit_blit [of 24 8 w "\<lambda>_. word_of_int c" "\<lambda>_. word_of_int c" m]
  by (simp add: store_word_fill)

lemma memset_words4_fills: "n \<le> 2 ^ 64 \<Longrightarrow> fills (word_of_int c) w n m (memset_words4 (memset_word c) w n m)"
proof (induction "memset_word c" w n m rule: memset_words4.induct)
  case (1 w n m)
  then show ?case
    using fills_step [of "word_of_int c" w 32 n m] fills_refl [of "word_of_int c" w n m]
    by (subst memset_words4.simps) (auto simp: store_words_fill)
qed

lemma memset_tail_fills: "n \<le> 2 ^ 64 \<Longrightarrow> memset_tail b p n m = blit p (\<lambda>_. b) n m"
proof (induction b p n m rule: memset_tail.induct)
  case (2 b p n m)
  then show ?case using blit_blit [of 1 n p "\<lambda>_. b" "\<lambda>_. b" m] by (simp add: blit_1)
qed simp

text \<open>C31. \<open>memset\<close>, which works on single bytes, words and blocks of four words, stores the low byte of its argument into exactly the given bytes,
  whatever the alignment and the length.\<close>

theorem memset_correct:
  assumes "n < 2 ^ 64"
  shows "memset dst c n m = (\<lambda>a. if unat (a - dst) < n then word_of_int c else m a)"
proof -
  let ?b = "word_of_int c :: u8"
  obtain p1 n1 m1 where h: "memset_head ?b dst n m = (p1, n1, m1)" by (metis surj_pair)
  obtain p2 n2 m2 where w4: "memset_words4 (memset_word c) p1 n1 m1 = (p2, n2, m2)" by (metis surj_pair)
  obtain p3 n3 m3 where w: "memset_words (memset_word c) p2 n2 m2 = (p3, n3, m3)" by (metis surj_pair)
  have 1: "fills ?b dst n m (p1, n1, m1)" using memset_head_fills [of n ?b dst m] assms h by simp
  obtain k1 where k1: "k1 \<le> n" "p1 = dst + of_nat k1" "n1 = n - k1" "m1 = blit dst (\<lambda>_. ?b) k1 m" using 1 by (auto simp: fills_def)
  have 2: "fills ?b dst n m (p2, n2, m2)"
    using fills_step [of ?b dst k1 n m] memset_words4_fills [of n1 c p1 m1] w4 k1 assms by simp
  then obtain k2 where k2: "k2 \<le> n" "p2 = dst + of_nat k2" "n2 = n - k2" "m2 = blit dst (\<lambda>_. ?b) k2 m" by (auto simp: fills_def)
  have 3: "fills ?b dst n m (p3, n3, m3)"
    using fills_step [of ?b dst k2 n m] memset_words_fills [of n2 c p2 m2] w k2 assms by simp
  then obtain k3 where k3: "k3 \<le> n" "p3 = dst + of_nat k3" "n3 = n - k3" "m3 = blit dst (\<lambda>_. ?b) k3 m" by (auto simp: fills_def)
  have "memset dst c n m = memset_tail ?b p3 n3 m3" by (simp add: memset_def h w4 w Let_def)
  also have "\<dots> = blit dst (\<lambda>_. ?b) n m"
    using memset_tail_fills [of n3 ?b p3 m3] blit_blit [of k3 "n - k3" dst "\<lambda>_. ?b" "\<lambda>_. ?b" m] k3 assms by simp
  finally show ?thesis by (simp add: blit_def)
qed

section \<open>memcpy and memmove copy\<close>

lemma load64_bits: "bit (load64 m a) j \<longleftrightarrow> j < 64 \<and> bit (m (a + of_nat (j div 8))) (j mod 8)"
proof -
  let ?f = "\<lambda>i v. v OR push_bit (8 * i) (ucast (m (a + of_nat i)) :: u64)"
  have "bit (fold ?f [0..<n] 0) j \<longleftrightarrow> j < 8 * n \<and> bit (m (a + of_nat (j div 8))) (j mod 8)" if "n \<le> 8" for n
    using that
  proof (induction n)
    case (Suc n)
    have "j - 8 * n < 8" if "bit (m (a + of_nat n)) (j - 8 * n)" using bit_imp_le_length [OF that] by simp
    then have "bit (push_bit (8 * n) (ucast (m (a + of_nat n)) :: u64)) j \<longleftrightarrow> 8 * n \<le> j \<and> j < 8 * Suc n \<and> bit (m (a + of_nat n)) (j - 8 * n)"
      using Suc.prems by (auto simp: bit_simps)
    moreover have "j div 8 = n \<and> j mod 8 = j - 8 * n" if "8 * n \<le> j" "j < 8 * Suc n"
      using that by (auto simp: div_nat_eqI modulo_nat_def)
    ultimately show ?case using Suc by (auto simp: bit_or_iff)
  qed simp
  from this [of 8] show ?thesis by (simp add: load64_def)
qed

lemma load64_byte: "i < 8 \<Longrightarrow> ucast (drop_bit (8 * i) (load64 m a)) = m (a + of_nat i)"
  by (rule bit_word_eqI) (auto simp: bit_simps load64_bits)

lemma copied_0 [simp]: "copied d s 0 m = m"
  by (simp add: copied_def)

lemma copied_1: "m(d := m s) = copied d s 1 m"
  unfolding copied_def blit_1 [of m d] by (rule blit_cong) simp

lemma store_load: "store64 d (load64 m s) m = copied d s 8 m"
  unfolding store64_blit copied_def by (rule blit_cong) (rule load64_byte)

lemma unat_diff_nat:
  fixes d s :: u64
  assumes "i < 2 ^ 64"
  shows "unat (s + of_nat i - d) = (if unat (d - s) \<le> i then i - unat (d - s) else i + 2 ^ 64 - unat (d - s))"
proof -
  have i: "unat (of_nat i :: u64) = i" using assms by (intro of_nat_inverse [OF refl]) simp
  have le: "unat (d - s) \<le> 2 ^ 64" using unsigned_less [of "d - s", where 'a = nat] by simp
  have e: "s + of_nat i - d = of_nat i - of_nat (unat (d - s))" by simp
  show ?thesis unfolding e unat_sub_nat [OF le] i ..
qed

text \<open>Going up, no store hits a byte that is still to be read.\<close>

definition up_safe :: "u64 \<Rightarrow> u64 \<Rightarrow> nat \<Rightarrow> bool" where
  "up_safe d s n \<longleftrightarrow> n \<le> 2 ^ 64 \<and> (d = s \<or> n \<le> unat (d - s))"

lemma up_safe_shift: "up_safe d s n \<Longrightarrow> up_safe (d + of_nat j) (s + of_nat j) (n - j)"
  by (auto simp: up_safe_def)

lemma copied_up:
  assumes "up_safe d s (k + j)"
  shows "copied (d + of_nat k) (s + of_nat k) j (copied d s k m) = copied d s (k + j) m"
proof -
  have le: "k + j \<le> 2 ^ 64" using assms by (simp add: up_safe_def)
  have src: "copied d s k m (s + of_nat k + of_nat i) = m (s + of_nat (k + i))" if "i < j" for i
  proof -
    have "unat (d - s) < 2 ^ 64" using unsigned_less [of "d - s", where 'a = nat] by simp
    then have "\<not> unat (s + of_nat (k + i) - d) < k"
      using unat_diff_nat [of "k + i" s d] that assms by (auto simp: up_safe_def)
    then show ?thesis by (simp add: copied_def blit_def add.assoc)
  qed
  have "copied (d + of_nat k) (s + of_nat k) j (copied d s k m) = blit (d + of_nat k) (\<lambda>i. m (s + of_nat (k + i))) j (copied d s k m)"
    unfolding copied_def [of "d + of_nat k"] by (rule blit_cong) (rule src)
  also have "\<dots> = blit d (\<lambda>i. if i < k then m (s + of_nat i) else m (s + of_nat (k + (i - k)))) (k + j) m"
    unfolding copied_def by (rule blit_blit [OF le])
  also have "\<dots> = copied d s (k + j) m" unfolding copied_def by (rule blit_cong) simp
  finally show ?thesis .
qed

definition copies :: "u64 \<Rightarrow> u64 \<Rightarrow> nat \<Rightarrow> byte_mem \<Rightarrow> u64 \<times> u64 \<times> nat \<times> byte_mem \<Rightarrow> bool" where
  "copies d s n m x \<longleftrightarrow> (\<exists>k \<le> n. x = (d + of_nat k, s + of_nat k, n - k, copied d s k m))"

lemma copies_refl: "copies d s n m (d, s, n, m)"
  unfolding copies_def by (rule exI [of _ 0]) simp

lemma copies_step:
  assumes "copies (d + of_nat j) (s + of_nat j) (n - j) (copied d s j m) x" and "j \<le> n" and "up_safe d s n"
  shows "copies d s n m x"
proof -
  obtain k where k: "k \<le> n - j"
    and x: "x = (d + of_nat j + of_nat k, s + of_nat j + of_nat k, n - j - k, copied (d + of_nat j) (s + of_nat j) k (copied d s j m))"
    using assms(1) by (auto simp: copies_def)
  have "up_safe d s (j + k)" using assms(2,3) k by (auto simp: up_safe_def)
  then have "x = (d + of_nat (j + k), s + of_nat (j + k), n - (j + k), copied d s (j + k) m)" using x copied_up by simp
  then show ?thesis unfolding copies_def using k assms(2) by (intro exI [of _ "j + k"]) simp
qed

lemma memcpy_head_copies: "up_safe d s n \<Longrightarrow> copies d s n m (memcpy_head d s n m)"
proof (induction d s n m rule: memcpy_head.induct)
  case (2 d s n m)
  then show ?case
    using copies_step [of d 1 s "Suc n" m] copies_refl [of d s "Suc n" m] up_safe_shift [of d s "Suc n" 1] by (auto simp: copied_1)
qed (simp add: copies_refl)

lemma memcpy_words_copies: "up_safe d s n \<Longrightarrow> copies d s n m (memcpy_words d s n m)"
proof (induction d s n m rule: memcpy_words.induct)
  case (1 d s n m)
  then show ?case
    using copies_step [of d 8 s n m] copies_refl [of d s n m] up_safe_shift [of d s n 8]
    by (subst memcpy_words.simps) (auto simp: store_load)
qed

lemma store_load4:
  "store64 (d + 24) (load64 m (s + 24)) (store64 (d + 16) (load64 m (s + 16)) (store64 (d + 8) (load64 m (s + 8)) (store64 d (load64 m s) m))) =
   copied d s 32 m"
proof -
  have w: "store64 (d + of_nat k) (load64 m (s + of_nat k)) (copied d s k m) = copied d s (k + 8) m" if "k \<le> 24" for k
  proof -
    have "store64 (d + of_nat k) (load64 m (s + of_nat k)) (copied d s k m) = blit (d + of_nat k) (\<lambda>i. m (s + of_nat k + of_nat i)) 8 (copied d s k m)"
      unfolding store64_blit by (rule blit_cong) (rule load64_byte)
    also have "\<dots> = blit d (\<lambda>i. if i < k then m (s + of_nat i) else m (s + of_nat k + of_nat (i - k))) (k + 8) m"
      unfolding copied_def by (rule blit_blit) (use that in simp)
    also have "\<dots> = copied d s (k + 8) m" unfolding copied_def by (rule blit_cong) simp
    finally show ?thesis .
  qed
  show ?thesis using w [of 0] w [of 8] w [of 16] w [of 24] by simp
qed

lemma memcpy_words4_copies: "up_safe d s n \<Longrightarrow> copies d s n m (memcpy_words4 d s n m)"
proof (induction d s n m rule: memcpy_words4.induct)
  case (1 d s n m)
  then show ?case
    using copies_step [of d 32 s n m] copies_refl [of d s n m] up_safe_shift [of d s n 32]
    by (subst memcpy_words4.simps) (auto simp: Let_def store_load4)
qed

lemma memcpy_tail_copies: "up_safe d s n \<Longrightarrow> memcpy_tail d s n m = copied d s n m"
proof (induction d s n m rule: memcpy_tail.induct)
  case (2 d s n m)
  then show ?case using copied_up [of d s 1 n m] up_safe_shift [of d s "Suc n" 1] by (simp add: copied_1)
qed simp

lemma memcpy_copies:
  assumes "up_safe dst src n"
  shows "memcpy dst src n m = copied dst src n m"
proof -
  note step = copies_step [OF _ _ assms]
  obtain d1 s1 n1 m1 where h: "memcpy_head dst src n m = (d1, s1, n1, m1)" by (metis surj_pair)
  obtain d2 s2 n2 m2 where w4: "memcpy_words4 d1 s1 n1 m1 = (d2, s2, n2, m2)" by (metis surj_pair)
  obtain d3 s3 n3 m3 where w: "memcpy_words d2 s2 n2 m2 = (d3, s3, n3, m3)" by (metis surj_pair)
  have "copies dst src n m (d1, s1, n1, m1)" using memcpy_head_copies [OF assms, of m] h by simp
  then obtain j where j: "j \<le> n" "d1 = dst + of_nat j" "s1 = src + of_nat j" "n1 = n - j" "m1 = copied dst src j m" by (auto simp: copies_def)
  have "copies dst src n m (d2, s2, n2, m2)"
    using step [of j m] memcpy_words4_copies [OF up_safe_shift [OF assms, of j], of m1] w4 j by simp
  then obtain k where k: "k \<le> n" "d2 = dst + of_nat k" "s2 = src + of_nat k" "n2 = n - k" "m2 = copied dst src k m" by (auto simp: copies_def)
  have "copies dst src n m (d3, s3, n3, m3)"
    using step [of k m] memcpy_words_copies [OF up_safe_shift [OF assms, of k], of m2] w k by simp
  then obtain l where l: "l \<le> n" "d3 = dst + of_nat l" "s3 = src + of_nat l" "n3 = n - l" "m3 = copied dst src l m" by (auto simp: copies_def)
  have "memcpy_tail d3 s3 n3 m3 = copied dst src n m"
    using memcpy_tail_copies [OF up_safe_shift [OF assms, of l], of m3] copied_up [of dst src l "n - l" m] assms l by simp
  then show ?thesis using memcpy_tail_copies [OF assms] by (simp add: memcpy_def h w4 w Let_def)
qed

text \<open>Going down.\<close>

definition down_safe :: "u64 \<Rightarrow> u64 \<Rightarrow> nat \<Rightarrow> bool" where
  "down_safe d s n \<longleftrightarrow> unat (d - s) + n \<le> 2 ^ 64"

lemma copied_down:
  assumes "down_safe d s (k + j)"
  shows "copied d s k (copied (d + of_nat k) (s + of_nat k) j m) = copied d s (k + j) m"
proof
  fix a
  have le: "unat (d - s) + (k + j) \<le> 2 ^ 64" using assms by (simp add: down_safe_def)
  have src: "copied (d + of_nat k) (s + of_nat k) j m (s + of_nat i) = m (s + of_nat i)" if "i < k" for i
  proof -
    have "unat (s + of_nat i - d - of_nat k) = unat (s + of_nat i - d) + 2 ^ 64 - k \<or> unat (s + of_nat i - d - of_nat k) = unat (s + of_nat i - d) - k"
      using unat_sub_nat [of k "s + of_nat i - d"] le by simp
    then have "\<not> unat (s + of_nat i - (d + of_nat k)) < j"
      using unat_diff_nat [of i s d] unat_sub_nat [of k "s + of_nat i - d"] that le by (auto simp: diff_diff_eq split: if_splits)
    then show ?thesis by (simp add: copied_def blit_def)
  qed
  have e: "a - (d + of_nat k) = (a - d) - of_nat k" by simp
  have "copied (d + of_nat k) (s + of_nat k) j m a = (if unat (a - d) < k + j then m (s + of_nat (unat (a - d))) else m a)" if "k \<le> unat (a - d)"
    using that unat_sub_nat [of k "a - d"] le unfolding copied_def blit_def e by (auto simp: of_nat_diff)
  then show "copied d s k (copied (d + of_nat k) (s + of_nat k) j m) a = copied d s (k + j) m a"
    using src [of "unat (a - d)"] by (auto simp: copied_def [of d] blit_def [of d])
qed

text \<open>\<open>k\<close> of the \<open>n\<close> bytes are left.\<close>

definition copies_down :: "u64 \<Rightarrow> u64 \<Rightarrow> nat \<Rightarrow> byte_mem \<Rightarrow> u64 \<times> u64 \<times> nat \<times> byte_mem \<Rightarrow> bool" where
  "copies_down d s n m x \<longleftrightarrow> (\<exists>k \<le> n. x = (d + of_nat k, s + of_nat k, k, copied (d + of_nat k) (s + of_nat k) (n - k) m))"

lemma copies_down_refl: "copies_down d s n m (d + of_nat n, s + of_nat n, n, m)"
  unfolding copies_down_def by (rule exI [of _ n]) simp

lemma down_safe_shift: "down_safe d s n \<Longrightarrow> k \<le> n \<Longrightarrow> down_safe (d + of_nat k) (s + of_nat k) (n - k)"
  by (simp add: down_safe_def)

lemma copies_down_step:
  assumes "copies_down d s j (copied (d + of_nat j) (s + of_nat j) (n - j) m) x" and "j \<le> n" and "down_safe d s n"
  shows "copies_down d s n m x"
proof -
  obtain k where k: "k \<le> j"
    and x: "x = (d + of_nat k, s + of_nat k, k, copied (d + of_nat k) (s + of_nat k) (j - k) (copied (d + of_nat j) (s + of_nat j) (n - j) m))"
    using assms(1) by (auto simp: copies_down_def)
  have "d + of_nat k + of_nat (j - k) = d + of_nat j" and "s + of_nat k + of_nat (j - k) = s + of_nat j"
    using k by (simp_all add: of_nat_diff)
  then have "copied (d + of_nat k) (s + of_nat k) (j - k) (copied (d + of_nat j) (s + of_nat j) (n - j) m) = copied (d + of_nat k) (s + of_nat k) (n - k) m"
    using copied_down [of "d + of_nat k" "s + of_nat k" "j - k" "n - j" m] down_safe_shift [OF assms(3), of k] k assms(2) by simp
  then show ?thesis unfolding copies_down_def using x k assms(2) by (intro exI [of _ k]) simp
qed

lemma down_safe_le: "down_safe d s n \<Longrightarrow> j \<le> n \<Longrightarrow> down_safe d s j"
  by (simp add: down_safe_def)

lemma memmove_head_copies: "down_safe d s n \<Longrightarrow> copies_down d s n m (memmove_head (d + of_nat n) (s + of_nat n) n m)"
proof (induction n arbitrary: m)
  case (Suc n)
  have "copies_down d s (Suc n) m (memmove_head (d + of_nat n) (s + of_nat n) n (copied (d + of_nat n) (s + of_nat n) 1 m))"
    using copies_down_step [of d s n "Suc n"] Suc.IH down_safe_le [OF Suc.prems] Suc.prems by simp
  then show ?case using copies_down_refl [of d s "Suc n" m] by (auto simp: copied_1)
qed (use copies_down_refl [of d s 0] in simp)

lemma memmove_words_copies: "down_safe d s n \<Longrightarrow> copies_down d s n m (memmove_words (d + of_nat n) (s + of_nat n) n m)"
proof (induction n arbitrary: m rule: less_induct)
  case (less n)
  show ?case
  proof (cases "8 \<le> n")
    case True
    then have e: "d + of_nat n - 8 = d + of_nat (n - 8)" "s + of_nat n - 8 = s + of_nat (n - 8)" by (simp_all add: of_nat_diff)
    have "copies_down d s n m (memmove_words (d + of_nat (n - 8)) (s + of_nat (n - 8)) (n - 8) (copied (d + of_nat (n - 8)) (s + of_nat (n - 8)) 8 m))"
      using copies_down_step [of d s "n - 8" n] less.IH [of "n - 8"] down_safe_le [OF less.prems] less.prems True by simp
    then show ?thesis using True by (subst memmove_words.simps) (simp only: e store_load if_True)
  next
    case False
    then show ?thesis using copies_down_refl [of d s n m] by (subst memmove_words.simps) simp
  qed
qed

lemma memmove_tail_copies: "down_safe d s n \<Longrightarrow> memmove_tail (d + of_nat n) (s + of_nat n) n m = copied d s n m"
proof (induction n arbitrary: m)
  case (Suc n)
  then show ?case using copied_down [of d s n 1 m] down_safe_le [OF Suc.prems, of n] by (simp add: copied_1)
qed simp

lemma memmove_copies_down:
  assumes "down_safe d s n" and h: "memmove_head (d + of_nat n) (s + of_nat n) n m = (d1, s1, n1, m1)"
    and w: "memmove_words d1 s1 n1 m1 = (d2, s2, n2, m2)"
  shows "memmove_tail d2 s2 n2 m2 = copied d s n m"
proof -
  obtain j where j: "j \<le> n" "d1 = d + of_nat j" "s1 = s + of_nat j" "n1 = j" "m1 = copied (d + of_nat j) (s + of_nat j) (n - j) m"
    using memmove_head_copies [OF assms(1), of m] h by (auto simp: copies_down_def)
  have "copies_down d s n m (d2, s2, n2, m2)"
    using copies_down_step [of d s j n m] memmove_words_copies [OF down_safe_le [OF assms(1) j(1)], of m1] w j assms(1) by simp
  then obtain k where k: "k \<le> n" "d2 = d + of_nat k" "s2 = s + of_nat k" "n2 = k" "m2 = copied (d + of_nat k) (s + of_nat k) (n - k) m"
    by (auto simp: copies_down_def)
  show ?thesis
    using memmove_tail_copies [OF down_safe_le [OF assms(1) k(1)], of m2] copied_down [of d s k "n - k" m] assms(1) k by simp
qed

text \<open>C23. \<open>memmove\<close>, which chooses a direction and works on words where the alignment allows it, is the simultaneous copy of all the bytes
  for ranges that do not wrap around, however they overlap.\<close>

theorem memmove_correct:
  assumes "unat src + n < 2 ^ 64" and "unat dst + n < 2 ^ 64"
  shows "memmove dst src n m = (\<lambda>a. if unat (a - dst) < n then m (src + of_nat (unat (a - dst))) else m a)"
proof -
  have n: "unat (of_nat n :: u64) = n" using assms(1) by (intro of_nat_inverse [OF refl]) simp
  have "unat src + unat (of_nat n :: u64) < 2 ^ LENGTH(64)" using assms(1) n by simp
  then have sn: "unat (src + of_nat n) = unat src + n" using n by (simp only: unat_word_ariths mod_less)
  have ds: "unat (dst - src) = (if unat src \<le> unat dst then unat dst - unat src else unat dst + 2 ^ 64 - unat src)"
    using unat_sub_nat [of "unat src" dst] assms(1) by simp
  have eq: "copied dst src n m = m" if "dst = src" using that by (auto simp: copied_def blit_def)
  have "memmove dst src n m = copied dst src n m"
  proof (cases "dst < src \<or> dst \<ge> src + of_nat n")
    case True
    then have "up_safe dst src n" using assms ds sn unfolding up_safe_def word_less_nat_alt word_le_nat_alt by auto
    then show ?thesis using memcpy_copies [of dst src n m] eq True by (simp add: memmove_def)
  next
    case False
    then have safe: "down_safe dst src n" using assms ds sn unfolding down_safe_def word_less_nat_alt word_le_nat_alt by auto
    show ?thesis
      using memmove_copies_down [OF safe, of m] memmove_tail_copies [OF safe, of m] eq False
      by (auto simp: memmove_def Let_def split: prod.splits)
  qed
  then show ?thesis by (simp add: copied_def blit_def)
qed

text \<open>C32. \<open>memcpy\<close> is the simultaneous copy too, unless the target starts inside the source range, above its start.\<close>

theorem memcpy_correct:
  assumes "n < 2 ^ 64" and "dst = src \<or> n \<le> unat (dst - src)"
  shows "memcpy dst src n m = (\<lambda>a. if unat (a - dst) < n then m (src + of_nat (unat (a - dst))) else m a)"
  using memcpy_copies [of dst src n m] assms by (simp add: up_safe_def copied_def blit_def)

section \<open>Strings\<close>

text \<open>A string of \<open>n\<close> bytes at \<open>s\<close>, followed by its terminator.\<close>

definition cstr :: "byte_mem \<Rightarrow> u64 \<Rightarrow> nat \<Rightarrow> bool" where
  "cstr m s n \<longleftrightarrow> (\<forall>i < n. m (s + of_nat i) \<noteq> 0) \<and> m (s + of_nat n) = 0"

lemma cstr_0: "cstr m s 0 \<longleftrightarrow> m s = 0"
  by (simp add: cstr_def)

lemma cstr_Suc: "cstr m s (Suc n) \<longleftrightarrow> m s \<noteq> 0 \<and> cstr m (s + 1) n"
  by (auto simp: cstr_def All_less_Suc2 algebra_simps)

lemma strlen_loop_eq: "cstr m (s + of_nat k) n \<Longrightarrow> strlen_loop s k m = Some (k + n)"
proof (induction n arbitrary: k)
  case 0
  then show ?case by (subst strlen_loop.simps) (simp add: cstr_0)
next
  case (Suc n)
  then have "strlen_loop s (Suc k) m = Some (Suc k + n)" by (simp add: cstr_Suc algebra_simps)
  then show ?case using Suc.prems by (subst strlen_loop.simps) (simp add: cstr_Suc)
qed

lemma strlen_eq: "cstr m s n \<Longrightarrow> s \<noteq> 0 \<Longrightarrow> strlen s m = Some n"
  using strlen_loop_eq [of m s 0 n] by (simp add: strlen_def)

text \<open>The bytes of a string, without its terminator.\<close>

definition bytes_at :: "byte_mem \<Rightarrow> u64 \<Rightarrow> nat \<Rightarrow> u8 list" where
  "bytes_at m s n = map (\<lambda>i. m (s + of_nat i)) [0..<n]"

lemma bytes_at_0 [simp]: "bytes_at m s 0 = []"
  by (simp add: bytes_at_def)

lemma bytes_at_Suc [simp]: "bytes_at m s (Suc n) = m s # bytes_at m (s + 1) n"
  unfolding bytes_at_def upt_conv_Cons [OF zero_less_Suc] by (simp add: map_Suc_upt [symmetric] algebra_simps del: upt_Suc)

text \<open>The order of strings, byte by byte, bytes being unsigned and a proper prefix being smaller.\<close>

fun str_order :: "u8 list \<Rightarrow> u8 list \<Rightarrow> int" where
  "str_order [] [] = 0"
| "str_order [] (y # ys) = - uint y"
| "str_order (x # xs) [] = uint x"
| "str_order (x # xs) (y # ys) = (if x = y then str_order xs ys else uint x - uint y)"

lemma strcmp_order:
  "cstr m a j \<Longrightarrow> cstr m b k \<Longrightarrow> strcmp a b m = Some (str_order (bytes_at m a j) (bytes_at m b k))"
proof (induction j arbitrary: a b k)
  case 0
  then show ?case by (cases k) (subst strcmp.simps; simp add: cstr_0 cstr_Suc)+
next
  case (Suc j)
  then show ?case by (cases k) (subst strcmp.simps; simp add: cstr_0 cstr_Suc)+
qed

lemma str_order_0: "0 \<notin> set xs \<Longrightarrow> 0 \<notin> set ys \<Longrightarrow> str_order xs ys = 0 \<longleftrightarrow> xs = ys"
  by (induction xs ys rule: str_order.induct) (auto simp: word_uint_eq_iff)

lemma cstr_no_0: "cstr m s n \<Longrightarrow> 0 \<notin> set (bytes_at m s n)"
  by (auto simp: cstr_def bytes_at_def)

text \<open>C33. \<open>strcmp\<close> returns for terminated strings, with the sign of their bytewise order; the result is 0 exactly when the strings are equal.\<close>

theorem strcmp_correct:
  assumes "cstr m a j" and "cstr m b k"
  shows "\<exists>r. strcmp a b m = Some r \<and> r = str_order (bytes_at m a j) (bytes_at m b k) \<and> (r = 0 \<longleftrightarrow> bytes_at m a j = bytes_at m b k)"
  using strcmp_order [OF assms] str_order_0 [OF cstr_no_0 [OF assms(1)] cstr_no_0 [OF assms(2)]] by simp

lemma strncpy_pad_blit: "i + k \<le> 2 ^ 64 \<Longrightarrow> strncpy_pad dst i k (blit dst f i m) = blit dst (\<lambda>j. if j < i then f j else 0) (i + k) m"
proof (induction k arbitrary: i f)
  case (Suc k)
  have "(blit dst f i m)(dst + of_nat i := 0) = blit dst (\<lambda>j. if j < i then f j else 0) (Suc i) m"
    using blit_Suc [of i dst "\<lambda>j. if j < i then f j else 0" m] blit_cong [of i f "\<lambda>j. if j < i then f j else 0" dst m] Suc.prems by simp
  moreover have "blit dst (\<lambda>j. if j < Suc i then if j < i then f j else 0 else 0) (Suc i + k) m = blit dst (\<lambda>j. if j < i then f j else 0) (i + Suc k) m"
    unfolding add_Suc_shift by (rule blit_cong) simp
  ultimately show ?case using Suc.IH [of "Suc i" "\<lambda>j. if j < i then f j else 0"] Suc.prems by simp
qed (auto intro: blit_cong)

text \<open>The bytes of the string that are still to be read are outside what is written.\<close>

lemma blit_outside:
  assumes "\<And>i. i < n \<Longrightarrow> dst + of_nat i \<noteq> a"
  shows "blit dst f n m a = m a"
  using assms [of "unat (a - dst)"] by (auto simp: blit_def)

lemma strncpy_loop_blit:
  assumes "cstr m src k" and "i \<le> k" and "i + r = n" and "n \<le> 2 ^ 64"
    and "\<And>i j. i < n \<Longrightarrow> j \<le> k \<Longrightarrow> dst + of_nat i \<noteq> src + of_nat j"
  shows "strncpy_loop dst src i r (blit dst (\<lambda>j. m (src + of_nat j)) i m) = blit dst (\<lambda>j. if j < k then m (src + of_nat j) else 0) n m"
  using assms(2,3)
proof (induction r arbitrary: i)
  case 0
  then show ?case by (auto intro: blit_cong)
next
  case (Suc r)
  let ?f = "\<lambda>j. m (src + of_nat j)" and ?g = "\<lambda>j. if j < k then m (src + of_nat j) else 0"
  have b: "blit dst ?f i m (src + of_nat i) = m (src + of_nat i)"
    using assms(4,5) Suc.prems by (intro blit_outside) auto
  show ?case
  proof (cases "i = k")
    case True
    then show ?thesis using assms(1,4) Suc.prems b strncpy_pad_blit [of i "Suc r" dst ?f m] by (simp add: cstr_def)
  next
    case False
    have "(blit dst ?f i m)(dst + of_nat i := m (src + of_nat i)) = blit dst ?f (Suc i) m"
      using blit_Suc [of i dst ?f m] assms(4) Suc.prems by simp
    then show ?thesis using False assms(1) Suc.prems b Suc.IH [of "Suc i"] by (simp add: cstr_def)
  qed
qed

text \<open>C34. \<open>strncpy\<close> from a string into a buffer of \<open>n\<close> bytes writes exactly the buffer: the string as far as it fits, then zeros. The
  copy is terminated exactly when the string is shorter than the buffer.\<close>

theorem strncpy_correct:
  assumes "cstr m src k" and "n < 2 ^ 64"
    and "\<And>i j. i < n \<Longrightarrow> j \<le> k \<Longrightarrow> dst + of_nat i \<noteq> src + of_nat j"
  shows "strncpy dst src n m = (\<lambda>a. if unat (a - dst) < n then if unat (a - dst) < k then m (src + (a - dst)) else 0 else m a)
         \<and> ((\<exists>i < n. strncpy dst src n m (dst + of_nat i) = 0) \<longleftrightarrow> k < n)"
proof -
  have e: "strncpy dst src n m = blit dst (\<lambda>j. if j < k then m (src + of_nat j) else 0) n m"
    using strncpy_loop_blit [OF assms(1), of 0 n n dst] assms(2,3) by (simp add: strncpy_def)
  have "unat (of_nat i :: u64) = i" if "i < n" for i using that assms(2) by (intro of_nat_inverse [OF refl]) simp
  then have "(\<exists>i < n. strncpy dst src n m (dst + of_nat i) = 0) \<longleftrightarrow> (\<exists>i < n. (if i < k then m (src + of_nat i) else 0) = 0)"
    unfolding e blit_def by auto
  also have "\<dots> \<longleftrightarrow> k < n" using assms(1) by (auto simp: cstr_def)
  finally show ?thesis unfolding e by (auto simp: blit_def)
qed

section \<open>Examples\<close>

text \<open>The bytes from 32 on are 1, 2, 3, 0, the others count up.\<close>

definition mem_ex :: byte_mem where
  "mem_ex a = (if a = 32 then 1 else if a = 33 then 2 else if a = 34 then 3 else if a = 35 then 0 else ucast a)"

theorem memset_correct_witness: "memset 3 0x1ff 40 mem_ex = (\<lambda>a. if unat (a - 3) < 40 then word_of_int 0x1ff else mem_ex a)"
  by (rule memset_correct) simp

theorem memmove_correct_witness:
  "memmove 36 32 8 mem_ex 36 = 1 \<and> memmove 36 32 8 mem_ex 43 = 39"
  unfolding memmove_correct [of 32 8 36 mem_ex, simplified] by (simp add: mem_ex_def)

theorem memcpy_correct_witness: "memcpy 48 32 16 mem_ex 50 = 3"
  unfolding memcpy_correct [of 16 48 32 mem_ex, simplified] by (simp add: mem_ex_def)

theorem strcmp_correct_witness: "cstr mem_ex 32 3 \<and> cstr mem_ex 34 1 \<and> (\<exists>r. strcmp 32 34 mem_ex = Some r \<and> r < 0)"
proof -
  have c: "cstr mem_ex 32 3" "cstr mem_ex 34 1" by (simp_all add: cstr_def mem_ex_def numeral_3_eq_3 All_less_Suc)
  have "str_order (bytes_at mem_ex 32 3) (bytes_at mem_ex 34 1) < 0" by (simp add: bytes_at_def mem_ex_def upt_rec)
  then show ?thesis using strcmp_correct [OF c] c by auto
qed

theorem strncpy_correct_witness: "strncpy 64 32 6 mem_ex 66 = 3 \<and> strncpy 64 32 6 mem_ex 69 = 0 \<and> (\<exists>i < 6. strncpy 64 32 6 mem_ex (64 + of_nat i) = 0)"
proof -
  have c: "cstr mem_ex 32 3" by (simp add: cstr_def mem_ex_def numeral_3_eq_3 All_less_Suc)
  have d: "(64 :: u64) + of_nat i \<noteq> 32 + of_nat j" if "i < 6" "j \<le> 3" for i j
  proof -
    have "i \<in> {0,1,2,3,4,5}" "j \<in> {0,1,2,3}" using that by auto
    then show ?thesis by auto
  qed
  note r = strncpy_correct [OF c, of 6 64, OF _ d]
  have "\<exists>i < 6. strncpy 64 32 6 mem_ex (64 + of_nat i) = 0" using conjunct2 [OF r] by simp
  moreover have "strncpy 64 32 6 mem_ex 66 = 3 \<and> strncpy 64 32 6 mem_ex 69 = 0" unfolding conjunct1 [OF r, simplified] by (simp add: mem_ex_def)
  ultimately show ?thesis by blast
qed

end
