(* ===== verification/Cstdio.thy ===== *)
theory Cstdio
  imports CString
begin

text \<open>
  Formatted output, \<open>kernel/cstdio.c\<close>, and \<open>atoi\<close> of \<open>kernel/cstdlib.c\<close>. The buffer is a range of memory; its null address is \<open>0\<close>. Format
  and string arguments are the bytes before their terminating zero. A \<open>va_list\<close> is the list of the arguments with their types; reading an argument of another type, or one that
  is not there, is undefined and has no result. Paddings are computed without the overflow that strings of \<open>2 ^ 31\<close> bytes and more would cause.
\<close>

section \<open>Output\<close>

record fmt_out =
  f_mem :: byte_mem
  f_dst :: u64
  f_size :: u64
  f_pos :: u64
  f_total :: u64

record fmt_spec =
  sp_left :: bool
  sp_zero :: bool
  sp_width :: int
  sp_long_count :: nat
  sp_spec :: u8

definition cast_int :: "int \<Rightarrow> int" where
  "cast_int n = signed_take_bit 31 n"

definition fmt_putc :: "u8 \<Rightarrow> fmt_out \<Rightarrow> fmt_out" where
  "fmt_putc c out =
     (let out1 = (if f_dst out \<noteq> 0 \<and> f_size out \<noteq> 0 \<and> f_pos out + 1 < f_size out
                  then out\<lparr>f_mem := (f_mem out)(f_dst out + f_pos out := c)\<rparr> else out)
      in out1\<lparr>f_pos := f_pos out1 + 1, f_total := f_total out1 + 1\<rparr>)"

definition fmt_repeat :: "u8 \<Rightarrow> int \<Rightarrow> fmt_out \<Rightarrow> fmt_out" where
  "fmt_repeat c n out = (fmt_putc c ^^ nat n) out"

definition fmt_digit :: "bool \<Rightarrow> u64 \<Rightarrow> u8" where
  "fmt_digit uppercase d = (if d < 10 then 48 + ucast d else (if uppercase then 55 else 87) + ucast d)"

text \<open>The digits, lowest first, at most \<open>room\<close> of them.\<close>

fun fmt_digits :: "nat \<Rightarrow> u64 \<Rightarrow> u64 \<Rightarrow> bool \<Rightarrow> u8 list" where
  "fmt_digits 0 value base uppercase = []"
| "fmt_digits (Suc room) value base uppercase =
     (if value = 0 then [] else fmt_digit uppercase (value mod base) # fmt_digits room (value div base) base uppercase)"

definition fmt_uint_to_buf :: "nat \<Rightarrow> u64 \<Rightarrow> u64 \<Rightarrow> bool \<Rightarrow> u8 list" where
  "fmt_uint_to_buf dst_size value base uppercase =
     (if dst_size = 0 \<or> base < 2 \<or> base > 16 then []
      else if value = 0 then [48]
      else rev (take dst_size (fmt_digits 32 value base uppercase)))"

definition fmt_int_to_buf :: "nat \<Rightarrow> u64 \<Rightarrow> u8 list \<times> bool" where
  "fmt_int_to_buf dst_size value =
     (let negative = (value <s 0); magnitude = (if negative then - (value + 1) + 1 else value)
      in (fmt_uint_to_buf dst_size magnitude 10 False, negative))"

definition fmt_pads :: "int \<Rightarrow> int \<Rightarrow> int" where
  "fmt_pads width len = (if width > len then width - len else 0)"

definition fmt_put_padded :: "u8 list \<Rightarrow> fmt_spec option \<Rightarrow> u8 \<Rightarrow> fmt_out \<Rightarrow> fmt_out" where
  "fmt_put_padded s spec pad out =
     (let width = (case spec of None \<Rightarrow> 0 | Some p \<Rightarrow> sp_width p); left = (case spec of None \<Rightarrow> False | Some p \<Rightarrow> sp_left p);
          pads = fmt_pads width (cast_int (int (length s)));
          out1 = (if left then out else fmt_repeat pad pads out);
          out2 = fold fmt_putc s out1
      in if left then fmt_repeat 32 pads out2 else out2)"

definition null_text :: "u8 list" where
  "null_text = [40, 110, 117, 108, 108, 41]"

definition fmt_put_string :: "u8 list option \<Rightarrow> fmt_spec \<Rightarrow> fmt_out \<Rightarrow> fmt_out" where
  "fmt_put_string s spec out = fmt_put_padded (case s of None \<Rightarrow> null_text | Some t \<Rightarrow> t) (Some spec) 32 out"

definition fmt_put_char :: "u8 \<Rightarrow> fmt_spec \<Rightarrow> fmt_out \<Rightarrow> fmt_out" where
  "fmt_put_char c spec out = fmt_put_padded [c] (Some spec) 32 out"

definition fmt_pad :: "fmt_spec option \<Rightarrow> u8" where
  "fmt_pad spec = (case spec of None \<Rightarrow> 32 | Some p \<Rightarrow> if sp_zero p \<and> \<not> sp_left p then 48 else 32)"

definition fmt_put_uint_padded :: "u64 \<Rightarrow> u64 \<Rightarrow> bool \<Rightarrow> fmt_spec option \<Rightarrow> fmt_out \<Rightarrow> fmt_out" where
  "fmt_put_uint_padded value base uppercase spec out = fmt_put_padded (fmt_uint_to_buf 32 value base uppercase) spec (fmt_pad spec) out"

definition fmt_put_int_padded :: "u64 \<Rightarrow> fmt_spec \<Rightarrow> fmt_out \<Rightarrow> fmt_out" where
  "fmt_put_int_padded value spec out =
     (let (digits, negative) = fmt_int_to_buf 32 value;
          len = int (length digits) + (if negative then 1 else 0);
          pads = fmt_pads (sp_width spec) len;
          sign = (\<lambda>o1. if negative then fmt_putc 45 o1 else o1);
          out1 = (if sp_zero spec \<and> \<not> sp_left spec then fmt_repeat 48 pads (sign out)
                  else sign (if sp_left spec then out else fmt_repeat 32 pads out));
          out2 = fold fmt_putc digits out1
      in if sp_left spec then fmt_repeat 32 pads out2 else out2)"

definition fmt_put_ptr :: "u64 \<Rightarrow> fmt_spec \<Rightarrow> fmt_out \<Rightarrow> fmt_out" where
  "fmt_put_ptr p spec out = fmt_put_padded (48 # 120 # fmt_uint_to_buf 32 p 16 False) (Some spec) (fmt_pad (Some spec)) out"

definition fmt_finish :: "fmt_out \<Rightarrow> fmt_out" where
  "fmt_finish out =
     (if f_dst out = 0 \<or> f_size out = 0 then out
      else if f_pos out < f_size out then out\<lparr>f_mem := (f_mem out)(f_dst out + f_pos out := 0)\<rparr>
      else out\<lparr>f_mem := (f_mem out)(f_dst out + (f_size out - 1) := 0)\<rparr>)"

section \<open>Formats\<close>

definition fmt_is_digit :: "u8 \<Rightarrow> bool" where
  "fmt_is_digit c \<longleftrightarrow> c \<ge> 48 \<and> c \<le> 57"

fun fmt_parse_flags :: "u8 list \<Rightarrow> fmt_spec \<Rightarrow> fmt_spec \<times> u8 list" where
  "fmt_parse_flags [] spec = (spec, [])"
| "fmt_parse_flags (c # fmt) spec =
     (if c = 45 then fmt_parse_flags fmt (spec\<lparr>sp_left := True\<rparr>)
      else if c = 48 then fmt_parse_flags fmt (spec\<lparr>sp_zero := True\<rparr>)
      else (spec, c # fmt))"

fun fmt_parse_width :: "u8 list \<Rightarrow> fmt_spec \<Rightarrow> fmt_spec \<times> u8 list" where
  "fmt_parse_width [] spec = (spec, [])"
| "fmt_parse_width (c # fmt) spec =
     (if fmt_is_digit c
      then fmt_parse_width fmt (if sp_width spec < 1000000 then spec\<lparr>sp_width := sp_width spec * 10 + (uint c - 48)\<rparr> else spec)
      else (spec, c # fmt))"

fun fmt_parse_long :: "u8 list \<Rightarrow> fmt_spec \<Rightarrow> fmt_spec \<times> u8 list" where
  "fmt_parse_long [] spec = (spec, [])"
| "fmt_parse_long (c # fmt) spec =
     (if c = 108 \<and> sp_long_count spec < 2 then fmt_parse_long fmt (spec\<lparr>sp_long_count := sp_long_count spec + 1\<rparr>) else (spec, c # fmt))"

definition fmt_parse_spec :: "u8 list \<Rightarrow> fmt_spec \<times> u8 list" where
  "fmt_parse_spec fmt =
     (let (spec1, fmt1) = fmt_parse_flags fmt \<lparr>sp_left = False, sp_zero = False, sp_width = 0, sp_long_count = 0, sp_spec = 0\<rparr>;
          (spec2, fmt2) = fmt_parse_width fmt1 spec1;
          (spec3, fmt3) = fmt_parse_long fmt2 spec2
      in (case fmt3 of [] \<Rightarrow> (spec3\<lparr>sp_spec := 0\<rparr>, []) | c # rest \<Rightarrow> (spec3\<lparr>sp_spec := c\<rparr>, rest)))"

datatype fmt_arg = Arg_int u32 | Arg_long u64 | Arg_str "u8 list option" | Arg_ptr u64

text \<open>The integer argument of a conversion, extended to 64 bits; \<open>long\<close> and \<open>long long\<close> have the same width.\<close>

fun fmt_arg_int :: "bool \<Rightarrow> nat \<Rightarrow> fmt_arg list \<Rightarrow> (u64 \<times> fmt_arg list) option" where
  "fmt_arg_int is_signed long_count (Arg_int v # ap) = (if long_count = 0 then Some (if is_signed then scast v else ucast v, ap) else None)"
| "fmt_arg_int is_signed long_count (Arg_long v # ap) = (if long_count = 0 then None else Some (v, ap))"
| "fmt_arg_int is_signed long_count _ = None"

definition fmt_unknown :: "fmt_spec \<Rightarrow> fmt_out \<Rightarrow> fmt_out" where
  "fmt_unknown spec out =
     (let out1 = fmt_putc 37 out;
          out2 = (if sp_left spec then fmt_putc 45 out1 else out1);
          out3 = (if sp_zero spec then fmt_putc 48 out2 else out2);
          out4 = (if sp_width spec > 0 then fmt_put_uint_padded (word_of_int (sp_width spec)) 10 False None out3 else out3);
          out5 = (fmt_putc 108 ^^ sp_long_count spec) out4
      in fmt_putc (sp_spec spec) out5)"

definition fmt_convert :: "fmt_spec \<Rightarrow> fmt_arg list \<Rightarrow> fmt_out \<Rightarrow> (fmt_arg list \<times> fmt_out) option" where
  "fmt_convert spec ap out =
     (let c = sp_spec spec in
      if c = 99 then (case ap of Arg_int v # ap' \<Rightarrow> Some (ap', fmt_put_char (ucast v) spec out) | _ \<Rightarrow> None)
      else if c = 115 then (case ap of Arg_str s # ap' \<Rightarrow> Some (ap', fmt_put_string s spec out) | _ \<Rightarrow> None)
      else if c = 100 \<or> c = 105 then map_option (\<lambda>(v, ap'). (ap', fmt_put_int_padded v spec out)) (fmt_arg_int True (sp_long_count spec) ap)
      else if c = 117 then map_option (\<lambda>(v, ap'). (ap', fmt_put_uint_padded v 10 False (Some spec) out)) (fmt_arg_int False (sp_long_count spec) ap)
      else if c = 120 \<or> c = 88 then map_option (\<lambda>(v, ap'). (ap', fmt_put_uint_padded v 16 (c = 88) (Some spec) out)) (fmt_arg_int False (sp_long_count spec) ap)
      else if c = 112 then (case ap of Arg_ptr p # ap' \<Rightarrow> Some (ap', fmt_put_ptr p spec out) | _ \<Rightarrow> None)
      else Some (ap, fmt_unknown spec out))"

lemma fmt_parse_shorter:
  "length (snd (fmt_parse_flags fmt spec)) \<le> length fmt" "length (snd (fmt_parse_width fmt spec)) \<le> length fmt" "length (snd (fmt_parse_long fmt spec)) \<le> length fmt"
  by (induction fmt arbitrary: spec) (simp_all add: le_SucI)

lemma fmt_parse_spec_shorter:
  assumes "fmt_parse_spec fmt = (spec, rest)"
  shows "length rest \<le> length fmt"
proof -
  obtain s1 f1 where 1: "fmt_parse_flags fmt \<lparr>sp_left = False, sp_zero = False, sp_width = 0, sp_long_count = 0, sp_spec = 0\<rparr> = (s1, f1)" by fastforce
  obtain s2 f2 where 2: "fmt_parse_width f1 s1 = (s2, f2)" by fastforce
  obtain s3 f3 where 3: "fmt_parse_long f2 s2 = (s3, f3)" by fastforce
  have "length rest \<le> length f3" using assms by (cases f3) (simp_all add: fmt_parse_spec_def 1 2 3)
  also have "\<dots> \<le> length f2" using fmt_parse_shorter(3) [of f2 s2] 3 by simp
  also have "\<dots> \<le> length f1" using fmt_parse_shorter(2) [of f1 s1] 2 by simp
  also have "\<dots> \<le> length fmt" using fmt_parse_shorter(1) [of fmt "\<lparr>sp_left = False, sp_zero = False, sp_width = 0, sp_long_count = 0, sp_spec = 0\<rparr>"] 1 by simp
  finally show ?thesis .
qed

function fmt_loop :: "u8 list \<Rightarrow> fmt_arg list \<Rightarrow> fmt_out \<Rightarrow> fmt_out option" where
  "fmt_loop [] ap out = Some out"
| "fmt_loop (c # fmt) ap out =
     (if c \<noteq> 37 then fmt_loop fmt ap (fmt_putc c out)
      else if fmt \<noteq> [] \<and> hd fmt = 37 then fmt_loop (tl fmt) ap (fmt_putc 37 out)
      else (case fmt_parse_spec fmt of (spec, rest) \<Rightarrow>
        if sp_spec spec = 0 then Some (fmt_putc 37 out)
        else (case fmt_convert spec ap out of None \<Rightarrow> None | Some (ap', out') \<Rightarrow> fmt_loop rest ap' out')))"
  by pat_completeness auto
termination
  by (relation "measure (\<lambda>(fmt, ap, out). length fmt)") (auto dest: fmt_parse_spec_shorter [OF sym])

definition vsnprintf :: "u64 \<Rightarrow> u64 \<Rightarrow> u8 list option \<Rightarrow> fmt_arg list \<Rightarrow> byte_mem \<Rightarrow> (int \<times> byte_mem) option" where
  "vsnprintf dst sz fmt ap mem =
     (let out = \<lparr>f_mem = mem, f_dst = dst, f_size = sz, f_pos = 0, f_total = 0\<rparr> in
      case fmt of
        None \<Rightarrow> Some (0, f_mem (fmt_finish out))
      | Some f \<Rightarrow> map_option (\<lambda>out'. (cast_int (uint (f_total out')), f_mem (fmt_finish out'))) (fmt_loop f ap out))"

section \<open>atoi\<close>

text \<open>An \<open>int\<close> that leaves its range has no defined result.\<close>

partial_function (option) atoi_skip :: "u64 \<Rightarrow> byte_mem \<Rightarrow> u64 option" where
  "atoi_skip s mem = (if mem s \<in> {32, 9, 10, 13} then atoi_skip (s + 1) mem else Some s)"

partial_function (option) atoi_digits :: "u64 \<Rightarrow> int \<Rightarrow> byte_mem \<Rightarrow> int option" where
  "atoi_digits s value mem =
     (if mem s \<ge> 48 \<and> mem s \<le> 57
      then let value' = value * 10 + (uint (mem s) - 48) in if value' \<ge> 2 ^ 31 then None else atoi_digits (s + 1) value' mem
      else Some value)"

definition atoi :: "u64 \<Rightarrow> byte_mem \<Rightarrow> int option" where
  "atoi s mem =
     (if s = 0 then Some 0
      else do {
        s1 \<leftarrow> atoi_skip s mem;
        if mem s1 = 45 then map_option uminus (atoi_digits (s1 + 1) 0 mem)
        else atoi_digits (if mem s1 = 43 then s1 + 1 else s1) 0 mem
      })"

end
