(* ===== verification/CstdioThms.thy ===== *)
theory CstdioThms
  imports Cstdio
begin

text \<open>
  What the formatter writes is a text that depends on the format and its arguments only. The buffer receives as much of it as fits, with a terminating zero, and nothing beyond.
  A decimal number that has been printed is read back by \<open>atoi\<close>.
\<close>

section \<open>The text of a format\<close>

text \<open>The reference: the text of each conversion, without a buffer.\<close>

definition padded_text :: "u8 list \<Rightarrow> fmt_spec option \<Rightarrow> u8 \<Rightarrow> u8 list" where
  "padded_text s spec pad =
     (case spec of
        None \<Rightarrow> replicate (nat (fmt_pads 0 (cast_int (int (length s))))) pad @ s
      | Some p \<Rightarrow>
          let n = nat (fmt_pads (sp_width p) (cast_int (int (length s)))) in if sp_left p then s @ replicate n 32 else replicate n pad @ s)"

definition uint_text :: "u64 \<Rightarrow> u64 \<Rightarrow> bool \<Rightarrow> fmt_spec option \<Rightarrow> u8 list" where
  "uint_text value base uppercase spec = padded_text (fmt_uint_to_buf 32 value base uppercase) spec (fmt_pad spec)"

definition int_text :: "u64 \<Rightarrow> fmt_spec \<Rightarrow> u8 list" where
  "int_text value spec =
     (let (digits, negative) = fmt_int_to_buf 32 value; sign = (if negative then [45] else []);
          n = nat (fmt_pads (sp_width spec) (int (length (sign @ digits))))
      in if sp_left spec then sign @ digits @ replicate n 32
         else if sp_zero spec then sign @ replicate n 48 @ digits
         else replicate n 32 @ sign @ digits)"

definition unknown_text :: "fmt_spec \<Rightarrow> u8 list" where
  "unknown_text spec =
     [37] @ (if sp_left spec then [45] else []) @ (if sp_zero spec then [48] else []) @
     (if sp_width spec > 0 then uint_text (word_of_int (sp_width spec)) 10 False None else []) @ replicate (sp_long_count spec) 108 @ [sp_spec spec]"

definition convert_text :: "fmt_spec \<Rightarrow> fmt_arg list \<Rightarrow> (fmt_arg list \<times> u8 list) option" where
  "convert_text spec ap =
     (let c = sp_spec spec in
      if c = 99 then (case ap of Arg_int v # ap' \<Rightarrow> Some (ap', padded_text [ucast v] (Some spec) 32) | _ \<Rightarrow> None)
      else if c = 115 then (case ap of Arg_str s # ap' \<Rightarrow> Some (ap', padded_text (case s of None \<Rightarrow> null_text | Some t \<Rightarrow> t) (Some spec) 32) | _ \<Rightarrow> None)
      else if c = 100 \<or> c = 105 then map_option (\<lambda>(v, ap'). (ap', int_text v spec)) (fmt_arg_int True (sp_long_count spec) ap)
      else if c = 117 then map_option (\<lambda>(v, ap'). (ap', uint_text v 10 False (Some spec))) (fmt_arg_int False (sp_long_count spec) ap)
      else if c = 120 \<or> c = 88 then map_option (\<lambda>(v, ap'). (ap', uint_text v 16 (c = 88) (Some spec))) (fmt_arg_int False (sp_long_count spec) ap)
      else if c = 112 then (case ap of Arg_ptr p # ap' \<Rightarrow> Some (ap', padded_text (48 # 120 # fmt_uint_to_buf 32 p 16 False) (Some spec) (fmt_pad (Some spec))) | _ \<Rightarrow> None)
      else Some (ap, unknown_text spec))"

function fmt_text :: "u8 list \<Rightarrow> fmt_arg list \<Rightarrow> u8 list option" where
  "fmt_text [] ap = Some []"
| "fmt_text (c # fmt) ap =
     (if c \<noteq> 37 then map_option (Cons c) (fmt_text fmt ap)
      else if fmt \<noteq> [] \<and> hd fmt = 37 then map_option (Cons 37) (fmt_text (tl fmt) ap)
      else (case fmt_parse_spec fmt of (spec, rest) \<Rightarrow>
        if sp_spec spec = 0 then Some [37]
        else (case convert_text spec ap of None \<Rightarrow> None | Some (ap', xs) \<Rightarrow> map_option (append xs) (fmt_text rest ap'))))"
  by pat_completeness auto
termination
  by (relation "measure (\<lambda>(fmt, ap). length fmt)") (auto dest: fmt_parse_spec_shorter [OF sym])

section \<open>Every conversion prints its text\<close>

lemma repeat_fold: "fmt_repeat c n out = fold fmt_putc (replicate (nat n) c) out"
  by (simp add: fmt_repeat_def)

lemma padded_fold: "fmt_put_padded s spec pad out = fold fmt_putc (padded_text s spec pad) out"
  by (simp add: fmt_put_padded_def padded_text_def repeat_fold Let_def split: option.splits)

lemma uint_fold: "fmt_put_uint_padded v base up spec out = fold fmt_putc (uint_text v base up spec) out"
  by (simp add: fmt_put_uint_padded_def uint_text_def padded_fold)

lemma int_fold: "fmt_put_int_padded v spec out = fold fmt_putc (int_text v spec) out"
  by (cases "fmt_int_to_buf 32 v") (simp add: fmt_put_int_padded_def int_text_def repeat_fold Let_def add.commute)

lemma unknown_fold: "fmt_unknown spec out = fold fmt_putc (unknown_text spec) out"
  by (simp add: fmt_unknown_def unknown_text_def uint_fold)

lemma convert_fold: "fmt_convert spec ap out = map_option (\<lambda>(ap', xs). (ap', fold fmt_putc xs out)) (convert_text spec ap)"
  unfolding fmt_convert_def convert_text_def Let_def fmt_put_char_def fmt_put_string_def fmt_put_ptr_def padded_fold uint_fold int_fold unknown_fold
  by (auto simp: option.map_comp comp_def case_prod_beta split: list.splits fmt_arg.splits)

lemma loop_fold: "fmt_loop fmt ap out = map_option (\<lambda>xs. fold fmt_putc xs out) (fmt_text fmt ap)"
proof (induction "length fmt" arbitrary: fmt ap out rule: less_induct)
  case less
  show ?case
  proof (cases fmt)
    case (Cons c rest)
    obtain spec r where e: "fmt_parse_spec rest = (spec, r)" by fastforce
    have r: "length r < length fmt" using fmt_parse_spec_shorter [OF e] Cons by simp
    consider "c \<noteq> 37" | "c = 37" "rest \<noteq> []" "hd rest = 37" | "c = 37" "\<not> (rest \<noteq> [] \<and> hd rest = 37)" by blast
    then show ?thesis
    proof cases
      case 1
      then show ?thesis using less [of rest ap "fmt_putc c out"] Cons by (simp add: option.map_comp comp_def)
    next
      case 2
      then have "length (tl rest) < length fmt" using Cons by simp
      then show ?thesis using less [of "tl rest" ap "fmt_putc 37 out"] 2 Cons by (simp add: option.map_comp comp_def)
    next
      case 3
      then show ?thesis using Cons e less [OF r]
        by (auto simp: convert_fold option.map_comp comp_def split: option.splits)
    qed
  qed simp
qed

section \<open>What reaches the buffer\<close>

definition room_for :: "u64 \<Rightarrow> u64 \<Rightarrow> nat" where
  "room_for dst sz = (if dst = 0 \<or> sz = 0 then 0 else unat sz - 1)"

lemma putc_eq:
  "fmt_putc c \<lparr>f_mem = mem, f_dst = dst, f_size = sz, f_pos = p, f_total = t\<rparr> =
    \<lparr>f_mem = (if dst \<noteq> 0 \<and> sz \<noteq> 0 \<and> p + 1 < sz then mem(dst + p := c) else mem), f_dst = dst, f_size = sz, f_pos = p + 1, f_total = t + 1\<rparr>"
  by (simp add: fmt_putc_def)

lemma printed_state:
  assumes "length xs < 2 ^ 64"
  shows "fold fmt_putc xs \<lparr>f_mem = mem, f_dst = dst, f_size = sz, f_pos = 0, f_total = 0\<rparr> =
    \<lparr>f_mem = blit dst (\<lambda>i. xs ! i) (min (length xs) (room_for dst sz)) mem, f_dst = dst, f_size = sz, f_pos = of_nat (length xs), f_total = of_nat (length xs)\<rparr>"
  using assms
proof (induction xs rule: rev_induct)
  case (snoc c xs)
  let ?n = "length xs"
  have "unat (of_nat (Suc ?n) :: u64) = Suc ?n" using snoc.prems by (intro of_nat_inverse [OF refl]) simp
  then have n1: "unat (of_nat ?n + 1 :: u64) = Suc ?n" by (simp add: add.commute)
  have c: "blit dst (\<lambda>i. (xs @ [c]) ! i) k mem = blit dst (\<lambda>i. xs ! i) k mem" if "k \<le> ?n" for k by (rule blit_cong) (use that in \<open>simp add: nth_append\<close>)
  have IH: "fold fmt_putc xs \<lparr>f_mem = mem, f_dst = dst, f_size = sz, f_pos = 0, f_total = 0\<rparr> =
    \<lparr>f_mem = blit dst (\<lambda>i. xs ! i) (min ?n (room_for dst sz)) mem, f_dst = dst, f_size = sz, f_pos = of_nat ?n, f_total = of_nat ?n\<rparr>" using snoc by simp
  have lt: "of_nat ?n + 1 < sz \<longleftrightarrow> Suc ?n < unat sz" by (simp add: word_less_nat_alt n1)
  have "(if dst \<noteq> 0 \<and> sz \<noteq> 0 \<and> of_nat ?n + 1 < sz then (blit dst (\<lambda>i. xs ! i) (min ?n (room_for dst sz)) mem)(dst + of_nat ?n := c)
      else blit dst (\<lambda>i. xs ! i) (min ?n (room_for dst sz)) mem) = blit dst (\<lambda>i. (xs @ [c]) ! i) (min (Suc ?n) (room_for dst sz)) mem"
  proof (cases "dst \<noteq> 0 \<and> sz \<noteq> 0 \<and> Suc ?n < unat sz")
    case True
    then have m: "min ?n (room_for dst sz) = ?n" "min (Suc ?n) (room_for dst sz) = Suc ?n" by (auto simp: room_for_def)
    have "(blit dst (\<lambda>i. (xs @ [c]) ! i) ?n mem)(dst + of_nat ?n := (xs @ [c]) ! ?n) = blit dst (\<lambda>i. (xs @ [c]) ! i) (Suc ?n) mem"
      by (rule blit_Suc) (use snoc.prems in simp)
    then show ?thesis using True c [of ?n] unfolding lt m by simp
  next
    case False
    then have le: "room_for dst sz \<le> ?n" by (auto simp: room_for_def)
    then have m: "min ?n (room_for dst sz) = room_for dst sz" "min (Suc ?n) (room_for dst sz) = room_for dst sz" by simp_all
    show ?thesis using False c [OF le] unfolding lt m by auto
  qed
  moreover have "fold fmt_putc (xs @ [c]) out = fmt_putc c (fold fmt_putc xs out)" for out by simp
  ultimately show ?case unfolding IH putc_eq by (simp add: IH putc_eq add.commute)
qed simp

lemma finish_mem:
  assumes n: "n < 2 ^ 64"
  shows "f_mem (fmt_finish \<lparr>f_mem = blit dst f (min n (room_for dst sz)) mem, f_dst = dst, f_size = sz, f_pos = of_nat n, f_total = t\<rparr>) =
    (if dst = 0 \<or> sz = 0 then mem
     else (\<lambda>a. if unat (a - dst) < min n (unat sz - 1) then f (unat (a - dst)) else if unat (a - dst) = min n (unat sz - 1) then 0 else mem a))"
proof (cases "dst = 0 \<or> sz = 0")
  case True
  then show ?thesis by (auto simp: fmt_finish_def room_for_def)
next
  case False
  have u: "unat (of_nat n :: u64) = n" using n by (intro of_nat_inverse [OF refl]) simp
  have z: "unat sz \<noteq> 0" using False by (simp add: unat_eq_0)
  have l: "min n (unat sz - 1) < 2 ^ 64" using n by simp
  have p: "(if of_nat n < sz then of_nat n else sz - 1) = (of_nat (min n (unat sz - 1)) :: u64)"
  proof (cases "of_nat n < sz")
    case True
    then show ?thesis using u by (simp add: word_less_nat_alt)
  next
    case False
    then have "unat sz - 1 \<le> n" using u by (simp add: word_less_nat_alt)
    moreover have "unat (sz - 1) = unat sz - 1" using z by (simp add: unat_minus_one unat_eq_0)
    from arg_cong [OF this, of "of_nat :: nat \<Rightarrow> u64"] have "sz - 1 = of_nat (unat sz - 1)" by simp
    ultimately show ?thesis using False by simp
  qed
  let ?k = "min n (unat sz - 1)"
  have "f_mem (fmt_finish \<lparr>f_mem = blit dst f (min n (room_for dst sz)) mem, f_dst = dst, f_size = sz, f_pos = of_nat n, f_total = t\<rparr>) =
      (blit dst f ?k mem)(dst + of_nat ?k := 0)" using False p by (auto simp: fmt_finish_def room_for_def split: if_splits)
  also have "\<dots> = (blit dst (\<lambda>i. if i < ?k then f i else 0) ?k mem)(dst + of_nat ?k := (\<lambda>i. if i < ?k then f i else 0) ?k)"
    using blit_cong [of ?k f "\<lambda>i. if i < ?k then f i else 0" dst mem] by simp
  also have "\<dots> = blit dst (\<lambda>i. if i < ?k then f i else 0) (Suc ?k) mem" by (rule blit_Suc [OF l])
  finally show ?thesis using False by (auto simp: blit_def fun_eq_iff)
qed

section \<open>Decimal numbers\<close>

fun digits_value :: "u8 list \<Rightarrow> int" where
  "digits_value [] = 0"
| "digits_value (c # cs) = (uint c - 48) + 10 * digits_value cs"

lemma digit_uint:
  assumes "d < 10"
  shows "uint (fmt_digit False d) = 48 + uint d" and "fmt_is_digit (fmt_digit False d)"
proof -
  have d: "unat d < 10" using assms by (simp add: word_less_nat_alt)
  then have "unat (ucast d :: u8) = unat d" by (simp add: unsigned_ucast_eq take_bit_nat_eq_self)
  then have n: "unat (fmt_digit False d) = 48 + unat d" using assms d by (simp add: fmt_digit_def unat_word_ariths)
  from arg_cong [OF n, of int] show "uint (fmt_digit False d) = 48 + uint d" by simp
  show "fmt_is_digit (fmt_digit False d)" using d by (simp add: fmt_is_digit_def word_le_nat_alt n)
qed

lemma digits_of:
  "unat m < 10 ^ k \<Longrightarrow> k \<le> room \<Longrightarrow> digits_value (fmt_digits room m 10 False) = uint m \<and> length (fmt_digits room m 10 False) \<le> k \<and>
     (\<forall>c \<in> set (fmt_digits room m 10 False). fmt_is_digit c)"
proof (induction k arbitrary: m room)
  case 0
  then have "m = 0" by (simp add: unat_eq_0)
  then show ?case by (cases room) simp_all
next
  case (Suc k)
  obtain r where r: "room = Suc r" using Suc.prems(2) by (cases room) simp_all
  show ?case
  proof (cases "m = 0")
    case False
    have "unat (m div 10) = unat m div 10" by (simp add: unat_div)
    also have "\<dots> < 10 ^ k" using Suc.prems(1) by (simp add: div_less_iff_less_mult)
    finally have IH: "digits_value (fmt_digits r (m div 10) 10 False) = uint (m div 10) \<and> length (fmt_digits r (m div 10) 10 False) \<le> k \<and>
        (\<forall>c \<in> set (fmt_digits r (m div 10) 10 False). fmt_is_digit c)" using Suc.IH Suc.prems(2) r by simp
    have md: "m mod 10 < 10" by (simp add: word_less_nat_alt unat_mod)
    have "uint (m mod 10) + 10 * uint (m div 10) = uint m" by (simp add: uint_mod uint_div)
    then show ?thesis using False r IH digit_uint [OF md] by simp
  qed (simp add: r)
qed

text \<open>The bytes of a text in memory, with its terminating zero.\<close>

fun text_at :: "byte_mem \<Rightarrow> u64 \<Rightarrow> u8 list \<Rightarrow> bool" where
  "text_at mem s [] \<longleftrightarrow> mem s = 0"
| "text_at mem s (c # cs) \<longleftrightarrow> mem s = c \<and> text_at mem (s + 1) cs"

lemma atoi_digits_text:
  assumes "text_at mem s cs" and "\<forall>c \<in> set cs. fmt_is_digit c" and "0 \<le> acc" and "foldl (\<lambda>a c. a * 10 + (uint c - 48)) acc cs < 2 ^ 31"
  shows "atoi_digits s acc mem = Some (foldl (\<lambda>a c. a * 10 + (uint c - 48)) acc cs)"
  using assms
proof (induction cs arbitrary: s acc)
  case Nil
  then show ?case by (subst atoi_digits.simps) simp
next
  case (Cons c cs)
  let ?a = "acc * 10 + (uint c - 48)"
  have d: "c \<ge> 48" "c \<le> 57" using Cons.prems(2) by (simp_all add: fmt_is_digit_def)
  then have "uint c \<ge> 48" by (simp add: word_le_def)
  then have a: "0 \<le> ?a" using Cons.prems(3) by simp
  have ge: "b \<le> foldl (\<lambda>a c. a * 10 + (uint c - 48)) b ds" if "\<forall>c \<in> set ds. fmt_is_digit c" "0 \<le> b" for b ds
    using that
  proof (induction ds arbitrary: b)
    case (Cons e ds)
    have "uint e \<ge> 48" using Cons.prems(1) by (simp add: fmt_is_digit_def word_le_def)
    then have "b \<le> b * 10 + (uint e - 48)" "0 \<le> b * 10 + (uint e - 48)" using Cons.prems(2) by simp_all
    then show ?case using Cons.IH [of "b * 10 + (uint e - 48)"] Cons.prems(1) by simp
  qed simp
  have "?a < 2 ^ 31" using ge [of cs ?a] Cons.prems(2,4) a by simp
  then show ?case using Cons.IH [of "s + 1" ?a] Cons.prems a d by (subst atoi_digits.simps) (simp add: Let_def)
qed

lemma foldl_value: "foldl (\<lambda>a c. a * 10 + (uint c - 48)) 0 (rev ds) = digits_value ds"
  by (induction ds) (simp_all add: algebra_simps)

lemma text_in_buffer:
  assumes "length xs < 2 ^ 63" and "\<And>i. i < length xs \<Longrightarrow> mem (dst + of_nat i) = xs ! i" and "mem (dst + of_nat (length xs)) = 0"
  shows "text_at mem dst xs"
  using assms
proof (induction xs arbitrary: dst)
  case (Cons c cs)
  have "mem dst = c" using Cons.prems(2) [of 0] by simp
  moreover have "text_at mem (dst + 1) cs"
  proof (rule Cons.IH)
    show "mem (dst + 1 + of_nat i) = cs ! i" if "i < length cs" for i using Cons.prems(2) [of "Suc i"] that by (simp add: algebra_simps)
    show "mem (dst + 1 + of_nat (length cs)) = 0" using Cons.prems(3) by (simp add: algebra_simps)
  qed (use Cons.prems(1) in simp)
  ultimately show ?case by simp
qed simp

text \<open>The digits of a magnitude that fits an \<open>int\<close>.\<close>

lemma magnitude_text:
  assumes "unat m < 2 ^ 31"
  shows "fmt_uint_to_buf 32 m 10 False \<noteq> []" and "length (fmt_uint_to_buf 32 m 10 False) \<le> 10" and "\<forall>c \<in> set (fmt_uint_to_buf 32 m 10 False). fmt_is_digit c"
    and "foldl (\<lambda>a c. a * 10 + (uint c - 48)) 0 (fmt_uint_to_buf 32 m 10 False) = uint m"
proof -
  let ?ds = "fmt_digits 32 m 10 False" and ?b = "fmt_uint_to_buf 32 m 10 False"
  have d: "digits_value ?ds = uint m" "length ?ds \<le> 10" "\<forall>c \<in> set ?ds. fmt_is_digit c" using digits_of [of m 10 32] assms by simp_all
  have b: "?b = (if m = 0 then [48] else rev ?ds)" using d(2) by (simp add: fmt_uint_to_buf_def)
  have ne: "?ds \<noteq> []" if "m \<noteq> 0" using d(1) that by (auto simp: unsigned_eq_0_iff)
  show "?b \<noteq> []" "length ?b \<le> 10" "\<forall>c \<in> set ?b. fmt_is_digit c" "foldl (\<lambda>a c. a * 10 + (uint c - 48)) 0 ?b = uint m"
    using b d ne foldl_value [of ?ds] by (auto simp: fmt_is_digit_def)
qed

lemma atoi_text:
  assumes "s \<noteq> 0" and "text_at mem s (sign @ cs)" and "sign = [] \<or> sign = [45]" and "cs \<noteq> []" and "\<forall>c \<in> set cs. fmt_is_digit c"
    and "foldl (\<lambda>a c. a * 10 + (uint c - 48)) 0 cs = n" and "n < 2 ^ 31"
  shows "atoi s mem = Some (if sign = [] then n else - n)"
proof -
  obtain c ds where cs: "cs = c # ds" using assms(4) by (cases cs) simp_all
  have "c \<ge> 48" using assms(5) cs by (simp add: fmt_is_digit_def)
  then have nd: "c \<notin> {32, 9, 10, 13, 45, 43}" by auto
  have m: "mem s = (if sign = [] then c else 45)" using assms(2,3) cs by auto
  have skip: "atoi_skip s mem = Some s" using nd m by (subst atoi_skip.simps) auto
  show ?thesis
  proof (cases "sign = []")
    case True
    have "atoi_digits s 0 mem = Some n" using atoi_digits_text [of mem s cs 0] assms(2,5-7) True by simp
    then show ?thesis using True assms(1) skip nd m by (simp add: atoi_def)
  next
    case False
    then have "atoi_digits (s + 1) 0 mem = Some n" using atoi_digits_text [of mem "s + 1" cs 0] assms(2,3,5-7) by simp
    then show ?thesis using False assms(1) skip m by (simp add: atoi_def)
  qed
qed

lemma magnitude_int:
  fixes v :: u32
  defines "m \<equiv> (if (scast v :: u64) <s 0 then - ((scast v :: u64) + 1) + 1 else scast v)"
  assumes "v \<noteq> 0x80000000"
  shows "(scast v :: u64) <s 0 \<longleftrightarrow> sint v < 0" and "uint m = \<bar>sint v\<bar>" and "unat m < 2 ^ 31"
proof -
  have r: "- (2 ^ 31) \<le> sint v" "sint v < 2 ^ 31" using sint_ge [of v] sint_lt [of v] by simp_all
  have "- (2 ^ 63) \<le> sint v" "sint v < 2 ^ 63" using r by simp_all
  then have s: "sint (scast v :: u64) = sint v" by (simp add: signed_scast_eq signed_take_bit_int_eq_self)
  show neg: "(scast v :: u64) <s 0 \<longleftrightarrow> sint v < 0" by (simp add: word_sless_alt s)
  have "sint v \<noteq> - (2 ^ 31)"
  proof
    assume "sint v = - (2 ^ 31)"
    then have "sint v = sint (0x80000000 :: u32)" by simp
    then show False using assms(2) signed_word_eqI by blast
  qed
  then have a: "\<bar>sint v\<bar> < 2 ^ 31" using r by linarith
  have "m = word_of_int \<bar>sint v\<bar>" using neg by (simp add: m_def abs_if)
  then show u: "uint m = \<bar>sint v\<bar>" using a by (simp add: uint_word_of_int_eq take_bit_int_eq_self)
  have "int (unat m) < int (2 ^ 31)" using u a by simp
  then show "unat m < 2 ^ 31" by (simp only: of_nat_less_iff)
qed

lemma decimal_text:
  assumes "v \<noteq> 0x80000000"
  obtains sign cs where "fmt_text [37, 100] [Arg_int v] = Some (sign @ cs)" "sign = [] \<or> sign = [45]" "sign = [] \<longleftrightarrow> \<not> sint v < 0" "cs \<noteq> []" "length cs \<le> 10"
    "\<forall>c \<in> set cs. fmt_is_digit c" "foldl (\<lambda>a c. a * 10 + (uint c - 48)) 0 cs = \<bar>sint v\<bar>"
proof -
  let ?m = "if (scast v :: u64) <s 0 then - ((scast v :: u64) + 1) + 1 else scast v"
  let ?cs = "fmt_uint_to_buf 32 ?m 10 False" and ?sign = "if (scast v :: u64) <s 0 then [45] else []"
  note m = magnitude_int [OF assms]
  note t = magnitude_text [OF m(3)]
  have "fmt_text [37, 100] [Arg_int v] = Some (?sign @ ?cs)"
    by (simp add: fmt_parse_spec_def fmt_is_digit_def convert_text_def int_text_def fmt_int_to_buf_def Let_def fmt_pads_def)
  then show thesis using that [of ?sign ?cs] t m(1,2) by simp
qed

lemma printed_text:
  assumes "fmt_text fmt ap = Some xs" and l: "length xs < 2 ^ 64"
  shows "vsnprintf dst sz (Some fmt) ap mem = Some (cast_int (int (length xs)),
    if dst = 0 \<or> sz = 0 then mem
    else (\<lambda>a. if unat (a - dst) < min (length xs) (unat sz - 1) then xs ! unat (a - dst) else if unat (a - dst) = min (length xs) (unat sz - 1) then 0 else mem a))"
proof -
  have "unat (of_nat (length xs) :: u64) = length xs" using l by (intro of_nat_inverse [OF refl]) simp
  from arg_cong [OF this, of int] have u: "uint (of_nat (length xs) :: u64) = int (length xs)" by simp
  show ?thesis unfolding vsnprintf_def Let_def option.case loop_fold assms(1) option.map printed_state [OF l] finish_mem [OF l] fmt_out.simps u ..
qed

section \<open>Properties\<close>

text \<open>C22. The formatter is bounded and correct for every format, whatever the buffer: it returns the length of the text of the format, or nothing when an argument is missing or of the wrong type. Into a
  buffer that is not null and not empty it writes the text, or as much of it as leaves room for the terminating zero, then that zero, and nothing outside the buffer; into any other buffer it
  writes nothing.\<close>

theorem vsnprintf_bounded:
  assumes "\<forall>xs. fmt_text fmt ap = Some xs \<longrightarrow> length xs < 2 ^ 64"
  shows "vsnprintf dst sz (Some fmt) ap mem = map_option (\<lambda>xs. (cast_int (int (length xs)),
    if dst = 0 \<or> sz = 0 then mem
    else (\<lambda>a. if unat (a - dst) < min (length xs) (unat sz - 1) then xs ! unat (a - dst) else if unat (a - dst) = min (length xs) (unat sz - 1) then 0 else mem a)))
    (fmt_text fmt ap)"
proof (cases "fmt_text fmt ap")
  case None
  then show ?thesis by (simp add: vsnprintf_def loop_fold)
next
  case (Some xs)
  then show ?thesis using printed_text [OF Some] assms by simp
qed

text \<open>C24. A number that is printed is read back: for every \<open>int\<close> except the smallest, \<open>snprintf\<close> with \<open>"%d"\<close> into a buffer of at least 12 bytes returns, and \<open>atoi\<close> on the buffer
  returns the number, whatever the memory held before.\<close>

theorem printed_number_reads_back:
  assumes "v \<noteq> 0x80000000" and "dst \<noteq> 0" and "12 \<le> unat sz"
  shows "\<exists>rc mem'. vsnprintf dst sz (Some [37, 100]) [Arg_int v] mem = Some (rc, mem') \<and> atoi dst mem' = Some (sint v)"
proof -
  obtain sign cs where t: "fmt_text [37, 100] [Arg_int v] = Some (sign @ cs)" and sg: "sign = [] \<or> sign = [45]" "sign = [] \<longleftrightarrow> \<not> sint v < 0"
    and cs: "cs \<noteq> []" "length cs \<le> 10" "\<forall>c \<in> set cs. fmt_is_digit c" "foldl (\<lambda>a c. a * 10 + (uint c - 48)) 0 cs = \<bar>sint v\<bar>"
    by (rule decimal_text [OF assms(1)])
  let ?xs = "sign @ cs"
  have l: "length ?xs \<le> 11" using sg(1) cs(2) by auto
  let ?mem = "\<lambda>a. if unat (a - dst) < length ?xs then ?xs ! unat (a - dst) else if unat (a - dst) = length ?xs then 0 else mem a"
  have "length ?xs \<le> unat sz - 1" using l assms(3) by linarith
  then have k: "min (length ?xs) (unat sz - 1) = length ?xs" by (rule min_absorb1)
  have "length ?xs < 2 ^ 64" "sz \<noteq> 0" using l assms(3) by auto
  then have p: "vsnprintf dst sz (Some [37, 100]) [Arg_int v] mem = Some (cast_int (int (length ?xs)), ?mem)"
    using printed_text [OF t, of dst sz mem] assms(2) unfolding k by simp
  have u: "unat (dst + of_nat i - dst) = i" if "i \<le> 11" for i using that by (simp add: unat_of_nat take_bit_nat_eq_self)
  have "text_at ?mem dst ?xs"
  proof (rule text_in_buffer)
    show "?mem (dst + of_nat i) = ?xs ! i" if "i < length ?xs" for i unfolding u [OF less_imp_le [OF less_le_trans [OF that l]]] using that by simp
    show "?mem (dst + of_nat (length ?xs)) = 0" unfolding u [OF l] by simp
  qed (use l in simp)
  moreover have "\<bar>sint v\<bar> < 2 ^ 31" using magnitude_int(2,3) [OF assms(1)] by (metis of_nat_less_iff of_nat_numeral of_nat_power uint_nat)
  ultimately have "atoi dst ?mem = Some (if sign = [] then \<bar>sint v\<bar> else - \<bar>sint v\<bar>)" using atoi_text [OF assms(2) _ sg(1) cs(1,3,4)] by blast
  then show ?thesis using p sg(2) by auto
qed

theorem vsnprintf_bounded_witness:
  "\<exists>mem. vsnprintf 4096 3 (Some [97, 37, 120]) [Arg_int 0xbeef] (\<lambda>_. 7) = Some (5, mem) \<and> mem 4096 = 97 \<and> mem 4097 = 98 \<and> mem 4098 = 0 \<and> mem 4099 = 7 \<and> mem 4095 = 7"
proof -
  have "fmt_digits 32 0xbeef 16 False = [102, 101, 101, 98]" by code_simp
  then have t: "fmt_text [97, 37, 120] [Arg_int 0xbeef] = Some [97, 98, 101, 101, 102]"
    by (simp add: fmt_parse_spec_def fmt_is_digit_def convert_text_def uint_text_def padded_text_def fmt_uint_to_buf_def Let_def fmt_pads_def cast_int_def)
  then have "\<forall>xs. fmt_text [97, 37, 120] [Arg_int 0xbeef] = Some xs \<longrightarrow> length xs < 2 ^ 64" by simp
  note b = vsnprintf_bounded [OF this, of 4096 3 "\<lambda>_. 7", unfolded t option.map]
  have "unat (- 1 :: u64) = 2 ^ 64 - 1" by (simp add: unsigned_minus_1_eq_mask mask_eq_exp_minus_1)
  then show ?thesis unfolding b by (simp add: cast_int_def)
qed

theorem printed_number_reads_back_witness: "\<exists>rc mem'. vsnprintf 4096 16 (Some [37, 100]) [Arg_int (- 305)] (\<lambda>_. 7) = Some (rc, mem') \<and> atoi 4096 mem' = Some (- 305)"
  using printed_number_reads_back [of "- 305" 4096 16 "\<lambda>_. 7"] by simp

end
