(* ===== verification/Sched.thy ===== *)
theory Sched
  imports Prelude
begin

text \<open>
  Tasks, run queues and the scheduler: \<open>kernel/task.c\<close>, \<open>kernel/sched.c\<close> and the process system calls of
  \<open>kernel/sys_proc.c\<close>. Task structures live in a store and refer to each other by pointers; the null pointer is
  \<^const>\<open>None\<close>. A routine that works on the processor it runs on takes that processor as its first argument, the result of
  \<open>arch_task_get_cpu_local\<close>. The body of a routine between taking and releasing \<open>g_task_lock\<close> is one step. A failed
  \<open>KASSERT\<close> and a null dereference do not return. Registers, kernel stacks and the contents of the address space are not part of the
  state: what \<open>task_reap\<close> gives back is recorded in \<open>freed\<close> and \<open>destroyed\<close>, and interprocessor interrupts in
  \<open>ipis\<close>.
\<close>

unbundle bit_operations_syntax

section \<open>State\<close>

datatype task_state = TASK_RUNNING | TASK_READY | TASK_SLEEPING | TASK_IO_WAIT | TASK_ZOMBIE | TASK_DEAD

type_synonym tref = nat

record task =
  t_pid :: int
  t_ppid :: int
  t_pgid :: int
  t_sid :: int
  t_sig_pending :: u64
  t_sig_mask :: u64
  t_sig_handlers :: "nat \<Rightarrow> u64"
  t_exit_status :: int
  t_state :: task_state
  t_cpu_affinity :: u32
  t_kstack_top :: u64
  t_address_space :: u64
  t_deferred_cr3 :: u64
  t_sleep_until_ms :: u64
  t_timeslice_ticks :: int
  t_next :: "tref option"
  t_runq_prev :: "tref option"
  t_runq_next :: "tref option"
  t_wait_next :: "tref option"
  t_wait_queue :: "nat option"
  t_on_runq :: bool
  t_on_cpu :: bool

record cpu_local =
  cpu_id :: u32
  current_task :: "tref option"
  idle_task :: "tref option"
  runq_head :: "tref option"
  runq_tail :: "tref option"
  resched_pending :: bool
  runq_count :: u32
  switched_from :: "tref option"

record sched =
  tasks :: "tref \<Rightarrow> task"
  cpus :: "u32 \<Rightarrow> cpu_local"
  g_cpu_count :: u32
  task_list :: "tref option"
  next_pid :: int
  g_fork_spread_enabled :: bool
  next_cpu :: u32
  smp_cpu_count :: u32
  smp_started_cpu_count :: u32
  smp_started :: "u32 \<Rightarrow> bool"
  kernel_address_space :: u64
  ipis :: "u32 list"
  freed :: "tref list"
  destroyed :: "u64 list"

definition set_task :: "tref \<Rightarrow> (task \<Rightarrow> task) \<Rightarrow> 'a sched_scheme \<Rightarrow> 'a sched_scheme" where
  "set_task t f s = s\<lparr>tasks := (tasks s)(t := f (tasks s t))\<rparr>"

definition set_cpu :: "u32 \<Rightarrow> (cpu_local \<Rightarrow> cpu_local) \<Rightarrow> 'a sched_scheme \<Rightarrow> 'a sched_scheme" where
  "set_cpu c f s = s\<lparr>cpus := (cpus s)(c := f (cpus s c))\<rparr>"

abbreviation task_st :: "'a sched_scheme \<Rightarrow> tref \<Rightarrow> task_state" where
  "task_st s t \<equiv> t_state (tasks s t)"

section \<open>Processors\<close>

definition ORTHOX_MAX_CPUS :: u32 where
  "ORTHOX_MAX_CPUS = 64"

definition TASK_TIMESLICE_TICKS :: int where
  "TASK_TIMESLICE_TICKS = 5"

definition get_cpu_local_by_id :: "u32 \<Rightarrow> 'a sched_scheme \<Rightarrow> u32 option" where
  "get_cpu_local_by_id c s = (if c \<ge> g_cpu_count s \<or> c \<ge> ORTHOX_MAX_CPUS then None else Some c)"

definition task_set_cpu_count :: "u32 \<Rightarrow> 'a sched_scheme \<Rightarrow> 'a sched_scheme" where
  "task_set_cpu_count n s =
     (let n1 = (if n = 0 then 1 else n); n2 = (if n1 > ORTHOX_MAX_CPUS then ORTHOX_MAX_CPUS else n1)
      in s\<lparr>g_cpu_count := n2\<rparr>)"

definition normalize_cpu_affinity :: "u32 \<Rightarrow> 'a sched_scheme \<Rightarrow> u32" where
  "normalize_cpu_affinity c s = (let n = (if g_cpu_count s = 0 then 1 else g_cpu_count s) in if c \<ge> n then 0 else c)"

definition init_cpu_local :: "u32 \<Rightarrow> u32 \<Rightarrow> tref option \<Rightarrow> tref option \<Rightarrow> 'a sched_scheme \<Rightarrow> 'a sched_scheme" where
  "init_cpu_local cpu i cur idle s =
     set_cpu cpu (\<lambda>k. k\<lparr>cpu_id := i, current_task := cur, idle_task := idle, runq_head := None, runq_tail := None,
       resched_pending := False, runq_count := 0\<rparr>) s"

definition task_bind_cpu_local :: "u32 \<Rightarrow> tref option \<Rightarrow> tref option \<Rightarrow> 'a sched_scheme \<Rightarrow> 'a sched_scheme" where
  "task_bind_cpu_local c cur idle s =
     (case get_cpu_local_by_id c s of
        None \<Rightarrow> s
      | Some cpu \<Rightarrow>
          let s1 = init_cpu_local cpu c cur idle s
          in (case cur of None \<Rightarrow> s1 | Some t \<Rightarrow> set_task t (\<lambda>k. k\<lparr>t_on_cpu := True\<rparr>) s1))"

definition task_get_ready_cpu_locked :: "u32 \<Rightarrow> 'a sched_scheme \<Rightarrow> u32 option" where
  "task_get_ready_cpu_locked c s = get_cpu_local_by_id (normalize_cpu_affinity c s) s"

definition task_finish_switch :: "u32 option \<Rightarrow> 'a sched_scheme \<Rightarrow> 'a sched_scheme" where
  "task_finish_switch me s =
     (case me of
        None \<Rightarrow> s
      | Some c \<Rightarrow>
          (case switched_from (cpus s c) of
             None \<Rightarrow> s
           | Some prev \<Rightarrow> set_task prev (\<lambda>k. k\<lparr>t_on_cpu := False\<rparr>) (set_cpu c (\<lambda>k. k\<lparr>switched_from := None\<rparr>) s)))"

section \<open>Run queues\<close>

definition task_is_idle_task :: "tref \<Rightarrow> 'a sched_scheme \<Rightarrow> bool" where
  "task_is_idle_task t s \<longleftrightarrow> t_pid (tasks s t) = 0"

datatype task_migration_reason = TASK_MIGRATE_OK | TASK_MIGRATE_BLOCK_NULL | TASK_MIGRATE_BLOCK_IDLE
  | TASK_MIGRATE_BLOCK_NOT_READY | TASK_MIGRATE_BLOCK_NOT_ON_RUNQ

definition task_migration_reason_locked :: "tref option \<Rightarrow> 'a sched_scheme \<Rightarrow> task_migration_reason" where
  "task_migration_reason_locked p s =
     (case p of
        None \<Rightarrow> TASK_MIGRATE_BLOCK_NULL
      | Some t \<Rightarrow>
          if task_is_idle_task t s then TASK_MIGRATE_BLOCK_IDLE
          else if task_st s t \<noteq> TASK_READY then TASK_MIGRATE_BLOCK_NOT_READY
          else if \<not> t_on_runq (tasks s t) then TASK_MIGRATE_BLOCK_NOT_ON_RUNQ
          else TASK_MIGRATE_OK)"

definition task_can_migrate_locked :: "tref option \<Rightarrow> 'a sched_scheme \<Rightarrow> bool" where
  "task_can_migrate_locked p s \<longleftrightarrow> task_migration_reason_locked p s = TASK_MIGRATE_OK"

definition runq_unlink :: "tref \<Rightarrow> u32 \<Rightarrow> 'a sched_scheme \<Rightarrow> 'a sched_scheme" where
  "runq_unlink t c s =
     (let s1 = (case t_runq_prev (tasks s t) of
                  Some p \<Rightarrow> set_task p (\<lambda>k. k\<lparr>t_runq_next := t_runq_next (tasks s t)\<rparr>) s
                | None \<Rightarrow> set_cpu c (\<lambda>k. k\<lparr>runq_head := t_runq_next (tasks s t)\<rparr>) s);
          s2 = (case t_runq_next (tasks s1 t) of
                  Some n \<Rightarrow> set_task n (\<lambda>k. k\<lparr>t_runq_prev := t_runq_prev (tasks s1 t)\<rparr>) s1
                | None \<Rightarrow> set_cpu c (\<lambda>k. k\<lparr>runq_tail := t_runq_prev (tasks s1 t)\<rparr>) s1);
          s3 = set_task t (\<lambda>k. k\<lparr>t_runq_prev := None, t_runq_next := None, t_on_runq := False\<rparr>) s2
      in set_cpu c (\<lambda>k. if runq_count k > 0 then k\<lparr>runq_count := runq_count k - 1\<rparr> else k) s3)"

definition task_runq_remove_locked :: "tref option \<Rightarrow> 'a sched_scheme \<Rightarrow> 'a sched_scheme option" where
  "task_runq_remove_locked p s =
     (case p of
        None \<Rightarrow> Some s
      | Some t \<Rightarrow>
          if \<not> t_on_runq (tasks s t) then Some s
          else if task_st s t \<noteq> TASK_READY then None
          else map_option (\<lambda>c. runq_unlink t c s) (task_get_ready_cpu_locked (t_cpu_affinity (tasks s t)) s))"

definition runq_append :: "tref \<Rightarrow> u32 \<Rightarrow> u32 \<Rightarrow> 'a sched_scheme \<Rightarrow> 'a sched_scheme" where
  "runq_append t i c s =
     (let s1 = set_task t (\<lambda>k. k\<lparr>t_cpu_affinity := i, t_runq_prev := runq_tail (cpus s c), t_runq_next := None\<rparr>) s;
          s2 = (case runq_tail (cpus s1 c) of
                  Some x \<Rightarrow> set_task x (\<lambda>k. k\<lparr>t_runq_next := Some t\<rparr>) s1
                | None \<Rightarrow> set_cpu c (\<lambda>k. k\<lparr>runq_head := Some t\<rparr>) s1);
          s3 = set_cpu c (\<lambda>k. k\<lparr>runq_tail := Some t\<rparr>) s2;
          s4 = set_task t (\<lambda>k. k\<lparr>t_on_runq := True\<rparr>) s3
      in set_cpu c (\<lambda>k. k\<lparr>runq_count := runq_count k + 1\<rparr>) s4)"

definition task_runq_push_locked :: "tref option \<Rightarrow> u32 \<Rightarrow> 'a sched_scheme \<Rightarrow> 'a sched_scheme option" where
  "task_runq_push_locked p target s =
     (case p of
        None \<Rightarrow> Some s
      | Some t \<Rightarrow>
          if task_is_idle_task t s then Some s
          else if task_st s t \<noteq> TASK_READY then None
          else let i = normalize_cpu_affinity target s in
          do {
            s1 \<leftarrow> (if t_on_runq (tasks s t) then task_runq_remove_locked p s else Some s);
            (case task_get_ready_cpu_locked i s1 of
               None \<Rightarrow> Some s1
             | Some c \<Rightarrow>
                 let s2 = runq_append t i c s1
                 in if runq_head (cpus s2 c) = None \<or> runq_tail (cpus s2 c) = None then None else Some s2)
          })"

definition task_runq_pop_locked :: "u32 option \<Rightarrow> 'a sched_scheme \<Rightarrow> (tref option \<times> 'a sched_scheme) option" where
  "task_runq_pop_locked me s =
     (case me of
        None \<Rightarrow> Some (None, s)
      | Some c \<Rightarrow>
          (case runq_head (cpus s c) of
             None \<Rightarrow> Some (None, s)
           | Some t \<Rightarrow> map_option (\<lambda>s'. (Some t, s')) (task_runq_remove_locked (Some t) s)))"

definition task_set_affinity_locked :: "tref option \<Rightarrow> u32 \<Rightarrow> 'a sched_scheme \<Rightarrow> (int \<times> 'a sched_scheme) option" where
  "task_set_affinity_locked p target s =
     (case p of
        None \<Rightarrow> Some (-1, s)
      | Some t \<Rightarrow>
          let i = normalize_cpu_affinity target s in
          if \<not> task_can_migrate_locked p s then Some (if t_cpu_affinity (tasks s t) = i then 0 else -1, s)
          else map_option (\<lambda>s'. (0, s')) (task_runq_push_locked p i s))"

section \<open>States of a task\<close>

definition task_mark_ready_on_cpu_locked :: "tref option \<Rightarrow> u32 \<Rightarrow> 'a sched_scheme \<Rightarrow> (int \<times> 'a sched_scheme) option" where
  "task_mark_ready_on_cpu_locked p target s =
     (case p of
        None \<Rightarrow> Some (-1, s)
      | Some t \<Rightarrow>
          if task_is_idle_task t s then Some (-1, s)
          else if task_st s t = TASK_ZOMBIE \<or> task_st s t = TASK_DEAD then Some (-1, s)
          else map_option (\<lambda>s'. (0, s'))
            (task_runq_push_locked p target (set_task t (\<lambda>k. k\<lparr>t_state := TASK_READY, t_sleep_until_ms := 0\<rparr>) s)))"

definition task_mark_sleeping_locked :: "tref option \<Rightarrow> 'a sched_scheme \<Rightarrow> (int \<times> 'a sched_scheme) option" where
  "task_mark_sleeping_locked p s =
     (case p of
        None \<Rightarrow> Some (-1, s)
      | Some t \<Rightarrow> map_option (\<lambda>s'. (0, set_task t (\<lambda>k. k\<lparr>t_sleep_until_ms := 0, t_state := TASK_SLEEPING\<rparr>) s'))
          (task_runq_remove_locked p s))"

definition task_mark_io_wait_until_locked :: "tref option \<Rightarrow> u64 \<Rightarrow> 'a sched_scheme \<Rightarrow> (int \<times> 'a sched_scheme) option" where
  "task_mark_io_wait_until_locked p deadline s =
     (case p of
        None \<Rightarrow> Some (-1, s)
      | Some t \<Rightarrow> map_option (\<lambda>s'. (0, set_task t (\<lambda>k. k\<lparr>t_sleep_until_ms := deadline, t_state := TASK_IO_WAIT\<rparr>) s'))
          (task_runq_remove_locked p s))"

definition task_mark_io_wait_locked :: "tref option \<Rightarrow> 'a sched_scheme \<Rightarrow> (int \<times> 'a sched_scheme) option" where
  "task_mark_io_wait_locked p s =
     (case p of
        None \<Rightarrow> Some (-1, s)
      | Some t \<Rightarrow> map_option (\<lambda>s'. (0, set_task t (\<lambda>k. k\<lparr>t_sleep_until_ms := 0, t_state := TASK_IO_WAIT\<rparr>) s'))
          (task_runq_remove_locked p s))"

definition task_mark_zombie_locked :: "tref option \<Rightarrow> int \<Rightarrow> 'a sched_scheme \<Rightarrow> (int \<times> 'a sched_scheme) option" where
  "task_mark_zombie_locked p status s =
     (case p of
        None \<Rightarrow> Some (-1, s)
      | Some t \<Rightarrow> map_option (\<lambda>s'. (0, set_task t (\<lambda>k. k\<lparr>t_exit_status := status, t_state := TASK_ZOMBIE\<rparr>) s'))
          (task_runq_remove_locked p s))"

definition task_wake_locked :: "tref option \<Rightarrow> 'a sched_scheme \<Rightarrow> (int \<times> 'a sched_scheme) option" where
  "task_wake_locked p s =
     (case p of
        None \<Rightarrow> Some (-1, s)
      | Some t \<Rightarrow>
          if task_st s t = TASK_ZOMBIE \<or> task_st s t = TASK_DEAD then Some (-1, s)
          else let s1 = set_task t (\<lambda>k. k\<lparr>t_sleep_until_ms := 0\<rparr>) s
               in task_mark_ready_on_cpu_locked p (t_cpu_affinity (tasks s1 t)) s1)"

definition task_cancel_sleep :: "tref option \<Rightarrow> 'a sched_scheme \<Rightarrow> int \<times> 'a sched_scheme" where
  "task_cancel_sleep p s =
     (case p of
        None \<Rightarrow> (-1, s)
      | Some t \<Rightarrow>
          if task_st s t = TASK_SLEEPING \<or> task_st s t = TASK_IO_WAIT
          then (0, set_task t (\<lambda>k. k\<lparr>t_sleep_until_ms := 0, t_state := TASK_RUNNING\<rparr>) s)
          else (-1, s))"

section \<open>Requests to reschedule\<close>

definition smp_send_resched_ipi :: "u32 \<Rightarrow> 'a sched_scheme \<Rightarrow> 'a sched_scheme" where
  "smp_send_resched_ipi c s = (if c \<ge> smp_cpu_count s \<or> \<not> smp_started s c then s else s\<lparr>ipis := ipis s @ [c]\<rparr>)"

definition task_request_resched :: "u32 option \<Rightarrow> 'a sched_scheme \<Rightarrow> 'a sched_scheme" where
  "task_request_resched me s = (case me of None \<Rightarrow> s | Some c \<Rightarrow> set_cpu c (\<lambda>k. k\<lparr>resched_pending := True\<rparr>) s)"

definition task_request_resched_cpu :: "u32 option \<Rightarrow> u32 \<Rightarrow> 'a sched_scheme \<Rightarrow> 'a sched_scheme" where
  "task_request_resched_cpu me i s =
     (case get_cpu_local_by_id i s of
        None \<Rightarrow> s
      | Some c \<Rightarrow>
          let s1 = set_cpu c (\<lambda>k. k\<lparr>resched_pending := True\<rparr>) s
          in if (case me of None \<Rightarrow> True | Some m \<Rightarrow> cpu_id (cpus s1 m) \<noteq> i) then smp_send_resched_ipi i s1 else s1)"

definition task_consume_resched :: "u32 option \<Rightarrow> 'a sched_scheme \<Rightarrow> bool \<times> 'a sched_scheme" where
  "task_consume_resched me s =
     (case me of
        None \<Rightarrow> (False, s)
      | Some c \<Rightarrow> if \<not> resched_pending (cpus s c) then (False, s) else (True, set_cpu c (\<lambda>k. k\<lparr>resched_pending := False\<rparr>) s))"

definition task_mark_ready_on_cpu :: "u32 option \<Rightarrow> tref option \<Rightarrow> u32 \<Rightarrow> 'a sched_scheme \<Rightarrow> (int \<times> 'a sched_scheme) option" where
  "task_mark_ready_on_cpu me p i s =
     (let target = normalize_cpu_affinity i s in
      do { (r, s1) \<leftarrow> task_mark_ready_on_cpu_locked p target s;
           Some (r, if r \<ge> 0 then task_request_resched_cpu me target s1 else s1) })"

definition task_wake :: "u32 option \<Rightarrow> tref option \<Rightarrow> 'a sched_scheme \<Rightarrow> (int \<times> 'a sched_scheme) option" where
  "task_wake me p s =
     (case p of
        None \<Rightarrow> Some (-1, s)
      | Some t \<Rightarrow>
          do { (r, s1) \<leftarrow> task_wake_locked p s;
               Some (if r < 0 then (r, s1)
                     else (0, task_request_resched_cpu me (normalize_cpu_affinity (t_cpu_affinity (tasks s1 t)) s1) s1)) })"

section \<open>The scheduler\<close>

text \<open>\<open>schedule\<close> up to the change of stacks; the first component of the result is the task whose context is resumed, \<^const>\<open>None\<close>
  when the caller simply goes on. What follows in the code, \<open>task_finish_switch\<close>, runs in the resumed task.\<close>

definition schedule_to :: "u32 \<Rightarrow> tref \<Rightarrow> tref \<Rightarrow> 'a sched_scheme \<Rightarrow> (tref option \<times> 'a sched_scheme) option" where
  "schedule_to c prev nx s =
     (if nx = prev then Some (None, set_task nx (\<lambda>k. k\<lparr>t_state := TASK_RUNNING\<rparr>) s)
      else do {
        s1 \<leftarrow> (if task_st s prev = TASK_RUNNING \<and> \<not> task_is_idle_task prev s
                then map_option snd (task_mark_ready_on_cpu_locked (Some prev) (t_cpu_affinity (tasks s prev)) s)
                else Some s);
        let s2 = set_cpu c (\<lambda>k. k\<lparr>current_task := Some nx\<rparr>) s1;
        let s3 = set_task nx (\<lambda>k. k\<lparr>t_on_runq := False, t_state := TASK_RUNNING,
                   t_timeslice_ticks := (if t_timeslice_ticks k \<le> 0 then TASK_TIMESLICE_TICKS else t_timeslice_ticks k),
                   t_on_cpu := True\<rparr>) s2;
        Some (Some nx, set_cpu c (\<lambda>k. k\<lparr>switched_from := Some prev\<rparr>) s3)
      })"

definition schedule :: "u32 option \<Rightarrow> 'a sched_scheme \<Rightarrow> (tref option \<times> 'a sched_scheme) option" where
  "schedule me s =
     (case me of
        None \<Rightarrow> Some (None, s)
      | Some c \<Rightarrow>
          (case current_task (cpus s c) of
             None \<Rightarrow> Some (None, s)
           | Some cur \<Rightarrow>
               do {
                 (nx, s1) \<leftarrow> task_runq_pop_locked me (task_finish_switch me s);
                 (case nx of
                    Some n \<Rightarrow> schedule_to c cur n s1
                  | None \<Rightarrow>
                      if task_st s1 cur = TASK_RUNNING then Some (None, s1)
                      else (case idle_task (cpus s1 c) of None \<Rightarrow> None | Some n \<Rightarrow> schedule_to c cur n s1))
               }))"

section \<open>Walks over the list of all tasks\<close>

partial_function (option) each_task ::
  "(tref \<Rightarrow> 'b \<times> 'a sched_scheme \<Rightarrow> ('b \<times> 'a sched_scheme) option) \<Rightarrow> tref option \<Rightarrow> 'b \<times> 'a sched_scheme \<Rightarrow> ('b \<times> 'a sched_scheme) option" where
  "each_task f p x =
     (case p of
        None \<Rightarrow> Some x
      | Some t \<Rightarrow> do { x' \<leftarrow> f t x; each_task f (t_next (tasks (snd x') t)) x' })"

partial_function (option) find_task :: "(task \<Rightarrow> bool) \<Rightarrow> tref option \<Rightarrow> 'a sched_scheme \<Rightarrow> tref option option" where
  "find_task P p s =
     (case p of
        None \<Rightarrow> Some None
      | Some t \<Rightarrow> if P (tasks s t) then Some (Some t) else find_task P (t_next (tasks s t)) s)"

definition poll_sleep_step :: "u64 \<Rightarrow> tref \<Rightarrow> (u64 \<times> int) \<times> 'a sched_scheme \<Rightarrow> ((u64 \<times> int) \<times> 'a sched_scheme) option" where
  "poll_sleep_step now t x =
     (let ((woken_cpus, woken), s) = x; k = tasks s t in
      if (t_state k = TASK_SLEEPING \<or> t_state k = TASK_IO_WAIT) \<and> t_sleep_until_ms k \<noteq> 0 \<and> t_sleep_until_ms k \<le> now
      then do {
        (r, s1) \<leftarrow> task_wake_locked (Some t) (set_task t (\<lambda>k. k\<lparr>t_sleep_until_ms := 0\<rparr>) s);
        Some (if r \<ge> 0
              then let target = normalize_cpu_affinity (t_cpu_affinity (tasks s1 t)) s1
                   in ((if target < 64 then woken_cpus OR push_bit (unat target) 1 else woken_cpus, woken + 1), s1)
              else ((woken_cpus, woken), s1))
      }
      else Some x)"

definition task_poll_sleep_wakeups :: "u32 option \<Rightarrow> u64 \<Rightarrow> 'a sched_scheme \<Rightarrow> (int \<times> 'a sched_scheme) option" where
  "task_poll_sleep_wakeups me now s =
     do {
       ((woken_cpus, woken), s1) \<leftarrow> each_task (poll_sleep_step now) (task_list s) ((0, 0), s);
       Some (woken, fold (\<lambda>i s. if bit woken_cpus i then task_request_resched_cpu me (of_nat i) s else s) [0..<64] s1)
     }"

definition task_on_timer_tick :: "u32 option \<Rightarrow> u64 \<Rightarrow> 'a sched_scheme \<Rightarrow> 'a sched_scheme option" where
  "task_on_timer_tick me now s =
     do {
       let cur = (case me of None \<Rightarrow> None | Some c \<Rightarrow> current_task (cpus s c));
       s1 \<leftarrow> (case me of
                 None \<Rightarrow> Some s
               | Some c \<Rightarrow> if cpu_id (cpus s c) = 0 then map_option snd (task_poll_sleep_wakeups me now s) else Some s);
       (case cur of
          None \<Rightarrow> Some s1
        | Some t \<Rightarrow>
            if task_st s1 t \<noteq> TASK_RUNNING then Some s1
            else if t_timeslice_ticks (tasks s1 t) > 1
            then Some (set_task t (\<lambda>k. k\<lparr>t_timeslice_ticks := t_timeslice_ticks k - 1\<rparr>) s1)
            else Some (task_request_resched me (set_task t (\<lambda>k. k\<lparr>t_timeslice_ticks := TASK_TIMESLICE_TICKS\<rparr>) s1)))
     }"

section \<open>Placing tasks on processors\<close>

definition task_cpu_load_locked :: "u32 \<Rightarrow> 'a sched_scheme \<Rightarrow> u32" where
  "task_cpu_load_locked i s =
     (case get_cpu_local_by_id i s of
        None \<Rightarrow> -1
      | Some c \<Rightarrow>
          let cpu = cpus s c in
          if (case current_task cpu of None \<Rightarrow> False | Some t \<Rightarrow> current_task cpu \<noteq> idle_task cpu \<and> task_st s t = TASK_RUNNING)
          then runq_count cpu + 1 else runq_count cpu)"

definition started_cpus :: "'a sched_scheme \<Rightarrow> u32" where
  "started_cpus s =
     (let n = (if g_cpu_count s = 0 then 1 else g_cpu_count s)
      in if smp_started_cpu_count s = 0 \<or> smp_started_cpu_count s > n then n else smp_started_cpu_count s)"

definition less_loaded :: "'a sched_scheme \<Rightarrow> u32 \<Rightarrow> u32 \<times> u32 \<Rightarrow> u32 \<times> u32" where
  "less_loaded s i best =
     (if i < smp_cpu_count s \<and> smp_started s i \<and> task_cpu_load_locked i s < snd best then (i, task_cpu_load_locked i s) else best)"

definition task_choose_rebalance_cpu_locked :: "u32 \<Rightarrow> 'a sched_scheme \<Rightarrow> u32" where
  "task_choose_rebalance_cpu_locked fallback s =
     (let best = normalize_cpu_affinity fallback s
      in fst (fold (\<lambda>i. less_loaded s (of_nat i)) [0..<unat (started_cpus s)] (best, task_cpu_load_locked best s)))"

definition task_rebalance_ready_task_locked :: "tref option \<Rightarrow> 'a sched_scheme \<Rightarrow> (u32 \<times> 'a sched_scheme) option" where
  "task_rebalance_ready_task_locked p s =
     (case p of
        None \<Rightarrow> Some (0, s)
      | Some t \<Rightarrow>
          let curr_cpu = normalize_cpu_affinity (t_cpu_affinity (tasks s t)) s in
          if \<not> task_can_migrate_locked p s then Some (curr_cpu, s)
          else let best = task_choose_rebalance_cpu_locked curr_cpu s in
          if best = curr_cpu then Some (curr_cpu, s)
          else if task_cpu_load_locked curr_cpu s \<le> task_cpu_load_locked best s + 1 then Some (curr_cpu, s)
          else do { s1 \<leftarrow> task_runq_push_locked p best s;
                    Some (normalize_cpu_affinity (t_cpu_affinity (tasks s1 t)) s1, s1) })"

definition choose_spawn_cpu_locked :: "u32 \<Rightarrow> 'a sched_scheme \<Rightarrow> u32 \<times> 'a sched_scheme" where
  "choose_spawn_cpu_locked fallback s =
     (let started = started_cpus s in
      if started \<le> 1 then (normalize_cpu_affinity fallback s, s)
      else let first = normalize_cpu_affinity fallback s;
               best = fst (fold (\<lambda>a. less_loaded s ((next_cpu s + of_nat a) mod started)) [0..<unat started] (first, task_cpu_load_locked first s))
           in (best, s\<lparr>next_cpu := (best + 1) mod started\<rparr>))"

definition task_choose_fork_cpu_locked :: "u32 \<Rightarrow> 'a sched_scheme \<Rightarrow> u32 \<times> 'a sched_scheme" where
  "task_choose_fork_cpu_locked fallback s =
     (if g_fork_spread_enabled s then choose_spawn_cpu_locked fallback s else (normalize_cpu_affinity fallback s, s))"

section \<open>New tasks\<close>

text \<open>\<open>alloc_task_struct\<close> clears the structure; \<open>umask\<close> and the fields of user mode are not part of the model.\<close>

definition zero_task :: task where
  "zero_task = \<lparr>t_pid = 0, t_ppid = 0, t_pgid = 0, t_sid = 0, t_sig_pending = 0, t_sig_mask = 0, t_sig_handlers = (\<lambda>_. 0),
     t_exit_status = 0, t_state = TASK_RUNNING, t_cpu_affinity = 0, t_kstack_top = 0, t_address_space = 0, t_deferred_cr3 = 0,
     t_sleep_until_ms = 0, t_timeslice_ticks = 0, t_next = None, t_runq_prev = None, t_runq_next = None, t_wait_next = None,
     t_wait_queue = None, t_on_runq = False, t_on_cpu = False\<rparr>"

definition fork_child :: "task \<Rightarrow> u64 \<Rightarrow> u64 \<Rightarrow> task" where
  "fork_child parent child_as kstack_top =
     zero_task\<lparr>t_ppid := t_pid parent, t_pgid := t_pgid parent, t_sid := t_sid parent, t_sig_pending := 0, t_sig_mask := t_sig_mask parent,
       t_sig_handlers := t_sig_handlers parent, t_timeslice_ticks := TASK_TIMESLICE_TICKS, t_address_space := child_as,
       t_kstack_top := kstack_top\<rparr>"

text \<open>The end of \<open>task_fork\<close>, once the structure, the address space, the kernel stack and the descriptors of the child exist.\<close>

definition task_fork_publish :: "u32 option \<Rightarrow> tref \<Rightarrow> tref \<Rightarrow> 'a sched_scheme \<Rightarrow> (int \<times> 'a sched_scheme) option" where
  "task_fork_publish me parent child s =
     do {
       let s1 = set_task child (\<lambda>k. k\<lparr>t_pid := next_pid s\<rparr>) s\<lparr>next_pid := next_pid s + 1\<rparr>;
       let (spawn_cpu, s2) = task_choose_fork_cpu_locked (t_cpu_affinity (tasks s1 parent)) s1;
       (_, s3) \<leftarrow> task_mark_ready_on_cpu_locked (Some child) spawn_cpu s2;
       let s4 = (set_task child (\<lambda>k. k\<lparr>t_next := task_list s3\<rparr>) s3)\<lparr>task_list := Some child\<rparr>;
       (_, s5) \<leftarrow> task_rebalance_ready_task_locked (Some child) s4;
       let s6 = task_request_resched_cpu me (t_cpu_affinity (tasks s5 child)) s5;
       Some (t_pid (tasks s6 child), s6)
     }"

text \<open>\<open>task_create_on_cpu\<close> with what the allocators return: the structure, the top of the kernel stack, the address space (0 when there is
  none).\<close>

definition task_create_on_cpu :: "tref option \<Rightarrow> u64 \<Rightarrow> u64 \<Rightarrow> u32 \<Rightarrow> 'a sched_scheme \<Rightarrow> (tref option \<times> 'a sched_scheme) option" where
  "task_create_on_cpu p kstack_top user_as target s =
     (case p of
        None \<Rightarrow> Some (None, s)
      | Some t \<Rightarrow>
          do {
            let s1 = set_task t (\<lambda>_. zero_task\<lparr>t_pid := next_pid s, t_pgid := next_pid s, t_sid := next_pid s\<rparr>) s\<lparr>next_pid := next_pid s + 1\<rparr>;
            (_, s2) \<leftarrow> task_mark_ready_on_cpu_locked p target s1;
            let s3 = set_task t (\<lambda>k. k\<lparr>t_timeslice_ticks := TASK_TIMESLICE_TICKS, t_kstack_top := kstack_top\<rparr>) s2;
            if user_as = 0 then Some (None, s3)
            else Some (p, (set_task t (\<lambda>k. k\<lparr>t_address_space := user_as, t_next := task_list s3\<rparr>) s3)\<lparr>task_list := p\<rparr>)
          })"

section \<open>Signals, death and reaping\<close>

definition LINUX_SIGCHLD :: int where
  "LINUX_SIGCHLD = 17"

definition task_find_by_pid :: "int \<Rightarrow> 'a sched_scheme \<Rightarrow> tref option option" where
  "task_find_by_pid pid s = find_task (\<lambda>k. t_pid k = pid) (task_list s) s"

definition task_set_pgid :: "int \<Rightarrow> int \<Rightarrow> 'a sched_scheme \<Rightarrow> (int \<times> 'a sched_scheme) option" where
  "task_set_pgid pid pgid s =
     do { p \<leftarrow> find_task (\<lambda>k. t_pid k = pid) (task_list s) s;
          Some (case p of None \<Rightarrow> (-1, s) | Some t \<Rightarrow> (0, set_task t (\<lambda>k. k\<lparr>t_pgid := pgid\<rparr>) s)) }"

text \<open>A signal is marked pending unless it is ignored, and wakes a sleeping task.\<close>

definition deliver :: "int \<Rightarrow> tref \<Rightarrow> 'a sched_scheme \<Rightarrow> 'a sched_scheme option" where
  "deliver sig t s =
     (if sig < 32 \<and> t_sig_handlers (tasks s t) (nat sig) = 1 then Some s
      else let s1 = set_task t (\<lambda>k. k\<lparr>t_sig_pending := t_sig_pending k OR push_bit (nat sig) 1\<rparr>) s
           in if task_st s1 t = TASK_SLEEPING then map_option snd (task_wake_locked (Some t) s1) else Some s1)"

definition task_signal_pid :: "int \<Rightarrow> int \<Rightarrow> bool \<Rightarrow> int \<Rightarrow> int \<Rightarrow> 'a sched_scheme \<Rightarrow> (int \<times> 'a sched_scheme) option" where
  "task_signal_pid pid sig terminate status parent_sig s =
     do {
       p \<leftarrow> find_task (\<lambda>k. t_pid k = pid) (task_list s) s;
       (case p of
          None \<Rightarrow> Some (-1, s)
        | Some t \<Rightarrow>
            if 0 < sig \<and> sig < 64 then do {
              s1 \<leftarrow> deliver sig t s;
              if terminate then do {
                (_, s2) \<leftarrow> task_mark_zombie_locked p status s1;
                if t_ppid (tasks s2 t) > 0 \<and> 0 < parent_sig \<and> parent_sig < 64 then do {
                  q \<leftarrow> find_task (\<lambda>k. t_pid k = t_ppid (tasks s2 t)) (task_list s2) s2;
                  (case q of None \<Rightarrow> Some (0, s2) | Some r \<Rightarrow> map_option (\<lambda>s'. (0, s')) (deliver parent_sig r s2))
                } else Some (0, s2)
              } else Some (0, s1)
            } else Some (0, s))
     }"

definition kill_pgrp_step :: "int \<Rightarrow> int \<Rightarrow> int \<Rightarrow> int \<Rightarrow> tref \<Rightarrow> int list \<times> 'a sched_scheme \<Rightarrow> (int list \<times> 'a sched_scheme) option" where
  "kill_pgrp_step pgid exclude sig status t x =
     (let (pids, s) = x; k = tasks s t in
      if t_pgid k \<noteq> pgid \<or> t_pid k = exclude \<or> t_state k = TASK_ZOMBIE \<or> t_state k = TASK_DEAD then Some x
      else do {
        (_, s1) \<leftarrow> task_mark_zombie_locked (Some t) status
                     (set_task t (\<lambda>k. k\<lparr>t_sig_pending := t_sig_pending k OR push_bit (nat sig) 1\<rparr>) s);
        Some (pids @ [t_pid (tasks s1 t)], s1)
      })"

text \<open>The result is the list of all the victims; the caller's array holds the first \<open>max\<close> of them.\<close>

definition task_kill_pgrp :: "int \<Rightarrow> int \<Rightarrow> int \<Rightarrow> int \<Rightarrow> 'a sched_scheme \<Rightarrow> (int list \<times> 'a sched_scheme) option" where
  "task_kill_pgrp pgid exclude sig status s = each_task (kill_pgrp_step pgid exclude sig status) (task_list s) ([], s)"

partial_function (option) find_zombie_loop :: "int \<Rightarrow> int \<Rightarrow> bool \<Rightarrow> tref option \<Rightarrow> 'a sched_scheme \<Rightarrow> (tref option \<times> bool) option" where
  "find_zombie_loop parent pid found p s =
     (case p of
        None \<Rightarrow> Some (None, found)
      | Some t \<Rightarrow>
          let k = tasks s t in
          if t_ppid k \<noteq> parent \<or> (pid \<noteq> -1 \<and> t_pid k \<noteq> pid) then find_zombie_loop parent pid found (t_next k) s
          else if t_state k = TASK_ZOMBIE then Some (p, True)
          else find_zombie_loop parent pid True (t_next k) s)"

definition task_find_zombie_child :: "int \<Rightarrow> int \<Rightarrow> 'a sched_scheme \<Rightarrow> (tref option \<times> bool) option" where
  "task_find_zombie_child parent pid s = find_zombie_loop parent pid False (task_list s) s"

text \<open>A link is the head of the list (\<^const>\<open>None\<close>) or the \<open>next\<close> field of a task.\<close>

definition link_get :: "tref option \<Rightarrow> 'a sched_scheme \<Rightarrow> tref option" where
  "link_get l s = (case l of None \<Rightarrow> task_list s | Some x \<Rightarrow> t_next (tasks s x))"

definition link_set :: "tref option \<Rightarrow> tref option \<Rightarrow> 'a sched_scheme \<Rightarrow> 'a sched_scheme" where
  "link_set l p s = (case l of None \<Rightarrow> s\<lparr>task_list := p\<rparr> | Some x \<Rightarrow> set_task x (\<lambda>k. k\<lparr>t_next := p\<rparr>) s)"

partial_function (option) find_link :: "tref \<Rightarrow> tref option \<Rightarrow> 'a sched_scheme \<Rightarrow> tref option option" where
  "find_link t l s = (case link_get l s of None \<Rightarrow> Some l | Some x \<Rightarrow> if x = t then Some l else find_link t (Some x) s)"

definition page_aligned :: "u64 \<Rightarrow> bool" where
  "page_aligned a \<longleftrightarrow> a AND 0xfff = 0"

definition task_release :: "tref \<Rightarrow> 'a sched_scheme \<Rightarrow> 'a sched_scheme" where
  "task_release t s =
     (let k = tasks s t;
          d1 = (if t_deferred_cr3 k \<noteq> 0 \<and> t_deferred_cr3 k \<noteq> kernel_address_space s then [t_deferred_cr3 k] else []);
          d2 = (if t_address_space k \<noteq> 0 \<and> t_address_space k \<noteq> kernel_address_space s then [t_address_space k] else [])
      in set_task t (\<lambda>k. k\<lparr>t_state := TASK_DEAD, t_deferred_cr3 := (if d1 = [] then t_deferred_cr3 k else 0),
             t_address_space := (if d2 = [] then t_address_space k else 0), t_kstack_top := 0, t_next := None, t_runq_prev := None,
             t_runq_next := None, t_on_runq := False\<rparr>) (s\<lparr>destroyed := destroyed s @ d1 @ d2, freed := freed s @ [t]\<rparr>))"

definition task_reap_locked :: "tref option \<Rightarrow> 'a sched_scheme \<Rightarrow> (int \<times> 'a sched_scheme) option" where
  "task_reap_locked p s =
     (case p of
        None \<Rightarrow> Some (-1, s)
      | Some t \<Rightarrow>
          if task_st s t \<noteq> TASK_ZOMBIE \<and> task_st s t \<noteq> TASK_DEAD then Some (-1, s)
          else if t_on_cpu (tasks s t) then Some (-1, s)
          else if task_is_idle_task t s \<or> \<not> page_aligned (t_kstack_top (tasks s t)) \<or>
                  t_address_space (tasks s t) = 0 \<or> \<not> page_aligned (t_address_space (tasks s t)) then None
          else do {
            s1 \<leftarrow> task_runq_remove_locked p s;
            l \<leftarrow> find_link t None s1;
            if link_get l s1 \<noteq> p then Some (-1, s1)
            else Some (0, task_release t (link_set l (t_next (tasks s1 t)) s1))
          })"

text \<open>\<open>task_reap\<close> first waits, without the lock, until the task is off its processor; as long as it is not, the call does not return.\<close>

definition task_reap :: "tref option \<Rightarrow> 'a sched_scheme \<Rightarrow> (int \<times> 'a sched_scheme) option" where
  "task_reap p s = (if (case p of None \<Rightarrow> False | Some t \<Rightarrow> t_on_cpu (tasks s t)) then None else task_reap_locked p s)"

definition orphan_step :: "int \<Rightarrow> tref \<Rightarrow> unit \<times> 'a sched_scheme \<Rightarrow> (unit \<times> 'a sched_scheme) option" where
  "orphan_step pid t x =
     (let s = snd x in
      Some ((), if t_ppid (tasks s t) = pid \<and> task_st s t \<noteq> TASK_ZOMBIE then set_task t (\<lambda>k. k\<lparr>t_ppid := 1\<rparr>) s else s))"

partial_function (option) reap_zombies :: "int \<Rightarrow> 'a sched_scheme \<Rightarrow> 'a sched_scheme option" where
  "reap_zombies pid s =
     do {
       (z, _) \<leftarrow> task_find_zombie_child pid (-1) s;
       (case z of
          None \<Rightarrow> Some s
        | Some t \<Rightarrow> do { (r, s1) \<leftarrow> task_reap z s; if r < 0 then Some s1 else reap_zombies pid s1 })
     }"

definition task_reap_orphans_of :: "int \<Rightarrow> 'a sched_scheme \<Rightarrow> 'a sched_scheme option" where
  "task_reap_orphans_of pid s = do { (_, s1) \<leftarrow> each_task (orphan_step pid) (task_list s) ((), s); reap_zombies pid s1 }"

definition sys_kill :: "u32 option \<Rightarrow> int \<Rightarrow> int \<Rightarrow> 'a sched_scheme \<Rightarrow> (int \<times> 'a sched_scheme) option" where
  "sys_kill me pid sig s =
     (let cur = (case me of None \<Rightarrow> None | Some c \<Rightarrow> current_task (cpus s c)) in
      if pid = 0 \<and> cur = None then Some (-3, s)
      else let pid1 = (if pid = 0 then t_pid (tasks s (the cur)) else pid) in
      if pid1 \<le> 0 then Some (0, s)
      else do { (r, s1) \<leftarrow> task_signal_pid pid1 sig (sig = 2 \<or> sig = 15 \<or> sig = 9) (128 + sig) LINUX_SIGCHLD s;
                Some (if r = 0 then 0 else -3, s1) })"

end
