(* ===== verification/SchedInv.thy ===== *)
theory SchedInv
  imports Sched
begin

text \<open>
  The doubly linked run queues implement queues: one list of tasks for each processor. The invariant of the scheduler says where a task can be: on one
  run queue, on one processor, or blocked.
\<close>

section \<open>Linked lists\<close>

fun chain :: "('a \<Rightarrow> 'a option) \<Rightarrow> 'a option \<Rightarrow> 'a list \<Rightarrow> bool" where
  "chain n p [] \<longleftrightarrow> p = None"
| "chain n p (x # xs) \<longleftrightarrow> p = Some x \<and> chain n (n x) xs"

definition first :: "'a list \<Rightarrow> 'a option" where
  "first xs = (case xs of [] \<Rightarrow> None | x # _ \<Rightarrow> Some x)"

lemma first_simps [simp]: "first [] = None" "first (x # xs) = Some x"
  by (simp_all add: first_def)

lemma first_append: "first (xs @ ys) = (if xs = [] then first ys else first xs)"
  by (cases xs) simp_all

lemma first_rev: "first (rev xs) = (if xs = [] then None else Some (last xs))"
  by (cases xs rule: rev_cases) simp_all

lemma first_in: "first xs = Some x \<Longrightarrow> x \<in> set xs"
  by (cases xs) simp_all

lemma chain_first: "chain n p xs \<Longrightarrow> p = first xs"
  by (cases xs) simp_all

lemma chain_cong: "(\<And>x. x \<in> set xs \<Longrightarrow> n x = m x) \<Longrightarrow> chain n p xs = chain m p xs"
  by (induction xs arbitrary: p) simp_all

lemma chain_next: "chain n p (as @ t # bs) \<Longrightarrow> n t = first bs"
proof (induction as arbitrary: p)
  case Nil
  then show ?case by (auto dest: chain_first)
qed simp

lemma chain_del:
  assumes "chain n p (as @ t # bs)" and "distinct (as @ t # bs)"
    and "\<And>x. x \<in> set (as @ bs) \<Longrightarrow> m x = (if first (rev as) = Some x then n t else n x)"
  shows "chain m (if as = [] then n t else p) (as @ bs)"
  using assms
proof (induction as arbitrary: p)
  case Nil
  then have "chain n (n t) bs" by simp
  then show ?case using Nil.prems(3) chain_cong [of bs n m "n t"] by simp
next
  case (Cons a as)
  have fr: "first (rev (a # as)) = (if as = [] then Some a else first (rev as))" by (simp add: first_append first_rev)
  have a: "a \<notin> set (as @ bs)" "a \<noteq> t" using Cons.prems(2) by auto
  have "m x = (if first (rev as) = Some x then n t else n x)" if x: "x \<in> set (as @ bs)" for x
  proof -
    have "x \<noteq> a" using x a by auto
    then show ?thesis using Cons.prems(3) [of x] x fr by (cases "as = []") auto
  qed
  then have "chain m (if as = [] then n t else n a) (as @ bs)" using Cons.IH [of "n a"] Cons.prems(1,2) by simp
  moreover have "m a = (if as = [] then n t else n a)"
    using Cons.prems(3) [of a] fr a first_in [of "rev as" a] by (auto split: if_splits)
  ultimately show ?case using Cons.prems(1) by simp
qed

lemma chain_snoc:
  assumes "chain n p xs" and "x \<notin> set xs" and "distinct xs" and "m x = None"
    and "\<And>y. y \<in> set xs \<Longrightarrow> m y = (if first (rev xs) = Some y then Some x else n y)"
  shows "chain m (if xs = [] then Some x else p) (xs @ [x])"
  using assms
proof (induction xs arbitrary: p)
  case (Cons a xs)
  have fr: "first (rev (a # xs)) = (if xs = [] then Some a else first (rev xs))" by (simp add: first_append first_rev)
  have "m y = (if first (rev xs) = Some y then Some x else n y)" if y: "y \<in> set xs" for y
    using Cons.prems(3,5) y fr by (cases "xs = []") auto
  then have "chain m (if xs = [] then Some x else n a) (xs @ [x])" using Cons.IH [of "n a"] Cons.prems(1-4) by simp
  moreover have "m a = (if xs = [] then Some x else n a)"
    using Cons.prems(3,5) fr first_in [of "rev xs" a] by (auto split: if_splits)
  ultimately show ?case using Cons.prems(1) by simp
qed simp

lemma chain_unique: "chain n p xs \<Longrightarrow> chain n p ys \<Longrightarrow> xs = ys"
proof (induction xs arbitrary: p ys)
  case Nil
  then show ?case by (cases ys) simp_all
next
  case (Cons a xs)
  then show ?case by (cases ys) auto
qed

section \<open>Fields of the updated state\<close>

lemma set_task_simps [simp]:
  "tasks (set_task t f s) x = (if x = t then f (tasks s t) else tasks s x)"
  "cpus (set_task t f s) = cpus s" "g_cpu_count (set_task t f s) = g_cpu_count s" "task_list (set_task t f s) = task_list s"
  "next_pid (set_task t f s) = next_pid s" "freed (set_task t f s) = freed s"
  "sched.more (set_task t f s) = sched.more s"
  by (simp_all add: set_task_def)

lemma set_cpu_simps [simp]:
  "cpus (set_cpu c f s) d = (if d = c then f (cpus s c) else cpus s d)"
  "tasks (set_cpu c f s) = tasks s" "g_cpu_count (set_cpu c f s) = g_cpu_count s" "task_list (set_cpu c f s) = task_list s"
  "next_pid (set_cpu c f s) = next_pid s" "freed (set_cpu c f s) = freed s"
  "sched.more (set_cpu c f s) = sched.more s"
  by (simp_all add: set_cpu_def)

text \<open>What every operation of the scheduler leaves alone.\<close>

definition same_frame :: "'a sched_scheme \<Rightarrow> 'a sched_scheme \<Rightarrow> bool" where
  "same_frame s s' \<longleftrightarrow> g_cpu_count s' = g_cpu_count s \<and> task_list s' = task_list s \<and> next_pid s' = next_pid s \<and> freed s' = freed s
     \<and> sched.more s' = sched.more s"

lemma same_frame_refl [simp]: "same_frame s s"
  by (simp add: same_frame_def)

lemma same_frame_trans: "same_frame s s' \<Longrightarrow> same_frame s' s'' \<Longrightarrow> same_frame s s''"
  by (simp add: same_frame_def)

lemma same_frame_set [simp]: "same_frame s (set_task t f s') = same_frame s s'" "same_frame s (set_cpu c g s') = same_frame s s'"
  by (simp_all add: same_frame_def)

text \<open>A task and a processor without their places on run queues.\<close>

definition body :: "task \<Rightarrow> task" where
  "body k = k\<lparr>t_runq_prev := None, t_runq_next := None, t_on_runq := False\<rparr>"

definition cpu_body :: "cpu_local \<Rightarrow> cpu_local" where
  "cpu_body k = k\<lparr>runq_head := None, runq_tail := None, runq_count := 0\<rparr>"

lemma body_fields:
  assumes "body k = body k'"
  shows "t_pid k = t_pid k'" "t_ppid k = t_ppid k'" "t_pgid k = t_pgid k'" "t_state k = t_state k'" "t_cpu_affinity k = t_cpu_affinity k'"
    "t_on_cpu k = t_on_cpu k'" "t_next k = t_next k'" "t_wait_next k = t_wait_next k'" "t_wait_queue k = t_wait_queue k'"
    "t_sleep_until_ms k = t_sleep_until_ms k'" "t_timeslice_ticks k = t_timeslice_ticks k'" "t_address_space k = t_address_space k'"
    "t_kstack_top k = t_kstack_top k'"
  using assms by (cases k; cases k'; simp add: body_def)+

lemma cpu_body_fields:
  assumes "cpu_body k = cpu_body k'"
  shows "cpu_id k = cpu_id k'" "current_task k = current_task k'" "idle_task k = idle_task k'" "resched_pending k = resched_pending k'"
    "switched_from k = switched_from k'"
  using assms by (cases k; cases k'; simp add: cpu_body_def)+

text \<open>Only places on run queues differ.\<close>

definition same_core :: "'a sched_scheme \<Rightarrow> 'a sched_scheme \<Rightarrow> bool" where
  "same_core s s' \<longleftrightarrow> same_frame s s' \<and> (\<forall>x. body (tasks s' x) = body (tasks s x)) \<and> (\<forall>c. cpu_body (cpus s' c) = cpu_body (cpus s c))"

lemma same_core_refl [simp]: "same_core s s"
  by (simp add: same_core_def)

lemma unlink_tasks:
  assumes "t_runq_prev (tasks s t) \<noteq> Some t" and "t_runq_next (tasks s t) \<noteq> Some t"
  shows "tasks (runq_unlink t c s) x = (tasks s x)\<lparr>
      t_runq_prev := (if x = t then None else if t_runq_next (tasks s t) = Some x then t_runq_prev (tasks s t) else t_runq_prev (tasks s x)),
      t_runq_next := (if x = t then None else if t_runq_prev (tasks s t) = Some x then t_runq_next (tasks s t) else t_runq_next (tasks s x)),
      t_on_runq := (x \<noteq> t \<and> t_on_runq (tasks s x))\<rparr>"
  using assms by (auto simp: runq_unlink_def Let_def split: option.splits)

lemma unlink_cpus:
  assumes "t_runq_prev (tasks s t) \<noteq> Some t"
  shows "cpus (runq_unlink t c s) d = (if d = c then (cpus s c)\<lparr>
      runq_head := (if t_runq_prev (tasks s t) = None then t_runq_next (tasks s t) else runq_head (cpus s c)),
      runq_tail := (if t_runq_next (tasks s t) = None then t_runq_prev (tasks s t) else runq_tail (cpus s c)),
      runq_count := (if runq_count (cpus s c) > 0 then runq_count (cpus s c) - 1 else runq_count (cpus s c))\<rparr> else cpus s d)"
  using assms by (auto simp: runq_unlink_def Let_def split: option.splits)

lemma unlink_frame [simp]: "same_frame s' (runq_unlink t c s) = same_frame s' s"
  by (auto simp: runq_unlink_def Let_def split: option.splits)

lemma append_tasks:
  assumes "runq_tail (cpus s c) \<noteq> Some t"
  shows "tasks (runq_append t i c s) x = (tasks s x)\<lparr>
      t_cpu_affinity := (if x = t then i else t_cpu_affinity (tasks s x)),
      t_runq_prev := (if x = t then runq_tail (cpus s c) else t_runq_prev (tasks s x)),
      t_runq_next := (if x = t then None else if runq_tail (cpus s c) = Some x then Some t else t_runq_next (tasks s x)),
      t_on_runq := (x = t \<or> t_on_runq (tasks s x))\<rparr>"
  using assms by (auto simp: runq_append_def Let_def split: option.splits)

lemma append_cpus:
  "cpus (runq_append t i c s) d = (if d = c then (cpus s c)\<lparr>
      runq_head := (if runq_tail (cpus s c) = None then Some t else runq_head (cpus s c)), runq_tail := Some t,
      runq_count := runq_count (cpus s c) + 1\<rparr> else cpus s d)"
  by (auto simp: runq_append_def Let_def split: option.splits)

lemma append_frame [simp]: "same_frame s' (runq_append t i c s) = same_frame s' s"
  by (auto simp: runq_append_def Let_def split: option.splits)

section \<open>Run queues are queues\<close>

type_synonym runqs = "u32 \<Rightarrow> tref list"

definition q_remove :: "tref \<Rightarrow> runqs \<Rightarrow> runqs" where
  "q_remove t Q = (\<lambda>c. removeAll t (Q c))"

definition q_push :: "tref \<Rightarrow> u32 \<Rightarrow> runqs \<Rightarrow> runqs" where
  "q_push t c Q = (q_remove t Q)(c := removeAll t (Q c) @ [t])"

definition queue_ok :: "'a sched_scheme \<Rightarrow> u32 \<Rightarrow> tref list \<Rightarrow> bool" where
  "queue_ok s c xs \<longleftrightarrow>
     chain (\<lambda>x. t_runq_next (tasks s x)) (runq_head (cpus s c)) xs \<and> chain (\<lambda>x. t_runq_prev (tasks s x)) (runq_tail (cpus s c)) (rev xs) \<and>
     distinct xs \<and> length xs < 2 ^ 32 \<and> runq_count (cpus s c) = of_nat (length xs) \<and> (\<forall>t \<in> set xs. t_cpu_affinity (tasks s t) = c)"

definition runq_rel :: "'a sched_scheme \<Rightarrow> runqs \<Rightarrow> bool" where
  "runq_rel s Q \<longleftrightarrow>
     0 < g_cpu_count s \<and> g_cpu_count s \<le> ORTHOX_MAX_CPUS \<and>
     (\<forall>c. if c < g_cpu_count s then queue_ok s c (Q c) else Q c = []) \<and>
     (\<forall>t. t_on_runq (tasks s t) \<longleftrightarrow> (\<exists>c. t \<in> set (Q c))) \<and>
     (\<forall>t. t_on_runq (tasks s t) \<longrightarrow> task_st s t = TASK_READY \<and> t_pid (tasks s t) \<noteq> 0)"

lemma runq_relD:
  assumes "runq_rel s Q"
  shows "0 < g_cpu_count s" "g_cpu_count s \<le> ORTHOX_MAX_CPUS" "c < g_cpu_count s \<Longrightarrow> queue_ok s c (Q c)" "\<not> c < g_cpu_count s \<Longrightarrow> Q c = []"
    "t_on_runq (tasks s t) \<longleftrightarrow> (\<exists>c. t \<in> set (Q c))" "t_on_runq (tasks s t) \<Longrightarrow> task_st s t = TASK_READY"
    "t_on_runq (tasks s t) \<Longrightarrow> t_pid (tasks s t) \<noteq> 0"
proof -
  show "c < g_cpu_count s \<Longrightarrow> queue_ok s c (Q c)" and "\<not> c < g_cpu_count s \<Longrightarrow> Q c = []"
    using assms unfolding runq_rel_def by (metis (full_types))+
qed (use assms in \<open>auto simp: runq_rel_def\<close>)

lemma queue_member:
  assumes "runq_rel s Q" and "t \<in> set (Q c)"
  shows "c < g_cpu_count s" "t_cpu_affinity (tasks s t) = c" "t_on_runq (tasks s t)"
proof -
  show c: "c < g_cpu_count s" using runq_relD(4) [OF assms(1), of c] assms(2) by force
  show "t_cpu_affinity (tasks s t) = c" using runq_relD(3) [OF assms(1) c] assms(2) by (simp add: queue_ok_def)
  show "t_on_runq (tasks s t)" using runq_relD(5) [OF assms(1)] assms(2) by blast
qed

lemma queue_of: "runq_rel s Q \<Longrightarrow> t_on_runq (tasks s t) \<Longrightarrow> t \<in> set (Q (t_cpu_affinity (tasks s t)))"
  using runq_relD(5) queue_member(2) by blast

lemma normalize_id: "c < g_cpu_count s \<Longrightarrow> normalize_cpu_affinity c s = c"
  by (auto simp: normalize_cpu_affinity_def Let_def)

lemma normalize_less: "runq_rel s Q \<Longrightarrow> normalize_cpu_affinity i s < g_cpu_count s"
  using runq_relD(1) [of s Q] by (auto simp: normalize_cpu_affinity_def Let_def)

lemma ready_cpu: "runq_rel s Q \<Longrightarrow> c < g_cpu_count s \<Longrightarrow> task_get_ready_cpu_locked c s = Some c"
  using runq_relD(2) [of s Q] by (auto simp: task_get_ready_cpu_locked_def get_cpu_local_by_id_def normalize_id)

lemma queue_ok_cong:
  assumes "queue_ok s c xs"
    and "\<And>t. t \<in> set xs \<Longrightarrow> t_runq_next (tasks s' t) = t_runq_next (tasks s t)"
    and "\<And>t. t \<in> set xs \<Longrightarrow> t_runq_prev (tasks s' t) = t_runq_prev (tasks s t)"
    and "\<And>t. t \<in> set xs \<Longrightarrow> t_cpu_affinity (tasks s' t) = t_cpu_affinity (tasks s t)"
    and "runq_head (cpus s' c) = runq_head (cpus s c)" "runq_tail (cpus s' c) = runq_tail (cpus s c)" "runq_count (cpus s' c) = runq_count (cpus s c)"
  shows "queue_ok s' c xs"
  using assms chain_cong [of xs "\<lambda>x. t_runq_next (tasks s x)" "\<lambda>x. t_runq_next (tasks s' x)"]
    chain_cong [of "rev xs" "\<lambda>x. t_runq_prev (tasks s x)" "\<lambda>x. t_runq_prev (tasks s' x)"]
  by (simp add: queue_ok_def)

lemma queue_links:
  assumes "queue_ok s c (as @ t # bs)"
  shows "t_runq_next (tasks s t) = first bs" and "t_runq_prev (tasks s t) = first (rev as)"
    and "t_runq_next (tasks s t) \<noteq> Some t" and "t_runq_prev (tasks s t) \<noteq> Some t"
proof -
  show n: "t_runq_next (tasks s t) = first bs" using assms chain_next by (fastforce simp: queue_ok_def)
  have "chain (\<lambda>x. t_runq_prev (tasks s x)) (runq_tail (cpus s c)) (rev bs @ t # rev as)" using assms by (simp add: queue_ok_def)
  then show p: "t_runq_prev (tasks s t) = first (rev as)" by (rule chain_next)
  have "t \<notin> set bs" "t \<notin> set (rev as)" using assms by (auto simp: queue_ok_def)
  then show "t_runq_next (tasks s t) \<noteq> Some t" "t_runq_prev (tasks s t) \<noteq> Some t" using n p first_in by metis+
qed

lemma unlink_queue:
  assumes q: "queue_ok s c (as @ t # bs)"
  shows "queue_ok (runq_unlink t c s) c (as @ bs)"
proof -
  note l = queue_links [OF q]
  note upd = unlink_tasks [OF l(4,3)] unlink_cpus [OF l(4)]
  have d: "distinct (as @ t # bs)" and len: "length (as @ t # bs) < 2 ^ 32" using q by (simp_all add: queue_ok_def)
  have n: "chain (\<lambda>x. t_runq_next (tasks s x)) (runq_head (cpus s c)) (as @ t # bs)" using q by (simp add: queue_ok_def)
  have p: "chain (\<lambda>x. t_runq_prev (tasks s x)) (runq_tail (cpus s c)) (rev bs @ t # rev as)" using q by (simp add: queue_ok_def)
  have pd: "distinct (rev bs @ t # rev as)" using d by auto
  have "chain (\<lambda>x. t_runq_next (tasks (runq_unlink t c s) x)) (if as = [] then t_runq_next (tasks s t) else runq_head (cpus s c)) (as @ bs)"
    by (rule chain_del [OF n d]) (use d in \<open>auto simp: upd l(1,2)\<close>)
  moreover have "chain (\<lambda>x. t_runq_prev (tasks (runq_unlink t c s) x)) (if rev bs = [] then t_runq_prev (tasks s t) else runq_tail (cpus s c)) (rev bs @ rev as)"
    by (rule chain_del [OF p pd]) (use d in \<open>auto simp: upd l(1,2)\<close>)
  moreover have "first bs = None \<longleftrightarrow> bs = []" "first (rev as) = None \<longleftrightarrow> as = []" by (cases bs; simp) (simp add: first_rev)
  moreover have "(0 :: u32) < of_nat (length (as @ t # bs))"
  proof -
    have "unat (of_nat (length (as @ t # bs)) :: u32) = length (as @ t # bs)" using len by (intro of_nat_inverse [OF refl]) simp
    then have "unat (of_nat (length (as @ t # bs)) :: u32) \<noteq> 0" by (simp only: length_append list.size)
    then show ?thesis by (simp only: unat_gt_0 unat_eq_0 word_gt_0)  qed
  ultimately show ?thesis using q len d l(1,2) by (auto simp: queue_ok_def upd)
qed

lemma q_remove_member: "t \<in> set (q_remove u Q c) \<longleftrightarrow> t \<noteq> u \<and> t \<in> set (Q c)"
  by (auto simp: q_remove_def)

lemma unlink_rel:
  assumes r: "runq_rel s Q" and t: "t \<in> set (Q c)"
  shows "runq_rel (runq_unlink t c s) (q_remove t Q)"
proof -
  note m = queue_member [OF r t]
  obtain as bs where ab: "Q c = as @ t # bs" "t \<notin> set as" using split_list_first [OF t] by blast
  have q: "queue_ok s c (as @ t # bs)" using runq_relD(3) [OF r m(1)] ab by simp
  have "t \<notin> set bs" using q by (simp add: queue_ok_def)
  then have ra: "removeAll t (Q c) = as @ bs" using ab by simp
  note l = queue_links [OF q]
  note upd = unlink_tasks [OF l(4,3)] unlink_cpus [OF l(4)]
  have other: "queue_ok (runq_unlink t c s) d (removeAll t (Q d))" if d: "d < g_cpu_count s" "d \<noteq> c" for d
  proof -
    have x: "x \<noteq> t" "x \<notin> set (as @ bs)" if "x \<in> set (Q d)" for x
      using queue_member(2) [OF r that] queue_member(2) [OF r, of x c] m(2) d(2) ab by auto
    then have nx: "first bs \<noteq> Some x" "first (rev as) \<noteq> Some x" if "x \<in> set (Q d)" for x
      using that first_in [of bs x] first_in [of "rev as" x] by auto
    have "t \<notin> set (Q d)" using x(1) by blast
    then have "removeAll t (Q d) = Q d" by simp
    moreover have "queue_ok (runq_unlink t c s) d (Q d)"
      by (rule queue_ok_cong [OF runq_relD(3) [OF r d(1)]]) (use d(2) x nx in \<open>simp_all add: upd l(1,2)\<close>)
    ultimately show ?thesis by simp
  qed
  have fr: "g_cpu_count (runq_unlink t c s) = g_cpu_count s" using unlink_frame [of s t c s] by (simp add: same_frame_def)
  have "queue_ok (runq_unlink t c s) d (q_remove t Q d)" if "d < g_cpu_count s" for d
    using other [OF that] unlink_queue [OF q] ra by (cases "d = c") (simp_all add: q_remove_def)
  then show ?thesis
    using runq_relD [OF r] unfolding runq_rel_def fr by (auto simp: q_remove_def upd)
qed

lemma unlink_core:
  assumes r: "runq_rel s Q" and t: "t \<in> set (Q c)"
  shows "same_core s (runq_unlink t c s)"
proof -
  obtain as bs where "Q c = as @ t # bs" using split_list [OF t] by blast
  then have q: "queue_ok s c (as @ t # bs)" using runq_relD(3) [OF r queue_member(1) [OF r t]] by simp
  note l = queue_links [OF q]
  show ?thesis unfolding same_core_def by (simp add: unlink_tasks [OF l(4,3)] unlink_cpus [OF l(4)] body_def cpu_body_def)
qed

lemma q_remove_id: "(\<And>c. t \<notin> set (Q c)) \<Longrightarrow> q_remove t Q = Q"
  by (simp add: q_remove_def)

lemma remove_rel:
  assumes "runq_rel s Q"
  shows "ok (task_runq_remove_locked (Some t) s) (\<lambda>s'. runq_rel s' (q_remove t Q) \<and> same_core s s')"
proof (cases "t_on_runq (tasks s t)")
  case True
  note t = queue_of [OF assms True]
  show ?thesis
    using True unlink_rel [OF assms t] unlink_core [OF assms t] runq_relD(6) [OF assms True] ready_cpu [OF assms queue_member(1) [OF assms t]]
    by (simp add: task_runq_remove_locked_def)
next
  case False
  then have "q_remove t Q = Q" using runq_relD(5) [OF assms, of t] by (intro q_remove_id) auto
  then show ?thesis using False assms by (simp add: task_runq_remove_locked_def)
qed

lemma append_queue:
  assumes q: "queue_ok s c xs" and t: "t \<notin> set xs" and len: "length xs + 1 < 2 ^ 32"
  shows "queue_ok (runq_append t c c s) c (xs @ [t])"
proof -
  have tl: "runq_tail (cpus s c) = first (rev xs)" using q chain_first by (fastforce simp: queue_ok_def)
  then have nt: "runq_tail (cpus s c) \<noteq> Some t" using t first_in [of "rev xs" t] by auto
  note upd = append_tasks [OF nt] append_cpus
  have d: "distinct xs" and n: "chain (\<lambda>x. t_runq_next (tasks s x)) (runq_head (cpus s c)) xs"
    and p: "chain (\<lambda>x. t_runq_prev (tasks s x)) (runq_tail (cpus s c)) (rev xs)" using q by (simp_all add: queue_ok_def)
  have "chain (\<lambda>x. t_runq_next (tasks (runq_append t c c s) x)) (if xs = [] then Some t else runq_head (cpus s c)) (xs @ [t])"
    by (rule chain_snoc [OF n t d]) (use t in \<open>auto simp: upd tl\<close>)
  moreover have "chain (\<lambda>x. t_runq_prev (tasks (runq_append t c c s) x)) (runq_tail (cpus s c)) (rev xs)"
    using p chain_cong [of "rev xs" "\<lambda>x. t_runq_prev (tasks s x)" "\<lambda>x. t_runq_prev (tasks (runq_append t c c s) x)"] t by (force simp: upd)
  moreover have "first (rev xs) = None \<longleftrightarrow> xs = []" by (simp add: first_rev)
  ultimately show ?thesis using q t len by (simp add: queue_ok_def upd tl)
qed

lemma append_rel:
  assumes r: "runq_rel s Q" and c: "c < g_cpu_count s" and t: "\<not> t_on_runq (tasks s t)" "task_st s t = TASK_READY" "t_pid (tasks s t) \<noteq> 0"
    and len: "length (Q c) + 1 < 2 ^ 32"
  shows "runq_rel (runq_append t c c s) (Q(c := Q c @ [t]))"
proof -
  have nt: "t \<notin> set (Q d)" for d using t(1) runq_relD(5) [OF r] by blast
  have q: "queue_ok s c (Q c)" by (rule runq_relD(3) [OF r c])
  have tl: "runq_tail (cpus s c) = first (rev (Q c))" using q chain_first by (fastforce simp: queue_ok_def)
  then have ntl: "runq_tail (cpus s c) \<noteq> Some t" using nt [of c] first_in [of "rev (Q c)" t] by auto
  note upd = append_tasks [OF ntl] append_cpus
  have other: "queue_ok (runq_append t c c s) d (Q d)" if d: "d < g_cpu_count s" "d \<noteq> c" for d
  proof (rule queue_ok_cong [OF runq_relD(3) [OF r d(1)]])
    fix x assume x: "x \<in> set (Q d)"
    then have "x \<notin> set (Q c)" using queue_member(2) [OF r] d(2) by blast
    then have "runq_tail (cpus s c) \<noteq> Some x" using tl first_in [of "rev (Q c)" x] by auto
    then show "t_runq_next (tasks (runq_append t c c s) x) = t_runq_next (tasks s x)"
      "t_runq_prev (tasks (runq_append t c c s) x) = t_runq_prev (tasks s x)"
      "t_cpu_affinity (tasks (runq_append t c c s) x) = t_cpu_affinity (tasks s x)" using x nt [of d] by (auto simp: upd)
  qed (use d in \<open>simp_all add: upd\<close>)
  have fr: "g_cpu_count (runq_append t c c s) = g_cpu_count s" using append_frame [of s t c c s] by (simp add: same_frame_def)
  have mem: "(\<exists>d. x \<in> set ((Q(c := Q c @ [t])) d)) \<longleftrightarrow> x = t \<or> (\<exists>d. x \<in> set (Q d))" for x by (auto 0 3)
  have q': "if d < g_cpu_count s then queue_ok (runq_append t c c s) d ((Q(c := Q c @ [t])) d) else (Q(c := Q c @ [t])) d = []" for d
    using append_queue [OF q nt len] other [of d] runq_relD(4) [OF r, of d] c by auto
  show ?thesis
    unfolding runq_rel_def fr mem
  proof (intro conjI)
    show "\<forall>d. if d < g_cpu_count s then queue_ok (runq_append t c c s) d ((Q(c := Q c @ [t])) d) else (Q(c := Q c @ [t])) d = []" using q' by blast
  qed (use runq_relD(1,2,5-7) [OF r] t in \<open>simp_all add: upd\<close>)
qed

lemma append_body:
  assumes "runq_tail (cpus s c) \<noteq> Some t"
  shows "body (tasks (runq_append t i c s) x) = (if x = t then (body (tasks s t))\<lparr>t_cpu_affinity := i\<rparr> else body (tasks s x))"
    and "cpu_body (cpus (runq_append t i c s) d) = cpu_body (cpus s d)"
proof -
  show "body (tasks (runq_append t i c s) x) = (if x = t then (body (tasks s t))\<lparr>t_cpu_affinity := i\<rparr> else body (tasks s x))"
    unfolding append_tasks [OF assms] by (cases "x = t"; cases "tasks s x") (auto simp: body_def)
qed (simp add: append_cpus cpu_body_def)

text \<open>\<open>task_runq_push_locked\<close> moves the task to the end of the queue.\<close>

definition pushed :: "tref \<Rightarrow> u32 \<Rightarrow> 'a sched_scheme \<Rightarrow> 'a sched_scheme \<Rightarrow> bool" where
  "pushed t c s s' \<longleftrightarrow> same_frame s s' \<and> (\<forall>x. body (tasks s' x) = (if x = t then (body (tasks s t))\<lparr>t_cpu_affinity := c\<rparr> else body (tasks s x)))
     \<and> (\<forall>d. cpu_body (cpus s' d) = cpu_body (cpus s d))"

lemma push_rel:
  assumes r: "runq_rel s Q" and t: "task_st s t = TASK_READY" "t_pid (tasks s t) \<noteq> 0" and c: "c = normalize_cpu_affinity i s"
    and len: "length (Q c) + 1 < 2 ^ 32"
  shows "ok (task_runq_push_locked (Some t) i s) (\<lambda>s'. runq_rel s' (q_push t c Q) \<and> pushed t c s s')"
proof -
  have cl: "c < g_cpu_count s" using normalize_less [OF r] c by simp
  have "ok (if t_on_runq (tasks s t) then task_runq_remove_locked (Some t) s else Some s) (\<lambda>s1. runq_rel s1 (q_remove t Q) \<and> same_core s s1)"
    using remove_rel [OF r, of t] r q_remove_id [of t Q] runq_relD(5) [OF r, of t] by auto
  then obtain s1 where s1: "(if t_on_runq (tasks s t) then task_runq_remove_locked (Some t) s else Some s) = Some s1"
    and r1: "runq_rel s1 (q_remove t Q)" and core: "same_core s s1" by (rule ok_elim) blast
  have b: "body (tasks s1 x) = body (tasks s x)" "cpu_body (cpus s1 d) = cpu_body (cpus s d)" for x d using core by (simp_all add: same_core_def)
  have cnt: "g_cpu_count s1 = g_cpu_count s" using core by (simp add: same_core_def same_frame_def)
  have nt: "\<not> t_on_runq (tasks s1 t)" using runq_relD(5) [OF r1, of t] by (simp add: q_remove_def)
  have len1: "length (q_remove t Q c) + 1 < 2 ^ 32" using len le_less_trans [OF length_removeAll_less_eq [of t "Q c"]] by (simp add: q_remove_def)
  have a: "runq_rel (runq_append t c c s1) ((q_remove t Q)(c := q_remove t Q c @ [t]))"
    using append_rel [OF r1, of c t] cl cnt nt t body_fields(1,4) [OF b(1) [of t]] len1 by simp
  have q: "queue_ok (runq_append t c c s1) c (q_remove t Q c @ [t])" using runq_relD(3) [OF a, of c] cl cnt append_frame [of s1 t c c s1]
    by (simp add: same_frame_def)
  have ne: "runq_head (cpus (runq_append t c c s1) c) \<noteq> None" "runq_tail (cpus (runq_append t c c s1) c) \<noteq> None"
    using q by (cases "q_remove t Q c"; simp add: queue_ok_def)+
  have tl: "runq_tail (cpus s1 c) \<noteq> Some t"
  proof -
    have "queue_ok s1 c (q_remove t Q c)" using runq_relD(3) [OF r1] cl cnt by simp
    then have "runq_tail (cpus s1 c) = first (rev (q_remove t Q c))" using chain_first by (fastforce simp: queue_ok_def)
    then show ?thesis using first_in [of "rev (q_remove t Q c)" t] by (auto simp: q_remove_def)
  qed
  have "pushed t c s (runq_append t c c s1)"
    unfolding pushed_def append_body [OF tl] b using core by (simp add: same_core_def)
  then show ?thesis using t s1 a ne ready_cpu [OF r1, of c] cl cnt
    by (simp add: task_runq_push_locked_def task_is_idle_task_def c [symmetric] Let_def q_push_def q_remove_def)
qed

lemma pop_rel:
  assumes r: "runq_rel s Q" and c: "c < g_cpu_count s"
  shows "ok (task_runq_pop_locked (Some c) s) (\<lambda>(p, s'). p = first (Q c) \<and> runq_rel s' (case p of None \<Rightarrow> Q | Some t \<Rightarrow> q_remove t Q) \<and> same_core s s')"
proof -
  have h: "runq_head (cpus s c) = first (Q c)" using runq_relD(3) [OF r c] chain_first by (fastforce simp: queue_ok_def)
  show ?thesis
  proof (cases "first (Q c)")
    case None
    then show ?thesis using h r by (simp add: task_runq_pop_locked_def)
  next
    case (Some t)
    then show ?thesis using h remove_rel [OF r, of t] by (auto simp: task_runq_pop_locked_def ok_def)
  qed
qed

section \<open>The invariant of the scheduler\<close>

text \<open>A task that a processor is on: an idle task is on its own processor; any other task is listed and belongs to that processor.\<close>

definition placed :: "'a sched_scheme \<Rightarrow> tref list \<Rightarrow> u32 \<Rightarrow> tref \<Rightarrow> bool" where
  "placed s L c t \<longleftrightarrow> t_on_cpu (tasks s t) \<and>
     (if t_pid (tasks s t) = 0 then idle_task (cpus s c) = Some t else t \<in> set L \<and> t_cpu_affinity (tasks s t) = c)"

definition cpu_ok :: "'a sched_scheme \<Rightarrow> tref list \<Rightarrow> u32 \<Rightarrow> bool" where
  "cpu_ok s L c \<longleftrightarrow> cpu_id (cpus s c) = c \<and> (\<exists>i. idle_task (cpus s c) = Some i \<and> t_pid (tasks s i) = 0) \<and>
     (\<exists>t. current_task (cpus s c) = Some t \<and> placed s L c t) \<and>
     (\<forall>t. switched_from (cpus s c) = Some t \<longrightarrow> placed s L c t \<and> current_task (cpus s c) \<noteq> Some t)"

definition place_inv :: "'a sched_scheme \<Rightarrow> tref list \<Rightarrow> bool" where
  "place_inv s L \<longleftrightarrow>
     chain (\<lambda>x. t_next (tasks s x)) (task_list s) L \<and> distinct L \<and> length L + 1 < 2 ^ 32 \<and>
     (\<forall>t \<in> set L. t_pid (tasks s t) \<noteq> 0 \<and> t_cpu_affinity (tasks s t) < g_cpu_count s) \<and>
     (\<forall>c < g_cpu_count s. cpu_ok s L c) \<and>
     (\<forall>c < g_cpu_count s. \<forall>d < g_cpu_count s. idle_task (cpus s c) = idle_task (cpus s d) \<longrightarrow> c = d)"

definition on_some_cpu :: "'a sched_scheme \<Rightarrow> tref \<Rightarrow> bool" where
  "on_some_cpu s t \<longleftrightarrow> (\<exists>c < g_cpu_count s. current_task (cpus s c) = Some t)"

text \<open>No task is lost: a task that is ready is on a run queue, a task that is running is on a processor.\<close>

definition state_inv :: "'a sched_scheme \<Rightarrow> tref list \<Rightarrow> bool" where
  "state_inv s L \<longleftrightarrow> (\<forall>t. t_on_runq (tasks s t) \<longrightarrow> t \<in> set L) \<and>
     (\<forall>t \<in> set L. (task_st s t = TASK_READY \<longleftrightarrow> t_on_runq (tasks s t)) \<and> (task_st s t = TASK_RUNNING \<longrightarrow> on_some_cpu s t))"

definition sched_inv :: "'a sched_scheme \<Rightarrow> runqs \<Rightarrow> tref list \<Rightarrow> bool" where
  "sched_inv s Q L \<longleftrightarrow> runq_rel s Q \<and> place_inv s L \<and> state_inv s L"

lemma sched_invD:
  assumes "sched_inv s Q L"
  shows "runq_rel s Q" "place_inv s L" "state_inv s L"
  using assms by (auto simp: sched_inv_def)

lemma place_invD:
  assumes "place_inv s L"
  shows "chain (\<lambda>x. t_next (tasks s x)) (task_list s) L" "distinct L" "length L + 1 < 2 ^ 32" "t \<in> set L \<Longrightarrow> t_pid (tasks s t) \<noteq> 0"
    "t \<in> set L \<Longrightarrow> t_cpu_affinity (tasks s t) < g_cpu_count s" "c < g_cpu_count s \<Longrightarrow> cpu_ok s L c"
    "c < g_cpu_count s \<Longrightarrow> d < g_cpu_count s \<Longrightarrow> idle_task (cpus s c) = idle_task (cpus s d) \<Longrightarrow> c = d"
  using assms by (auto simp: place_inv_def)

text \<open>What a change of state leaves alone.\<close>

definition keeps :: "'a sched_scheme \<Rightarrow> 'a sched_scheme \<Rightarrow> bool" where
  "keeps s s' \<longleftrightarrow> g_cpu_count s' = g_cpu_count s \<and> task_list s' = task_list s \<and> freed s' = freed s \<and> sched.more s' = sched.more s \<and>
     (\<forall>x. t_wait_next (tasks s' x) = t_wait_next (tasks s x) \<and> t_wait_queue (tasks s' x) = t_wait_queue (tasks s x) \<and> t_pid (tasks s' x) = t_pid (tasks s x) \<and> t_cpu_affinity (tasks s' x) = t_cpu_affinity (tasks s x) \<and>
          t_on_cpu (tasks s' x) = t_on_cpu (tasks s x) \<and> t_next (tasks s' x) = t_next (tasks s x)) \<and>
     (\<forall>c. cpu_id (cpus s' c) = cpu_id (cpus s c) \<and> current_task (cpus s' c) = current_task (cpus s c) \<and>
          idle_task (cpus s' c) = idle_task (cpus s c) \<and> switched_from (cpus s' c) = switched_from (cpus s c))"

lemma keeps_refl [simp]: "keeps s s"
  by (simp add: keeps_def)

lemma keeps_trans: "keeps s s' \<Longrightarrow> keeps s' s'' \<Longrightarrow> keeps s s''"
  by (simp add: keeps_def)

lemma keeps_placed: "keeps s s' \<Longrightarrow> placed s' L c t = placed s L c t"
  by (simp add: keeps_def placed_def)

lemma keeps_cpu_ok: "keeps s s' \<Longrightarrow> cpu_ok s' L c = cpu_ok s L c"
  unfolding cpu_ok_def by (simp add: keeps_placed) (simp add: keeps_def)

lemma keeps_place: "keeps s s' \<Longrightarrow> place_inv s L \<Longrightarrow> place_inv s' L"
  unfolding place_inv_def by (simp add: keeps_cpu_ok) (simp add: keeps_def)

lemma keeps_cpu: "keeps s s' \<Longrightarrow> on_some_cpu s' t = on_some_cpu s t"
  by (simp add: keeps_def on_some_cpu_def)

lemma same_core_keeps: "same_core s s' \<Longrightarrow> keeps s s'"
  unfolding same_core_def same_frame_def keeps_def by (auto dest: body_fields cpu_body_fields)

lemma same_core_state: "same_core s s' \<Longrightarrow> task_st s' x = task_st s x"
  unfolding same_core_def by (auto dest: body_fields)

text \<open>The operations that take a task off its queue and block or kill it.\<close>

definition blocks :: "(task \<Rightarrow> task) \<Rightarrow> bool" where
  "blocks f \<longleftrightarrow> (\<forall>k. t_pid (f k) = t_pid k \<and> t_cpu_affinity (f k) = t_cpu_affinity k \<and> t_on_cpu (f k) = t_on_cpu k \<and> t_next (f k) = t_next k \<and>
     t_runq_prev (f k) = t_runq_prev k \<and> t_runq_next (f k) = t_runq_next k \<and> t_on_runq (f k) = t_on_runq k \<and> t_wait_next (f k) = t_wait_next k \<and>
     t_wait_queue (f k) = t_wait_queue k)"

lemma queue_ok_set_task: "blocks f \<Longrightarrow> queue_ok (set_task t f s) c xs = queue_ok s c xs"
proof -
  assume b: "blocks f"
  have e: "t_runq_next (tasks (set_task t f s) x) = t_runq_next (tasks s x)" "t_runq_prev (tasks (set_task t f s) x) = t_runq_prev (tasks s x)"
    "t_cpu_affinity (tasks (set_task t f s) x) = t_cpu_affinity (tasks s x)" for x using b by (simp_all add: blocks_def)
  show ?thesis unfolding queue_ok_def e by simp
qed

lemma runq_rel_set_task:
  assumes "runq_rel s Q" and "blocks f" and "t_on_runq (tasks s t) \<Longrightarrow> t_state (f (tasks s t)) = TASK_READY"
  shows "runq_rel (set_task t f s) Q"
  using assms runq_relD(5-7) [OF assms(1)] unfolding runq_rel_def queue_ok_set_task [OF assms(2)] by (auto simp: blocks_def)

lemma set_task_keeps: "blocks f \<Longrightarrow> keeps s (set_task t f s)"
  by (simp add: keeps_def blocks_def)

lemma block_inv:
  assumes inv: "sched_inv s Q L" and b: "blocks f" and st: "\<And>k. t_state (f k) \<notin> {TASK_READY, TASK_RUNNING}"
  shows "ok (task_runq_remove_locked (Some t) s)
    (\<lambda>s1. sched_inv (set_task t f s1) (q_remove t Q) L \<and> keeps s (set_task t f s1) \<and>
      (\<forall>x. task_st (set_task t f s1) x = (if x = t then t_state (f (tasks s1 t)) else task_st s x)))"
proof -
  obtain s1 where s1: "task_runq_remove_locked (Some t) s = Some s1" and r1: "runq_rel s1 (q_remove t Q)" and core: "same_core s s1"
    by (rule ok_elim [OF remove_rel [OF sched_invD(1) [OF inv], of t]]) blast
  have nq: "\<not> t_on_runq (tasks s1 t)" using runq_relD(5) [OF r1, of t] by (simp add: q_remove_def)
  have k: "keeps s (set_task t f s1)" by (rule keeps_trans [OF same_core_keeps [OF core] set_task_keeps [OF b]])
  have rel: "runq_rel (set_task t f s1) (q_remove t Q)" by (rule runq_rel_set_task [OF r1 b]) (simp add: nq)
  have on: "t_on_runq (tasks s1 x) \<longleftrightarrow> x \<noteq> t \<and> t_on_runq (tasks s x)" for x
    using runq_relD(5) [OF r1, of x] runq_relD(5) [OF sched_invD(1) [OF inv], of x] by (auto simp: q_remove_def)
  have "state_inv (set_task t f s1) L"
    using sched_invD(3) [OF inv] st b on same_core_state [OF core] unfolding state_inv_def keeps_cpu [OF k]
    by (auto simp: blocks_def)
  then show ?thesis using s1 rel k keeps_place [OF k sched_invD(2) [OF inv]] same_core_state [OF core] by (simp add: sched_inv_def)
qed

lemma placed_unique:
  assumes "place_inv s L" and "c < g_cpu_count s" "d < g_cpu_count s" and "placed s L c t" "placed s L d t"
  shows "c = d"
proof (cases "t_pid (tasks s t) = 0")
  case True
  then have "idle_task (cpus s c) = idle_task (cpus s d)" using assms(4,5) by (simp add: placed_def)
  then show ?thesis by (rule place_invD(7) [OF assms(1-3)])
next
  case False
  then show ?thesis using assms(4,5) by (simp add: placed_def)
qed

lemma cpu_okE:
  assumes "place_inv s L" and "c < g_cpu_count s"
  obtains t i where "current_task (cpus s c) = Some t" "placed s L c t" "idle_task (cpus s c) = Some i" "t_pid (tasks s i) = 0" "cpu_id (cpus s c) = c"
    "\<And>u. switched_from (cpus s c) = Some u \<Longrightarrow> placed s L c u" "\<And>u. switched_from (cpus s c) = Some u \<Longrightarrow> t \<noteq> u"
  using place_invD(6) [OF assms] unfolding cpu_ok_def by blast

text \<open>A listed task that no processor is on may be given to another processor.\<close>

lemma affinity_place:
  assumes inv: "place_inv s L" and p: "pushed t c s s'" and c: "c < g_cpu_count s" "t_cpu_affinity (tasks s t) = c \<or> \<not> t_on_cpu (tasks s t)"
  shows "place_inv s' L" and "on_some_cpu s' x = on_some_cpu s x" and "task_st s' x = task_st s x"
proof -
  have b: "body (tasks s' x) = (if x = t then (body (tasks s t))\<lparr>t_cpu_affinity := c\<rparr> else body (tasks s x))" for x using p by (simp add: pushed_def)
  have cb: "cpu_body (cpus s' d) = cpu_body (cpus s d)" for d using p by (simp add: pushed_def)
  note cf = cpu_body_fields [OF cb]
  have f: "t_pid (tasks s' x) = t_pid (tasks s x)" "t_on_cpu (tasks s' x) = t_on_cpu (tasks s x)" "t_next (tasks s' x) = t_next (tasks s x)"
    "t_state (tasks s' x) = t_state (tasks s x)" "t_cpu_affinity (tasks s' x) = (if x = t then c else t_cpu_affinity (tasks s x))" for x
    using arg_cong [OF b [of x], of t_pid] arg_cong [OF b [of x], of t_on_cpu] arg_cong [OF b [of x], of t_next] arg_cong [OF b [of x], of t_state]
      arg_cong [OF b [of x], of t_cpu_affinity] by (simp_all add: body_def split: if_splits)
  have fr: "g_cpu_count s' = g_cpu_count s" "task_list s' = task_list s" using p by (simp_all add: pushed_def same_frame_def)
  have pl: "placed s' L d x = placed s L d x" for d x using c(2) by (auto simp: placed_def f cf)
  have ok: "cpu_ok s' L d = cpu_ok s L d" for d unfolding cpu_ok_def pl by (simp add: f cf)
  show "place_inv s' L" using inv c(1) unfolding place_inv_def fr ok by (simp add: f cf)
  show "on_some_cpu s' x = on_some_cpu s x" by (simp add: on_some_cpu_def fr cf)
  show "task_st s' x = task_st s x" by (rule f)
qed

lemma queue_length:
  assumes "runq_rel s Q" and "place_inv s L" and "\<And>t. t_on_runq (tasks s t) \<Longrightarrow> t \<in> set L"
  shows "length (Q c) + 1 < 2 ^ 32"
proof (cases "c < g_cpu_count s")
  case True
  then have "distinct (Q c)" using runq_relD(3) [OF assms(1)] by (simp add: queue_ok_def)
  moreover have "set (Q c) \<subseteq> set L" using queue_member(3) [OF assms(1)] assms(3) by blast
  ultimately have "length (Q c) \<le> length L" using distinct_card [of "Q c"] distinct_card [of L] card_mono [of "set L" "set (Q c)"] place_invD(2) [OF assms(2)] by simp
  then show ?thesis using place_invD(3) [OF assms(2)] by linarith
next
  case False
  then show ?thesis using runq_relD(4) [OF assms(1)] by simp
qed

lemma q_push_member: "t \<in> set (q_push u c Q d) \<longleftrightarrow> (if t = u then d = c else t \<in> set (Q d))"
  by (auto simp: q_push_def q_remove_def)

lemma state_invD:
  assumes "state_inv s L"
  shows "t_on_runq (tasks s t) \<Longrightarrow> t \<in> set L" "t \<in> set L \<Longrightarrow> task_st s t = TASK_READY \<longleftrightarrow> t_on_runq (tasks s t)"
    "t \<in> set L \<Longrightarrow> task_st s t = TASK_RUNNING \<Longrightarrow> on_some_cpu s t"
  using assms by (auto simp: state_inv_def)

text \<open>The state in which a task has been marked ready and put on a queue, when all other tasks are where they should be.\<close>

definition state_inv_but :: "tref \<Rightarrow> 'a sched_scheme \<Rightarrow> tref list \<Rightarrow> bool" where
  "state_inv_but u s L \<longleftrightarrow> (\<forall>t. t_on_runq (tasks s t) \<longrightarrow> t \<in> set L) \<and>
     (\<forall>t \<in> set L. t \<noteq> u \<longrightarrow> (task_st s t = TASK_READY \<longleftrightarrow> t_on_runq (tasks s t)) \<and> (task_st s t = TASK_RUNNING \<longrightarrow> on_some_cpu s t))"

lemma push_inv:
  assumes r: "runq_rel s Q" and pl: "place_inv s L" and st: "state_inv_but t s L" and t: "t \<in> set L" "task_st s t = TASK_READY"
    and i: "c = normalize_cpu_affinity i s" "t_cpu_affinity (tasks s t) = c \<or> \<not> t_on_cpu (tasks s t)"
  shows "ok (task_runq_push_locked (Some t) i s) (\<lambda>s'. sched_inv s' (q_push t c Q) L \<and> pushed t c s s')"
proof -
  have on: "\<And>x. t_on_runq (tasks s x) \<Longrightarrow> x \<in> set L" using st by (simp add: state_inv_but_def)
  have "ok (task_runq_push_locked (Some t) i s) (\<lambda>s'. runq_rel s' (q_push t c Q) \<and> pushed t c s s')"
    by (rule push_rel [OF r t(2) place_invD(4) [OF pl t(1)] i(1) queue_length [OF r pl on]])
  then show ?thesis
  proof (rule ok_conseq, elim conjE, intro conjI)
    fix s' assume r': "runq_rel s' (q_push t c Q)" and p: "pushed t c s s'"
    note a = affinity_place [OF pl p _ i(2)]
    have cl: "c < g_cpu_count s" using normalize_less [OF r] i(1) by simp
    have on': "t_on_runq (tasks s' x) \<longleftrightarrow> x = t \<or> t_on_runq (tasks s x)" for x
      unfolding runq_relD(5) [OF r'] runq_relD(5) [OF r] q_push_member by auto
    have "state_inv s' L" unfolding state_inv_def a(2,3) [OF cl] on' using st t by (auto simp: state_inv_but_def)
    then show "sched_inv s' (q_push t c Q) L" using r' a(1) [OF cl] by (simp add: sched_inv_def)
  qed
qed

lemma state_inv_but: "state_inv s L \<Longrightarrow> state_inv_but u s L"
  by (auto simp: state_inv_def state_inv_but_def)

lemma mark_ready_inv:
  assumes r: "runq_rel s Q" and pl: "place_inv s L" and st: "state_inv_but t s L" and t: "t \<in> set L" "task_st s t \<noteq> TASK_ZOMBIE" "task_st s t \<noteq> TASK_DEAD"
    and i: "c = normalize_cpu_affinity i s" "t_cpu_affinity (tasks s t) = c \<or> \<not> t_on_cpu (tasks s t)"
  shows "ok (task_mark_ready_on_cpu_locked (Some t) i s)
    (\<lambda>(v, s'). v = 0 \<and> sched_inv s' (q_push t c Q) L \<and> pushed t c (set_task t (\<lambda>k. k\<lparr>t_state := TASK_READY, t_sleep_until_ms := 0\<rparr>) s) s')"
proof -
  let ?f = "\<lambda>k. k\<lparr>t_state := TASK_READY, t_sleep_until_ms := 0\<rparr>"
  have b: "blocks ?f" by (simp add: blocks_def)
  have r1: "runq_rel (set_task t ?f s) Q" by (rule runq_rel_set_task [OF r b]) simp
  note k = set_task_keeps [OF b, of s t]
  have st1: "state_inv_but t (set_task t ?f s) L" using st by (auto simp: state_inv_but_def keeps_cpu [OF k])
  have "ok (task_runq_push_locked (Some t) i (set_task t ?f s)) (\<lambda>s'. sched_inv s' (q_push t c Q) L \<and> pushed t c (set_task t ?f s) s')"
    by (rule push_inv [OF r1 keeps_place [OF k pl] st1 t(1)]) (use i in \<open>simp_all add: normalize_cpu_affinity_def\<close>)
  then show ?thesis using t(2,3) place_invD(4) [OF pl t(1)] by (auto simp: task_mark_ready_on_cpu_locked_def task_is_idle_task_def ok_def)
qed

section \<open>The scheduler keeps the invariant\<close>

text \<open>\<open>task_finish_switch\<close>: no processor is on the task any more.\<close>

lemma finish_frame:
  "g_cpu_count (task_finish_switch me s) = g_cpu_count s" "task_list (task_finish_switch me s) = task_list s"
  "sched.more (task_finish_switch me s) = sched.more s" "freed (task_finish_switch me s) = freed s"
  by (simp_all add: task_finish_switch_def split: option.splits)

lemma finish_task:
  "tasks (task_finish_switch (Some c) s) x = (tasks s x)\<lparr>t_on_cpu := t_on_cpu (tasks s x) \<and> switched_from (cpus s c) \<noteq> Some x\<rparr>"
  by (auto simp: task_finish_switch_def split: option.splits)

lemma finish_cpu:
  "cpus (task_finish_switch (Some c) s) d = (if d = c then (cpus s c)\<lparr>switched_from := None\<rparr> else cpus s d)"
  by (auto simp: task_finish_switch_def split: option.splits)

lemma finish_fields:
  "t_pid (tasks (task_finish_switch (Some c) s) x) = t_pid (tasks s x)" "t_next (tasks (task_finish_switch (Some c) s) x) = t_next (tasks s x)"
  "t_cpu_affinity (tasks (task_finish_switch (Some c) s) x) = t_cpu_affinity (tasks s x)"
  "t_runq_next (tasks (task_finish_switch (Some c) s) x) = t_runq_next (tasks s x)"
  "t_runq_prev (tasks (task_finish_switch (Some c) s) x) = t_runq_prev (tasks s x)"
  "t_on_runq (tasks (task_finish_switch (Some c) s) x) = t_on_runq (tasks s x)" "t_state (tasks (task_finish_switch (Some c) s) x) = t_state (tasks s x)"
  "t_on_cpu (tasks (task_finish_switch (Some c) s) x) \<longleftrightarrow> t_on_cpu (tasks s x) \<and> switched_from (cpus s c) \<noteq> Some x"
  "cpu_id (cpus (task_finish_switch (Some c) s) d) = cpu_id (cpus s d)" "idle_task (cpus (task_finish_switch (Some c) s) d) = idle_task (cpus s d)"
  "runq_head (cpus (task_finish_switch (Some c) s) d) = runq_head (cpus s d)" "runq_tail (cpus (task_finish_switch (Some c) s) d) = runq_tail (cpus s d)"
  "runq_count (cpus (task_finish_switch (Some c) s) d) = runq_count (cpus s d)"
  "current_task (cpus (task_finish_switch (Some c) s) d) = current_task (cpus s d)"
  "switched_from (cpus (task_finish_switch (Some c) s) d) = (if d = c then None else switched_from (cpus s d))"
  by (simp_all add: finish_task finish_cpu)

lemma finish_inv:
  assumes inv: "sched_inv s Q L" and c: "c < g_cpu_count s"
  shows "sched_inv (task_finish_switch (Some c) s) Q L"
proof -
  let ?s = "task_finish_switch (Some c) s"
  note upd = finish_fields finish_frame
  note pl = sched_invD(2) [OF inv]
  have pld: "placed ?s L d x" if d: "d < g_cpu_count s" "placed s L d x" "d \<noteq> c \<or> switched_from (cpus s c) \<noteq> Some x" for d x
  proof -
    have "switched_from (cpus s c) \<noteq> Some x"
    proof
      assume sw: "switched_from (cpus s c) = Some x"
      then have "placed s L c x" using place_invD(6) [OF pl c] by (simp add: cpu_ok_def)
      then show False using placed_unique [OF pl d(1) c d(2)] d(3) sw by simp
    qed
    then show ?thesis using d(2) by (auto simp: placed_def upd)
  qed
  have "cpu_ok ?s L d" if d: "d < g_cpu_count s" for d
  proof -
    obtain t i where *: "current_task (cpus s d) = Some t" "placed s L d t" "idle_task (cpus s d) = Some i" "t_pid (tasks s i) = 0" "cpu_id (cpus s d) = d"
      "\<And>u. switched_from (cpus s d) = Some u \<Longrightarrow> placed s L d u" "\<And>u. switched_from (cpus s d) = Some u \<Longrightarrow> t \<noteq> u"
      by (rule cpu_okE [OF pl d]) blast
    have "placed ?s L d t" using pld [OF d *(2)] *(7) by blast
    moreover have "placed ?s L d u" if "d \<noteq> c" "switched_from (cpus s d) = Some u" for u using pld [OF d *(6)] that by blast
    ultimately show ?thesis using * unfolding cpu_ok_def upd by (cases "d = c") simp_all
  qed
  then have "place_inv ?s L" using pl unfolding place_inv_def by (simp add: upd)
  moreover have "runq_rel ?s Q"
  proof -
    have "queue_ok ?s d (Q d)" if "d < g_cpu_count s" for d
      by (rule queue_ok_cong [OF runq_relD(3) [OF sched_invD(1) [OF inv] that]]) (simp_all add: upd)
    then show ?thesis using sched_invD(1) [OF inv] unfolding runq_rel_def by (simp add: upd)
  qed
  moreover have "state_inv ?s L"
    using sched_invD(3) [OF inv] unfolding state_inv_def on_some_cpu_def by (simp add: upd)
  ultimately show ?thesis by (simp add: sched_inv_def)
qed

definition switch_to :: "u32 \<Rightarrow> tref \<Rightarrow> tref \<Rightarrow> 'a sched_scheme \<Rightarrow> 'a sched_scheme" where
  "switch_to c prev n s =
     set_cpu c (\<lambda>k. k\<lparr>switched_from := Some prev\<rparr>)
       (set_task n (\<lambda>k. k\<lparr>t_on_runq := False, t_state := TASK_RUNNING,
            t_timeslice_ticks := (if t_timeslice_ticks k \<le> 0 then TASK_TIMESLICE_TICKS else t_timeslice_ticks k), t_on_cpu := True\<rparr>)
         (set_cpu c (\<lambda>k. k\<lparr>current_task := Some n\<rparr>) s))"

lemma switch_task:
  "tasks (switch_to c prev n s) x = (if x = n then (tasks s n)\<lparr>t_on_runq := False, t_state := TASK_RUNNING,
     t_timeslice_ticks := (if t_timeslice_ticks (tasks s n) \<le> 0 then TASK_TIMESLICE_TICKS else t_timeslice_ticks (tasks s n)), t_on_cpu := True\<rparr>
     else tasks s x)"
  by (simp add: switch_to_def)

lemma switch_cpu:
  "cpus (switch_to c prev n s) d = (if d = c then (cpus s c)\<lparr>current_task := Some n, switched_from := Some prev\<rparr> else cpus s d)"
  by (simp add: switch_to_def)

lemma switch_fields:
  "t_pid (tasks (switch_to c prev n s) x) = t_pid (tasks s x)" "t_next (tasks (switch_to c prev n s) x) = t_next (tasks s x)"
  "t_cpu_affinity (tasks (switch_to c prev n s) x) = t_cpu_affinity (tasks s x)"
  "t_runq_next (tasks (switch_to c prev n s) x) = t_runq_next (tasks s x)" "t_runq_prev (tasks (switch_to c prev n s) x) = t_runq_prev (tasks s x)"
  "t_on_runq (tasks (switch_to c prev n s) x) \<longleftrightarrow> x \<noteq> n \<and> t_on_runq (tasks s x)"
  "t_state (tasks (switch_to c prev n s) x) = (if x = n then TASK_RUNNING else t_state (tasks s x))"
  "t_on_cpu (tasks (switch_to c prev n s) x) \<longleftrightarrow> x = n \<or> t_on_cpu (tasks s x)"
  "cpu_id (cpus (switch_to c prev n s) d) = cpu_id (cpus s d)" "idle_task (cpus (switch_to c prev n s) d) = idle_task (cpus s d)"
  "runq_head (cpus (switch_to c prev n s) d) = runq_head (cpus s d)" "runq_tail (cpus (switch_to c prev n s) d) = runq_tail (cpus s d)"
  "runq_count (cpus (switch_to c prev n s) d) = runq_count (cpus s d)"
  "current_task (cpus (switch_to c prev n s) d) = (if d = c then Some n else current_task (cpus s d))"
  "switched_from (cpus (switch_to c prev n s) d) = (if d = c then Some prev else switched_from (cpus s d))"
  by (simp_all add: switch_task switch_cpu)

lemma switch_frame:
  "g_cpu_count (switch_to c prev n s) = g_cpu_count s" "task_list (switch_to c prev n s) = task_list s"
  "sched.more (switch_to c prev n s) = sched.more s" "freed (switch_to c prev n s) = freed s"
  by (simp_all add: switch_to_def)

lemma switch_inv:
  assumes r: "runq_rel s Q" and pl: "place_inv s L" and st: "state_inv_but n s L" and c: "c < g_cpu_count s"
    and prev: "current_task (cpus s c) = Some prev" "prev \<noteq> n" "t_pid (tasks s prev) \<noteq> 0 \<Longrightarrow> task_st s prev \<noteq> TASK_RUNNING"
    and n: "\<not> t_on_runq (tasks s n)" "if t_pid (tasks s n) = 0 then idle_task (cpus s c) = Some n else n \<in> set L \<and> t_cpu_affinity (tasks s n) = c"
  shows "sched_inv (switch_to c prev n s) Q L"
proof -
  let ?s = "switch_to c prev n s"
  note upd = switch_fields switch_frame
  have pp: "placed s L c prev" using place_invD(6) [OF pl c] prev(1) by (simp add: cpu_ok_def)
  have pld: "placed ?s L d x" if "placed s L d x" for d x using that by (auto simp: placed_def upd)
  have pn: "placed ?s L c n" using n(2) by (simp add: placed_def upd)
  have "cpu_ok ?s L d" if d: "d < g_cpu_count s" for d
  proof -
    obtain t i where *: "current_task (cpus s d) = Some t" "placed s L d t" "idle_task (cpus s d) = Some i" "t_pid (tasks s i) = 0" "cpu_id (cpus s d) = d"
      "\<And>u. switched_from (cpus s d) = Some u \<Longrightarrow> placed s L d u" "\<And>u. switched_from (cpus s d) = Some u \<Longrightarrow> t \<noteq> u"
      by (rule cpu_okE [OF pl d]) blast
    have idle: "\<exists>i. idle_task (cpus ?s d) = Some i \<and> t_pid (tasks ?s i) = 0" using *(3,4) by (simp add: upd)
    show ?thesis
    proof (cases "d = c")
      case True
      then show ?thesis using idle *(5) pn pld [OF pp] prev(2) unfolding cpu_ok_def by (simp add: upd)
    next
      case False
      then show ?thesis using idle * pld unfolding cpu_ok_def by (simp add: upd)
    qed
  qed
  then have "place_inv ?s L" using pl unfolding place_inv_def by (simp add: upd)
  moreover have "runq_rel ?s Q"
  proof -
    have "queue_ok ?s d (Q d)" if "d < g_cpu_count s" for d
      by (rule queue_ok_cong [OF runq_relD(3) [OF r that]]) (simp_all add: upd)
    then show ?thesis using runq_relD [OF r] n(1) unfolding runq_rel_def by (auto simp: upd)
  qed
  moreover have "state_inv ?s L"
  proof -
    have cur: "on_some_cpu ?s n" using c by (auto simp: on_some_cpu_def upd)
    have keep: "on_some_cpu ?s x" if x: "on_some_cpu s x" "x \<noteq> prev" for x
    proof -
      obtain d where d: "d < g_cpu_count s" "current_task (cpus s d) = Some x" using x(1) by (auto simp: on_some_cpu_def)
      then have "d \<noteq> c" using prev(1) x(2) by auto
      then show ?thesis using d by (auto simp: on_some_cpu_def upd)
    qed
    show ?thesis unfolding state_inv_def
    proof (intro conjI allI impI ballI)
      fix t assume t: "t \<in> set L" "task_st ?s t = TASK_RUNNING"
      show "on_some_cpu ?s t"
      proof (cases "t = n")
        case False
        then have "task_st s t = TASK_RUNNING" using t(2) by (simp add: upd)
        moreover have "t \<noteq> prev" using prev(3) place_invD(4) [OF pl t(1)] calculation by auto
        ultimately show ?thesis using st t(1) False keep by (simp add: state_inv_but_def)
      qed (simp add: cur)
    qed (use st in \<open>auto simp: state_inv_but_def upd split: if_splits\<close>)
  qed
  ultimately show ?thesis by (simp add: sched_inv_def)
qed

end
