(* ===== verification/SchedSafe.thy ===== *)
theory SchedSafe
  imports SchedInv
begin

text \<open>
  The scheduler and the operations on tasks keep the invariant, so none of their assertions fails, no task is lost, and no task runs on two processors.
\<close>

section \<open>Scheduling\<close>

text \<open>What \<open>schedule\<close> does to the run queues, and the task that runs next.\<close>

definition q_schedule :: "u32 \<Rightarrow> tref \<Rightarrow> bool \<Rightarrow> runqs \<Rightarrow> runqs" where
  "q_schedule c cur requeue Q =
     (case Q c of [] \<Rightarrow> Q | n # _ \<Rightarrow> if n \<noteq> cur \<and> requeue then q_push cur c (q_remove n Q) else q_remove n Q)"

definition q_next :: "u32 \<Rightarrow> tref \<Rightarrow> bool \<Rightarrow> tref option \<Rightarrow> runqs \<Rightarrow> tref option" where
  "q_next c cur running idle Q = (case Q c of n # _ \<Rightarrow> Some n | [] \<Rightarrow> if running then Some cur else idle)"

text \<open>The task that \<open>schedule\<close> has taken off its queue, before it runs.\<close>

lemma popped_state:
  assumes inv: "sched_inv s Q L" and core: "same_core s s1" and r1: "runq_rel s1 (q_remove n Q)"
  shows "place_inv s1 L" and "state_inv_but n s1 L" and "\<not> t_on_runq (tasks s1 n)" and "task_st s1 x = task_st s x"
proof -
  note k = same_core_keeps [OF core]
  show "place_inv s1 L" by (rule keeps_place [OF k sched_invD(2) [OF inv]])
  show st: "task_st s1 x = task_st s x" for x by (rule same_core_state [OF core])
  show "\<not> t_on_runq (tasks s1 n)" using runq_relD(5) [OF r1, of n] by (simp add: q_remove_def)
  have on: "t_on_runq (tasks s1 x) \<longleftrightarrow> x \<noteq> n \<and> t_on_runq (tasks s x)" for x
    using runq_relD(5) [OF r1, of x] runq_relD(5) [OF sched_invD(1) [OF inv], of x] by (auto simp: q_remove_def)
  show "state_inv_but n s1 L" unfolding state_inv_but_def st on keeps_cpu [OF k] using sched_invD(3) [OF inv] by (auto simp: state_inv_def)
qed

lemma resume_inv:
  assumes r: "runq_rel s Q" and pl: "place_inv s L" and st: "state_inv_but n s L" and c: "c < g_cpu_count s"
    and n: "current_task (cpus s c) = Some n" "\<not> t_on_runq (tasks s n)"
  shows "sched_inv (set_task n (\<lambda>k. k\<lparr>t_state := TASK_RUNNING\<rparr>) s) Q L"
proof -
  let ?f = "\<lambda>k. k\<lparr>t_state := TASK_RUNNING\<rparr>"
  have b: "blocks ?f" by (simp add: blocks_def)
  note k = set_task_keeps [OF b, of s n]
  have cur: "on_some_cpu s n" using c n(1) by (auto simp: on_some_cpu_def)
  have "state_inv (set_task n ?f s) L" unfolding state_inv_def keeps_cpu [OF k] using st n(2) cur by (auto simp: state_inv_but_def)
  then show ?thesis using runq_rel_set_task [OF r b, of n] n(2) keeps_place [OF k pl] by (simp add: sched_inv_def)
qed

lemma pushed_keeps:
  assumes "pushed t c s s'" and "t_cpu_affinity (tasks s t) = c"
  shows "keeps s s'" and "task_st s' x = task_st s x"
proof -
  have b: "body (tasks s' x) = body (tasks s x)" for x using assms by (cases "tasks s t") (auto simp: pushed_def body_def)
  then have "same_core s s'" using assms(1) by (simp add: pushed_def same_core_def)
  then show "keeps s s'" "task_st s' x = task_st s x" by (rule same_core_keeps, rule same_core_state)
qed

text \<open>The running task goes back to the end of its queue.\<close>

lemma requeue_inv:
  assumes r: "runq_rel s Q" and pl: "place_inv s L" and st: "state_inv_but n s L" and ne: "n \<noteq> cur"
    and cur: "cur \<in> set L" "t_cpu_affinity (tasks s cur) = c" "task_st s cur = TASK_RUNNING"
  shows "ok (task_mark_ready_on_cpu_locked (Some cur) c s)
    (\<lambda>(v, s1). runq_rel s1 (q_push cur c Q) \<and> keeps s s1 \<and> state_inv_but n s1 L \<and> task_st s1 cur = TASK_READY \<and> (\<forall>x. x \<noteq> cur \<longrightarrow> task_st s1 x = task_st s x))"
proof -
  let ?f = "\<lambda>k. k\<lparr>t_state := TASK_READY, t_sleep_until_ms := 0\<rparr>" and ?s = "set_task cur (\<lambda>k. k\<lparr>t_state := TASK_READY, t_sleep_until_ms := 0\<rparr>) s"
  have b: "blocks ?f" by (simp add: blocks_def)
  have r0: "runq_rel ?s Q" by (rule runq_rel_set_task [OF r b]) simp
  note k = set_task_keeps [OF b, of s cur]
  have on: "\<And>x. t_on_runq (tasks ?s x) \<Longrightarrow> x \<in> set L" using st b by (auto simp: state_inv_but_def split: if_splits)
  have c: "c < g_cpu_count s" using place_invD(5) [OF pl cur(1)] cur(2) by simp
  have pid: "t_pid (tasks s cur) \<noteq> 0" by (rule place_invD(4) [OF pl cur(1)])
  have "ok (task_runq_push_locked (Some cur) c ?s) (\<lambda>s'. runq_rel s' (q_push cur c Q) \<and> pushed cur c ?s s')"
    by (rule push_rel [OF r0 _ _ _ queue_length [OF r0 keeps_place [OF k pl] on]]) (use pid c in \<open>simp_all add: normalize_id\<close>)
  then obtain s1 where s1: "task_runq_push_locked (Some cur) c ?s = Some s1" and r1: "runq_rel s1 (q_push cur c Q)" and p: "pushed cur c ?s s1"
    by (rule ok_elim) blast
  have "t_cpu_affinity (tasks ?s cur) = c" using cur(2) by simp
  note pk = pushed_keeps [OF p this]
  have ks: "keeps s s1" by (rule keeps_trans [OF k pk(1)])
  have on1: "t_on_runq (tasks s1 x) \<longleftrightarrow> x = cur \<or> t_on_runq (tasks s x)" for x
    unfolding runq_relD(5) [OF r1] runq_relD(5) [OF r] q_push_member by auto
  have "state_inv_but n s1 L" unfolding state_inv_but_def on1 pk(2) keeps_cpu [OF ks] using st cur(1) by (auto simp: state_inv_but_def)
  then show ?thesis using s1 r1 ks pk(2) pid cur(3) by (simp add: task_mark_ready_on_cpu_locked_def task_is_idle_task_def)
qed

lemma schedule_to_inv:
  assumes r: "runq_rel s Q" and pl: "place_inv s L" and st: "state_inv_but n s L" and c: "c < g_cpu_count s"
    and cur: "current_task (cpus s c) = Some cur"
    and n: "\<not> t_on_runq (tasks s n)" "if t_pid (tasks s n) = 0 then idle_task (cpus s c) = Some n else n \<in> set L \<and> t_cpu_affinity (tasks s n) = c"
  shows "ok (schedule_to c cur n s) (\<lambda>(p, s'). p = (if n = cur then None else Some n) \<and>
    sched_inv s' (if n \<noteq> cur \<and> task_st s cur = TASK_RUNNING \<and> t_pid (tasks s cur) \<noteq> 0 then q_push cur c Q else Q) L \<and>
    current_task (cpus s' c) = Some n \<and> (\<forall>d. d \<noteq> c \<longrightarrow> current_task (cpus s' d) = current_task (cpus s d)) \<and>
    g_cpu_count s' = g_cpu_count s \<and> task_list s' = task_list s \<and> task_st s' n = TASK_RUNNING)"
proof (cases "n = cur")
  case True
  then show ?thesis using resume_inv [OF r pl st c] cur n(1) by (simp add: schedule_to_def)
next
  case ne: False
  have sw: "ok (schedule_to c cur n s) P \<longleftrightarrow>
    ok (if task_st s cur = TASK_RUNNING \<and> \<not> task_is_idle_task cur s
        then map_option snd (task_mark_ready_on_cpu_locked (Some cur) (t_cpu_affinity (tasks s cur)) s) else Some s)
      (\<lambda>s1. P (Some n, switch_to c cur n s1))" for P
    using ne by (simp add: schedule_to_def switch_to_def Let_def)
  note upd = switch_fields switch_frame
  show ?thesis
  proof (cases "task_st s cur = TASK_RUNNING \<and> t_pid (tasks s cur) \<noteq> 0")
    case True
    have "placed s L c cur" using place_invD(6) [OF pl c] cur by (simp add: cpu_ok_def)
    then have pc: "cur \<in> set L" "t_cpu_affinity (tasks s cur) = c" using True by (simp_all add: placed_def)
    obtain v s1 where m: "task_mark_ready_on_cpu_locked (Some cur) c s = Some (v, s1)" and r1: "runq_rel s1 (q_push cur c Q)" and k: "keeps s s1"
      and st1: "state_inv_but n s1 L" and sc: "task_st s1 cur = TASK_READY"
      by (rule ok_elim [OF requeue_inv [OF r pl st ne pc]]) (use True in auto)
    have c1: "c < g_cpu_count s1" and cur1: "current_task (cpus s1 c) = Some cur" using k c cur by (simp_all add: keeps_def)
    have n1: "\<not> t_on_runq (tasks s1 n)" using ne n(1) runq_relD(5) [OF r, of n] unfolding runq_relD(5) [OF r1] q_push_member by auto
    have "sched_inv (switch_to c cur n s1) (q_push cur c Q) L"
      by (rule switch_inv [OF r1 keeps_place [OF k pl] st1 c1 cur1 _ _ n1]) (use ne sc n(2) k in \<open>auto simp: keeps_def\<close>)
    then show ?thesis unfolding sw using ne True m k pc(2) by (auto simp: task_is_idle_task_def upd keeps_def)
  next
    case False
    have "sched_inv (switch_to c cur n s) Q L" by (rule switch_inv [OF r pl st c cur _ _ n]) (use ne False in auto)
    then show ?thesis unfolding sw using ne False by (auto simp: task_is_idle_task_def upd)
  qed
qed

lemma schedule_inv:
  assumes inv: "sched_inv s Q L" and c: "c < g_cpu_count s" and cur: "current_task (cpus s c) = Some cur"
  shows "ok (schedule (Some c) s) (\<lambda>(p, s').
    sched_inv s' (q_schedule c cur (task_st s cur = TASK_RUNNING \<and> t_pid (tasks s cur) \<noteq> 0) Q) L \<and>
    current_task (cpus s' c) = q_next c cur (task_st s cur = TASK_RUNNING) (idle_task (cpus s c)) Q \<and>
    p = (if current_task (cpus s' c) = Some cur then None else current_task (cpus s' c)) \<and>
    (\<forall>d. d \<noteq> c \<longrightarrow> current_task (cpus s' d) = current_task (cpus s d)) \<and> g_cpu_count s' = g_cpu_count s \<and> task_list s' = task_list s)"
proof -
  define s0 where "s0 = task_finish_switch (Some c) s"
  note upd = finish_fields finish_frame
  have i0: "sched_inv s0 Q L" unfolding s0_def by (rule finish_inv [OF inv c])
  have c0: "c < g_cpu_count s0" using c by (simp add: s0_def upd)
  obtain p s1 where pop: "task_runq_pop_locked (Some c) s0 = Some (p, s1)" and p: "p = first (Q c)"
    and r1: "runq_rel s1 (case p of None \<Rightarrow> Q | Some t \<Rightarrow> q_remove t Q)" and core: "same_core s0 s1"
    using pop_rel [OF sched_invD(1) [OF i0] c0] by (auto simp: ok_def)
  note k = same_core_keeps [OF core]
  have f1: "t_pid (tasks s1 x) = t_pid (tasks s x)" "t_cpu_affinity (tasks s1 x) = t_cpu_affinity (tasks s x)" "task_st s1 x = task_st s x"
    "current_task (cpus s1 d) = current_task (cpus s d)" "idle_task (cpus s1 d) = idle_task (cpus s d)" "g_cpu_count s1 = g_cpu_count s"
    "task_list s1 = task_list s" for x d
    using k same_core_state [OF core] by (simp_all add: keeps_def s0_def upd)
  have sch: "schedule (Some c) s = (case p of Some n \<Rightarrow> schedule_to c cur n s1 | None \<Rightarrow>
     if task_st s1 cur = TASK_RUNNING then Some (None, s1)
     else (case idle_task (cpus s1 c) of None \<Rightarrow> None | Some n \<Rightarrow> schedule_to c cur n s1))"
    using cur pop by (simp add: schedule_def s0_def)
  show ?thesis
  proof (cases "Q c")
    case (Cons n ns)
    then have n: "n \<in> set (Q c)" and pn: "p = Some n" using p by simp_all
    note m = queue_member [OF sched_invD(1) [OF i0] n]
    note ps = popped_state [OF i0 core r1 [unfolded pn option.case]]
    have nl: "n \<in> set L" using state_invD(1) [OF sched_invD(3) [OF i0] m(3)] .
    have "ok (schedule_to c cur n s1) (\<lambda>(p, s'). p = (if n = cur then None else Some n) \<and>
      sched_inv s' (if n \<noteq> cur \<and> task_st s1 cur = TASK_RUNNING \<and> t_pid (tasks s1 cur) \<noteq> 0 then q_push cur c (q_remove n Q) else q_remove n Q) L \<and>
      current_task (cpus s' c) = Some n \<and> (\<forall>d. d \<noteq> c \<longrightarrow> current_task (cpus s' d) = current_task (cpus s1 d)) \<and>
      g_cpu_count s' = g_cpu_count s1 \<and> task_list s' = task_list s1 \<and> task_st s' n = TASK_RUNNING)"
      by (rule schedule_to_inv [OF r1 [unfolded pn option.case] ps(1,2) _ _ ps(3)])
         (use c cur nl m(2) place_invD(4) [OF sched_invD(2) [OF i0] nl] k in \<open>simp_all add: f1 keeps_def s0_def upd\<close>)
    then show ?thesis unfolding sch pn option.case
      by (rule ok_conseq) (auto simp: f1 q_schedule_def q_next_def Cons)
  next
    case Nil
    then have pn: "p = None" using p by simp
    then have "s1 = s0" using pop by (auto simp: task_runq_pop_locked_def split: option.splits)
    then have i1: "sched_inv s1 Q L" using i0 by simp
    show ?thesis
    proof (cases "task_st s cur = TASK_RUNNING")
      case True
      then show ?thesis unfolding sch pn option.case using i1 cur by (simp add: f1 q_schedule_def q_next_def Nil)
    next
      case False
      have c1: "c < g_cpu_count s1" using c by (simp add: f1)
      obtain i where i: "idle_task (cpus s1 c) = Some i" "t_pid (tasks s1 i) = 0" by (rule cpu_okE [OF sched_invD(2) [OF i1] c1]) blast
      have ni: "\<not> t_on_runq (tasks s1 i)" using i(2) runq_relD(7) [OF sched_invD(1) [OF i1]] by blast
      have "ok (schedule_to c cur i s1) (\<lambda>(p, s'). p = (if i = cur then None else Some i) \<and>
        sched_inv s' (if i \<noteq> cur \<and> task_st s1 cur = TASK_RUNNING \<and> t_pid (tasks s1 cur) \<noteq> 0 then q_push cur c Q else Q) L \<and>
        current_task (cpus s' c) = Some i \<and> (\<forall>d. d \<noteq> c \<longrightarrow> current_task (cpus s' d) = current_task (cpus s1 d)) \<and>
        g_cpu_count s' = g_cpu_count s1 \<and> task_list s' = task_list s1 \<and> task_st s' i = TASK_RUNNING)"
        by (rule schedule_to_inv [OF sched_invD(1,2) [OF i1] state_inv_but [OF sched_invD(3) [OF i1]] c1 _ ni]) (use cur i in \<open>simp_all add: f1\<close>)
      then have "ok (schedule_to c cur i s1) (\<lambda>(p, s'). sched_inv s' (q_schedule c cur (task_st s cur = TASK_RUNNING \<and> t_pid (tasks s cur) \<noteq> 0) Q) L \<and>
          current_task (cpus s' c) = q_next c cur (task_st s cur = TASK_RUNNING) (idle_task (cpus s c)) Q \<and>
          p = (if current_task (cpus s' c) = Some cur then None else current_task (cpus s' c)) \<and>
          (\<forall>d. d \<noteq> c \<longrightarrow> current_task (cpus s' d) = current_task (cpus s d)) \<and> g_cpu_count s' = g_cpu_count s \<and> task_list s' = task_list s)"
        by (rule ok_conseq) (use False i in \<open>auto simp: f1 q_schedule_def q_next_def Nil\<close>)
      then show ?thesis unfolding sch pn option.case using False i by (simp add: f1)
    qed
  qed
qed

section \<open>Waking and blocking\<close>

text \<open>Requests to reschedule are not part of the invariant.\<close>

definition same_view :: "'a sched_scheme \<Rightarrow> 'a sched_scheme \<Rightarrow> bool" where
  "same_view s s' \<longleftrightarrow> same_frame s s' \<and> tasks s' = tasks s \<and> (\<forall>c. (cpus s' c)\<lparr>resched_pending := False\<rparr> = (cpus s c)\<lparr>resched_pending := False\<rparr>)"

lemma same_view_fields:
  assumes "same_view s s'"
  shows "tasks s' = tasks s" "g_cpu_count s' = g_cpu_count s" "task_list s' = task_list s" "freed s' = freed s" "sched.more s' = sched.more s"
    "next_pid s' = next_pid s"
    "cpu_id (cpus s' c) = cpu_id (cpus s c)" "current_task (cpus s' c) = current_task (cpus s c)" "idle_task (cpus s' c) = idle_task (cpus s c)"
    "switched_from (cpus s' c) = switched_from (cpus s c)" "runq_head (cpus s' c) = runq_head (cpus s c)" "runq_tail (cpus s' c) = runq_tail (cpus s c)"
    "runq_count (cpus s' c) = runq_count (cpus s c)"
proof -
  have "(cpus s' c)\<lparr>resched_pending := False\<rparr> = (cpus s c)\<lparr>resched_pending := False\<rparr>" using assms by (simp add: same_view_def)
  then show "cpu_id (cpus s' c) = cpu_id (cpus s c)" "current_task (cpus s' c) = current_task (cpus s c)" "idle_task (cpus s' c) = idle_task (cpus s c)"
    "switched_from (cpus s' c) = switched_from (cpus s c)" "runq_head (cpus s' c) = runq_head (cpus s c)" "runq_tail (cpus s' c) = runq_tail (cpus s c)"
    "runq_count (cpus s' c) = runq_count (cpus s c)" by (cases "cpus s' c"; cases "cpus s c"; simp)+
qed (use assms in \<open>simp_all add: same_view_def same_frame_def\<close>)

lemma same_view_keeps: "same_view s s' \<Longrightarrow> keeps s s'"
  by (simp add: keeps_def same_view_fields)

lemma same_view_inv: "same_view s s' \<Longrightarrow> sched_inv s Q L \<Longrightarrow> sched_inv s' Q L"
proof -
  assume v: "same_view s s'" and inv: "sched_inv s Q L"
  note f = same_view_fields [OF v]
  have "queue_ok s' c xs = queue_ok s c xs" for c xs by (simp add: queue_ok_def f)
  then have "runq_rel s' Q" using sched_invD(1) [OF inv] unfolding runq_rel_def f by simp
  moreover have "state_inv s' L"
    using sched_invD(3) [OF inv] unfolding state_inv_def keeps_cpu [OF same_view_keeps [OF v]] f by simp
  ultimately show ?thesis using keeps_place [OF same_view_keeps [OF v] sched_invD(2) [OF inv]] by (simp add: sched_inv_def)
qed

lemma request_view: "same_view s (task_request_resched me s)" "same_view s (task_request_resched_cpu me i s)"
  by (auto simp: task_request_resched_def task_request_resched_cpu_def smp_send_resched_ipi_def same_view_def same_frame_def Let_def split: option.splits)

lemma same_view_refl [simp]: "same_view s s"
  by (simp add: same_view_def)

lemma same_view_trans: "same_view s s' \<Longrightarrow> same_view s' s'' \<Longrightarrow> same_view s s''"
  by (simp add: same_view_def same_frame_def)

lemma wake_locked_inv:
  assumes inv: "sched_inv s Q L" and t: "t \<in> set L"
  shows "ok (task_wake_locked (Some t) s) (\<lambda>(v, s').
    if task_st s t = TASK_ZOMBIE \<or> task_st s t = TASK_DEAD then v = -1 \<and> s' = s
    else v = 0 \<and> sched_inv s' (q_push t (t_cpu_affinity (tasks s t)) Q) L \<and> keeps s s' \<and>
      (\<forall>x. task_st s' x = (if x = t then TASK_READY else task_st s x)))"
proof (cases "task_st s t = TASK_ZOMBIE \<or> task_st s t = TASK_DEAD")
  case True
  then show ?thesis by (simp add: task_wake_locked_def)
next
  case False
  let ?g = "\<lambda>k. k\<lparr>t_sleep_until_ms := 0\<rparr>" and ?h = "\<lambda>k. k\<lparr>t_state := TASK_READY, t_sleep_until_ms := 0\<rparr>"
  let ?c = "t_cpu_affinity (tasks s t)" and ?s = "set_task t ?g s"
  have b: "blocks ?g" "blocks ?h" by (simp_all add: blocks_def)
  note k = set_task_keeps [OF b(1), of s t]
  have r: "runq_rel ?s Q" by (rule runq_rel_set_task [OF sched_invD(1) [OF inv] b(1)]) (simp add: runq_relD(6) [OF sched_invD(1) [OF inv]])
  have st: "state_inv_but t ?s L" using sched_invD(3) [OF inv] by (auto simp: state_inv_but_def state_inv_def keeps_cpu [OF k])
  have c: "?c < g_cpu_count s" by (rule place_invD(5) [OF sched_invD(2) [OF inv] t])
  have "ok (task_mark_ready_on_cpu_locked (Some t) ?c ?s)
    (\<lambda>(v, s'). v = 0 \<and> sched_inv s' (q_push t ?c Q) L \<and> pushed t ?c (set_task t ?h ?s) s')"
    by (rule mark_ready_inv [OF r keeps_place [OF k sched_invD(2) [OF inv]] st t]) (use False c in \<open>simp_all add: normalize_id\<close>)
  then have "ok (task_wake_locked (Some t) s) (\<lambda>(v, s'). v = 0 \<and> sched_inv s' (q_push t ?c Q) L \<and> pushed t ?c (set_task t ?h ?s) s')"
    using False by (simp add: task_wake_locked_def)
  then show ?thesis
  proof (rule ok_conseq, clarsimp simp: False)
    fix s' assume i': "sched_inv s' (q_push t ?c Q) L" and p: "pushed t ?c (set_task t ?h ?s) s'"
    have "t_cpu_affinity (tasks (set_task t ?h ?s) t) = ?c" by simp
    note pk = pushed_keeps [OF p this]
    show "keeps s s' \<and> (\<forall>x. (x = t \<longrightarrow> task_st s' t = TASK_READY) \<and> (x \<noteq> t \<longrightarrow> task_st s' x = task_st s x))"
      using pk keeps_trans [OF keeps_trans [OF k set_task_keeps [OF b(2), of ?s t]] pk(1)] by simp
  qed
qed

text \<open>The invariant in some arrangement of the queues, the tasks listed and the processors they are on being as before.\<close>

definition inv_of :: "'a sched_scheme \<Rightarrow> tref list \<Rightarrow> 'a sched_scheme \<Rightarrow> bool" where
  "inv_of s0 L s \<longleftrightarrow> (\<exists>Q. sched_inv s Q L) \<and> keeps s0 s"

lemma inv_ofI: "sched_inv s Q L \<Longrightarrow> keeps s0 s \<Longrightarrow> inv_of s0 L s"
  by (auto simp: inv_of_def)

lemma inv_of_trans: "inv_of s0 L s \<Longrightarrow> inv_of s L s' \<Longrightarrow> inv_of s0 L s'"
  by (auto simp: inv_of_def intro: keeps_trans)

lemma inv_of_view: "inv_of s0 L s \<Longrightarrow> same_view s s' \<Longrightarrow> inv_of s0 L s'"
  by (auto simp: inv_of_def intro: same_view_inv keeps_trans same_view_keeps)

lemma inv_of_wake: "inv_of s0 L s \<Longrightarrow> t \<in> set L \<Longrightarrow> ok (task_wake_locked (Some t) s) (\<lambda>(v, s'). inv_of s0 L s')"
  unfolding inv_of_def by (elim conjE exE, rule ok_conseq [OF wake_locked_inv]) (auto split: if_splits intro: keeps_trans)

lemma inv_of_block:
  "inv_of s0 L s \<Longrightarrow> blocks f \<Longrightarrow> (\<And>k. t_state (f k) \<notin> {TASK_READY, TASK_RUNNING}) \<Longrightarrow>
   ok (task_runq_remove_locked (Some t) s) (\<lambda>s1. inv_of s0 L (set_task t f s1))"
  unfolding inv_of_def by (elim conjE exE, rule ok_conseq [OF block_inv]) (auto intro: keeps_trans)

lemma inv_of_task:
  assumes "inv_of s0 L s" and "blocks f" and "\<And>k. t_state (f k) = t_state k"
  shows "inv_of s0 L (set_task t f s)"
proof -
  obtain Q where i: "sched_inv s Q L" and k: "keeps s0 s" using assms(1) by (auto simp: inv_of_def)
  note kt = set_task_keeps [OF assms(2), of s t]
  have r: "runq_rel (set_task t f s) Q" by (rule runq_rel_set_task [OF sched_invD(1) [OF i] assms(2)]) (simp add: assms(3) runq_relD(6) [OF sched_invD(1) [OF i]])
  have "state_inv (set_task t f s) L"
    using sched_invD(3) [OF i] assms(2,3) unfolding state_inv_def keeps_cpu [OF kt] by (auto simp: blocks_def)
  then have "sched_inv (set_task t f s) Q L" using r keeps_place [OF kt sched_invD(2) [OF i]] by (simp add: sched_inv_def)
  then show ?thesis using keeps_trans [OF k kt] by (rule inv_ofI)
qed

lemma blocks_simps:
  "blocks (\<lambda>k. k\<lparr>t_sleep_until_ms := d, t_state := x\<rparr>)" "blocks (\<lambda>k. k\<lparr>t_exit_status := e, t_state := x\<rparr>)"
  "blocks (\<lambda>k. k\<lparr>t_sleep_until_ms := d\<rparr>)" "blocks (\<lambda>k. k\<lparr>t_sig_pending := p k\<rparr>)" "blocks (\<lambda>k. k\<lparr>t_timeslice_ticks := q k\<rparr>)"
  "blocks (\<lambda>k. k\<lparr>t_ppid := e\<rparr>)" "blocks (\<lambda>k. k\<lparr>t_pgid := e\<rparr>)"
  by (simp_all add: blocks_def)

lemma mark_inv:
  assumes "inv_of s0 L s"
  shows "ok (task_mark_sleeping_locked (Some t) s) (\<lambda>(v, s'). inv_of s0 L s')"
    and "ok (task_mark_io_wait_locked (Some t) s) (\<lambda>(v, s'). inv_of s0 L s')"
    and "ok (task_mark_io_wait_until_locked (Some t) d s) (\<lambda>(v, s'). inv_of s0 L s')"
    and "ok (task_mark_zombie_locked (Some t) e s) (\<lambda>(v, s'). inv_of s0 L s')"
  using inv_of_block [OF assms blocks_simps(1) [of TASK_SLEEPING 0], of t] inv_of_block [OF assms blocks_simps(1) [of TASK_IO_WAIT 0], of t]
    inv_of_block [OF assms blocks_simps(1) [of TASK_IO_WAIT d], of t] inv_of_block [OF assms blocks_simps(2) [of TASK_ZOMBIE e], of t]
  by (auto simp: ok_def task_mark_sleeping_locked_def task_mark_io_wait_locked_def task_mark_io_wait_until_locked_def task_mark_zombie_locked_def)

lemma cancel_inv:
  assumes "inv_of s0 L s" and "on_some_cpu s t"
  shows "inv_of s0 L (snd (task_cancel_sleep (Some t) s))"
proof (cases "task_st s t = TASK_SLEEPING \<or> task_st s t = TASK_IO_WAIT")
  case True
  let ?f = "\<lambda>k. k\<lparr>t_sleep_until_ms := 0, t_state := TASK_RUNNING\<rparr>"
  obtain Q where i: "sched_inv s Q L" and k: "keeps s0 s" using assms(1) by (auto simp: inv_of_def)
  note kt = set_task_keeps [OF blocks_simps(1) [of TASK_RUNNING 0], of s t]
  have nq: "\<not> t_on_runq (tasks s t)" using runq_relD(6) [OF sched_invD(1) [OF i], of t] True by auto
  have "state_inv (set_task t ?f s) L"
    using sched_invD(3) [OF i] nq assms(2) unfolding state_inv_def keeps_cpu [OF kt] by auto
  then have "sched_inv (set_task t ?f s) Q L"
    using runq_rel_set_task [OF sched_invD(1) [OF i] blocks_simps(1) [of TASK_RUNNING 0], of t] nq keeps_place [OF kt sched_invD(2) [OF i]]
    by (simp add: sched_inv_def)
  then show ?thesis using True keeps_trans [OF k kt] by (auto simp: task_cancel_sleep_def intro: inv_ofI)
next
  case False
  then show ?thesis using assms(1) by (simp add: task_cancel_sleep_def)
qed

section \<open>Walks over the list of tasks\<close>

lemma each_task_ok:
  assumes "chain nx p ys" and "\<And>x t. I x \<Longrightarrow> t_next (tasks (snd x) t) = nx t" and "\<And>t x. t \<in> set ys \<Longrightarrow> I x \<Longrightarrow> ok (f t x) I" and "I x"
  shows "ok (each_task f p x) I"
  using assms
proof (induction ys arbitrary: p x)
  case Nil
  then show ?case by (subst each_task.simps) simp
next
  case (Cons a ys)
  have "ok (f a x) I" using Cons.prems(3,4) by simp
  then have "ok (f a x) (\<lambda>x'. ok (each_task f (t_next (tasks (snd x') a)) x') I)"
  proof (rule ok_conseq)
    fix x' assume "I x'"
    then show "ok (each_task f (t_next (tasks (snd x') a)) x') I"
      using Cons.prems(1,3) Cons.prems(2) [of x' a] by (intro Cons.IH [OF _ Cons.prems(2)]) simp_all
  qed
  then show ?case using Cons.prems(1) by (subst each_task.simps) simp
qed

lemma find_task_eq: "chain (\<lambda>x. t_next (tasks s x)) p ys \<Longrightarrow> find_task P p s = Some (List.find (\<lambda>t. P (tasks s t)) ys)"
proof (induction ys arbitrary: p)
  case Nil
  then show ?case by (subst find_task.simps) simp
next
  case (Cons a ys)
  then show ?case by (subst find_task.simps) simp
qed

lemma inv_of_chain: "inv_of s0 L s \<Longrightarrow> chain (\<lambda>x. t_next (tasks s x)) (task_list s) L"
  unfolding inv_of_def by (auto dest: sched_invD(2) place_invD(1))

lemma inv_of_walk:
  assumes "inv_of s0 L s" and "\<And>t a s. t \<in> set L \<Longrightarrow> inv_of s0 L s \<Longrightarrow> ok (f t (a, s)) (\<lambda>(a', s'). inv_of s0 L s')"
  shows "ok (each_task f (task_list s) (a, s)) (\<lambda>(a', s'). inv_of s0 L s')"
proof (rule each_task_ok [where nx = "\<lambda>x. t_next (tasks s0 x)" and ys = L])
  have k: "keeps s0 s" using assms(1) by (simp add: inv_of_def)
  show "chain (\<lambda>x. t_next (tasks s0 x)) (task_list s) L" using inv_of_chain [OF assms(1)] k by (simp add: keeps_def)
qed (use assms in \<open>auto simp: inv_of_def keeps_def\<close>)

lemma poll_inv:
  assumes "inv_of s0 L s"
  shows "ok (task_poll_sleep_wakeups me now s) (\<lambda>(n, s'). inv_of s0 L s')"
proof -
  have "ok (poll_sleep_step now t (a, s)) (\<lambda>(a', s'). inv_of s0 L s')" if t: "t \<in> set L" and i: "inv_of s0 L s" for t a and s :: "'a sched_scheme"
    using inv_of_wake [OF inv_of_task [OF i blocks_simps(3), of 0 t] t] i
    by (auto simp: poll_sleep_step_def Let_def ok_def split: prod.splits if_splits)
  then have w: "ok (each_task (poll_sleep_step now) (task_list s) ((0, 0), s)) (\<lambda>(a', s'). inv_of s0 L s')" by (rule inv_of_walk [OF assms])
  have v: "same_view s (fold (\<lambda>i s. if bit b i then task_request_resched_cpu me (of_nat i) s else s) is s)" for b "is" and s :: "'a sched_scheme"
    by (induction "is" arbitrary: s) (auto intro: same_view_trans request_view)
  show ?thesis using w by (auto simp: task_poll_sleep_wakeups_def ok_def split: prod.splits intro!: inv_of_view [OF _ v])
qed

lemma tick_inv:
  assumes "inv_of s0 L s"
  shows "ok (task_on_timer_tick me now s) (inv_of s0 L)"
proof -
  let ?p = "case me of None \<Rightarrow> Some s | Some c \<Rightarrow> if cpu_id (cpus s c) = 0 then map_option snd (task_poll_sleep_wakeups me now s) else Some s"
  have "ok ?p (inv_of s0 L)" using assms poll_inv [OF assms, of me now] by (auto simp: ok_def split: option.splits)
  then show ?thesis unfolding task_on_timer_tick_def Let_def ok_bind
  proof (rule ok_conseq)
    fix s1 assume i: "inv_of s0 L s1"
    note t = inv_of_task [OF i blocks_simps(5)]
    show "ok (case case me of None \<Rightarrow> None | Some c \<Rightarrow> current_task (cpus s c) of None \<Rightarrow> Some s1
        | Some t \<Rightarrow> if task_st s1 t \<noteq> TASK_RUNNING then Some s1
            else if 1 < t_timeslice_ticks (tasks s1 t) then Some (set_task t (\<lambda>k. k\<lparr>t_timeslice_ticks := t_timeslice_ticks k - 1\<rparr>) s1)
            else Some (task_request_resched me (set_task t (\<lambda>k. k\<lparr>t_timeslice_ticks := TASK_TIMESLICE_TICKS\<rparr>) s1))) (inv_of s0 L)"
      using i t inv_of_view [OF t request_view(1)] by (simp split: option.split)
  qed
qed

lemma deliver_inv:
  assumes "inv_of s0 L s" and "t \<in> set L"
  shows "ok (deliver sig t s) (inv_of s0 L)"
proof -
  note i = inv_of_task [OF assms(1) blocks_simps(4), of "\<lambda>k. t_sig_pending k OR push_bit (nat sig) 1" t]
  show ?thesis using assms(1) i inv_of_wake [OF i assms(2)] by (auto simp: deliver_def Let_def ok_def)
qed

lemma find_in: "List.find P xs = Some x \<Longrightarrow> x \<in> set xs"
  by (induction xs) (auto split: if_splits)

lemma signal_inv:
  assumes i: "inv_of s0 L s"
  shows "ok (task_signal_pid pid sig term st psig s) (\<lambda>(r, s'). inv_of s0 L s')"
proof -
  have f: "find_task P (task_list s) s = Some (List.find (\<lambda>t. P (tasks s t)) L)" if "inv_of s0 L s" for P and s :: "'a sched_scheme"
    by (rule find_task_eq [OF inv_of_chain [OF that]])
  have parent: "ok (case List.find (\<lambda>t. t_pid (tasks s t) = p) L of None \<Rightarrow> Some (0 :: int, s) | Some r \<Rightarrow> map_option (\<lambda>s'. (0, s')) (deliver psig r s))
      (\<lambda>(r, s'). inv_of s0 L s')" if "inv_of s0 L s" for p and s :: "'a sched_scheme"
    using that deliver_inv [OF that] by (fastforce simp: ok_def dest: find_in split: option.splits)
  show ?thesis
  proof (cases "List.find (\<lambda>t. t_pid (tasks s t) = pid) L")
    case None
    then show ?thesis using i by (simp add: task_signal_pid_def f [OF i])
  next
    case (Some t)
    then have t: "t \<in> set L" by (rule find_in)
    obtain s1 where d: "deliver sig t s = Some s1" "inv_of s0 L s1" by (rule ok_elim [OF deliver_inv [OF i t]]) blast
    obtain v s2 where z: "task_mark_zombie_locked (Some t) st s1 = Some (v, s2)" "inv_of s0 L s2"
      using mark_inv(4) [OF d(2), of t st] by (auto simp: ok_def)
    show ?thesis using i d z parent [OF z(2), of "t_ppid (tasks s2 t)"] by (simp add: task_signal_pid_def f [OF i] f [OF z(2)] Some)
  qed
qed

lemma kill_pgrp_inv:
  assumes "inv_of s0 L s"
  shows "ok (task_kill_pgrp pgid ex sig st s) (\<lambda>(pids, s'). inv_of s0 L s')"
proof -
  have "ok (kill_pgrp_step pgid ex sig st t (a, s)) (\<lambda>(a', s'). inv_of s0 L s')" if i: "inv_of s0 L s" for t a and s :: "'a sched_scheme"
    using mark_inv(4) [OF inv_of_task [OF i blocks_simps(4), of "\<lambda>k. t_sig_pending k OR push_bit (nat sig) 1" t], of t st] i
    by (auto simp: kill_pgrp_step_def Let_def ok_def)
  then show ?thesis unfolding task_kill_pgrp_def by (rule inv_of_walk [OF assms])
qed

section \<open>Reaping\<close>

lemma find_link_eq:
  assumes "chain (\<lambda>x. t_next (tasks s x)) (link_get l s) (as @ t # bs)" and "t \<notin> set as"
  shows "find_link t l s = Some (if as = [] then l else Some (last as))"
  using assms
proof (induction as arbitrary: l)
  case Nil
  then show ?case by (subst find_link.simps) simp
next
  case (Cons a as)
  have "chain (\<lambda>x. t_next (tasks s x)) (link_get (Some a) s) (as @ t # bs)" using Cons.prems(1) by (simp add: link_get_def)
  then have "find_link t (Some a) s = Some (if as = [] then Some a else Some (last as))" using Cons by simp
  then show ?case using Cons.prems by (subst find_link.simps) simp
qed

lemma release_task:
  "tasks (task_release t s) x = (if x = t then (tasks s t)\<lparr>t_state := TASK_DEAD,
     t_deferred_cr3 := (if t_deferred_cr3 (tasks s t) \<noteq> 0 \<and> t_deferred_cr3 (tasks s t) \<noteq> kernel_address_space s then 0 else t_deferred_cr3 (tasks s t)),
     t_address_space := (if t_address_space (tasks s t) \<noteq> 0 \<and> t_address_space (tasks s t) \<noteq> kernel_address_space s then 0 else t_address_space (tasks s t)),
     t_kstack_top := 0, t_next := None, t_runq_prev := None, t_runq_next := None, t_on_runq := False\<rparr> else tasks s x)"
  by (simp add: task_release_def Let_def)

lemma release_frame:
  "cpus (task_release t s) = cpus s" "g_cpu_count (task_release t s) = g_cpu_count s" "task_list (task_release t s) = task_list s"
  "freed (task_release t s) = freed s @ [t]" "sched.more (task_release t s) = sched.more s"
  by (simp_all add: task_release_def Let_def)

lemma link_set_simps:
  "cpus (link_set l p s) = cpus s" "g_cpu_count (link_set l p s) = g_cpu_count s" "freed (link_set l p s) = freed s"
  "sched.more (link_set l p s) = sched.more s"
  "tasks (link_set l p s) x = (if l = Some x then (tasks s x)\<lparr>t_next := p\<rparr> else tasks s x)"
  "task_list (link_set l p s) = (if l = None then p else task_list s)"
  by (auto simp: link_set_def split: option.splits)

lemma drop_task_inv:
  assumes inv: "sched_inv s Q L" and L: "L = as @ t # bs" and t: "\<not> t_on_cpu (tasks s t)" "\<not> t_on_runq (tasks s t)"
    and l: "l = (if as = [] then None else Some (last as))"
  shows "sched_inv (task_release t (link_set l (t_next (tasks s t)) s)) Q (as @ bs)"
proof -
  let ?s = "task_release t (link_set l (t_next (tasks s t)) s)"
  note pl = sched_invD(2) [OF inv]
  have d: "distinct (as @ t # bs)" and ch: "chain (\<lambda>x. t_next (tasks s x)) (task_list s) (as @ t # bs)" using place_invD(1,2) [OF pl] L by simp_all
  have tl: "l \<noteq> Some t" using d l last_in_set [of as] by auto
  have f: "t_pid (tasks ?s x) = t_pid (tasks s x)" "t_cpu_affinity (tasks ?s x) = t_cpu_affinity (tasks s x)" "t_on_cpu (tasks ?s x) = t_on_cpu (tasks s x)"
    "t_on_runq (tasks ?s x) = t_on_runq (tasks s x)" "x \<noteq> t \<Longrightarrow> task_st ?s x = task_st s x"
    "x \<noteq> t \<Longrightarrow> t_next (tasks ?s x) = (if l = Some x then t_next (tasks s t) else t_next (tasks s x))"
    "x \<noteq> t \<Longrightarrow> t_runq_next (tasks ?s x) = t_runq_next (tasks s x)" "x \<noteq> t \<Longrightarrow> t_runq_prev (tasks ?s x) = t_runq_prev (tasks s x)" for x
    using t(2) tl by (auto simp: release_task link_set_simps)
  have fr: "cpus ?s = cpus s" "g_cpu_count ?s = g_cpu_count s" by (simp_all add: release_frame link_set_simps)
  have lr: "first (rev as) = l" by (simp add: l first_rev)
  have "chain (\<lambda>x. t_next (tasks ?s x)) (if as = [] then t_next (tasks s t) else task_list s) (as @ bs)"
  proof (rule chain_del [OF ch d])
    fix x assume "x \<in> set (as @ bs)"
    then have "x \<noteq> t" using d by auto
    then show "t_next (tasks ?s x) = (if first (rev as) = Some x then t_next (tasks s t) else t_next (tasks s x))" unfolding lr by (rule f(6))
  qed
  moreover have "task_list ?s = (if as = [] then t_next (tasks s t) else task_list s)" by (simp add: release_frame link_set_simps l)
  moreover have "placed ?s (as @ bs) c x" if "placed s L c x" for c x using that t(1) L by (auto simp: placed_def f fr)
  then have "cpu_ok ?s (as @ bs) c" if "c < g_cpu_count s" for c using place_invD(6) [OF pl that] unfolding cpu_ok_def fr f by blast
  ultimately have "place_inv ?s (as @ bs)" using pl d L unfolding place_inv_def fr f by simp
  moreover have "queue_ok ?s c (Q c)" if "c < g_cpu_count s" for c
  proof (rule queue_ok_cong [OF runq_relD(3) [OF sched_invD(1) [OF inv] that]])
    fix x assume "x \<in> set (Q c)"
    then have "x \<noteq> t" using queue_member(3) [OF sched_invD(1) [OF inv]] t(2) by blast
    then show "t_runq_next (tasks ?s x) = t_runq_next (tasks s x)" "t_runq_prev (tasks ?s x) = t_runq_prev (tasks s x)" using f(7,8) by auto
  qed (simp_all add: f fr)
  moreover have "task_st ?s x = TASK_READY" if "t_on_runq (tasks s x)" for x
    using runq_relD(6) [OF sched_invD(1) [OF inv] that] f(5) [of x] that t(2) by auto
  ultimately have "runq_rel ?s Q" and "place_inv ?s (as @ bs)" using sched_invD(1) [OF inv] unfolding runq_rel_def fr f(1,4) by simp_all
  moreover have "state_inv ?s (as @ bs)" unfolding state_inv_def f(4)
  proof (intro conjI allI impI ballI)
    fix x assume x: "x \<in> set (as @ bs)"
    then have xl: "x \<in> set L" and st: "task_st ?s x = task_st s x" using d f(5) [of x] L by auto
    show "task_st ?s x = TASK_READY \<longleftrightarrow> t_on_runq (tasks s x)" unfolding st by (rule state_invD(2) [OF sched_invD(3) [OF inv] xl])
    assume "task_st ?s x = TASK_RUNNING"
    then show "on_some_cpu ?s x" using state_invD(3) [OF sched_invD(3) [OF inv] xl] st by (simp add: on_some_cpu_def fr)
  next
    fix x assume "t_on_runq (tasks s x)"
    then show "x \<in> set (as @ bs)" using state_invD(1) [OF sched_invD(3) [OF inv], of x] t(2) L by auto
  qed
  ultimately show ?thesis by (simp add: sched_inv_def)
qed

text \<open>What the rest of the kernel owes to \<open>task_reap\<close>: the task has an address space and an aligned kernel stack.\<close>

definition reapable :: "'a sched_scheme \<Rightarrow> tref \<Rightarrow> bool" where
  "reapable s t \<longleftrightarrow> page_aligned (t_kstack_top (tasks s t)) \<and> t_address_space (tasks s t) \<noteq> 0 \<and> page_aligned (t_address_space (tasks s t))"

lemma reap_inv:
  assumes inv: "sched_inv s Q L" and t: "t \<in> set L" "reapable s t"
  shows "ok (task_reap_locked (Some t) s) (\<lambda>(v, s').
    if (task_st s t = TASK_ZOMBIE \<or> task_st s t = TASK_DEAD) \<and> \<not> t_on_cpu (tasks s t)
    then v = 0 \<and> sched_inv s' Q (removeAll t L) \<and> freed s' = freed s @ [t] \<and> cpus s' = cpus s \<and> g_cpu_count s' = g_cpu_count s else v = -1 \<and> s' = s)"
proof (cases "(task_st s t = TASK_ZOMBIE \<or> task_st s t = TASK_DEAD) \<and> \<not> t_on_cpu (tasks s t)")
  case True
  have nq: "\<not> t_on_runq (tasks s t)" using runq_relD(6) [OF sched_invD(1) [OF inv], of t] True by auto
  obtain as bs where L: "L = as @ t # bs" and nas: "t \<notin> set as" using split_list_first [OF t(1)] by blast
  have nbs: "t \<notin> set bs" using place_invD(2) [OF sched_invD(2) [OF inv]] L by simp
  let ?l = "if as = [] then None else Some (last as)"
  have ch: "chain (\<lambda>x. t_next (tasks s x)) (task_list s) (as @ t # bs)" using place_invD(1) [OF sched_invD(2) [OF inv]] L by simp
  then have fl: "find_link t None s = Some ?l" using find_link_eq [of s None as t bs] nas by (simp add: link_get_def)
  have lg: "link_get ?l s = Some t"
  proof (cases as rule: rev_cases)
    case Nil
    then show ?thesis using ch by (simp add: link_get_def)
  next
    case (snoc as' a)
    then show ?thesis using chain_next [of "\<lambda>x. t_next (tasks s x)" _ as' a "t # bs"] ch by (simp add: link_get_def)
  qed
  have "sched_inv (task_release t (link_set ?l (t_next (tasks s t)) s)) Q (removeAll t L)"
    using drop_task_inv [OF inv L _ nq refl] True nas nbs by (simp add: L)
  moreover have "task_runq_remove_locked (Some t) s = Some s" using nq by (simp add: task_runq_remove_locked_def)
  ultimately show ?thesis using True fl lg t(2) place_invD(4) [OF sched_invD(2) [OF inv] t(1)]
    by (auto simp: task_reap_locked_def reapable_def task_is_idle_task_def release_frame link_set_simps)
next
  case False
  then show ?thesis by (auto simp: task_reap_locked_def)
qed

section \<open>New tasks\<close>

definition fresh :: "'a sched_scheme \<Rightarrow> tref list \<Rightarrow> tref \<Rightarrow> bool" where
  "fresh s L t \<longleftrightarrow> t \<notin> set L \<and> \<not> t_on_cpu (tasks s t) \<and> \<not> t_on_runq (tasks s t) \<and> task_st s t = TASK_RUNNING \<and>
     (\<forall>c < g_cpu_count s. idle_task (cpus s c) \<noteq> Some t)"

lemma not_current:
  assumes "place_inv s L" and "\<not> t_on_cpu (tasks s t)"
  shows "\<not> on_some_cpu s t" and "c < g_cpu_count s \<Longrightarrow> switched_from (cpus s c) \<noteq> Some t"
proof -
  show "\<not> on_some_cpu s t"
  proof
    assume "on_some_cpu s t"
    then obtain c where c: "c < g_cpu_count s" "current_task (cpus s c) = Some t" by (auto simp: on_some_cpu_def)
    then have "placed s L c t" using place_invD(6) [OF assms(1) c(1)] by (simp add: cpu_ok_def)
    then show False using assms(2) by (simp add: placed_def)
  qed
  show "switched_from (cpus s c) \<noteq> Some t" if "c < g_cpu_count s"
    using place_invD(6) [OF assms(1) that] assms(2) by (auto simp: cpu_ok_def placed_def)
qed

lemma rebalance_inv:
  assumes inv: "sched_inv s Q L" and t: "t \<in> set L" "\<not> t_on_cpu (tasks s t)"
  shows "ok (task_rebalance_ready_task_locked (Some t) s) (\<lambda>(c, s'). (\<exists>Q'. sched_inv s' Q' L) \<and> (s' = s \<or> (\<exists>d. pushed t d s s')))"
proof (cases "task_can_migrate_locked (Some t) s")
  case True
  then have "task_st s t = TASK_READY" by (auto simp: task_can_migrate_locked_def task_migration_reason_locked_def split: if_splits)
  then have "ok (task_runq_push_locked (Some t) i s) (\<lambda>s'. sched_inv s' (q_push t (normalize_cpu_affinity i s) Q) L \<and> pushed t (normalize_cpu_affinity i s) s s')" for i
    using push_inv [OF sched_invD(1,2) [OF inv] state_inv_but [OF sched_invD(3) [OF inv]] t(1) _ refl] t(2) by simp
  then have p: "ok (task_runq_push_locked (Some t) i s) (\<lambda>s'. (\<exists>Q'. sched_inv s' Q' L) \<and> (s' = s \<or> (\<exists>d. pushed t d s s')))" for i
    by (rule ok_conseq) blast
  have "(\<exists>Q'. sched_inv s Q' L) \<and> (s = s \<or> (\<exists>d. pushed t d s s))" using inv by blast
  then show ?thesis using True p by (simp add: task_rebalance_ready_task_locked_def Let_def)
next
  case False
  then show ?thesis using inv by (auto simp: task_rebalance_ready_task_locked_def)
qed

lemma runq_rel_same:
  assumes "tasks s' = tasks s" and "g_cpu_count s' = g_cpu_count s" and "\<And>c. runq_head (cpus s' c) = runq_head (cpus s c)"
    and "\<And>c. runq_tail (cpus s' c) = runq_tail (cpus s c)" and "\<And>c. runq_count (cpus s' c) = runq_count (cpus s c)"
  shows "runq_rel s' Q = runq_rel s Q"
proof -
  have "queue_ok s' c xs = queue_ok s c xs" for c xs by (simp add: queue_ok_def assms)
  then show ?thesis by (simp add: runq_rel_def assms)
qed

lemma runq_rel_off:
  assumes r: "runq_rel s Q" and t: "\<not> t_on_runq (tasks s t)" "\<not> t_on_runq (f (tasks s t))"
  shows "runq_rel (set_task t f s) Q"
proof -
  have "queue_ok (set_task t f s) c (Q c)" if "c < g_cpu_count s" for c
  proof (rule queue_ok_cong [OF runq_relD(3) [OF r that]])
    fix x assume "x \<in> set (Q c)"
    then have "x \<noteq> t" using queue_member(3) [OF r] t(1) by blast
    then show "t_runq_next (tasks (set_task t f s) x) = t_runq_next (tasks s x)" "t_runq_prev (tasks (set_task t f s) x) = t_runq_prev (tasks s x)"
      "t_cpu_affinity (tasks (set_task t f s) x) = t_cpu_affinity (tasks s x)" by simp_all
  qed simp_all
  then show ?thesis using r t unfolding runq_rel_def by auto
qed

lemma add_task_inv:
  assumes inv: "sched_inv s Q L" and fr: "fresh s L t" and len: "length L + 2 < 2 ^ 32"
    and b: "\<And>x. x \<noteq> t \<Longrightarrow> body (tasks s' x) = body (tasks s x)" and cb: "\<And>c. cpu_body (cpus s' c) = cpu_body (cpus s c)"
    and f: "g_cpu_count s' = g_cpu_count s" "task_list s' = Some t" "t_next (tasks s' t) = task_list s"
    and t: "t_pid (tasks s' t) \<noteq> 0" "t_cpu_affinity (tasks s' t) < g_cpu_count s" "task_st s' t = TASK_READY"
    and r: "runq_rel s' (q_push t c Q)"
  shows "sched_inv s' (q_push t c Q) (t # L)"
proof -
  note pl = sched_invD(2) [OF inv]
  note bf = body_fields [OF b] and cf = cpu_body_fields [OF cb]
  have nt: "t \<notin> set L" "\<not> t_on_cpu (tasks s t)" using fr by (simp_all add: fresh_def)
  have xt: "x \<noteq> t" if "x \<in> set L" for x using that nt(1) by auto
  have pd: "placed s' (t # L) d x" if "placed s L d x" for d x
  proof -
    have "x \<noteq> t" using that nt(2) by (auto simp: placed_def)
    then show ?thesis using that by (simp add: placed_def bf cf)
  qed
  have "cpu_ok s' (t # L) d" if d: "d < g_cpu_count s" for d
  proof -
    obtain u i where *: "current_task (cpus s d) = Some u" "placed s L d u" "idle_task (cpus s d) = Some i" "t_pid (tasks s i) = 0" "cpu_id (cpus s d) = d"
      "\<And>v. switched_from (cpus s d) = Some v \<Longrightarrow> placed s L d v" "\<And>v. switched_from (cpus s d) = Some v \<Longrightarrow> u \<noteq> v"
      by (rule cpu_okE [OF pl d]) blast
    have "i \<noteq> t" using fr d *(3) by (auto simp: fresh_def)
    then show ?thesis using * pd unfolding cpu_ok_def by (simp add: bf cf)
  qed
  moreover have "chain (\<lambda>x. t_next (tasks s' x)) (task_list s) L"
    using place_invD(1) [OF pl] chain_cong [of L "\<lambda>x. t_next (tasks s x)" "\<lambda>x. t_next (tasks s' x)" "task_list s"] bf(7) xt by simp
  ultimately have "place_inv s' (t # L)" using pl nt(1) len f t xt by (auto simp: place_inv_def bf cf)
  moreover have on: "t_on_runq (tasks s' x) \<longleftrightarrow> x = t \<or> t_on_runq (tasks s x)" for x
    unfolding runq_relD(5) [OF r] runq_relD(5) [OF sched_invD(1) [OF inv]] q_push_member by auto
  have oc: "on_some_cpu s' x = on_some_cpu s x" for x by (simp add: on_some_cpu_def cf f)
  have "state_inv s' (t # L)" unfolding state_inv_def on oc
    using sched_invD(3) [OF inv] t(3) xt by (auto simp: state_inv_def bf)
  ultimately show ?thesis using r by (simp add: sched_inv_def)
qed

lemma choose_view: "same_view s (snd (task_choose_fork_cpu_locked i s))"
  by (simp add: task_choose_fork_cpu_locked_def choose_spawn_cpu_locked_def Let_def same_view_def same_frame_def)

lemma choose_cpus: "cpus (snd (task_choose_fork_cpu_locked i s)) = cpus s"
  by (simp add: task_choose_fork_cpu_locked_def choose_spawn_cpu_locked_def Let_def)

lemma publish_inv:
  assumes inv: "sched_inv s Q L" and fr: "fresh s L t" and len: "length L + 2 < 2 ^ 32" and pid: "next_pid s > 0"
  shows "ok (task_fork_publish me parent t s) (\<lambda>(p, s'). p = next_pid s \<and> next_pid s' = next_pid s + 1 \<and> (\<exists>Q'. sched_inv s' Q' (t # L)))"
proof -
  let ?f = "\<lambda>k. k\<lparr>t_state := TASK_READY, t_sleep_until_ms := 0\<rparr>"
  let ?g = "\<lambda>k. k\<lparr>t_pid := next_pid s\<rparr>"
  define s1 where "s1 = (set_task t ?g s)\<lparr>next_pid := next_pid s + 1\<rparr>"
  obtain i s2 where c2: "task_choose_fork_cpu_locked (t_cpu_affinity (tasks s1 parent)) s1 = (i, s2)" by (metis surj_pair)
  have v: "same_view s1 s2" using choose_view [of s1 "t_cpu_affinity (tasks s1 parent)"] c2 by simp
  note vf = same_view_fields [OF v]
  have cp: "cpus s2 = cpus s" using choose_cpus [of "t_cpu_affinity (tasks s1 parent)" s1] c2 by (simp add: s1_def)
  have ft: "t \<notin> set L" "\<not> t_on_cpu (tasks s t)" "\<not> t_on_runq (tasks s t)" "task_st s t = TASK_RUNNING" using fr by (simp_all add: fresh_def)
  have "runq_rel (set_task t ?g s) Q" by (rule runq_rel_off [OF sched_invD(1) [OF inv]]) (use ft in simp_all)
  then have "runq_rel s1 Q" using runq_rel_same [of s1 "set_task t ?g s" Q] by (simp add: s1_def)
  then have "runq_rel (set_task t ?f s1) Q" by (rule runq_rel_off) (use ft in \<open>simp_all add: s1_def\<close>)
  then have r2: "runq_rel (set_task t ?f s2) Q" using runq_rel_same [of "set_task t ?f s2" "set_task t ?f s1" Q] by (simp add: vf set_task_def)
  have len2: "length (Q d) + 1 < 2 ^ 32" for d
    by (rule queue_length [OF sched_invD(1,2) [OF inv]]) (use state_invD(1) [OF sched_invD(3) [OF inv]] in blast)
  define c where "c = normalize_cpu_affinity i (set_task t ?f s2)"
  have "ok (task_runq_push_locked (Some t) i (set_task t ?f s2)) (\<lambda>s'. runq_rel s' (q_push t c Q) \<and> pushed t c (set_task t ?f s2) s')"
    by (rule push_rel [OF r2 _ _ c_def len2]) (use pid in \<open>simp_all add: vf s1_def\<close>)
  then obtain s3 where p3: "task_runq_push_locked (Some t) i (set_task t ?f s2) = Some s3" and r3: "runq_rel s3 (q_push t c Q)"
    and pu: "pushed t c (set_task t ?f s2) s3" by (rule ok_elim) blast
  have m3: "task_mark_ready_on_cpu_locked (Some t) i s2 = Some (0, s3)"
    using p3 ft(4) pid by (simp add: task_mark_ready_on_cpu_locked_def task_is_idle_task_def vf s1_def)
  define s4 where "s4 = (set_task t (\<lambda>k. k\<lparr>t_next := task_list s3\<rparr>) s3)\<lparr>task_list := Some t\<rparr>"
  have b3: "body (tasks s3 x) = (if x = t then (body (tasks (set_task t ?f s2) t))\<lparr>t_cpu_affinity := c\<rparr> else body (tasks (set_task t ?f s2) x))"
    "cpu_body (cpus s3 d) = cpu_body (cpus (set_task t ?f s2) d)" for x d using pu by (simp_all add: pushed_def)
  have f3: "t_pid (tasks s3 t) = next_pid s" "t_state (tasks s3 t) = TASK_READY" "t_on_cpu (tasks s3 t) = t_on_cpu (tasks s t)" "t_cpu_affinity (tasks s3 t) = c"
    using arg_cong [OF b3(1) [of t], of t_pid] arg_cong [OF b3(1) [of t], of t_state] arg_cong [OF b3(1) [of t], of t_on_cpu]
      arg_cong [OF b3(1) [of t], of t_cpu_affinity] by (simp_all add: body_def vf s1_def)
  have fr3: "g_cpu_count s3 = g_cpu_count s" "task_list s3 = task_list s" "next_pid s3 = next_pid s + 1"
    using pu by (simp_all add: pushed_def same_frame_def vf s1_def)
  have r4: "runq_rel s4 (q_push t c Q)"
  proof -
    have q: "queue_ok s4 d xs = queue_ok s3 d xs" for d xs
    proof -
      have "t_runq_next (tasks s4 x) = t_runq_next (tasks s3 x)" "t_runq_prev (tasks s4 x) = t_runq_prev (tasks s3 x)"
        "t_cpu_affinity (tasks s4 x) = t_cpu_affinity (tasks s3 x)" for x by (simp_all add: s4_def)
      then show ?thesis by (simp add: queue_ok_def s4_def)
    qed
    show ?thesis using r3 unfolding runq_rel_def q by (simp add: s4_def)
  qed
  have "c < g_cpu_count s" using normalize_less [OF r2, of i] by (simp add: c_def vf s1_def)
  then have i4: "sched_inv s4 (q_push t c Q) (t # L)"
    by (intro add_task_inv [OF inv fr len _ _ _ _ _ _ _ _ r4]) (use pid b3 in \<open>simp_all add: s4_def fr3 f3 vf cp s1_def\<close>)
  have n4: "\<not> t_on_cpu (tasks s4 t)" using ft(2) by (simp add: s4_def f3)
  obtain d s5 where b5: "task_rebalance_ready_task_locked (Some t) s4 = Some (d, s5)" and i5: "\<exists>Q'. sched_inv s5 Q' (t # L)"
    and p5: "s5 = s4 \<or> (\<exists>d. pushed t d s4 s5)" using rebalance_inv [OF i4 _ n4] by (auto simp: ok_def)
  define s6 where "s6 = task_request_resched_cpu me (t_cpu_affinity (tasks s5 t)) s5"
  have v6: "same_view s5 s6" unfolding s6_def by (rule request_view)
  have "t_pid (tasks s5 t) = next_pid s" and "next_pid s5 = next_pid s + 1"
  proof -
    have p4: "t_pid (tasks s4 t) = next_pid s" "next_pid s4 = next_pid s + 1" by (simp_all add: s4_def f3 fr3)
    moreover have "t_pid (tasks s5 t) = t_pid (tasks s4 t)" if "pushed t d s4 s5" for d
    proof -
      have "body (tasks s5 t) = (body (tasks s4 t))\<lparr>t_cpu_affinity := d\<rparr>" using that by (simp add: pushed_def)
      from arg_cong [OF this, of t_pid] show ?thesis by (simp add: body_def)
    qed
    ultimately show "t_pid (tasks s5 t) = next_pid s" "next_pid s5 = next_pid s + 1" using p5 by (auto simp: pushed_def same_frame_def)
  qed
  moreover have "task_fork_publish me parent t s = Some (t_pid (tasks s6 t), s6)"
    unfolding task_fork_publish_def Let_def s1_def [symmetric] c2 prod.case m3 Option.bind.simps s4_def [symmetric] b5 s6_def ..
  ultimately show ?thesis using i5 same_view_inv [OF v6] same_view_fields(1,6) [OF v6] by auto
qed

end
