(* ===== verification/SchedThms.thy ===== *)
theory SchedThms
  imports SchedSafe
begin

text \<open>
  The scheduler as a whole: the operations that tasks and interrupts perform, in any order and on any processor, and what holds in every state
  they lead to.
\<close>

section \<open>Operations\<close>

datatype sched_op =
    Schedule u32
  | FinishSwitch u32
  | Wake "u32 option" tref
  | MarkSleeping tref
  | MarkIoWait tref
  | MarkIoWaitUntil tref u64
  | MarkZombie tref int
  | CancelSleep tref
  | TimerTick "u32 option" u64
  | Kill "u32 option" int int
  | KillPgrp int int int int
  | Reap tref
  | Fork "u32 option" tref tref u64 u64

fun exec :: "sched_op \<Rightarrow> 'a sched_scheme \<Rightarrow> 'a sched_scheme option" where
  "exec (Schedule c) s = map_option snd (schedule (Some c) s)"
| "exec (FinishSwitch c) s = Some (task_finish_switch (Some c) s)"
| "exec (Wake me t) s = map_option snd (task_wake me (Some t) s)"
| "exec (MarkSleeping t) s = map_option snd (task_mark_sleeping_locked (Some t) s)"
| "exec (MarkIoWait t) s = map_option snd (task_mark_io_wait_locked (Some t) s)"
| "exec (MarkIoWaitUntil t d) s = map_option snd (task_mark_io_wait_until_locked (Some t) d s)"
| "exec (MarkZombie t e) s = map_option snd (task_mark_zombie_locked (Some t) e s)"
| "exec (CancelSleep t) s = Some (snd (task_cancel_sleep (Some t) s))"
| "exec (TimerTick me now) s = task_on_timer_tick me now s"
| "exec (Kill me pid sig) s = map_option snd (sys_kill me pid sig s)"
| "exec (KillPgrp pgid ex sig st) s = map_option snd (task_kill_pgrp pgid ex sig st s)"
| "exec (Reap t) s = map_option snd (task_reap (Some t) s)"
| "exec (Fork me parent child as kst) s =
     map_option snd (task_fork_publish me parent child (set_task child (\<lambda>_. fork_child (tasks s parent) as kst) s))"

text \<open>When the kernel performs them: on a processor that exists, on tasks of the list; a task cancels only its own sleep; a task that is reaped has been
  set up completely and has left its processor; the structure of a new task is not in use.\<close>

definition listed :: "'a sched_scheme \<Rightarrow> tref \<Rightarrow> bool" where
  "listed s t \<longleftrightarrow> (\<exists>L. chain (\<lambda>x. t_next (tasks s x)) (task_list s) L \<and> t \<in> set L)"

definition unused :: "'a sched_scheme \<Rightarrow> tref \<Rightarrow> bool" where
  "unused s t \<longleftrightarrow> \<not> listed s t \<and> \<not> t_on_cpu (tasks s t) \<and> \<not> t_on_runq (tasks s t) \<and> (\<forall>c < g_cpu_count s. idle_task (cpus s c) \<noteq> Some t)"

definition room :: "'a sched_scheme \<Rightarrow> bool" where
  "room s \<longleftrightarrow> 0 < next_pid s \<and> (\<exists>L. chain (\<lambda>x. t_next (tasks s x)) (task_list s) L \<and> length L + 2 < 2 ^ 32)"

fun enabled :: "sched_op \<Rightarrow> 'a sched_scheme \<Rightarrow> bool" where
  "enabled (Schedule c) s \<longleftrightarrow> c < g_cpu_count s"
| "enabled (FinishSwitch c) s \<longleftrightarrow> c < g_cpu_count s"
| "enabled (Wake me t) s \<longleftrightarrow> listed s t"
| "enabled (CancelSleep t) s \<longleftrightarrow> on_some_cpu s t"
| "enabled (Reap t) s \<longleftrightarrow> listed s t \<and> reapable s t \<and> \<not> t_on_cpu (tasks s t)"
| "enabled (Fork me parent child as kst) s \<longleftrightarrow> unused s child \<and> room s"
| "enabled _ s \<longleftrightarrow> True"

definition sched_ok :: "'a sched_scheme \<Rightarrow> bool" where
  "sched_ok s \<longleftrightarrow> (\<exists>Q L. sched_inv s Q L)"

lemma listed_iff: "place_inv s L \<Longrightarrow> listed s t \<longleftrightarrow> t \<in> set L"
  using chain_unique place_invD(1) unfolding listed_def by blast

lemma room_length: "place_inv s L \<Longrightarrow> room s \<Longrightarrow> length L + 2 < 2 ^ 32"
  using chain_unique place_invD(1) unfolding room_def by blast

lemma inv_of_self: "sched_inv s Q L \<Longrightarrow> inv_of s L s"
  by (auto simp: inv_of_def)

lemma inv_of_ok: "inv_of s0 L s \<Longrightarrow> sched_ok s"
  by (auto simp: inv_of_def sched_ok_def)

lemma wake_inv_of: "inv_of s0 L s \<Longrightarrow> t \<in> set L \<Longrightarrow> ok (task_wake me (Some t) s) (\<lambda>(v, s'). inv_of s0 L s')"
  using inv_of_wake [of s0 L s t] by (auto simp: task_wake_def ok_def intro: inv_of_view [OF _ request_view(2)])

lemma sys_kill_inv:
  assumes "inv_of s0 L s"
  shows "ok (sys_kill me pid sig s) (\<lambda>(r, s'). inv_of s0 L s')"
proof -
  have sig: "ok (task_signal_pid p sig (sig = 2 \<or> sig = 15 \<or> sig = 9) (128 + sig) LINUX_SIGCHLD s) (\<lambda>(r, s'). inv_of s0 L s')" for p
    by (rule signal_inv [OF assms])
  have "ok (do { (r, s1) \<leftarrow> task_signal_pid p sig (sig = 2 \<or> sig = 15 \<or> sig = 9) (128 + sig) LINUX_SIGCHLD s; Some (if r = 0 then 0 else -3, s1) })
      (\<lambda>(r :: int, s'). inv_of s0 L s')" for p using sig [of p] by (auto simp: ok_def)
  then show ?thesis using assms by (auto simp: sys_kill_def Let_def)
qed

lemma fork_inv:
  assumes inv: "sched_inv s Q L" and u: "unused s t" and r: "room s"
  shows "ok (exec (Fork me parent t as kst) s) sched_ok"
proof -
  let ?s = "set_task t (\<lambda>_. fork_child (tasks s parent) as kst) s"
  note pl = sched_invD(2) [OF inv]
  have nt: "t \<notin> set L" "\<not> t_on_cpu (tasks s t)" "\<not> t_on_runq (tasks s t)" "\<forall>c < g_cpu_count s. idle_task (cpus s c) \<noteq> Some t"
    using u listed_iff [OF pl] by (simp_all add: unused_def)
  have z: "\<not> t_on_cpu (fork_child k a b)" "\<not> t_on_runq (fork_child k a b)" "t_state (fork_child k a b) = TASK_RUNNING" for k a b
    by (simp_all add: fork_child_def zero_task_def)
  have xt: "x \<noteq> t" if "x \<in> set L" for x using that nt(1) by auto
  have pd: "placed ?s L c x" if "placed s L c x" for c x
  proof -
    have "x \<noteq> t" using that nt(2) by (auto simp: placed_def)
    then show ?thesis using that by (simp add: placed_def)
  qed
  have "cpu_ok ?s L c" if c: "c < g_cpu_count s" for c
  proof -
    obtain v i where *: "current_task (cpus s c) = Some v" "placed s L c v" "idle_task (cpus s c) = Some i" "t_pid (tasks s i) = 0" "cpu_id (cpus s c) = c"
      "\<And>x. switched_from (cpus s c) = Some x \<Longrightarrow> placed s L c x" "\<And>x. switched_from (cpus s c) = Some x \<Longrightarrow> v \<noteq> x"
      by (rule cpu_okE [OF pl c]) blast
    have "i \<noteq> t" using nt(4) c *(3) by auto
    then show ?thesis using * pd unfolding cpu_ok_def by simp
  qed
  moreover have "chain (\<lambda>x. t_next (tasks ?s x)) (task_list s) L"
    using place_invD(1) [OF pl] chain_cong [of L "\<lambda>x. t_next (tasks s x)" "\<lambda>x. t_next (tasks ?s x)" "task_list s"] xt by simp
  ultimately have "place_inv ?s L" using pl xt by (simp add: place_inv_def)
  moreover have "runq_rel ?s Q" by (rule runq_rel_off [OF sched_invD(1) [OF inv] nt(3)]) (simp add: z)
  moreover have "state_inv ?s L" using sched_invD(3) [OF inv] xt z by (auto simp: state_inv_def on_some_cpu_def split: if_splits)
  ultimately have "sched_inv ?s Q L" by (simp add: sched_inv_def)
  moreover have "fresh ?s L t" using nt z by (simp add: fresh_def)
  moreover have "next_pid ?s > 0" using r by (simp add: room_def)
  ultimately have "ok (task_fork_publish me parent t ?s) (\<lambda>(p, s'). p = next_pid ?s \<and> next_pid s' = next_pid ?s + 1 \<and> (\<exists>Q'. sched_inv s' Q' (t # L)))"
    by (intro publish_inv room_length [OF pl r])
  then show ?thesis by (auto simp: ok_def sched_ok_def)
qed

lemma exec_ok:
  assumes "sched_ok s" and "enabled a s"
  shows "ok (exec a s) sched_ok"
proof -
  obtain Q L where inv: "sched_inv s Q L" using assms(1) by (auto simp: sched_ok_def)
  note i = inv_of_self [OF inv] and pl = sched_invD(2) [OF inv]
  have lift: "ok (map_option snd m) sched_ok" if "ok m (\<lambda>(v, s'). inv_of s L s')" for m :: "('v \<times> 'a sched_scheme) option"
    using that by (auto simp: ok_def intro: inv_of_ok)
  show ?thesis
  proof (cases a)
    case (Schedule c)
    then have c: "c < g_cpu_count s" using assms(2) by simp
    obtain t where t: "current_task (cpus s c) = Some t" by (rule cpu_okE [OF pl c]) blast
    show ?thesis using schedule_inv [OF inv c t] Schedule by (auto simp: ok_def sched_ok_def)
  next
    case (Wake me t)
    then show ?thesis using lift [OF wake_inv_of [OF i]] assms(2) listed_iff [OF pl] by simp
  next
    case (Reap t)
    then have t: "t \<in> set L" "reapable s t" "\<not> t_on_cpu (tasks s t)" using assms(2) listed_iff [OF pl] by auto
    show ?thesis using reap_inv [OF inv t(1,2)] t(3) Reap assms(1) by (auto simp: task_reap_def ok_def sched_ok_def split: if_splits)
  next
    case (TimerTick me now)
    then show ?thesis using tick_inv [OF i, of me now] by (auto simp: ok_def intro: inv_of_ok)
  qed (use assms(2) finish_inv [OF inv] lift [OF mark_inv(1) [OF i]] lift [OF mark_inv(2) [OF i]] lift [OF mark_inv(3) [OF i]]
        lift [OF mark_inv(4) [OF i]] lift [OF sys_kill_inv [OF i]] lift [OF kill_pgrp_inv [OF i]]
        inv_of_ok [OF cancel_inv [OF i]] fork_inv [OF inv] in \<open>auto simp: sched_ok_def\<close>)
qed

section \<open>Properties\<close>

inductive runs :: "'a sched_scheme \<Rightarrow> 'a sched_scheme \<Rightarrow> bool" where
  runs_refl: "runs s s"
| runs_step: "runs s s' \<Longrightarrow> enabled a s' \<Longrightarrow> exec a s' = Some s'' \<Longrightarrow> runs s s''"

lemma runs_ok: "runs s s' \<Longrightarrow> sched_ok s \<Longrightarrow> sched_ok s'"
proof (induction rule: runs.induct)
  case (runs_step s s' a s'')
  then show ?case using ok_result [OF exec_ok] by blast
qed

lemma current_unique:
  assumes "sched_inv s Q L" and "c < g_cpu_count s" "d < g_cpu_count s" and "current_task (cpus s c) = Some t" "current_task (cpus s d) = Some t"
  shows "c = d"
proof -
  note pl = sched_invD(2) [OF assms(1)]
  have "placed s L c t" "placed s L d t" using place_invD(6) [OF pl assms(2)] place_invD(6) [OF pl assms(3)] assms(4,5) by (simp_all add: cpu_ok_def)
  then show ?thesis by (rule placed_unique [OF pl assms(2,3)])
qed

text \<open>C6. However the processors interleave scheduling, wake-ups, blocking, signals, timer ticks, forks and reaping, starting from a well-formed state: every
  operation returns (no assertion of the run queue code fails), no task is ever the current task of two processors, a ready task is on a run queue, and a task
  in the running state is on a processor.\<close>

theorem scheduler_safe:
  assumes "sched_ok s" and "runs s s'"
  shows "(\<forall>a. enabled a s' \<longrightarrow> (\<exists>s''. exec a s' = Some s'')) \<and>
    (\<forall>c d t. c < g_cpu_count s' \<and> d < g_cpu_count s' \<and> current_task (cpus s' c) = Some t \<and> current_task (cpus s' d) = Some t \<longrightarrow> c = d) \<and>
    (\<forall>t. listed s' t \<longrightarrow> (task_st s' t = TASK_READY \<longleftrightarrow> t_on_runq (tasks s' t)) \<and> (task_st s' t = TASK_RUNNING \<longrightarrow> on_some_cpu s' t))"
proof (intro conjI allI impI)
  have ok: "sched_ok s'" by (rule runs_ok [OF assms(2,1)])
  then obtain Q L where inv: "sched_inv s' Q L" by (auto simp: sched_ok_def)
  show "\<exists>s''. exec a s' = Some s''" if "enabled a s'" for a by (rule ok_returns [OF exec_ok [OF ok that]])
  show "c = d" if "c < g_cpu_count s' \<and> d < g_cpu_count s' \<and> current_task (cpus s' c) = Some t \<and> current_task (cpus s' d) = Some t" for c d t
    using current_unique [OF inv] that by blast
  fix t assume "listed s' t"
  then have t: "t \<in> set L" using listed_iff [OF sched_invD(2) [OF inv]] by simp
  show "task_st s' t = TASK_READY \<longleftrightarrow> t_on_runq (tasks s' t)" by (rule state_invD(2) [OF sched_invD(3) [OF inv] t])
  show "task_st s' t = TASK_RUNNING \<Longrightarrow> on_some_cpu s' t" by (rule state_invD(3) [OF sched_invD(3) [OF inv] t])
qed

text \<open>C10. The doubly linked run queues refine lists of tasks, one for each processor: removing a task deletes it from its list, pushing a task moves it to
  the end of the list of the processor its affinity is normalised to, popping takes the first element, and none of them fails.\<close>

theorem runq_refines_lists:
  assumes "runq_rel s Q"
  shows "ok (task_runq_remove_locked (Some t) s) (\<lambda>s'. runq_rel s' (\<lambda>d. removeAll t (Q d))) \<and>
    (c < g_cpu_count s \<longrightarrow> ok (task_runq_pop_locked (Some c) s)
       (\<lambda>(p, s'). p = (case Q c of [] \<Rightarrow> None | x # _ \<Rightarrow> Some x) \<and> runq_rel s' (Q(c := tl (Q c))))) \<and>
    (task_st s t = TASK_READY \<and> t_pid (tasks s t) \<noteq> 0 \<and> length (Q (normalize_cpu_affinity i s)) + 1 < 2 ^ 32 \<longrightarrow>
       ok (task_runq_push_locked (Some t) i s)
         (\<lambda>s'. runq_rel s' (\<lambda>d. if d = normalize_cpu_affinity i s then removeAll t (Q d) @ [t] else removeAll t (Q d))))"
proof (intro conjI impI)
  show "ok (task_runq_remove_locked (Some t) s) (\<lambda>s'. runq_rel s' (\<lambda>d. removeAll t (Q d)))"
    using ok_conseq [OF remove_rel [OF assms, of t]] by (simp add: q_remove_def)
next
  assume c: "c < g_cpu_count s"
  have tl: "q_remove x Q = Q(c := tl (Q c))" if x: "Q c = x # xs" for x xs
  proof
    fix d
    have "x \<in> set (Q c)" using x by simp
    note m = queue_member(2) [OF assms this]
    have "distinct (Q c)" using runq_relD(3) [OF assms c] by (simp add: queue_ok_def)
    moreover have "x \<notin> set (Q d)" if "d \<noteq> c" using queue_member(2) [OF assms, of x d] m that by auto
    ultimately show "q_remove x Q d = (Q(c := tl (Q c))) d" using x by (cases "d = c") (simp_all add: q_remove_def)
  qed
  show "ok (task_runq_pop_locked (Some c) s) (\<lambda>(p, s'). p = (case Q c of [] \<Rightarrow> None | x # _ \<Rightarrow> Some x) \<and> runq_rel s' (Q(c := tl (Q c))))"
  proof (cases "Q c")
    case Nil
    then have "Q(c := []) = Q" by auto
    then show ?thesis by (intro ok_conseq [OF pop_rel [OF assms c]]) (use Nil in auto)
  next
    case (Cons x xs)
    show ?thesis by (rule ok_conseq [OF pop_rel [OF assms c]]) (use Cons tl [OF Cons] in \<open>auto simp: first_def\<close>)
  qed
next
  assume t: "task_st s t = TASK_READY \<and> t_pid (tasks s t) \<noteq> 0 \<and> length (Q (normalize_cpu_affinity i s)) + 1 < 2 ^ 32"
  have e: "q_push t c Q = (\<lambda>d. if d = c then removeAll t (Q d) @ [t] else removeAll t (Q d))" for c by (auto simp: q_push_def q_remove_def)
  show "ok (task_runq_push_locked (Some t) i s)
      (\<lambda>s'. runq_rel s' (\<lambda>d. if d = normalize_cpu_affinity i s then removeAll t (Q d) @ [t] else removeAll t (Q d)))"
    using ok_conseq [OF push_rel [OF assms _ _ refl], of t i] t by (simp add: e)
qed

text \<open>Repeated calls of \<open>schedule\<close> on one processor.\<close>

fun schedules :: "u32 \<Rightarrow> nat \<Rightarrow> 'a sched_scheme \<Rightarrow> 'a sched_scheme option" where
  "schedules c 0 s = Some s"
| "schedules c (Suc n) s = do { (_, s') \<leftarrow> schedule (Some c) s; schedules c n s' }"

lemma q_schedule_tl:
  assumes inv: "sched_inv s Q L" and c: "c < g_cpu_count s" and q: "Q c = n # ns"
  shows "\<exists>ys. q_schedule c cur (task_st s cur = TASK_RUNNING \<and> t_pid (tasks s cur) \<noteq> 0) Q c = ns @ ys"
proof -
  have d: "distinct (n # ns)" using runq_relD(3) [OF sched_invD(1) [OF inv] c] q by (simp add: queue_ok_def)
  have "cur \<notin> set (Q c)" if "task_st s cur = TASK_RUNNING"
    using that queue_member(3) [OF sched_invD(1) [OF inv]] runq_relD(6) [OF sched_invD(1) [OF inv], of cur] by fastforce
  then show ?thesis using d q by (auto simp: q_schedule_def q_push_def q_remove_def)
qed

text \<open>C18. Round robin: the task at position \<open>k\<close> of a run queue is the current task of the processor after \<open>k + 1\<close> calls of \<open>schedule\<close> there.\<close>

theorem schedule_fair:
  assumes "sched_inv s Q L" and "c < g_cpu_count s" and "k < length (Q c)"
  shows "\<exists>s'. schedules c (Suc k) s = Some s' \<and> current_task (cpus s' c) = Some (Q c ! k)"
  using assms
proof (induction k arbitrary: s Q)
  case 0
  obtain t where t: "current_task (cpus s c) = Some t" by (rule cpu_okE [OF sched_invD(2) [OF 0(1)] 0(2)]) blast
  obtain n ns where q: "Q c = n # ns" using 0(3) by (cases "Q c") auto
  show ?case using schedule_inv [OF 0(1,2) t] q by (auto simp: ok_def q_next_def)
next
  case (Suc k)
  obtain t where t: "current_task (cpus s c) = Some t" by (rule cpu_okE [OF sched_invD(2) [OF Suc.prems(1)] Suc.prems(2)]) blast
  obtain n ns where q: "Q c = n # ns" using Suc.prems(3) by (cases "Q c") auto
  define Q' where "Q' = q_schedule c t (task_st s t = TASK_RUNNING \<and> t_pid (tasks s t) \<noteq> 0) Q"
  obtain p s1 where s1: "schedule (Some c) s = Some (p, s1)" "sched_inv s1 Q' L" "g_cpu_count s1 = g_cpu_count s"
    using schedule_inv [OF Suc.prems(1,2) t] by (auto simp: ok_def Q'_def)
  obtain ys where ys: "Q' c = ns @ ys" using q_schedule_tl [OF Suc.prems(1,2) q] Q'_def by blast
  have "\<exists>s'. schedules c (Suc k) s1 = Some s' \<and> current_task (cpus s' c) = Some (Q' c ! k)"
    by (rule Suc.IH [OF s1(2)]) (use Suc.prems(2,3) s1(3) ys q in simp_all)
  moreover have "Q' c ! k = Q c ! Suc k" using Suc.prems(3) q ys by (simp add: nth_append)
  ultimately show ?case unfolding schedules.simps(2) [of c "Suc k"] s1(1) by simp
qed


section \<open>An example\<close>

text \<open>Two processors. Processor 0 runs task 1, and task 2 is on its queue; processor 1 runs task 3, which has been killed. The tasks 10 and 11 are the idle tasks.\<close>

definition ex_task0 :: task where
  "ex_task0 = zero_task\<lparr>t_timeslice_ticks := 5\<rparr>"

definition ex_tasks :: "tref \<Rightarrow> task" where
  "ex_tasks = (\<lambda>_. zero_task)(
     1 := ex_task0\<lparr>t_pid := 1, t_on_cpu := True\<rparr>,
     2 := ex_task0\<lparr>t_pid := 2, t_ppid := 1, t_state := TASK_READY, t_on_runq := True, t_next := Some 1\<rparr>,
     3 := ex_task0\<lparr>t_pid := 3, t_ppid := 1, t_state := TASK_ZOMBIE, t_on_cpu := True, t_cpu_affinity := 1, t_next := Some 2\<rparr>)"

definition ex_cpus :: "u32 \<Rightarrow> cpu_local" where
  "ex_cpus c = (if c = 0
     then \<lparr>cpu_id = 0, current_task = Some 1, idle_task = Some 10, runq_head = Some 2, runq_tail = Some 2, resched_pending = False, runq_count = 1,
       switched_from = None\<rparr>
     else \<lparr>cpu_id = c, current_task = Some 3, idle_task = Some 11, runq_head = None, runq_tail = None, resched_pending = False, runq_count = 0,
       switched_from = None\<rparr>)"

definition ex_sched :: "'a \<Rightarrow> 'a sched_scheme" where
  "ex_sched m = \<lparr>tasks = ex_tasks, cpus = ex_cpus, g_cpu_count = 2, task_list = Some 3, next_pid = 4, g_fork_spread_enabled = True, next_cpu = 0,
     smp_cpu_count = 2, smp_started_cpu_count = 2, smp_started = (\<lambda>_. True), kernel_address_space = 0, ipis = [], freed = [], destroyed = [], \<dots> = m\<rparr>"

definition ex_queues :: runqs where
  "ex_queues c = (if c = 0 then [2] else [])"

lemma ex_sched_simps [simp]:
  "tasks (ex_sched m) = ex_tasks" "cpus (ex_sched m) = ex_cpus" "g_cpu_count (ex_sched m) = 2" "task_list (ex_sched m) = Some 3" "next_pid (ex_sched m) = 4"
  by (simp_all add: ex_sched_def)

lemma ex_task_simps [simp]:
  "ex_tasks 1 = ex_task0\<lparr>t_pid := 1, t_on_cpu := True\<rparr>"
  "ex_tasks (Suc 0) = ex_task0\<lparr>t_pid := 1, t_on_cpu := True\<rparr>"
  "ex_tasks 2 = ex_task0\<lparr>t_pid := 2, t_ppid := 1, t_state := TASK_READY, t_on_runq := True, t_next := Some 1\<rparr>"
  "ex_tasks 3 = ex_task0\<lparr>t_pid := 3, t_ppid := 1, t_state := TASK_ZOMBIE, t_on_cpu := True, t_cpu_affinity := 1, t_next := Some 2\<rparr>"
  "ex_tasks 10 = zero_task" "ex_tasks 11 = zero_task"
  by (simp_all add: ex_tasks_def)

lemma ex_cpu_cases: "c < (2 :: u32) \<Longrightarrow> c = 0 \<or> c = 1"
  by (simp add: word_less_nat_alt word_unat_eq_iff) linarith

lemma ex_runq: "runq_rel (ex_sched m) ex_queues"
proof -
  have q: "if c < 2 then queue_ok (ex_sched m) c (ex_queues c) else ex_queues c = []" for c
  proof (cases "c < 2")
    case True
    then show ?thesis using ex_cpu_cases [OF True]
      by (auto simp: queue_ok_def ex_queues_def ex_cpus_def ex_task0_def zero_task_def)
  next
    case False
    then have "c \<noteq> 0" by auto
    then show ?thesis using False by (simp add: ex_queues_def)
  qed
  have on: "t_on_runq (ex_tasks t) \<longleftrightarrow> t = 2" for t by (simp add: ex_tasks_def ex_task0_def zero_task_def)
  have "(\<exists>c. t \<in> set (ex_queues c)) \<longleftrightarrow> t = 2" for t by (auto simp: ex_queues_def)
  then show ?thesis using q by (simp add: runq_rel_def on ORTHOX_MAX_CPUS_def)
qed

lemma ex_inv: "sched_inv (ex_sched m) ex_queues [3, 2, 1]"
proof -
  have c: "cpu_ok (ex_sched m) [3, 2, 1] c" if "c < 2" for c
    using ex_cpu_cases [OF that] by (auto simp: cpu_ok_def placed_def ex_cpus_def ex_task0_def zero_task_def)
  have "place_inv (ex_sched m) [3, 2, 1]" unfolding place_inv_def
  proof (intro conjI)
    show "\<forall>c < g_cpu_count (ex_sched m). \<forall>d < g_cpu_count (ex_sched m). idle_task (cpus (ex_sched m) c) = idle_task (cpus (ex_sched m) d) \<longrightarrow> c = d"
    proof (intro allI impI)
      fix c d assume "c < g_cpu_count (ex_sched m)" "d < g_cpu_count (ex_sched m)" "idle_task (cpus (ex_sched m) c) = idle_task (cpus (ex_sched m) d)"
      then show "c = d" using ex_cpu_cases [of c] ex_cpu_cases [of d] by (auto simp: ex_cpus_def)
    qed
  qed (use c in \<open>simp_all add: ex_task0_def zero_task_def\<close>)
  moreover have "state_inv (ex_sched m) [3, 2, 1]"
  proof -
    have "t_on_runq (ex_tasks t) \<longleftrightarrow> t = 2" for t by (simp add: ex_tasks_def ex_task0_def zero_task_def)
    moreover have "on_some_cpu (ex_sched m) 1" unfolding on_some_cpu_def by (rule exI [of _ 0]) (simp add: ex_cpus_def)
    ultimately show ?thesis unfolding state_inv_def by (simp add: ex_task0_def zero_task_def)
  qed
  ultimately show ?thesis using ex_runq by (simp add: sched_inv_def)
qed

theorem runq_refines_lists_witness: "\<exists>s'. task_runq_remove_locked (Some 2) (ex_sched ()) = Some s' \<and> runq_rel s' (\<lambda>_. [])"
proof -
  have "(\<lambda>d. removeAll 2 (ex_queues d)) = (\<lambda>_. [])" by (auto simp: ex_queues_def)
  then show ?thesis using conjunct1 [OF runq_refines_lists [OF ex_runq, of 2 "()"]] by (simp add: ok_def)
qed

theorem schedule_fair_witness: "\<exists>s'. schedules 0 1 (ex_sched ()) = Some s' \<and> current_task (cpus s' 0) = Some 2"
  using schedule_fair [OF ex_inv [of "()"], of 0 0] by (simp add: ex_queues_def)


theorem scheduler_safe_witness:
  "\<exists>s'. exec (Schedule 0) (ex_sched ()) = Some s' \<and> sched_ok (ex_sched ()) \<and> \<not> (current_task (cpus s' 0) = Some 3 \<and> current_task (cpus s' 1) = Some 3) \<and>
    (\<exists>s''. exec (Schedule 1) s' = Some s'')"
proof -
  have ok: "sched_ok (ex_sched ())" unfolding sched_ok_def by (intro exI) (rule ex_inv)
  obtain s' where s': "exec (Schedule 0) (ex_sched ()) = Some s'" "g_cpu_count s' = 2"
    using schedule_inv [OF ex_inv [of "()"], of 0 1] by (auto simp: ok_def ex_cpus_def)
  have "runs (ex_sched ()) s'" by (rule runs_step [OF runs_refl _ s'(1)]) simp
  note safe = scheduler_safe [OF ok this]
  have e: "enabled (Schedule 1) s'" by (simp add: s'(2))
  have "\<exists>s''. exec (Schedule 1) s' = Some s''" using conjunct1 [OF safe] e by blast
  moreover have "\<not> (current_task (cpus s' 0) = Some 3 \<and> current_task (cpus s' 1) = Some 3)"
  proof
    assume "current_task (cpus s' 0) = Some 3 \<and> current_task (cpus s' 1) = Some 3"
    moreover have "(0 :: u32) < g_cpu_count s'" "1 < g_cpu_count s'" by (simp_all add: s'(2))
    ultimately have "(0 :: u32) = 1" using conjunct1 [OF conjunct2 [OF safe]] by blast
    then show False by simp
  qed
  ultimately show ?thesis using s'(1) ok by blast
qed

end
