(* ===== verification/Wait.thy ===== *)
theory Wait
  imports Sched
begin

text \<open>
  Wait queues and completions, \<open>kernel/wait.c\<close>, and the system calls \<open>exit\<close> and \<open>wait4\<close> of \<open>kernel/sys_task.c\<close>, which sleep on
  them. Wait queues are singly linked through the tasks. A routine that sleeps gives the processor away with \<open>kernel_yield\<close>: what the rest of the system
  does until the task runs again is the argument \<open>yld\<close>, a function that may not return. What is done under the lock of a queue is one step. The clock and the
  condition that is waited for read the state.
\<close>

section \<open>State\<close>

record wsched = sched +
  wq_head :: "nat \<Rightarrow> tref option"
  c_done :: "nat \<Rightarrow> u32"
  c_status :: "nat \<Rightarrow> int"

definition set_wq :: "nat \<Rightarrow> tref option \<Rightarrow> 'a wsched_scheme \<Rightarrow> 'a wsched_scheme" where
  "set_wq q p s = s\<lparr>wq_head := (wq_head s)(q := p)\<rparr>"

section \<open>Wait queues\<close>

partial_function (option) wq_contains_loop :: "tref \<Rightarrow> tref option \<Rightarrow> 'a wsched_scheme \<Rightarrow> bool option" where
  "wq_contains_loop t it s =
     (case it of None \<Rightarrow> Some False | Some x \<Rightarrow> if x = t then Some True else wq_contains_loop t (t_wait_next (tasks s x)) s)"

definition wait_queue_contains_locked :: "nat \<Rightarrow> tref \<Rightarrow> 'a wsched_scheme \<Rightarrow> bool option" where
  "wait_queue_contains_locked q t s = wq_contains_loop t (wq_head s q) s"

definition wait_queue_add_current_locked :: "nat \<Rightarrow> tref \<Rightarrow> 'a wsched_scheme \<Rightarrow> 'a wsched_scheme option" where
  "wait_queue_add_current_locked q cur s =
     do {
       b \<leftarrow> wait_queue_contains_locked q cur s;
       Some (if b then s else set_wq q (Some cur) (set_task cur (\<lambda>k. k\<lparr>t_wait_queue := Some q, t_wait_next := wq_head s q\<rparr>) s))
     }"

definition wait_queue_pop_locked :: "nat \<Rightarrow> 'a wsched_scheme \<Rightarrow> tref option \<times> 'a wsched_scheme" where
  "wait_queue_pop_locked q s =
     (case wq_head s q of
        None \<Rightarrow> (None, s)
      | Some t \<Rightarrow> (Some t, set_task t (\<lambda>k. k\<lparr>t_wait_next := None, t_wait_queue := None\<rparr>) (set_wq q (t_wait_next (tasks s t)) s)))"

text \<open>A link is the head of the queue (\<^const>\<open>None\<close>) or the \<open>wait_next\<close> field of a task.\<close>

definition wlink_get :: "nat \<Rightarrow> tref option \<Rightarrow> 'a wsched_scheme \<Rightarrow> tref option" where
  "wlink_get q l s = (case l of None \<Rightarrow> wq_head s q | Some x \<Rightarrow> t_wait_next (tasks s x))"

definition wlink_set :: "nat \<Rightarrow> tref option \<Rightarrow> tref option \<Rightarrow> 'a wsched_scheme \<Rightarrow> 'a wsched_scheme" where
  "wlink_set q l p s = (case l of None \<Rightarrow> set_wq q p s | Some x \<Rightarrow> set_task x (\<lambda>k. k\<lparr>t_wait_next := p\<rparr>) s)"

partial_function (option) wq_remove_loop :: "nat \<Rightarrow> tref \<Rightarrow> tref option \<Rightarrow> 'a wsched_scheme \<Rightarrow> 'a wsched_scheme option" where
  "wq_remove_loop q t l s =
     (case wlink_get q l s of
        None \<Rightarrow> Some s
      | Some x \<Rightarrow>
          if x = t
          then Some (set_task t (\<lambda>k. k\<lparr>t_wait_next := None, t_wait_queue := None\<rparr>) (wlink_set q l (t_wait_next (tasks s t)) s))
          else wq_remove_loop q t (Some x) s)"

definition wait_queue_remove_locked :: "nat \<Rightarrow> tref \<Rightarrow> 'a wsched_scheme \<Rightarrow> 'a wsched_scheme option" where
  "wait_queue_remove_locked q t s = wq_remove_loop q t None s"

definition wait_queue_init :: "nat option \<Rightarrow> 'a wsched_scheme \<Rightarrow> 'a wsched_scheme" where
  "wait_queue_init p s = (case p of None \<Rightarrow> s | Some q \<Rightarrow> set_wq q None s)"

definition wait_queue_empty :: "nat option \<Rightarrow> 'a wsched_scheme \<Rightarrow> bool" where
  "wait_queue_empty p s = (case p of None \<Rightarrow> True | Some q \<Rightarrow> wq_head s q = None)"

definition this_task :: "u32 option \<Rightarrow> 'a sched_scheme \<Rightarrow> tref option" where
  "this_task me s = (case me of None \<Rightarrow> None | Some c \<Rightarrow> current_task (cpus s c))"

text \<open>What a round of the loop does when the condition does not hold, up to the yield.\<close>

definition wait_block :: "nat \<Rightarrow> tref \<Rightarrow> 'a wsched_scheme \<Rightarrow> 'a wsched_scheme option" where
  "wait_block q cur s = do { s1 \<leftarrow> wait_queue_add_current_locked q cur s; (_, s2) \<leftarrow> task_mark_io_wait_locked (Some cur) s1; Some s2 }"

partial_function (option) wait_event_loop ::
  "nat \<Rightarrow> tref \<Rightarrow> ('a wsched_scheme \<Rightarrow> bool) \<Rightarrow> ('a wsched_scheme \<Rightarrow> 'a wsched_scheme option) \<Rightarrow> 'a wsched_scheme \<Rightarrow> 'a wsched_scheme option" where
  "wait_event_loop q cur cond yld s =
     (if cond s then wait_queue_remove_locked q cur s
      else do { s1 \<leftarrow> wait_block q cur s; s2 \<leftarrow> yld s1; wait_event_loop q cur cond yld s2 })"

definition wait_event ::
  "u32 option \<Rightarrow> nat option \<Rightarrow> ('a wsched_scheme \<Rightarrow> bool) \<Rightarrow> ('a wsched_scheme \<Rightarrow> 'a wsched_scheme option) \<Rightarrow> 'a wsched_scheme
     \<Rightarrow> (int \<times> 'a wsched_scheme) option" where
  "wait_event me p cond yld s =
     (case p of
        None \<Rightarrow> Some (-1, s)
      | Some q \<Rightarrow> (case this_task me s of None \<Rightarrow> Some (-1, s) | Some cur \<Rightarrow> map_option (\<lambda>s'. (0, s')) (wait_event_loop q cur cond yld s)))"

partial_function (option) wait_timeout_loop ::
  "nat \<Rightarrow> tref \<Rightarrow> ('a wsched_scheme \<Rightarrow> bool) \<Rightarrow> ('a wsched_scheme \<Rightarrow> u64) \<Rightarrow> u64 \<Rightarrow> u64 \<Rightarrow> ('a wsched_scheme \<Rightarrow> 'a wsched_scheme option)
     \<Rightarrow> 'a wsched_scheme \<Rightarrow> (int \<times> 'a wsched_scheme) option" where
  "wait_timeout_loop q cur cond now timeout deadline yld s =
     (if cond s then map_option (\<lambda>s'. (1, s')) (wait_queue_remove_locked q cur s)
      else if timeout = 0 \<or> now s \<ge> deadline then map_option (\<lambda>s'. (0, s')) (wait_queue_remove_locked q cur s)
      else do {
        s1 \<leftarrow> wait_queue_add_current_locked q cur s;
        (_, s2) \<leftarrow> task_mark_io_wait_until_locked (Some cur) deadline s1;
        s3 \<leftarrow> yld s2;
        wait_timeout_loop q cur cond now timeout deadline yld s3
      })"

definition wait_event_timeout ::
  "u32 option \<Rightarrow> nat option \<Rightarrow> ('a wsched_scheme \<Rightarrow> bool) \<Rightarrow> ('a wsched_scheme \<Rightarrow> u64) \<Rightarrow> u64 \<Rightarrow> ('a wsched_scheme \<Rightarrow> 'a wsched_scheme option)
     \<Rightarrow> 'a wsched_scheme \<Rightarrow> (int \<times> 'a wsched_scheme) option" where
  "wait_event_timeout me p cond now timeout yld s =
     (case p of
        None \<Rightarrow> Some (-1, s)
      | Some q \<Rightarrow> (case this_task me s of None \<Rightarrow> Some (-1, s)
          | Some cur \<Rightarrow> wait_timeout_loop q cur cond now timeout (now s + timeout) yld s))"

definition wake_up_one :: "u32 option \<Rightarrow> nat option \<Rightarrow> 'a wsched_scheme \<Rightarrow> 'a wsched_scheme option" where
  "wake_up_one me p s =
     (case p of
        None \<Rightarrow> Some s
      | Some q \<Rightarrow> (case wait_queue_pop_locked q s of (None, s1) \<Rightarrow> Some s1 | (Some t, s1) \<Rightarrow> map_option snd (task_wake me (Some t) s1)))"

partial_function (option) wake_up_all_loop :: "u32 option \<Rightarrow> nat \<Rightarrow> 'a wsched_scheme \<Rightarrow> 'a wsched_scheme option" where
  "wake_up_all_loop me q s =
     (case wait_queue_pop_locked q s of
        (None, s1) \<Rightarrow> Some s1
      | (Some t, s1) \<Rightarrow> do { (_, s2) \<leftarrow> task_wake me (Some t) s1; wake_up_all_loop me q s2 })"

definition wake_up_all :: "u32 option \<Rightarrow> nat option \<Rightarrow> 'a wsched_scheme \<Rightarrow> 'a wsched_scheme option" where
  "wake_up_all me p s = (case p of None \<Rightarrow> Some s | Some q \<Rightarrow> wake_up_all_loop me q s)"

section \<open>Completions\<close>

text \<open>A completion and the wait queue inside it have the same address. The counter \<open>done\<close> is a C \<open>int\<close>: its 32 bits wrap and are compared signed.\<close>

definition completion_done :: "nat \<Rightarrow> 'a wsched_scheme \<Rightarrow> bool" where
  "completion_done c s \<longleftrightarrow> 0 <s c_done s c"

definition reinit_completion :: "nat option \<Rightarrow> 'a wsched_scheme \<Rightarrow> 'a wsched_scheme" where
  "reinit_completion p s = (case p of None \<Rightarrow> s | Some c \<Rightarrow> s\<lparr>c_done := (c_done s)(c := 0), c_status := (c_status s)(c := 0)\<rparr>)"

definition init_completion :: "nat option \<Rightarrow> 'a wsched_scheme \<Rightarrow> 'a wsched_scheme" where
  "init_completion p s = wait_queue_init p (reinit_completion p s)"

text \<open>What \<open>complete_status\<close> does under the lock of the queue, before it wakes a waiter.\<close>

definition post_completion :: "nat \<Rightarrow> int \<Rightarrow> 'a wsched_scheme \<Rightarrow> 'a wsched_scheme" where
  "post_completion c status s = s\<lparr>c_status := (c_status s)(c := status), c_done := (c_done s)(c := c_done s c + 1)\<rparr>"

definition complete_status :: "u32 option \<Rightarrow> nat option \<Rightarrow> int \<Rightarrow> 'a wsched_scheme \<Rightarrow> 'a wsched_scheme option" where
  "complete_status me p status s = (case p of None \<Rightarrow> Some s | Some c \<Rightarrow> wake_up_one me p (post_completion c status s))"

definition complete :: "u32 option \<Rightarrow> nat option \<Rightarrow> 'a wsched_scheme \<Rightarrow> 'a wsched_scheme option" where
  "complete me p s = complete_status me p 0 s"

definition complete_all_status :: "u32 option \<Rightarrow> nat option \<Rightarrow> int \<Rightarrow> 'a wsched_scheme \<Rightarrow> 'a wsched_scheme option" where
  "complete_all_status me p status s =
     (case p of
        None \<Rightarrow> Some s
      | Some c \<Rightarrow> wake_up_all me p (s\<lparr>c_status := (c_status s)(c := status), c_done := (c_done s)(c := 0x7fffffff)\<rparr>))"

definition complete_all :: "u32 option \<Rightarrow> nat option \<Rightarrow> 'a wsched_scheme \<Rightarrow> 'a wsched_scheme option" where
  "complete_all me p s = complete_all_status me p 0 s"

definition take_completion :: "nat \<Rightarrow> 'a wsched_scheme \<Rightarrow> int \<times> 'a wsched_scheme" where
  "take_completion c s =
     (let s1 = (if 0 <s c_done s c then s\<lparr>c_done := (c_done s)(c := c_done s c - 1)\<rparr> else s) in (c_status s1 c, s1))"

definition wait_for_completion_status ::
  "u32 option \<Rightarrow> nat option \<Rightarrow> ('a wsched_scheme \<Rightarrow> 'a wsched_scheme option) \<Rightarrow> 'a wsched_scheme \<Rightarrow> (int \<times> 'a wsched_scheme) option" where
  "wait_for_completion_status me p yld s =
     (case p of
        None \<Rightarrow> Some (-1, s)
      | Some c \<Rightarrow> do { (r, s1) \<leftarrow> wait_event me p (completion_done c) yld s; Some (if r < 0 then (-1, s1) else take_completion c s1) })"

definition wait_for_completion ::
  "u32 option \<Rightarrow> nat option \<Rightarrow> ('a wsched_scheme \<Rightarrow> 'a wsched_scheme option) \<Rightarrow> 'a wsched_scheme \<Rightarrow> 'a wsched_scheme option" where
  "wait_for_completion me p yld s = map_option snd (wait_for_completion_status me p yld s)"

text \<open>The result is the return value and the status that is stored, when there is one.\<close>

definition wait_for_completion_timeout_status ::
  "u32 option \<Rightarrow> nat option \<Rightarrow> ('a wsched_scheme \<Rightarrow> u64) \<Rightarrow> u64 \<Rightarrow> ('a wsched_scheme \<Rightarrow> 'a wsched_scheme option) \<Rightarrow> 'a wsched_scheme
     \<Rightarrow> ((int \<times> int option) \<times> 'a wsched_scheme) option" where
  "wait_for_completion_timeout_status me p now timeout yld s =
     (case p of
        None \<Rightarrow> Some ((-1, None), s)
      | Some c \<Rightarrow>
          do {
            (r, s1) \<leftarrow> wait_event_timeout me p (completion_done c) now timeout yld s;
            Some (if r \<le> 0 then ((r, None), s1) else (let (status, s2) = take_completion c s1 in ((1, Some status), s2)))
          })"

section \<open>exit and wait4\<close>

definition g_child_exit_wq :: nat where
  "g_child_exit_wq = 0"

definition TASK_CHILD_WAIT_POLL_MS :: u64 where
  "TASK_CHILD_WAIT_POLL_MS = 50"

definition task_child_zombie_ready :: "int \<Rightarrow> int \<Rightarrow> 'a wsched_scheme \<Rightarrow> bool" where
  "task_child_zombie_ready ppid want s \<longleftrightarrow> (case task_find_zombie_child ppid want s of Some (Some _, _) \<Rightarrow> True | _ \<Rightarrow> False)"

definition task_child_exit_wake :: "u32 option \<Rightarrow> 'a wsched_scheme \<Rightarrow> 'a wsched_scheme option" where
  "task_child_exit_wake me s = wake_up_all me (Some g_child_exit_wq) s"

definition task_wait_child_exit ::
  "u32 option \<Rightarrow> int \<Rightarrow> int \<Rightarrow> ('a wsched_scheme \<Rightarrow> u64) \<Rightarrow> u64 \<Rightarrow> ('a wsched_scheme \<Rightarrow> 'a wsched_scheme option) \<Rightarrow> 'a wsched_scheme
     \<Rightarrow> 'a wsched_scheme option" where
  "task_wait_child_exit me ppid want now timeout yld s =
     map_option snd (wait_event_timeout me (Some g_child_exit_wq) (task_child_zombie_ready ppid want) now timeout yld s)"

text \<open>\<open>sys_exit\<close> up to the endless loop of yields at its end; \<open>close_fds\<close> closes the descriptors. A task without a parent halts the machine.\<close>

definition exit_notify :: "u32 option \<Rightarrow> tref \<Rightarrow> 'a wsched_scheme \<Rightarrow> 'a wsched_scheme option" where
  "exit_notify me cur s =
     do {
       p \<leftarrow> task_find_by_pid (t_ppid (tasks s cur)) s;
       (case p of
          None \<Rightarrow> Some s
        | Some parent \<Rightarrow>
            let s1 = (if t_sig_handlers (tasks s parent) (nat LINUX_SIGCHLD) \<noteq> 1
                      then set_task parent (\<lambda>k. k\<lparr>t_sig_pending := t_sig_pending k OR push_bit (nat LINUX_SIGCHLD) 1\<rparr>) s else s)
            in if task_st s1 parent = TASK_SLEEPING \<or> task_st s1 parent = TASK_IO_WAIT
               then map_option snd (task_wake me p s1) else Some s1)
     }"

definition sys_exit :: "u32 option \<Rightarrow> ('a wsched_scheme \<Rightarrow> 'a wsched_scheme option) \<Rightarrow> int \<Rightarrow> 'a wsched_scheme \<Rightarrow> 'a wsched_scheme option" where
  "sys_exit me close_fds status s =
     (case this_task me s of
        None \<Rightarrow> None
      | Some cur \<Rightarrow>
          if t_ppid (tasks s cur) = 0 then None
          else do {
            s1 \<leftarrow> close_fds s;
            s2 \<leftarrow> task_reap_orphans_of (t_pid (tasks s1 cur)) s1;
            (_, s3) \<leftarrow> task_mark_zombie_locked (Some cur) status s2;
            s4 \<leftarrow> exit_notify me cur s3;
            task_child_exit_wake me s4
          })"

definition LINUX_WNOHANG :: u32 where
  "LINUX_WNOHANG = 1"

text \<open>The result is the return value and, when a child is reaped, the \<open>int\<close> that is stored through \<open>wstatus\<close> unless that pointer is null.\<close>

partial_function (option) wait4_loop ::
  "u32 option \<Rightarrow> tref \<Rightarrow> int \<Rightarrow> u32 \<Rightarrow> ('a wsched_scheme \<Rightarrow> u64) \<Rightarrow> ('a wsched_scheme \<Rightarrow> 'a wsched_scheme option) \<Rightarrow> 'a wsched_scheme
     \<Rightarrow> ((int \<times> int option) \<times> 'a wsched_scheme) option" where
  "wait4_loop me cur pid options now yld s =
     do {
       (z, found) \<leftarrow> task_find_zombie_child (t_pid (tasks s cur)) pid s;
       (case z of
          Some t \<Rightarrow>
            do { (_, s1) \<leftarrow> task_reap z s; Some ((t_pid (tasks s t), Some (signed_take_bit 31 (t_exit_status (tasks s t) * 256))), s1) }
        | None \<Rightarrow>
            if \<not> found then Some ((-10, None), s)
            else if options AND LINUX_WNOHANG \<noteq> 0 then Some ((0, None), s)
            else do {
              s1 \<leftarrow> task_wait_child_exit me (t_pid (tasks s cur)) pid now TASK_CHILD_WAIT_POLL_MS yld s;
              wait4_loop me cur pid options now yld s1
            })
     }"

definition sys_wait4 ::
  "u32 option \<Rightarrow> int \<Rightarrow> u32 \<Rightarrow> ('a wsched_scheme \<Rightarrow> u64) \<Rightarrow> ('a wsched_scheme \<Rightarrow> 'a wsched_scheme option) \<Rightarrow> 'a wsched_scheme
     \<Rightarrow> ((int \<times> int option) \<times> 'a wsched_scheme) option" where
  "sys_wait4 me pid options now yld s =
     (case this_task me s of None \<Rightarrow> Some ((-3, None), s) | Some cur \<Rightarrow> wait4_loop me cur pid options now yld s)"

end
