(* ===== verification/WaitThms.thy ===== *)
theory WaitThms
  imports Wait SchedThms
begin

text \<open>
  Wait queues implement lists of waiting tasks, each task being on at most one of them. A task that waits for an event leaves its queue when it
  returns; waking a queue makes every task on it ready to run.
\<close>

section \<open>Wait queues are lists\<close>

lemma wq_head_more: "sched.more s = sched.more s' \<Longrightarrow> wq_head s = wq_head s'"
  by (cases s; cases s') simp

lemma set_wq_simps [simp]:
  "wq_head (set_wq q p s) = (wq_head s)(q := p)" "tasks (set_wq q p s) = tasks s" "cpus (set_wq q p s) = cpus s"
  "g_cpu_count (set_wq q p s) = g_cpu_count s" "task_list (set_wq q p s) = task_list s" "freed (set_wq q p s) = freed s"
  by (simp_all add: set_wq_def)

lemma wq_head_set_task [simp]: "wq_head (set_task t f s) = wq_head s"
  by (simp add: set_task_def)

definition wait_rel :: "'a wsched_scheme \<Rightarrow> (nat \<Rightarrow> tref list) \<Rightarrow> bool" where
  "wait_rel s W \<longleftrightarrow> (\<forall>q. chain (\<lambda>x. t_wait_next (tasks s x)) (wq_head s q) (W q) \<and> distinct (W q)) \<and>
     (\<forall>t q. t \<in> set (W q) \<longleftrightarrow> t_wait_queue (tasks s t) = Some q)"

lemma wait_relD:
  assumes "wait_rel s W"
  shows "chain (\<lambda>x. t_wait_next (tasks s x)) (wq_head s q) (W q)" "distinct (W q)" "t \<in> set (W q) \<longleftrightarrow> t_wait_queue (tasks s t) = Some q"
  using assms by (auto simp: wait_rel_def)

lemma wait_rel_keeps: "keeps s s' \<Longrightarrow> wait_rel s' W = wait_rel s W"
  unfolding wait_rel_def using wq_head_more [of s s'] by (simp add: keeps_def)

lemma contains_eq:
  assumes "wait_rel s W"
  shows "wait_queue_contains_locked q t s = Some (t \<in> set (W q))"
proof -
  have "wq_contains_loop t p s = Some (t \<in> set xs)" if "chain (\<lambda>x. t_wait_next (tasks s x)) p xs" for p xs
    using that
  proof (induction xs arbitrary: p)
    case Nil
    then show ?case by (subst wq_contains_loop.simps) simp
  next
    case (Cons a xs)
    then show ?case by (subst wq_contains_loop.simps) auto
  qed
  then show ?thesis using wait_relD(1) [OF assms] by (simp add: wait_queue_contains_locked_def)
qed

definition q_add :: "nat \<Rightarrow> tref \<Rightarrow> (nat \<Rightarrow> tref list) \<Rightarrow> nat \<Rightarrow> tref list" where
  "q_add q t W = (if t \<in> set (W q) then W else W(q := t # W q))"

lemma chain_off: "t \<notin> set xs \<Longrightarrow> chain (\<lambda>x. n (if x = t then a else b x)) p xs = chain (\<lambda>x. n (b x)) p xs"
  by (rule chain_cong) auto

lemma add_wait:
  assumes w: "wait_rel s W" and t: "t_wait_queue (tasks s t) \<in> {None, Some q}"
  shows "ok (wait_queue_add_current_locked q t s) (\<lambda>s'. wait_rel s' (q_add q t W))"
proof (cases "t \<in> set (W q)")
  case True
  then show ?thesis using w by (simp add: wait_queue_add_current_locked_def contains_eq [OF w] q_add_def)
next
  case False
  have nt: "t \<notin> set (W r)" for r using t wait_relD(3) [OF w, of t r] False wait_relD(3) [OF w, of t q] by auto
  let ?s = "set_wq q (Some t) (set_task t (\<lambda>k. k\<lparr>t_wait_queue := Some q, t_wait_next := wq_head s q\<rparr>) s)"
  have c: "chain (\<lambda>x. t_wait_next (tasks ?s x)) p xs = chain (\<lambda>x. t_wait_next (tasks s x)) p xs" if "t \<notin> set xs" for p xs
    by (rule chain_cong) (use that in auto)
  have "wait_rel ?s (W(q := t # W q))" unfolding wait_rel_def
  proof (intro conjI allI)
    fix r
    show "chain (\<lambda>x. t_wait_next (tasks ?s x)) (wq_head ?s r) ((W(q := t # W q)) r)"
      using wait_relD(1) [OF w, of r] wait_relD(1) [OF w, of q] c [OF nt] by simp
    show "distinct ((W(q := t # W q)) r)" using wait_relD(2) [OF w] nt by simp
    fix u
    show "u \<in> set ((W(q := t # W q)) r) \<longleftrightarrow> t_wait_queue (tasks ?s u) = Some r" using wait_relD(3) [OF w, of u r] nt [of r] by auto
  qed
  then show ?thesis using False by (simp add: wait_queue_add_current_locked_def contains_eq [OF w] q_add_def)
qed

text \<open>Unlinking a task at any place of its queue.\<close>

lemma unlink_wait:
  assumes w: "wait_rel s W" and W: "W q = as @ t # bs" and l: "l = (if as = [] then None else Some (last as))"
  shows "wait_rel (set_task t (\<lambda>k. k\<lparr>t_wait_next := None, t_wait_queue := None\<rparr>) (wlink_set q l (t_wait_next (tasks s t)) s)) (W(q := as @ bs))"
proof -
  let ?s = "set_task t (\<lambda>k. k\<lparr>t_wait_next := None, t_wait_queue := None\<rparr>) (wlink_set q l (t_wait_next (tasks s t)) s)"
  have d: "distinct (as @ t # bs)" using wait_relD(2) [OF w, of q] W by simp
  have lt: "l \<noteq> Some t" using d l last_in_set [of as] by auto
  have lm: "x \<in> set as" if "l = Some x" for x using that l last_in_set [of as] by (auto split: if_splits)
  have n: "t_wait_next (tasks ?s x) = (if l = Some x then t_wait_next (tasks s t) else t_wait_next (tasks s x))" if "x \<noteq> t" for x
    using that lt by (auto simp: wlink_set_def split: option.splits)
  have h: "wq_head ?s r = (if r = q \<and> as = [] then t_wait_next (tasks s t) else wq_head s r)" for r
    using l by (auto simp: wlink_set_def split: option.splits)
  have wq: "t_wait_queue (tasks ?s x) = (if x = t then None else t_wait_queue (tasks s x))" for x
    by (auto simp: wlink_set_def split: option.splits)
  have tq: "t \<in> set (W r) \<longleftrightarrow> r = q" for r using wait_relD(3) [OF w, of t] W by (metis in_set_conv_decomp option.inject)
  have q: "chain (\<lambda>x. t_wait_next (tasks ?s x)) (if as = [] then t_wait_next (tasks s t) else wq_head s q) (as @ bs)"
  proof (rule chain_del [OF _ d])
    show "chain (\<lambda>x. t_wait_next (tasks s x)) (wq_head s q) (as @ t # bs)" using wait_relD(1) [OF w, of q] W by simp
    fix x assume "x \<in> set (as @ bs)"
    then have "x \<noteq> t" using d by auto
    moreover have "first (rev as) = l" by (simp add: l first_rev)
    ultimately show "t_wait_next (tasks ?s x) = (if first (rev as) = Some x then t_wait_next (tasks s t) else t_wait_next (tasks s x))" using n by simp
  qed
  have o: "chain (\<lambda>x. t_wait_next (tasks ?s x)) (wq_head s r) (W r)" if "r \<noteq> q" for r
  proof -
    have "t_wait_next (tasks ?s x) = t_wait_next (tasks s x)" if x: "x \<in> set (W r)" for x
    proof -
      have "x \<noteq> t" using tq [of r] x \<open>r \<noteq> q\<close> by auto
      moreover have "x \<notin> set (W q)" using x \<open>r \<noteq> q\<close> wait_relD(3) [OF w, of x] by auto
      then have "l \<noteq> Some x" using lm [of x] W by auto
      ultimately show ?thesis using n by simp
    qed
    then have "chain (\<lambda>x. t_wait_next (tasks ?s x)) (wq_head s r) (W r) = chain (\<lambda>x. t_wait_next (tasks s x)) (wq_head s r) (W r)" by (rule chain_cong)
    then show ?thesis using wait_relD(1) [OF w, of r] by simp
  qed
  show ?thesis unfolding wait_rel_def
  proof (intro conjI allI)
    fix r
    show "chain (\<lambda>x. t_wait_next (tasks ?s x)) (wq_head ?s r) ((W(q := as @ bs)) r)" unfolding h
    proof (cases "r = q")
      case True
      then show "chain (\<lambda>x. t_wait_next (tasks ?s x)) (if r = q \<and> as = [] then t_wait_next (tasks s t) else wq_head s r) ((W(q := as @ bs)) r)" using q by (cases "as = []") simp_all
    next
      case False
      then show "chain (\<lambda>x. t_wait_next (tasks ?s x)) (if r = q \<and> as = [] then t_wait_next (tasks s t) else wq_head s r) ((W(q := as @ bs)) r)"
        using o [OF False] by simp
    qed
    show "distinct ((W(q := as @ bs)) r)" using wait_relD(2) [OF w, of r] d by simp
    fix u
    show "u \<in> set ((W(q := as @ bs)) r) \<longleftrightarrow> t_wait_queue (tasks ?s u) = Some r"
      unfolding wq using wait_relD(3) [OF w, of u r] tq [of r] d W by auto
  qed
qed

lemma remove_wait:
  assumes w: "wait_rel s W"
  shows "ok (wait_queue_remove_locked q t s) (\<lambda>s'. wait_rel s' (W(q := removeAll t (W q))))"
proof (cases "t \<in> set (W q)")
  case True
  obtain as bs where W: "W q = as @ t # bs" and nas: "t \<notin> set as" using split_list_first [OF True] by blast
  have nbs: "t \<notin> set bs" using wait_relD(2) [OF w, of q] W by simp
  have "wq_remove_loop q t l s =
      Some (set_task t (\<lambda>k. k\<lparr>t_wait_next := None, t_wait_queue := None\<rparr>) (wlink_set q (if as = [] then l else Some (last as)) (t_wait_next (tasks s t)) s))"
    if "chain (\<lambda>x. t_wait_next (tasks s x)) (wlink_get q l s) (as @ t # bs)" "t \<notin> set as" for l as
    using that
  proof (induction as arbitrary: l)
    case Nil
    then show ?case by (subst wq_remove_loop.simps) simp
  next
    case (Cons a as)
    have "chain (\<lambda>x. t_wait_next (tasks s x)) (wlink_get q (Some a) s) (as @ t # bs)" using Cons.prems(1) by (simp add: wlink_get_def)
    note IH = Cons.IH [OF this]
    show ?case using Cons.prems IH by (subst wq_remove_loop.simps) simp
  qed
  from this [of None as] have "wait_queue_remove_locked q t s =
      Some (set_task t (\<lambda>k. k\<lparr>t_wait_next := None, t_wait_queue := None\<rparr>) (wlink_set q (if as = [] then None else Some (last as)) (t_wait_next (tasks s t)) s))"
    using wait_relD(1) [OF w, of q] W nas by (simp add: wait_queue_remove_locked_def wlink_get_def)
  then show ?thesis using unlink_wait [OF w W refl] nas nbs W by simp
next
  case False
  have "wq_remove_loop q t l s = Some s" if "chain (\<lambda>x. t_wait_next (tasks s x)) (wlink_get q l s) xs" "t \<notin> set xs" for l xs
    using that
  proof (induction xs arbitrary: l)
    case Nil
    then show ?case by (subst wq_remove_loop.simps) simp
  next
    case (Cons a xs)
    have "chain (\<lambda>x. t_wait_next (tasks s x)) (wlink_get q (Some a) s) xs" using Cons.prems(1) by (simp add: wlink_get_def)
    then have "wq_remove_loop q t (Some a) s = Some s" using Cons by simp
    then show ?case using Cons.prems by (subst wq_remove_loop.simps) simp
  qed
  then have "wait_queue_remove_locked q t s = Some s"
    using False wait_relD(1) [OF w, of q] by (simp add: wait_queue_remove_locked_def wlink_get_def)
  then show ?thesis using False w by simp
qed

lemma pop_wait:
  assumes w: "wait_rel s W"
  shows "W q = [] \<Longrightarrow> wait_queue_pop_locked q s = (None, s)"
    and "W q = t # ts \<Longrightarrow> wait_rel (snd (wait_queue_pop_locked q s)) (W(q := ts)) \<and> fst (wait_queue_pop_locked q s) = Some t"
proof -
  show "wait_queue_pop_locked q s = (None, s)" if "W q = []" using wait_relD(1) [OF w, of q] that by (simp add: wait_queue_pop_locked_def)
  assume W: "W q = t # ts"
  then have "wq_head s q = Some t" using wait_relD(1) [OF w, of q] by simp
  then show "wait_rel (snd (wait_queue_pop_locked q s)) (W(q := ts)) \<and> fst (wait_queue_pop_locked q s) = Some t"
    using unlink_wait [OF w, of q "[]" t ts None] W by (simp add: wait_queue_pop_locked_def wlink_set_def)
qed

section \<open>The scheduler does not see wait queues\<close>

definition unwait :: "task \<Rightarrow> task" where
  "unwait k = k\<lparr>t_wait_next := None, t_wait_queue := None\<rparr>"

definition links_only :: "'a wsched_scheme \<Rightarrow> 'a wsched_scheme \<Rightarrow> bool" where
  "links_only s s' \<longleftrightarrow> g_cpu_count s' = g_cpu_count s \<and> task_list s' = task_list s \<and> cpus s' = cpus s \<and> freed s' = freed s \<and>
     (\<forall>x. unwait (tasks s' x) = unwait (tasks s x))"

lemma unwait_fields:
  assumes "unwait k = unwait k'"
  shows "t_pid k = t_pid k'" "t_state k = t_state k'" "t_cpu_affinity k = t_cpu_affinity k'" "t_on_cpu k = t_on_cpu k'" "t_next k = t_next k'"
    "t_on_runq k = t_on_runq k'" "t_runq_next k = t_runq_next k'" "t_runq_prev k = t_runq_prev k'"
  using assms by (cases k; cases k'; simp add: unwait_def)+

lemma links_inv:
  assumes l: "links_only s s'" and inv: "sched_inv s Q L"
  shows "sched_inv s' Q L" and "task_st s' x = task_st s x" and "listed s' x = listed s x"
proof -
  have u: "unwait (tasks s' x) = unwait (tasks s x)" for x using l by (simp add: links_only_def)
  note f = unwait_fields [OF u]
  have fr: "g_cpu_count s' = g_cpu_count s" "task_list s' = task_list s" "cpus s' = cpus s" using l by (simp_all add: links_only_def)
  have "queue_ok s' c xs = queue_ok s c xs" for c xs by (simp add: queue_ok_def f fr)
  moreover have "cpu_ok s' L c = cpu_ok s L c" for c by (simp add: cpu_ok_def placed_def f fr)
  moreover have "on_some_cpu s' x = on_some_cpu s x" for x by (simp add: on_some_cpu_def fr)
  ultimately show "sched_inv s' Q L" using inv by (simp add: sched_inv_def runq_rel_def place_inv_def state_inv_def f fr)
  show "task_st s' x = task_st s x" by (rule f)
  show "listed s' x = listed s x" by (simp add: listed_def f fr)
qed

lemma links_set_task: "links_only s (set_task t (\<lambda>k. k\<lparr>t_wait_next := a k, t_wait_queue := b k\<rparr>) s') = links_only s s'"
  "links_only s (set_task t (\<lambda>k. k\<lparr>t_wait_queue := b k, t_wait_next := a k\<rparr>) s') = links_only s s'"
  "links_only s (set_task t (\<lambda>k. k\<lparr>t_wait_next := a k\<rparr>) s') = links_only s s'"
  "links_only s (set_wq q p s') = links_only s s'"
  "links_only s s"
  by (auto simp: links_only_def unwait_def set_task_def set_wq_def)

lemma c_done_set [simp]: "c_done (set_task t f s) = c_done s" "c_done (set_wq q p s) = c_done s"
  by (simp_all add: set_task_def set_wq_def)

lemma links_trans: "links_only s s' \<Longrightarrow> links_only s' s'' \<Longrightarrow> links_only s s''"
  by (simp add: links_only_def)

lemma links_add: "wait_queue_add_current_locked q t s = Some s' \<Longrightarrow> links_only s s' \<and> c_done s' = c_done s"
  by (auto simp: wait_queue_add_current_locked_def links_set_task bind_eq_Some_conv split: if_splits)

lemma links_pop: "links_only s (snd (wait_queue_pop_locked q s)) \<and> c_done (snd (wait_queue_pop_locked q s)) = c_done s"
  by (auto simp: wait_queue_pop_locked_def links_set_task split: option.splits)

lemma links_wlink: "links_only s (wlink_set q l p s) \<and> c_done (wlink_set q l p s) = c_done s"
  by (auto simp: wlink_set_def links_set_task split: option.splits)

lemma links_remove:
  assumes "wait_queue_remove_locked q t s = Some s'"
  shows "links_only s s' \<and> c_done s' = c_done s"
proof -
  have "wq_remove_loop q t None s = Some s'" using assms by (simp add: wait_queue_remove_locked_def)
  then show ?thesis
  proof (rule wq_remove_loop.raw_induct [rotated])
    fix f q t l s and s' :: "'a wsched_scheme"
    assume f: "\<And>q t l s s'. f q t l s = Some s' \<Longrightarrow> links_only s s' \<and> c_done s' = c_done s"
      and e: "(case wlink_get q l s of None \<Rightarrow> Some s
        | Some x \<Rightarrow> if x = t then Some (set_task t (\<lambda>k. k\<lparr>t_wait_next := None, t_wait_queue := None\<rparr>) (wlink_set q l (t_wait_next (tasks s t)) s))
            else f q t (Some x) s) = Some s'"
    show "links_only s s' \<and> c_done s' = c_done s"
      using e f [of q t _ s s'] links_wlink [of s q l "t_wait_next (tasks s t)"] by (auto simp: links_set_task split: option.splits if_splits)
  qed
qed

section \<open>Waking\<close>

definition woken :: "tref set \<Rightarrow> 'a sched_scheme \<Rightarrow> 'a sched_scheme \<Rightarrow> bool" where
  "woken T s s' \<longleftrightarrow>
     (\<forall>x. task_st s' x = (if x \<in> T \<and> task_st s x \<noteq> TASK_ZOMBIE \<and> task_st s x \<noteq> TASK_DEAD then TASK_READY else task_st s x))"

lemma woken_insert: "woken {t} s s1 \<Longrightarrow> woken T s1 s2 \<Longrightarrow> woken (insert t T) s s2"
  unfolding woken_def by (auto split: if_splits)

lemma woken_empty: "woken {} s s"
  by (simp add: woken_def)

lemma woken_view: "woken T s s1 \<Longrightarrow> tasks s2 = tasks s1 \<Longrightarrow> woken T s s2"
  by (simp add: woken_def)

lemma woken_same: "woken T s1 s2 \<Longrightarrow> (\<And>x. task_st s1 x = task_st s x) \<Longrightarrow> woken T s s2"
  by (simp add: woken_def)

lemma sched_okI: "sched_inv s Q L \<Longrightarrow> sched_ok s"
  unfolding sched_ok_def by (intro exI)

lemma wake_states:
  assumes inv: "sched_inv s Q L" and t: "t \<in> set L"
  shows "ok (task_wake me (Some t) s) (\<lambda>(v, s'). (\<exists>Q'. sched_inv s' Q' L) \<and> keeps s s' \<and> woken {t} s s')"
proof -
  obtain v s1 where e: "task_wake_locked (Some t) s = Some (v, s1)" and i: "if task_st s t = TASK_ZOMBIE \<or> task_st s t = TASK_DEAD then v = -1 \<and> s1 = s
      else v = 0 \<and> sched_inv s1 (q_push t (t_cpu_affinity (tasks s t)) Q) L \<and> keeps s s1 \<and> (\<forall>x. task_st s1 x = (if x = t then TASK_READY else task_st s x))"
    using wake_locked_inv [OF inv t] unfolding ok_def by (auto simp only: split: prod.splits)
  obtain Q' where s1: "sched_inv s1 Q' L" "keeps s s1" "woken {t} s s1"
  proof (cases "task_st s t = TASK_ZOMBIE \<or> task_st s t = TASK_DEAD")
    case True
    then have "s1 = s" using i by simp
    then show thesis using True that [of Q] inv by (auto simp: woken_def)
  next
    case False
    then have "woken {t} s s1" using i by (simp add: woken_def)
    then show thesis using that [of "q_push t (t_cpu_affinity (tasks s t)) Q"] i False by simp
  qed
  let ?s = "task_request_resched_cpu me (normalize_cpu_affinity (t_cpu_affinity (tasks s1 t)) s1) s1"
  have view: "same_view s1 ?s" by (rule request_view(2))
  have "sched_inv ?s Q' L" by (rule same_view_inv [OF view s1(1)])
  moreover have "keeps s ?s" by (rule keeps_trans [OF s1(2) same_view_keeps [OF view]])
  moreover have "woken {t} s ?s" by (rule woken_view [OF s1(3) same_view_fields(1) [OF view]])
  ultimately show ?thesis using e s1 by (auto simp: task_wake_def ok_def)
qed

lemma wake_all_states:
  assumes "sched_inv s Q L" and "wait_rel s W" and "W q = ts" and "set ts \<subseteq> set L"
  shows "ok (wake_up_all_loop me q s) (\<lambda>s'. wait_rel s' (W(q := [])) \<and> (\<exists>Q'. sched_inv s' Q' L) \<and> woken (set ts) s s')"
  using assms
proof (induction ts arbitrary: s Q W)
  case Nil
  then have "W(q := []) = W" by auto
  then show ?case using Nil pop_wait(1) [OF Nil(2), of q] woken_empty by (subst wake_up_all_loop.simps) auto
next
  case (Cons t ts)
  obtain s1 where pop: "wait_queue_pop_locked q s = (Some t, s1)" and w1: "wait_rel s1 (W(q := ts))"
    using pop_wait(2) [OF Cons.prems(2,3)] by (metis prod.collapse)
  have l: "links_only s s1" using links_pop [of s q] pop by simp
  note i1 = links_inv [OF l Cons.prems(1)]
  obtain v s2 Q2 where s2: "task_wake me (Some t) s1 = Some (v, s2)" "sched_inv s2 Q2 L" "keeps s1 s2" "woken {t} s1 s2"
    using wake_states [OF i1(1), of t me] Cons.prems(4) by (auto simp: ok_def)
  have "wait_rel s2 (W(q := ts))" using wait_rel_keeps [OF s2(3)] w1 by simp
  then have "ok (wake_up_all_loop me q s2) (\<lambda>s'. wait_rel s' ((W(q := ts))(q := [])) \<and> (\<exists>Q'. sched_inv s' Q' L) \<and> woken (set ts) s2 s')"
    by (rule Cons.IH [OF s2(2)]) (use Cons.prems(4) in simp_all)
  then obtain s3 Q3 where "wake_up_all_loop me q s2 = Some s3" "wait_rel s3 (W(q := []))" "sched_inv s3 Q3 L" "woken (set ts) s2 s3"
    unfolding ok_def fun_upd_upd by blast
  moreover have "woken {t} s s2" by (rule woken_same [OF s2(4) i1(2)])
  ultimately show ?case using pop s2(1) woken_insert by (subst wake_up_all_loop.simps) auto
qed

lemma reap_links:
  assumes "task_reap_locked (Some t) s = Some (v, s')"
  shows "sched.more s' = sched.more s" and "t_wait_next (tasks s' x) = t_wait_next (tasks s x)" and "t_wait_queue (tasks s' x) = t_wait_queue (tasks s x)"
proof -
  have u: "sched.more s1 = sched.more s" "t_wait_next (tasks s1 x) = t_wait_next (tasks s x)" "t_wait_queue (tasks s1 x) = t_wait_queue (tasks s x)"
    if "task_runq_remove_locked (Some t) s = Some s1" for s1 x
    using that by (auto simp: task_runq_remove_locked_def runq_unlink_def Let_def split: if_splits option.splits)
  note f = release_frame release_task link_set_simps
  show "sched.more s' = sched.more s" "t_wait_next (tasks s' x) = t_wait_next (tasks s x)" "t_wait_queue (tasks s' x) = t_wait_queue (tasks s x)"
    using assms by (auto simp: task_reap_locked_def bind_eq_Some_conv f u split: if_splits)
qed

section \<open>Properties\<close>

text \<open>C20. The wait queues stay well formed: each queue is a finite list without repetition, a task is on at most one queue, and its \<open>wait_queue\<close> field names
  that queue. Adding a task that waits nowhere else puts it first, once; removing a task deletes it from the queue; popping takes the first task.\<close>

theorem wait_queues_well_formed:
  assumes "wait_rel s W"
  shows "((\<forall>r. r \<noteq> q \<longrightarrow> t \<notin> set (W r)) \<longrightarrow>
      ok (wait_queue_add_current_locked q t s) (\<lambda>s'. wait_rel s' (W(q := if t \<in> set (W q) then W q else t # W q)))) \<and>
    ok (wait_queue_remove_locked q t s) (\<lambda>s'. wait_rel s' (W(q := removeAll t (W q)))) \<and>
    fst (wait_queue_pop_locked q s) = (case W q of [] \<Rightarrow> None | x # _ \<Rightarrow> Some x) \<and>
    wait_rel (snd (wait_queue_pop_locked q s)) (W(q := tl (W q)))"
proof (intro conjI impI)
  assume n: "\<forall>r. r \<noteq> q \<longrightarrow> t \<notin> set (W r)"
  have "q_add q t W = W(q := if t \<in> set (W q) then W q else t # W q)" by (auto simp: q_add_def)
  then show "ok (wait_queue_add_current_locked q t s) (\<lambda>s'. wait_rel s' (W(q := if t \<in> set (W q) then W q else t # W q)))"
    using add_wait [OF assms, of t q] n wait_relD(3) [OF assms, of t] by (metis insert_iff not_None_eq)
next
  show "ok (wait_queue_remove_locked q t s) (\<lambda>s'. wait_rel s' (W(q := removeAll t (W q))))" by (rule remove_wait [OF assms])
  have "W(q := []) = W" if "W q = []" using that by auto
  then show "fst (wait_queue_pop_locked q s) = (case W q of [] \<Rightarrow> None | x # _ \<Rightarrow> Some x)"
    and "wait_rel (snd (wait_queue_pop_locked q s)) (W(q := tl (W q)))"
    using pop_wait [OF assms, of q] assms by (cases "W q"; simp)+
qed

text \<open>C25. \<open>wake_up_all\<close> returns and wakes every waiter: afterwards the queue is empty, every task that was on it and is not dead is ready (and so, by the scheduler's
  invariant, on a run queue), no other task has changed its state, and all other queues are as before.\<close>

theorem wake_up_all_wakes:
  assumes "sched_inv s Q L" and "wait_rel s W" and "set (W q) \<subseteq> set L"
  shows "\<exists>s'. wake_up_all me (Some q) s = Some s' \<and> sched_ok s' \<and> wait_rel s' (W(q := [])) \<and>
    (\<forall>x. task_st s' x = (if x \<in> set (W q) \<and> task_st s x \<noteq> TASK_ZOMBIE \<and> task_st s x \<noteq> TASK_DEAD then TASK_READY else task_st s x))"
proof -
  obtain s' Q' where "wake_up_all_loop me q s = Some s'" "wait_rel s' (W(q := []))" "sched_inv s' Q' L" "woken (set (W q)) s s'"
    using wake_all_states [OF assms(1,2) refl assms(3), of me] by (auto simp: ok_def simp del: fun_upd_apply)
  then show ?thesis unfolding woken_def by (intro exI [of _ s']) (simp add: wake_up_all_def sched_okI del: fun_upd_apply)
qed

text \<open>C28. A task that is killed while it waits and is then reaped stays on the wait queue: \<open>task_reap\<close> succeeds and frees the structure, but the queue still leads to it, and the next
  wake-up of the queue may return the freed structure.\<close>

theorem reap_leaves_waiter:
  assumes "sched_inv s Q L" and "wait_rel s W" and "t \<in> set L" and "reapable s t" and "task_st s t = TASK_ZOMBIE" and "\<not> t_on_cpu (tasks s t)" and "W q = t # ts"
  shows "\<exists>s'. task_reap (Some t) s = Some (0, s') \<and> t \<in> set (freed s') \<and> \<not> listed s' t \<and> fst (wait_queue_pop_locked q s') = Some t"
proof -
  obtain s' where s': "task_reap_locked (Some t) s = Some (0, s')" "sched_inv s' Q (removeAll t L)" "freed s' = freed s @ [t]"
    using reap_inv [OF assms(1,3,4)] assms(5,6) by (auto simp: ok_def)
  have "wait_rel s' W" using assms(2) reap_links [OF s'(1)] wq_head_more [of s' s] by (simp add: wait_rel_def)
  then have "fst (wait_queue_pop_locked q s') = Some t" using pop_wait(2) assms(7) by blast
  moreover have "\<not> listed s' t" using listed_iff [OF sched_invD(2) [OF s'(2)]] by simp
  ultimately show ?thesis using s' assms(6) by (simp add: task_reap_def)
qed

end
