(* ===== verification/WaitRace.thy ===== *)
theory WaitRace
  imports WaitThms
begin

text \<open>
  A task that waits for a completion races with the task that completes it. What either does under one lock is one step; between any two steps the
  processors may schedule, take timer ticks, wake any task and block other tasks. No wake-up is lost.
\<close>

section \<open>What the rest of the system does to a task\<close>

abbreviation runnable :: "task_state \<Rightarrow> bool" where
  "runnable st \<equiv> st = TASK_READY \<or> st = TASK_RUNNING"

text \<open>The wait queues and completions are left alone, and the task \<open>w\<close> either keeps its state or can run.\<close>

definition calm :: "tref \<Rightarrow> 'a sched_scheme \<Rightarrow> 'a sched_scheme \<Rightarrow> bool" where
  "calm w s s' \<longleftrightarrow> sched.more s' = sched.more s \<and>
     (\<forall>x. t_wait_next (tasks s' x) = t_wait_next (tasks s x) \<and> t_wait_queue (tasks s' x) = t_wait_queue (tasks s x)) \<and>
     (task_st s' w = task_st s w \<or> runnable (task_st s' w))"

lemma calm_refl [simp]: "calm w s s"
  by (simp add: calm_def)

lemma calm_trans: "calm w s s' \<Longrightarrow> calm w s' s'' \<Longrightarrow> calm w s s''"
  by (auto simp: calm_def)

lemma calm_cpu: "calm w s s' \<Longrightarrow> calm w s (set_cpu c f s')"
  by (simp add: calm_def)

lemma calm_task:
  assumes "calm w s s'" and "\<And>k. t_wait_next (f k) = t_wait_next k \<and> t_wait_queue (f k) = t_wait_queue k"
    and "t = w \<Longrightarrow> t_state (f (tasks s' w)) = task_st s' w \<or> runnable (t_state (f (tasks s' w)))"
  shows "calm w s (set_task t f s')"
  using assms by (auto simp: calm_def)

lemma calm_view: "same_view s s' \<Longrightarrow> calm w s s'"
  by (simp add: calm_def same_view_fields)

lemma calm_remove: "task_runq_remove_locked p s = Some s' \<Longrightarrow> calm w s s'"
  by (auto simp: task_runq_remove_locked_def runq_unlink_def calm_def Let_def split: option.splits if_splits)

lemma calm_append: "calm w s (runq_append t i c s)"
  by (auto simp: runq_append_def calm_def Let_def split: option.splits)

lemma calm_push:
  assumes "task_runq_push_locked p i s = Some s'"
  shows "calm w s s'"
proof (cases "p = None \<or> task_is_idle_task (the p) s")
  case True
  then have "s' = s" using assms by (cases p) (simp_all add: task_runq_push_locked_def)
  then show ?thesis by simp
next
  case False
  then obtain t where p: "p = Some t" "\<not> task_is_idle_task t s" by auto
  obtain s1 where s1: "(if t_on_runq (tasks s t) then task_runq_remove_locked p s else Some s) = Some s1"
    and s': "s' = s1 \<or> (\<exists>i c. s' = runq_append t i c s1)"
    using assms p by (fastforce simp: task_runq_push_locked_def Let_def bind_eq_Some_conv split: if_splits option.splits)
  have "calm w s s1" using s1 calm_remove by (auto split: if_splits)
  then show ?thesis using s' calm_trans [OF _ calm_append] by auto
qed

lemma calm_pop: "task_runq_pop_locked me s = Some (p, s') \<Longrightarrow> calm w s s'"
  by (auto simp: task_runq_pop_locked_def split: option.splits dest: calm_remove)

lemma calm_mark_ready:
  assumes "task_mark_ready_on_cpu_locked p i s = Some (v, s')"
  shows "calm w s s'"
proof (cases p)
  case (Some t)
  have "calm w s (set_task t (\<lambda>k. k\<lparr>t_state := TASK_READY, t_sleep_until_ms := 0\<rparr>) s)" by (rule calm_task) simp_all
  then show ?thesis using assms Some
    by (auto simp: task_mark_ready_on_cpu_locked_def split: if_splits intro: calm_trans calm_push)
qed (use assms in \<open>simp add: task_mark_ready_on_cpu_locked_def\<close>)

lemma calm_wake_locked:
  assumes "task_wake_locked p s = Some (v, s')"
  shows "calm w s s'"
proof (cases p)
  case (Some t)
  have "calm w s (set_task t (\<lambda>k. k\<lparr>t_sleep_until_ms := 0\<rparr>) s)" by (rule calm_task) simp_all
  then show ?thesis using assms Some by (auto simp: task_wake_locked_def Let_def split: if_splits intro: calm_trans calm_mark_ready)
qed (use assms in \<open>simp add: task_wake_locked_def\<close>)

lemma calm_wake:
  assumes "task_wake me p s = Some (v, s')"
  shows "calm w s s'"
proof -
  have "calm w s (task_request_resched_cpu m c s1)" if "task_wake_locked p s = Some (r, s1)" for m c r s1
    using calm_trans [OF calm_wake_locked [OF that] calm_view [OF request_view(2)]] .
  then show ?thesis using assms by (auto simp: task_wake_def bind_eq_Some_conv split: option.splits if_splits intro: calm_wake_locked)
qed

lemma calm_finish: "calm w s (task_finish_switch me s)"
  by (auto simp: task_finish_switch_def calm_def split: option.splits)

lemma calm_schedule_to:
  assumes "schedule_to c prev nx s = Some (p, s')"
  shows "calm w s s'"
proof (cases "nx = prev")
  case True
  then show ?thesis using assms by (auto simp: schedule_to_def intro!: calm_task)
next
  case False
  let ?m = "if task_st s prev = TASK_RUNNING \<and> \<not> task_is_idle_task prev s
    then map_option snd (task_mark_ready_on_cpu_locked (Some prev) (t_cpu_affinity (tasks s prev)) s) else Some s"
  obtain s1 where s1: "?m = Some s1" using assms False by (auto simp: schedule_to_def bind_eq_Some_conv)
  then have "calm w s s1" using calm_mark_ready by (auto split: if_splits)
  then show ?thesis using assms False s1 by (auto simp: schedule_to_def intro!: calm_task calm_cpu)
qed

lemma calm_schedule:
  assumes "schedule me s = Some (p, s')"
  shows "calm w s s'"
proof -
  have "calm w s s1" if "task_runq_pop_locked me (task_finish_switch me s) = Some (nx, s1)" for nx s1
    using calm_trans [OF calm_finish calm_pop [OF that]] .
  then show ?thesis using assms
    by (auto simp: schedule_def bind_eq_Some_conv split: option.splits if_splits intro: calm_trans [OF _ calm_schedule_to])
qed

lemma calm_poll_step:
  assumes "poll_sleep_step now t x = Some x'"
  shows "calm w (snd x) (snd x')"
proof -
  obtain a s where x: "x = (a, s)" by (cases x)
  have "calm w s (set_task t (\<lambda>k. k\<lparr>t_sleep_until_ms := 0\<rparr>) s)" by (rule calm_task) simp_all
  then show ?thesis using assms x
    by (auto simp: poll_sleep_step_def Let_def bind_eq_Some_conv split: if_splits prod.splits intro: calm_trans [OF _ calm_wake_locked])
qed

lemma calm_each:
  assumes "each_task f p x = Some x'" and f: "\<And>t x x'. f t x = Some x' \<Longrightarrow> calm w (snd x) (snd x')"
  shows "calm w (snd x) (snd x')"
proof -
  have "(\<forall>t x x'. f t x = Some x' \<longrightarrow> calm w (snd x) (snd x')) \<longrightarrow> calm w (snd x) (snd x')"
  proof (rule each_task.raw_induct [where xa = "((f, p), x)" and P = "\<lambda>f p x x'. (\<forall>t x x'. f t x = Some x' \<longrightarrow> calm w (snd x) (snd x')) \<longrightarrow> calm w (snd x) (snd x')",
        unfolded prod.case], goal_cases)
    case (1 each f p x x')
    show ?case
    proof (cases p)
      case (Some t)
      then obtain x1 where x1: "f t x = Some x1" "each f (t_next (tasks (snd x1) t)) x1 = Some x'" using 1(2) by (auto simp: bind_eq_Some_conv)
      show ?thesis using 1(1) [OF x1(2)] x1(1) calm_trans by blast
    qed (use 1(2) in simp)
  qed (rule assms(1))
  then show ?thesis using f by blast
qed

lemma calm_requests: "calm w s (fold (\<lambda>i s. if P i then task_request_resched_cpu me (f i) s else s) xs s)"
proof (induction xs arbitrary: s)
  case (Cons i xs)
  have "calm w s (if P i then task_request_resched_cpu me (f i) s else s)" by (simp add: calm_view [OF request_view(2)])
  from calm_trans [OF this Cons.IH] show ?case by simp
qed simp

lemma calm_poll: "task_poll_sleep_wakeups me now s = Some (v, s') \<Longrightarrow> calm w s s'"
  unfolding task_poll_sleep_wakeups_def
  by (auto simp: bind_eq_Some_conv dest!: calm_each [OF _ calm_poll_step, where w = w] intro: calm_trans [OF _ calm_requests])

lemma calm_tick:
  assumes "task_on_timer_tick me now s = Some s'"
  shows "calm w s s'"
proof -
  let ?m = "case me of None \<Rightarrow> Some s | Some c \<Rightarrow> if cpu_id (cpus s c) = 0 then map_option snd (task_poll_sleep_wakeups me now s) else Some s"
  obtain s1 where s1: "?m = Some s1" using assms by (auto simp: task_on_timer_tick_def bind_eq_Some_conv)
  then have c: "calm w s s1" using calm_poll by (auto split: option.splits if_splits)
  have t: "calm w s (set_task t (\<lambda>k. k\<lparr>t_timeslice_ticks := f k\<rparr>) s1)" for t f by (rule calm_task [OF c]) simp_all
  show ?thesis using assms s1 c t calm_trans [OF t calm_view [OF request_view(1)]]
    by (auto simp: task_on_timer_tick_def Let_def split: option.splits if_splits)
qed

lemma calm_block:
  assumes "task_runq_remove_locked (Some t) s = Some s1" and "t \<noteq> w"
  shows "calm w s (set_task t (\<lambda>k. k\<lparr>t_sleep_until_ms := d, t_state := st\<rparr>) s1)" and "calm w s (set_task t (\<lambda>k. k\<lparr>t_exit_status := e, t_state := st\<rparr>) s1)"
  using assms by (auto intro!: calm_task intro: calm_remove)

text \<open>The operations of the scheduler that do not block or kill \<open>w\<close>.\<close>

fun spares :: "tref \<Rightarrow> sched_op \<Rightarrow> bool" where
  "spares w (MarkSleeping t) \<longleftrightarrow> t \<noteq> w"
| "spares w (MarkIoWait t) \<longleftrightarrow> t \<noteq> w"
| "spares w (MarkIoWaitUntil t d) \<longleftrightarrow> t \<noteq> w"
| "spares w (MarkZombie t e) \<longleftrightarrow> t \<noteq> w"
| "spares w (Schedule c) \<longleftrightarrow> True"
| "spares w (FinishSwitch c) \<longleftrightarrow> True"
| "spares w (Wake me t) \<longleftrightarrow> True"
| "spares w (TimerTick me now) \<longleftrightarrow> True"
| "spares w _ \<longleftrightarrow> False"

lemma calm_exec:
  assumes "exec a s = Some s'" and "spares w a"
  shows "calm w s s'"
  using assms
  by (cases a) (auto simp: task_mark_sleeping_locked_def task_mark_io_wait_locked_def task_mark_io_wait_until_locked_def task_mark_zombie_locked_def
      intro: calm_schedule calm_finish calm_wake calm_tick calm_block)

lemma exec_tasks:
  assumes inv: "sched_inv s Q L" and e: "exec a s = Some s'" and a: "spares w a" "enabled a s"
  shows "\<exists>Q'. sched_inv s' Q' L"
proof -
  note i = inv_of_self [OF inv] and pl = sched_invD(2) [OF inv]
  have lift: "\<exists>Q'. sched_inv r Q' L" if "ok m (\<lambda>(v, s'). inv_of s L s')" "map_option snd m = Some r" for m :: "('v \<times> 'a sched_scheme) option" and r
    using that by (auto simp: ok_def inv_of_def)
  show ?thesis
  proof (cases a)
    case (Schedule c)
    then have c: "c < g_cpu_count s" using a(2) by simp
    obtain t where t: "current_task (cpus s c) = Some t" by (rule cpu_okE [OF pl c]) blast
    show ?thesis using schedule_inv [OF inv c t] Schedule e by (auto simp: ok_def)
  next
    case (TimerTick me now)
    then show ?thesis using tick_inv [OF i, of me now] e by (auto simp: ok_def inv_of_def)
  next
    case (Wake me t)
    then show ?thesis using lift [OF wake_inv_of [OF i]] a(2) listed_iff [OF pl] e by auto
  qed (use e a finish_inv [OF inv] lift [OF mark_inv(1) [OF i]] lift [OF mark_inv(2) [OF i]] lift [OF mark_inv(3) [OF i]]
        lift [OF mark_inv(4) [OF i]] in auto)
qed

section \<open>The race\<close>

text \<open>
  The task \<open>w\<close> is in \<open>wait_event\<close> on the queue of the completion \<open>q\<close>: about to check the condition, giving up the processor, or out of the loop. The completing task is in
  \<open>complete_status\<close>: about to count, to pop a waiter, to wake the task it has popped, or done. \<open>kernel_yield\<close> returns once the task runs again.
\<close>

datatype waiter = Check | Yield | Left

datatype completer = Post | Pop | WakeTask "tref option" | Finished

inductive race :: "u32 option \<Rightarrow> nat \<Rightarrow> int \<Rightarrow> tref \<Rightarrow> waiter \<times> completer \<times> 'a wsched_scheme \<Rightarrow> waiter \<times> completer \<times> 'a wsched_scheme \<Rightarrow> bool"
  for me q status w where
  check_done: "completion_done q s \<Longrightarrow> wait_queue_remove_locked q w s = Some s' \<Longrightarrow> race me q status w (Check, k, s) (Left, k, s')"
| check_block: "\<not> completion_done q s \<Longrightarrow> wait_block q w s = Some s' \<Longrightarrow> race me q status w (Check, k, s) (Yield, k, s')"
| resume: "task_st s w = TASK_RUNNING \<Longrightarrow> race me q status w (Yield, k, s) (Check, k, s)"
| post: "race me q status w (p, Post, s) (p, Pop, post_completion q status s)"
| pop: "wait_queue_pop_locked q s = (t, s') \<Longrightarrow> race me q status w (p, Pop, s) (p, WakeTask t, s')"
| wake_none: "race me q status w (p, WakeTask None, s) (p, Finished, s)"
| wake_some: "task_wake me (Some t) s = Some (v, s') \<Longrightarrow> race me q status w (p, WakeTask (Some t), s) (p, Finished, s')"
| system: "spares w a \<Longrightarrow> enabled a s \<Longrightarrow> exec a s = Some s' \<Longrightarrow> race me q status w (p, k, s) (p, k, s')"

inductive_cases raceE: "race me q status w x y"

text \<open>The invariant. A waiter that cannot run is still on the queue, or in the hands of the completing task.\<close>

definition race_inv :: "nat \<Rightarrow> tref \<Rightarrow> waiter \<times> completer \<times> 'a wsched_scheme \<Rightarrow> bool" where
  "race_inv q w x = (case x of (p, k, s) \<Rightarrow> \<exists>Q L W. sched_inv s Q L \<and> w \<in> set L \<and> wait_rel s W \<and> (\<forall>r. r \<noteq> q \<longrightarrow> w \<notin> set (W r)) \<and> set (W q) \<subseteq> {w} \<and>
     c_done s q = (if k = Post then 0 else 1) \<and> (k \<notin> {Post, Pop} \<or> p = Left \<longrightarrow> W q = []) \<and> (\<forall>t. k = WakeTask (Some t) \<longrightarrow> t = w) \<and>
     (runnable (task_st s w) \<or> task_st s w = TASK_IO_WAIT \<and> p = Yield \<and> (W q \<noteq> [] \<or> k = WakeTask (Some w))))"

lemma race_invE:
  assumes "race_inv q w (p, k, s)"
  obtains Q L W where "sched_inv s Q L" "w \<in> set L" "wait_rel s W" "\<forall>r. r \<noteq> q \<longrightarrow> w \<notin> set (W r)" "set (W q) \<subseteq> {w}"
    "c_done s q = (if k = Post then 0 else 1)" "k \<notin> {Post, Pop} \<or> p = Left \<longrightarrow> W q = []" "\<forall>t. k = WakeTask (Some t) \<longrightarrow> t = w"
    "runnable (task_st s w) \<or> task_st s w = TASK_IO_WAIT \<and> p = Yield \<and> (W q \<noteq> [] \<or> k = WakeTask (Some w))"
  using assms unfolding race_inv_def prod.case by blast

lemma race_invI:
  assumes "sched_inv s Q L" "w \<in> set L" "wait_rel s W" "\<forall>r. r \<noteq> q \<longrightarrow> w \<notin> set (W r)" "set (W q) \<subseteq> {w}"
    "c_done s q = (if k = Post then 0 else 1)" "k \<notin> {Post, Pop} \<or> p = Left \<longrightarrow> W q = []" "\<forall>t. k = WakeTask (Some t) \<longrightarrow> t = w"
    "runnable (task_st s w) \<or> task_st s w = TASK_IO_WAIT \<and> p = Yield \<and> (W q \<noteq> [] \<or> k = WakeTask (Some w))"
  shows "race_inv q w (p, k, s)"
  using assms unfolding race_inv_def prod.case by blast

lemma more_done: "sched.more s = sched.more s' \<Longrightarrow> c_done s = c_done s'"
  by (cases s; cases s') simp

lemma calm_inv:
  assumes "race_inv q w (p, k, s)" and "calm w s s'" and "\<And>Q L. sched_inv s Q L \<Longrightarrow> \<exists>Q'. sched_inv s' Q' L"
  shows "race_inv q w (p, k, s')"
proof (rule race_invE [OF assms(1)])
  fix Q L W
  assume i: "sched_inv s Q L" and r: "wait_rel s W" and st: "runnable (task_st s w) \<or> task_st s w = TASK_IO_WAIT \<and> p = Yield \<and> (W q \<noteq> [] \<or> k = WakeTask (Some w))"
    and d: "c_done s q = (if k = Post then 0 else 1)"
    and rest: "w \<in> set L" "\<forall>r. r \<noteq> q \<longrightarrow> w \<notin> set (W r)" "set (W q) \<subseteq> {w}" "k \<notin> {Post, Pop} \<or> p = Left \<longrightarrow> W q = []" "\<forall>t. k = WakeTask (Some t) \<longrightarrow> t = w"
  obtain Q' where i': "sched_inv s' Q' L" using assms(3) [OF i] by blast
  have m: "sched.more s' = sched.more s" and wl: "t_wait_next (tasks s' x) = t_wait_next (tasks s x)" "t_wait_queue (tasks s' x) = t_wait_queue (tasks s x)"
    and st': "task_st s' w = task_st s w \<or> runnable (task_st s' w)" for x
    using assms(2) by (auto simp: calm_def)
  have r': "wait_rel s' W" using r by (simp add: wait_rel_def wl wq_head_more [OF m])
  have d': "c_done s' q = (if k = Post then 0 else 1)" using d more_done [OF m] by simp
  have "runnable (task_st s' w) \<or> task_st s' w = TASK_IO_WAIT \<and> p = Yield \<and> (W q \<noteq> [] \<or> k = WakeTask (Some w))" using st st' by auto
  from race_invI [OF i' rest(1) r' rest(2,3) d' rest(4,5) this] show ?thesis .
qed

text \<open>The steps of the waiter and of the completing task.\<close>

lemma block_step:
  assumes inv: "race_inv q w (Check, k, s)" and nd: "\<not> completion_done q s"
  shows "ok (wait_block q w s) (\<lambda>s'. race_inv q w (Yield, k, s'))"
proof (rule race_invE [OF inv])
  fix Q L W
  assume i: "sched_inv s Q L" "w \<in> set L" and r: "wait_rel s W" "\<forall>r. r \<noteq> q \<longrightarrow> w \<notin> set (W r)" "set (W q) \<subseteq> {w}" and d: "c_done s q = (if k = Post then 0 else 1)"
  have k: "k = Post" using nd d by (auto simp: completion_done_def word_sless_alt split: if_splits)
  have wq: "t_wait_queue (tasks s w) \<in> {None, Some q}" using wait_relD(3) [OF r(1), of w] r(2) by (metis insertCI not_None_eq)
  obtain s1 where s1: "wait_queue_add_current_locked q w s = Some s1" "wait_rel s1 (q_add q w W)" by (rule ok_elim [OF add_wait [OF r(1) wq]]) blast
  have "w \<in> set (q_add q w W q)" by (simp add: q_add_def)
  then have wn: "q_add q w W q \<noteq> []" by auto
  have qa: "\<forall>r. r \<noteq> q \<longrightarrow> w \<notin> set (q_add q w W r)" "set (q_add q w W q) \<subseteq> {w}" using r by (auto simp: q_add_def)
  have l: "links_only s s1" "c_done s1 = c_done s" using links_add [OF s1(1)] by simp_all
  have i1: "sched_inv s1 Q L" by (rule links_inv(1) [OF l(1) i(1)])
  let ?f = "\<lambda>k. k\<lparr>t_sleep_until_ms := 0, t_state := TASK_IO_WAIT\<rparr>"
  obtain s2 where s2: "task_runq_remove_locked (Some w) s1 = Some s2" "sched_inv (set_task w ?f s2) (q_remove w Q) L" "keeps s1 (set_task w ?f s2)"
    by (rule ok_elim [OF block_inv [OF i1 blocks_simps(1) [of TASK_IO_WAIT 0], of w]]) auto
  have m: "sched.more (set_task w ?f s2) = sched.more s1" using s2(3) by (simp add: keeps_def)
  have "c_done (set_task w ?f s2) q = (if k = Post then 0 else 1)" using more_done [OF m] l(2) d by simp
  moreover have "wait_rel (set_task w ?f s2) (q_add q w W)" using wait_rel_keeps [OF s2(3)] s1(2) by simp
  moreover have "task_st (set_task w ?f s2) w = TASK_IO_WAIT" by simp
  ultimately have "race_inv q w (Yield, k, set_task w ?f s2)" using race_invI [OF s2(2) i(2) _ qa] k wn by simp
  then show ?thesis using s1(1) s2(1) by (simp add: wait_block_def task_mark_io_wait_locked_def)
qed

lemma leave_step:
  assumes inv: "race_inv q w (Check, k, s)"
  shows "ok (wait_queue_remove_locked q w s) (\<lambda>s'. race_inv q w (Left, k, s'))"
proof (rule race_invE [OF inv])
  fix Q L W
  assume i: "sched_inv s Q L" "w \<in> set L" and r: "wait_rel s W" "\<forall>r. r \<noteq> q \<longrightarrow> w \<notin> set (W r)" "set (W q) \<subseteq> {w}" and d: "c_done s q = (if k = Post then 0 else 1)"
    and k: "\<forall>t. k = WakeTask (Some t) \<longrightarrow> t = w"
    and st: "runnable (task_st s w) \<or> task_st s w = TASK_IO_WAIT \<and> Check = Yield \<and> (W q \<noteq> [] \<or> k = WakeTask (Some w))"
  obtain s1 where s1: "wait_queue_remove_locked q w s = Some s1" "wait_rel s1 (W(q := removeAll w (W q)))" by (rule ok_elim [OF remove_wait [OF r(1)]]) blast
  have "x = w" if "x \<in> set (W q)" for x using that r(3) by auto
  then have "removeAll w (W q) = []" by (simp add: removeAll_filter_not_eq filter_empty_conv)
  then have w1: "wait_rel s1 (W(q := []))" using s1(2) by simp
  have l: "links_only s s1" "c_done s1 = c_done s" using links_remove [OF s1(1)] by simp_all
  note i1 = links_inv [OF l(1) i(1)]
  have "runnable (task_st s1 w)" using st i1(2) by simp
  then have "race_inv q w (Left, k, s1)" using race_invI [OF i1(1) i(2) w1, of q k Left] r(2) d l(2) k by simp
  then show ?thesis using s1(1) by simp
qed

lemma post_view: "links_only s (post_completion q status s)" "wait_rel (post_completion q status s) W = wait_rel s W"
  "c_done (post_completion q status s) q = c_done s q + 1"
  by (simp_all add: post_completion_def links_only_def wait_rel_def)

lemma post_step:
  assumes inv: "race_inv q w (p, Post, s)"
  shows "race_inv q w (p, Pop, post_completion q status s)"
proof (rule race_invE [OF inv])
  fix Q L W
  assume i: "sched_inv s Q L" "w \<in> set L" and r: "wait_rel s W" "\<forall>r. r \<noteq> q \<longrightarrow> w \<notin> set (W r)" "set (W q) \<subseteq> {w}" and d: "c_done s q = (if Post = Post then 0 else 1)"
    and p: "Post \<notin> {Post, Pop} \<or> p = Left \<longrightarrow> W q = []"
    and st: "runnable (task_st s w) \<or> task_st s w = TASK_IO_WAIT \<and> p = Yield \<and> (W q \<noteq> [] \<or> Post = WakeTask (Some w))"
  note i1 = links_inv [OF post_view(1) i(1), of q status]
  have "wait_rel (post_completion q status s) W" using r(1) by (simp add: post_view)
  then show ?thesis using race_invI [OF i1(1) i(2) _ r(2,3), of Pop p] d p st i1(2) by (simp add: post_view)
qed

lemma pop_step:
  assumes inv: "race_inv q w (p, Pop, s)" and e: "wait_queue_pop_locked q s = (t, s')"
  shows "race_inv q w (p, WakeTask t, s')"
proof (rule race_invE [OF inv])
  fix Q L W
  assume i: "sched_inv s Q L" "w \<in> set L" and r: "wait_rel s W" "\<forall>r. r \<noteq> q \<longrightarrow> w \<notin> set (W r)" "set (W q) \<subseteq> {w}" and d: "c_done s q = (if Pop = Post then 0 else 1)"
    and st: "runnable (task_st s w) \<or> task_st s w = TASK_IO_WAIT \<and> p = Yield \<and> (W q \<noteq> [] \<or> Pop = WakeTask (Some w))"
  have l: "links_only s s'" "c_done s' = c_done s" using links_pop [of s q] e by simp_all
  note i1 = links_inv [OF l(1) i(1)]
  show ?thesis
  proof (cases "W q")
    case Nil
    then have "t = None" "s' = s" using pop_wait(1) [OF r(1), of q] e by simp_all
    then show ?thesis using race_invI [OF i r, of "WakeTask None" p] d st Nil by simp
  next
    case (Cons x xs)
    have x: "x = w" and sub: "set xs \<subseteq> {w}" using r(3) Cons by simp_all
    have "w \<notin> set xs" using wait_relD(2) [OF r(1), of q] Cons x by simp
    then have xs: "xs = []" using sub by (cases xs) simp_all
    note pp = pop_wait(2) [OF r(1) Cons, unfolded e fst_conv snd_conv x xs]
    have "runnable (task_st s' w) \<or> task_st s' w = TASK_IO_WAIT \<and> p = Yield" using st i1(2) [of w] by auto
    then show ?thesis using race_invI [OF i1(1) i(2) conjunct1 [OF pp], of q "WakeTask (Some w)" p] r(2) d l(2) pp by simp
  qed
qed

lemma wake_step:
  assumes inv: "race_inv q w (p, WakeTask (Some t), s)"
  shows "ok (task_wake me (Some t) s) (\<lambda>(v, s'). race_inv q w (p, Finished, s'))"
proof (rule race_invE [OF inv])
  fix Q L W
  assume i: "sched_inv s Q L" "w \<in> set L" and r: "wait_rel s W" "\<forall>r. r \<noteq> q \<longrightarrow> w \<notin> set (W r)" "set (W q) \<subseteq> {w}"
    and d: "c_done s q = (if WakeTask (Some t) = Post then 0 else 1)" and n: "WakeTask (Some t) \<notin> {Post, Pop} \<or> p = Left \<longrightarrow> W q = []"
    and t: "\<forall>u. WakeTask (Some t) = WakeTask (Some u) \<longrightarrow> u = w"
    and st: "runnable (task_st s w) \<or> task_st s w = TASK_IO_WAIT \<and> p = Yield \<and> (W q \<noteq> [] \<or> WakeTask (Some t) = WakeTask (Some w))"
  have tw: "t = w" using t by simp
  obtain v s1 Q' where s1: "task_wake me (Some t) s = Some (v, s1)" "sched_inv s1 Q' L" "keeps s s1" "woken {t} s s1"
    using wake_states [OF i(1), of t me] i(2) tw by (auto simp: ok_def)
  have "wait_rel s1 W" using wait_rel_keeps [OF s1(3)] r(1) by simp
  moreover have "c_done s1 = c_done s" using s1(3) more_done [of s1 s] by (simp add: keeps_def)
  moreover have "task_st s1 w = TASK_READY" using s1(4) st tw by (auto simp: woken_def)
  ultimately have "race_inv q w (p, Finished, s1)" using race_invI [OF s1(2) i(2) _ r(2,3), of Finished p] d n by simp
  then show ?thesis using s1(1) by simp
qed

lemma wake_none_step: "race_inv q w (p, WakeTask None, s) \<Longrightarrow> race_inv q w (p, Finished, s)"
  unfolding race_inv_def prod.case by simp

lemma resume_step:
  assumes "race_inv q w (Yield, k, s)" and "task_st s w = TASK_RUNNING"
  shows "race_inv q w (Check, k, s)"
  using assms unfolding race_inv_def prod.case by simp

lemma race_step: "race me q status w x y \<Longrightarrow> race_inv q w x \<Longrightarrow> race_inv q w y"
proof (induction rule: race.induct)
  case (check_done s s' k)
  then show ?case using ok_result [OF leave_step] by blast
next
  case (check_block s s' k)
  then show ?case using ok_result [OF block_step] by blast
next
  case (wake_some t s v s' p)
  then show ?case using ok_result [OF wake_step [OF wake_some(2), of me]] by blast
next
  case (system a s s' p k)
  then show ?case using calm_inv [OF system(4) calm_exec [OF system(3,1)]] exec_tasks [OF _ system(3,1,2)] by blast
qed (simp_all add: resume_step post_step pop_step wake_none_step)

lemma race_run: "(race me q status w)\<^sup>*\<^sup>* x y \<Longrightarrow> race_inv q w x \<Longrightarrow> race_inv q w y"
  by (induction rule: rtranclp_induct) (auto intro: race_step)

section \<open>Properties\<close>

text \<open>C8. No wake-up is lost. A task waits for a completion, another task completes it, and in between the processors may schedule, take timer ticks, wake any task and block other
  tasks, in any order. When the completing task has finished and the waiter still sits in its yield, the waiter is on a run queue or on a processor, never blocked; when the waiter has
  left, it is on no wait queue; and no step of either task can fail.\<close>

theorem no_lost_wakeup:
  assumes "sched_inv s Q L" and "w \<in> set L" and "task_st s w = TASK_RUNNING" and "wait_rel s W" and "\<forall>r. w \<notin> set (W r)" and "W q = []" and "c_done s q = 0"
    and "(race me q status w)\<^sup>*\<^sup>* (Check, Post, s) (p, k, s')"
  shows "(p = Yield \<and> k = Finished \<longrightarrow> t_on_runq (tasks s' w) \<or> on_some_cpu s' w) \<and> (p = Left \<longrightarrow> t_wait_queue (tasks s' w) = None) \<and>
    (p = Check \<longrightarrow> (if completion_done q s' then wait_queue_remove_locked q w s' \<noteq> None else wait_block q w s' \<noteq> None)) \<and>
    (\<forall>t. k = WakeTask (Some t) \<longrightarrow> task_wake me (Some t) s' \<noteq> None)"
proof -
  have "race_inv q w (Check, Post, s)" by (rule race_invI [OF assms(1,2,4)]) (use assms(3,5-7) in simp_all)
  with assms(8) have inv: "race_inv q w (p, k, s')" by (rule race_run)
  obtain Q' L' W' where i: "sched_inv s' Q' L'" "w \<in> set L'" and r: "wait_rel s' W'" "\<forall>r. r \<noteq> q \<longrightarrow> w \<notin> set (W' r)"
    and n: "k \<notin> {Post, Pop} \<or> p = Left \<longrightarrow> W' q = []"
    and st: "runnable (task_st s' w) \<or> task_st s' w = TASK_IO_WAIT \<and> p = Yield \<and> (W' q \<noteq> [] \<or> k = WakeTask (Some w))"
    by (rule race_invE [OF inv]) blast
  note si = state_invD [OF sched_invD(3) [OF i(1)]]
  have "t_on_runq (tasks s' w) \<or> on_some_cpu s' w" if "k = Finished" using st n that si(2,3) [OF i(2)] by auto
  moreover have "t_wait_queue (tasks s' w) = None" if "p = Left"
  proof -
    have "w \<notin> set (W' r)" for r using r(2) n that by (cases "r = q") simp_all
    then show ?thesis using wait_relD(3) [OF r(1), of w] by (meson not_None_eq)
  qed
  moreover have "if completion_done q s' then wait_queue_remove_locked q w s' \<noteq> None else wait_block q w s' \<noteq> None" if "p = Check"
    using ok_returns [OF leave_step, of q w k s'] ok_returns [OF block_step, of q w k s'] inv that by auto
  moreover have "task_wake me (Some t) s' \<noteq> None" if "k = WakeTask (Some t)" for t
    using ok_returns [OF wake_step, of q w p t s' me] inv that by auto
  ultimately show ?thesis by blast
qed

section \<open>An example\<close>

definition ex_wsched :: wsched where
  "ex_wsched = ex_sched \<lparr>wq_head = (\<lambda>_. None), c_done = (\<lambda>_. 0), c_status = (\<lambda>_. 0)\<rparr>"

lemma ex_wsched_inv: "sched_inv ex_wsched ex_queues [3, 2, 1]" "wait_rel ex_wsched (\<lambda>_. [])" "c_done ex_wsched = (\<lambda>_. 0)" "task_st ex_wsched 1 = TASK_RUNNING"
proof -
  show "sched_inv ex_wsched ex_queues [3, 2, 1]" unfolding ex_wsched_def by (rule ex_inv)
  show "c_done ex_wsched = (\<lambda>_. 0)" by (simp add: ex_wsched_def ex_sched_def)
  have "wq_head ex_wsched q = None" for q by (simp add: ex_wsched_def ex_sched_def)
  moreover have "t_wait_queue (tasks ex_wsched t) = None" for t by (simp add: ex_wsched_def ex_tasks_def ex_task0_def zero_task_def)
  ultimately show "wait_rel ex_wsched (\<lambda>_. [])" by (simp add: wait_rel_def)
  show "task_st ex_wsched 1 = TASK_RUNNING" by (simp add: ex_wsched_def ex_task0_def zero_task_def)
qed

lemma ex_race: "race_inv 5 1 (Check, Post, ex_wsched)"
  by (rule race_invI [OF ex_wsched_inv(1) _ ex_wsched_inv(2)]) (use ex_wsched_inv(3,4) in simp_all)

lemma ex_block:
  obtains s1 where "race None 5 9 1 (Check, Post, ex_wsched) (Yield, Post, s1)" "race_inv 5 1 (Yield, Post, s1)" "task_st s1 1 = TASK_IO_WAIT"
proof -
  have nd: "\<not> completion_done 5 ex_wsched" by (simp add: completion_done_def ex_wsched_inv word_sless_alt)
  obtain s1 where s1: "wait_block 5 1 ex_wsched = Some s1" "race_inv 5 1 (Yield, Post, s1)" by (rule ok_elim [OF block_step [OF ex_race nd]]) blast
  moreover have "task_st s1 1 = TASK_IO_WAIT" using s1(1) by (auto simp: wait_block_def task_mark_io_wait_locked_def bind_eq_Some_conv)
  ultimately show thesis using that race.check_block [OF nd] by blast
qed

theorem no_lost_wakeup_witness:
  "\<exists>s'. (race None 5 9 1)\<^sup>*\<^sup>* (Check, Post, ex_wsched) (Yield, Finished, s') \<and> (t_on_runq (tasks s' 1) \<or> on_some_cpu s' 1)"
proof -
  obtain s1 where s1: "race None 5 9 1 (Check, Post, ex_wsched) (Yield, Post, s1)" "race_inv 5 1 (Yield, Post, s1)" by (rule ex_block)
  obtain t s2 where pop: "wait_queue_pop_locked 5 (post_completion 5 9 s1) = (t, s2)" by (cases "wait_queue_pop_locked 5 (post_completion 5 9 s1)") auto
  have i2: "race_inv 5 1 (Yield, WakeTask t, s2)" by (rule pop_step [OF post_step [OF s1(2)] pop])
  have "\<exists>s3. race None 5 9 1 (Yield, WakeTask t, s2) (Yield, Finished, s3)"
  proof (cases t)
    case None
    then show ?thesis using race.wake_none by blast
  next
    case (Some u)
    obtain v s3 where "task_wake None (Some u) s2 = Some (v, s3)" using ok_returns [OF wake_step [OF i2 [unfolded Some], of None]] by auto
    then show ?thesis using race.wake_some Some by blast
  qed
  then obtain s3 where "race None 5 9 1 (Yield, WakeTask t, s2) (Yield, Finished, s3)" by blast
  with race.pop [OF pop] race.post s1(1) have run: "(race None 5 9 1)\<^sup>*\<^sup>* (Check, Post, ex_wsched) (Yield, Finished, s3)"
    by (meson converse_rtranclp_into_rtranclp r_into_rtranclp)
  have "t_on_runq (tasks s3 1) \<or> on_some_cpu s3 1"
    using no_lost_wakeup [OF ex_wsched_inv(1) _ ex_wsched_inv(4,2) _ _ _ run] ex_wsched_inv(3) by simp
  then show ?thesis using run by blast
qed

theorem wake_up_all_wakes_witness: "\<exists>(s :: wsched) s'. wake_up_all None (Some 5) s = Some s' \<and> task_st s 1 = TASK_IO_WAIT \<and> task_st s' 1 = TASK_READY"
proof -
  obtain s1 :: wsched where s1: "race_inv 5 1 (Yield, Post, s1)" "task_st s1 1 = TASK_IO_WAIT" by (rule ex_block)
  obtain Q L W where i: "sched_inv s1 Q L" "1 \<in> set L" "wait_rel s1 W" "set (W 5) \<subseteq> {1}" "W 5 \<noteq> []"
    by (rule race_invE [OF s1(1)]) (use s1(2) in auto)
  then have "1 \<in> set (W 5)" by (cases "W 5") auto
  moreover have "set (W 5) \<subseteq> set L" using i(2,4) by auto
  note wk = wake_up_all_wakes [OF i(1,3) this, of None]
  then obtain s2 where s2: "wake_up_all None (Some 5) s1 = Some s2"
    "\<forall>x. task_st s2 x = (if x \<in> set (W 5) \<and> task_st s1 x \<noteq> TASK_ZOMBIE \<and> task_st s1 x \<noteq> TASK_DEAD then TASK_READY else task_st s1 x)" by blast
  ultimately have "task_st s2 1 = TASK_READY" using s1(2) by simp
  then show ?thesis using s2(1) s1(2) by blast
qed

theorem wait_queues_well_formed_witness: "\<exists>s'. wait_queue_add_current_locked 5 1 ex_wsched = Some s' \<and> wait_rel s' ((\<lambda>_. [])(5 := [1]))"
  using conjunct1 [OF wait_queues_well_formed [OF ex_wsched_inv(2), of 5 1]] by (simp add: ok_def)

text \<open>Task 2 waits on a queue, is killed, and is reaped.\<close>

lemma ex_killed:
  obtains s :: wsched and Q W where "sched_inv s Q [3, 2, 1]" "wait_rel s W" "W 5 = [2]" "task_st s 2 = TASK_ZOMBIE" "\<not> t_on_cpu (tasks s 2)" "reapable s 2"
proof -
  let ?f = "\<lambda>k. k\<lparr>t_exit_status := 137, t_state := TASK_ZOMBIE\<rparr>" and ?g = "\<lambda>k. k\<lparr>t_address_space := 4096, t_kstack_top := 8192\<rparr>"
  have "t_wait_queue (tasks ex_wsched 2) \<in> {None, Some 5}" using wait_relD(3) [OF ex_wsched_inv(2)] by (cases "t_wait_queue (tasks ex_wsched 2)") simp_all
  note add = add_wait [OF ex_wsched_inv(2) this]
  obtain s1 where s1: "wait_queue_add_current_locked 5 2 ex_wsched = Some s1" "wait_rel s1 (q_add 5 2 (\<lambda>_. []))" by (rule ok_elim [OF add]) blast
  have l: "links_only ex_wsched s1" using links_add [OF s1(1)] by simp
  have i1: "sched_inv s1 ex_queues [3, 2, 1]" by (rule links_inv(1) [OF l ex_wsched_inv(1)])
  obtain s2 where s2: "sched_inv (set_task 2 ?f s2) (q_remove 2 ex_queues) [3, 2, 1]" "keeps s1 (set_task 2 ?f s2)"
    by (rule ok_elim [OF block_inv [OF i1 blocks_simps(2) [of TASK_ZOMBIE 137], of 2]]) (simp, blast)
  define s3 where "s3 = set_task 2 ?f s2"
  define s where "s = set_task 2 ?g s3"
  have b: "blocks ?g" by (simp add: blocks_def)
  have "inv_of s3 [3, 2, 1] s3" unfolding s3_def by (rule inv_of_self [OF s2(1)])
  then have iof: "inv_of s3 [3, 2, 1] s" unfolding s_def by (rule inv_of_task [OF _ b]) simp
  obtain Q where i: "sched_inv s Q [3, 2, 1]" using iof unfolding inv_of_def by blast
  have k: "keeps s1 s" using s2(2) set_task_keeps [OF b, of s3 2] keeps_trans unfolding s_def s3_def by blast
  have "\<not> t_on_cpu (tasks ex_wsched 2)" by (simp add: ex_wsched_def ex_task0_def zero_task_def)
  moreover have "t_on_cpu (tasks s1 2) = t_on_cpu (tasks ex_wsched 2)" by (rule unwait_fields(4)) (use l in \<open>simp add: links_only_def\<close>)
  ultimately have c: "\<not> t_on_cpu (tasks s 2)" using k by (simp add: keeps_def)
  have w: "wait_rel s (q_add 5 2 (\<lambda>_. []))" using wait_rel_keeps [OF k] s1(2) by simp
  have "q_add 5 2 (\<lambda>_. []) 5 = [2]" by (simp add: q_add_def)
  moreover have "task_st s 2 = TASK_ZOMBIE" by (simp add: s_def s3_def)
  moreover have "reapable s 2" by (simp add: s_def reapable_def page_aligned_def)
  ultimately show thesis using that [of s Q "q_add 5 2 (\<lambda>_. [])"] i w c by blast
qed

theorem reap_leaves_waiter_witness: "\<exists>(s :: wsched) s'. task_reap (Some 2) s = Some (0, s') \<and> 2 \<in> set (freed s') \<and> fst (wait_queue_pop_locked 5 s') = Some 2"
proof -
  obtain s :: wsched and Q W where s: "sched_inv s Q [3, 2, 1]" "wait_rel s W" "W 5 = [2]" "task_st s 2 = TASK_ZOMBIE" "\<not> t_on_cpu (tasks s 2)" "reapable s 2"
    by (rule ex_killed)
  show ?thesis using reap_leaves_waiter [OF s(1,2) _ s(6,4,5,3)] by auto
qed

end
