(* ===== verification/Fifo.thy ===== *)
theory Fifo
  imports Prelude
begin

text \<open>
  The contract of a bounded first-in first-out queue, and what a client may rely on however it mixes insertions and removals. The locale is
  interpreted on the queue of deferred work in \<open>BottomHalf\<close>.
\<close>

datatype 'x fifo_op = Put 'x | Get

text \<open>A history of operations: the items that were accepted, the items that were taken, and the final state.\<close>

fun history :: "('x \<Rightarrow> 's \<Rightarrow> bool \<times> 's) \<Rightarrow> ('s \<Rightarrow> 'x option \<times> 's) \<Rightarrow> 'x fifo_op list \<Rightarrow> 's \<Rightarrow> 'x list \<times> 'x list \<times> 's" where
  "history put get [] s = ([], [], s)"
| "history put get (Put x # ops) s =
     (let (b, s1) = put x s; (acc, out, s2) = history put get ops s1 in (if b then x # acc else acc, out, s2))"
| "history put get (Get # ops) s =
     (let (r, s1) = get s; (acc, out, s2) = history put get ops s1 in (acc, (case r of None \<Rightarrow> out | Some x \<Rightarrow> x # out), s2))"

locale bounded_fifo =
  fixes wf :: "'s \<Rightarrow> bool" and content :: "'s \<Rightarrow> 'x list" and put :: "'x \<Rightarrow> 's \<Rightarrow> bool \<times> 's" and get :: "'s \<Rightarrow> 'x option \<times> 's" and valid :: "'x \<Rightarrow> bool" and cap :: nat
  assumes bounded: "wf s \<Longrightarrow> length (content s) \<le> cap"
    and put_wf: "wf s \<Longrightarrow> wf (snd (put x s))"
    and put_content: "wf s \<Longrightarrow> content (snd (put x s)) = (if fst (put x s) then content s @ [x] else content s)"
    and put_room: "wf s \<Longrightarrow> length (content s) < cap \<Longrightarrow> valid x \<Longrightarrow> fst (put x s)"
    and get_wf: "wf s \<Longrightarrow> wf (snd (get s))"
    and get_first: "wf s \<Longrightarrow> fst (get s) = (case content s of [] \<Rightarrow> None | x # _ \<Rightarrow> Some x)"
    and get_content: "wf s \<Longrightarrow> content (snd (get s)) = tl (content s)"
begin

lemma history_order: "wf s \<Longrightarrow> history put get ops s = (acc, out, s') \<Longrightarrow> wf s' \<and> content s @ acc = out @ content s'"
proof (induction ops arbitrary: s acc out)
  case (Cons a ops)
  show ?case
  proof (cases a)
    case (Put x)
    obtain acc1 out1 where h: "history put get ops (snd (put x s)) = (acc1, out1, s')" and r: "acc = (if fst (put x s) then x # acc1 else acc1)" "out = out1"
      using Cons.prems(2) Put by (auto split: prod.splits)
    show ?thesis using Cons.IH [OF put_wf [OF Cons.prems(1)] h] put_content [OF Cons.prems(1), of x] r by (auto split: if_splits)
  next
    case Get
    obtain acc1 out1 where h: "history put get ops (snd (get s)) = (acc1, out1, s')" and r: "acc = acc1" "out = (case fst (get s) of None \<Rightarrow> out1 | Some x \<Rightarrow> x # out1)"
      using Cons.prems(2) Get by (auto split: prod.splits)
    show ?thesis using Cons.IH [OF get_wf [OF Cons.prems(1)] h] get_content [OF Cons.prems(1)] get_first [OF Cons.prems(1)] r
      by (cases "content s") auto
  qed
qed simp

lemma history_bounded: "wf s \<Longrightarrow> history put get ops s = (acc, out, s') \<Longrightarrow> length (content s) + length acc \<le> length out + cap"
  using history_order [of s ops acc out s'] bounded [of s'] by (metis add_le_cancel_left length_append)

end

end
