(* ===== verification/BottomHalf.thy ===== *)
theory BottomHalf
  imports Fifo
begin

text \<open>
  Deferred interrupt work, \<open>kernel/bottom_half.c\<close>: a ring buffer of functions with their arguments. What is done under the lock is one step. A
  function is its address; calling it is an argument of the model, which may change the queue and the rest of the system and may not return.
\<close>

section \<open>Model\<close>

type_synonym bottom_half_item = "u64 \<times> u64"

record bottom_half =
  g_bottom_half_queue :: "u32 \<Rightarrow> bottom_half_item"
  g_bottom_half_head :: u32
  g_bottom_half_tail :: u32
  g_bottom_half_count :: u32

definition BOTTOM_HALF_QUEUE_CAP :: u32 where
  "BOTTOM_HALF_QUEUE_CAP = 64"

definition bottom_half_enqueue :: "u64 \<Rightarrow> u64 \<Rightarrow> bottom_half \<Rightarrow> int \<times> bottom_half" where
  "bottom_half_enqueue fn arg s =
     (if fn = 0 then (-1, s)
      else if g_bottom_half_count s \<ge> BOTTOM_HALF_QUEUE_CAP then (-1, s)
      else (0, s\<lparr>g_bottom_half_queue := (g_bottom_half_queue s)(g_bottom_half_tail s := (fn, arg)),
                 g_bottom_half_tail := (g_bottom_half_tail s + 1) mod BOTTOM_HALF_QUEUE_CAP,
                 g_bottom_half_count := g_bottom_half_count s + 1\<rparr>))"

text \<open>What a round of \<open>bottom_half_run\<close> does under the lock.\<close>

definition bottom_half_take :: "bottom_half \<Rightarrow> bottom_half_item option \<times> bottom_half" where
  "bottom_half_take s =
     (if g_bottom_half_count s = 0 then (None, s)
      else (Some (g_bottom_half_queue s (g_bottom_half_head s)),
            s\<lparr>g_bottom_half_queue := (g_bottom_half_queue s)(g_bottom_half_head s := (0, 0)),
              g_bottom_half_head := (g_bottom_half_head s + 1) mod BOTTOM_HALF_QUEUE_CAP,
              g_bottom_half_count := g_bottom_half_count s - 1\<rparr>))"

partial_function (option) bottom_half_loop ::
  "(bottom_half_item \<Rightarrow> 'w \<times> bottom_half \<Rightarrow> ('w \<times> bottom_half) option) \<Rightarrow> int \<Rightarrow> 'w \<times> bottom_half \<Rightarrow> (int \<times> 'w \<times> bottom_half) option" where
  "bottom_half_loop call n x =
     (case bottom_half_take (snd x) of
        (None, s) \<Rightarrow> Some (n, fst x, s)
      | (Some item, s) \<Rightarrow> do { x' \<leftarrow> call item (fst x, s); bottom_half_loop call (n + 1) x' })"

definition bottom_half_run ::
  "(bottom_half_item \<Rightarrow> 'w \<times> bottom_half \<Rightarrow> ('w \<times> bottom_half) option) \<Rightarrow> 'w \<times> bottom_half \<Rightarrow> (int \<times> 'w \<times> bottom_half) option" where
  "bottom_half_run call x = bottom_half_loop call 0 x"

section \<open>The ring is a queue\<close>

definition bottom_half_put :: "bottom_half_item \<Rightarrow> bottom_half \<Rightarrow> bool \<times> bottom_half" where
  "bottom_half_put item s = (let (r, s') = bottom_half_enqueue (fst item) (snd item) s in (r = 0, s'))"

definition slot :: "bottom_half \<Rightarrow> nat \<Rightarrow> u32" where
  "slot s i = of_nat ((unat (g_bottom_half_head s) + i) mod 64)"

definition pending :: "bottom_half \<Rightarrow> bottom_half_item list" where
  "pending s = map (\<lambda>i. g_bottom_half_queue s (slot s i)) [0..<unat (g_bottom_half_count s)]"

definition ring_ok :: "bottom_half \<Rightarrow> bool" where
  "ring_ok s \<longleftrightarrow> g_bottom_half_head s < 64 \<and> g_bottom_half_count s \<le> 64 \<and> g_bottom_half_tail s = slot s (unat (g_bottom_half_count s))"

lemma slot_eq: "slot s i = slot s j \<longleftrightarrow> (unat (g_bottom_half_head s) + i) mod 64 = (unat (g_bottom_half_head s) + j) mod 64"
proof -
  have "unat (slot s i) = (unat (g_bottom_half_head s) + i) mod 64" for i
    by (simp add: slot_def unat_of_nat take_bit_nat_eq_self)
  then show ?thesis by (metis word_unat_eq_iff)
qed

lemma slot_next: "g_bottom_half_head s < 64 \<Longrightarrow> (slot s i + 1) mod 64 = slot s (Suc i)"
proof -
  have u: "unat (slot s i) = (unat (g_bottom_half_head s) + i) mod 64" for i by (simp add: slot_def unat_of_nat take_bit_nat_eq_self)
  have l: "unat (slot s i) < 64" unfolding u by simp
  have "unat (slot s i + 1) = (unat (slot s i) + 1) mod 4294967296" by (simp add: unat_word_ariths)
  also have "\<dots> = unat (slot s i) + 1" using l by simp
  finally have "unat (slot s i + 1) = unat (slot s i) + 1" .
  then have "unat ((slot s i + 1) mod 64) = unat (slot s (Suc i))" by (simp add: unat_mod u mod_Suc_eq)
  then show ?thesis by (rule iffD1 [OF unat_eq_unat])
qed

lemma pending_length: "length (pending s) = unat (g_bottom_half_count s)"
  by (simp add: pending_def)

lemma mod_shift_inj:
  assumes "(h + i) mod n = (h + j) mod n" and "i < n" and "j < (n :: nat)" and "i \<le> j"
  shows "i = j"
proof -
  have "n dvd (h + j) - (h + i)" using assms(1,4) mod_eq_dvd_iff_nat [of "h + i" "h + j" n] by simp
  then have "n dvd j - i" by simp
  then show ?thesis using assms(2-4) by (meson dvd_imp_le diff_is_0_eq le_antisym less_imp_diff_less not_gr_zero not_less)
qed

lemma slot_inj: "i < 64 \<Longrightarrow> j < 64 \<Longrightarrow> slot s i = slot s j \<Longrightarrow> i = j"
  unfolding slot_eq using mod_shift_inj [of "unat (g_bottom_half_head s)" i 64 j] mod_shift_inj [of "unat (g_bottom_half_head s)" j 64 i] by (cases "i \<le> j") simp_all

lemma count_unat: "ring_ok s \<Longrightarrow> unat (g_bottom_half_count s) \<le> 64"
  by (simp add: ring_ok_def word_le_nat_alt)

lemma put_spec:
  assumes ok: "ring_ok s" and fn: "fst x \<noteq> 0" and room: "g_bottom_half_count s < 64"
  shows "fst (bottom_half_put x s)" and "ring_ok (snd (bottom_half_put x s))" and "pending (snd (bottom_half_put x s)) = pending s @ [x]"
proof -
  let ?s = "snd (bottom_half_put x s)" and ?n = "unat (g_bottom_half_count s)"
  have n: "?n < 64" using room by (simp add: word_less_nat_alt)
  have h: "g_bottom_half_head s < 64" and t: "g_bottom_half_tail s = slot s ?n" using ok by (simp_all add: ring_ok_def)
  have f: "\<not> 64 \<le> g_bottom_half_count s" using room by auto
  then show "fst (bottom_half_put x s)" using fn by (simp add: bottom_half_put_def bottom_half_enqueue_def BOTTOM_HALF_QUEUE_CAP_def)
  have s': "?s = s\<lparr>g_bottom_half_queue := (g_bottom_half_queue s)(slot s ?n := x), g_bottom_half_tail := slot s (Suc ?n), g_bottom_half_count := g_bottom_half_count s + 1\<rparr>"
    using fn f slot_next [OF h, of ?n] by (simp add: bottom_half_put_def bottom_half_enqueue_def BOTTOM_HALF_QUEUE_CAP_def t)
  have c: "unat (g_bottom_half_count s + 1) = Suc ?n" using n by (simp add: unat_word_ariths)
  have sl: "slot ?s i = slot s i" for i by (simp add: s' slot_def)
  have "g_bottom_half_count s + 1 \<le> 64" using n by (simp add: word_le_nat_alt c)
  then show "ring_ok ?s" unfolding ring_ok_def sl using h by (simp add: s' c)
  have "slot s i \<noteq> slot s ?n" if "i < ?n" for i using slot_inj [of i ?n s] that n by auto
  then show "pending ?s = pending s @ [x]" unfolding pending_def sl by (simp add: s' c)
qed

lemma take_spec:
  assumes ok: "ring_ok s" and c: "g_bottom_half_count s \<noteq> 0"
  shows "ring_ok (snd (bottom_half_take s))" and "pending s = the (fst (bottom_half_take s)) # pending (snd (bottom_half_take s))"
proof -
  let ?s = "snd (bottom_half_take s)" and ?n = "unat (g_bottom_half_count s)"
  have h: "g_bottom_half_head s < 64" and t: "g_bottom_half_tail s = slot s ?n" using ok by (simp_all add: ring_ok_def)
  have hs: "g_bottom_half_head s = slot s 0" using h by (simp add: slot_def word_less_nat_alt)
  have n0: "?n \<noteq> 0" using c by (simp add: unat_eq_0)
  have u: "unat (g_bottom_half_count s - 1) = ?n - 1" using c by (simp add: unat_minus_one)
  have s': "?s = s\<lparr>g_bottom_half_queue := (g_bottom_half_queue s)(slot s 0 := (0, 0)), g_bottom_half_head := slot s 1, g_bottom_half_count := g_bottom_half_count s - 1\<rparr>"
    using c slot_next [OF h, of 0] by (simp add: bottom_half_take_def BOTTOM_HALF_QUEUE_CAP_def hs)
  have "unat (slot s 1) = (unat (g_bottom_half_head s) + 1) mod 64" by (simp add: slot_def unat_of_nat take_bit_nat_eq_self)
  then have sl: "slot ?s i = slot s (Suc i)" for i by (simp add: s' slot_def mod_simps)
  have "slot s 1 < 64" by (simp add: slot_def word_less_nat_alt unat_of_nat take_bit_nat_eq_self)
  moreover have "g_bottom_half_count s - 1 \<le> 64" using count_unat [OF ok] by (simp add: word_le_nat_alt u)
  ultimately show "ring_ok ?s" unfolding ring_ok_def sl using t n0 by (simp add: s' u)
  have "slot s (Suc i) \<noteq> slot s 0" if "i < ?n - 1" for i
  proof -
    have "Suc i < 64" using that count_unat [OF ok] by linarith
    then show ?thesis using slot_inj [of "Suc i" 0 s] by auto
  qed
  moreover have "[0..<?n] = 0 # map Suc [0..<?n - 1]" using n0 by (metis Suc_pred' map_Suc_upt neq0_conv upt_rec)
  ultimately show "pending s = the (fst (bottom_half_take s)) # pending ?s"
    unfolding pending_def sl using c by (simp add: s' u bottom_half_take_def hs)
qed

lemma full_spec: "fst x = 0 \<or> \<not> g_bottom_half_count s < 64 \<Longrightarrow> bottom_half_put x s = (False, s)"
  by (auto simp: bottom_half_put_def bottom_half_enqueue_def BOTTOM_HALF_QUEUE_CAP_def not_less)

lemma empty_spec: "g_bottom_half_count s = 0 \<Longrightarrow> bottom_half_take s = (None, s) \<and> pending s = []"
  by (simp add: bottom_half_take_def pending_def)

interpretation bh: bounded_fifo ring_ok pending bottom_half_put bottom_half_take "\<lambda>x. fst x \<noteq> 0" 64
proof
  fix s :: bottom_half and x
  assume ok: "ring_ok s"
  show "length (pending s) \<le> 64" using count_unat [OF ok] by (simp add: pending_length)
  show "ring_ok (snd (bottom_half_put x s))" and "pending (snd (bottom_half_put x s)) = (if fst (bottom_half_put x s) then pending s @ [x] else pending s)"
    using put_spec [OF ok, of x] full_spec [of x s] ok by (cases "fst x \<noteq> 0 \<and> g_bottom_half_count s < 64"; auto)+
  show "fst (bottom_half_put x s)" if "length (pending s) < 64" "fst x \<noteq> 0"
    using put_spec(1) [OF ok that(2)] that(1) by (simp add: pending_length word_less_nat_alt)
  show "ring_ok (snd (bottom_half_take s))" using take_spec(1) [OF ok] empty_spec [of s] ok by (cases "g_bottom_half_count s = 0") auto
  show "fst (bottom_half_take s) = (case pending s of [] \<Rightarrow> None | x # _ \<Rightarrow> Some x)"
    using take_spec(2) [OF ok] empty_spec [of s] by (cases "g_bottom_half_count s = 0") (auto simp: bottom_half_take_def)
  show "pending (snd (bottom_half_take s)) = tl (pending s)" using take_spec(2) [OF ok] empty_spec [of s] by (cases "g_bottom_half_count s = 0") auto
qed

section \<open>Properties\<close>

lemma loop_drains:
  "ring_ok s \<Longrightarrow> \<exists>s'. bottom_half_loop (\<lambda>it x. Some (fst x @ [it], snd x)) n (w, s) = Some (n + int (length (pending s)), w @ pending s, s') \<and> ring_ok s' \<and> pending s' = []"
proof (induction "pending s" arbitrary: s n w)
  case Nil
  then have "g_bottom_half_count s = 0" using pending_length [of s] by (simp add: unat_eq_0)
  then show ?case using Nil empty_spec [of s] by (subst bottom_half_loop.simps) simp
next
  case (Cons it items)
  have "bottom_half_take s = (Some it, snd (bottom_half_take s))" using bh.get_first [OF Cons.prems] Cons.hyps(2) by (cases "bottom_half_take s") (auto split: list.splits)
  moreover have "items = pending (snd (bottom_half_take s))" using bh.get_content [OF Cons.prems] Cons.hyps(2) by (metis list.sel(3))
  moreover have "length (pending s) = Suc (length items)" using Cons.hyps(2) by (metis length_Cons)
  ultimately show ?case using Cons.hyps(1) [OF _ bh.get_wf [OF Cons.prems], of "n + 1" "w @ [it]"] Cons.hyps(2)
    by (subst bottom_half_loop.simps) (auto simp: algebra_simps split: prod.splits)
qed

text \<open>C26. The ring buffer of deferred work is a queue of at most 64 items: whatever the order in which interrupts enqueue and processors take, the items taken are, in order, the items that were
  waiting followed by the items accepted, none lost and none twice; an enqueue is refused only for a null function or when 64 items wait. Running the queue with functions that do not enqueue
  returns after calling each waiting function once, in order, and returns their number.\<close>

theorem bottom_half_fifo:
  assumes "ring_ok s" and "history bottom_half_put bottom_half_take ops s = (acc, out, s')"
  shows "ring_ok s' \<and> pending s @ acc = out @ pending s' \<and> length (pending s') \<le> 64 \<and>
    (\<forall>fn arg. fst (bottom_half_enqueue fn arg s') = (if fn = 0 \<or> length (pending s') = 64 then -1 else 0)) \<and>
    (\<exists>s''. bottom_half_run (\<lambda>item x. Some (fst x @ [item], snd x)) ([], s') = Some (int (length (pending s')), pending s', s'') \<and> pending s'' = [])"
proof -
  have h: "ring_ok s'" "pending s @ acc = out @ pending s'" using bh.history_order [OF assms] by simp_all
  have c: "(64 \<le> g_bottom_half_count s') = (length (pending s') = 64)" using count_unat [OF h(1)] by (auto simp: pending_length word_le_nat_alt)
  have "\<exists>s''. bottom_half_run (\<lambda>item x. Some (fst x @ [item], snd x)) ([], s') = Some (int (length (pending s')), pending s', s'') \<and> pending s'' = []"
    using loop_drains [OF h(1), of 0 "[]"] by (auto simp: bottom_half_run_def)
  then show ?thesis using h bh.bounded [OF h(1)] c by (simp add: bottom_half_enqueue_def BOTTOM_HALF_QUEUE_CAP_def)
qed

definition ex_ring :: bottom_half where
  "ex_ring = \<lparr>g_bottom_half_queue = (\<lambda>_. (0, 0)), g_bottom_half_head = 63, g_bottom_half_tail = 63, g_bottom_half_count = 0\<rparr>"

theorem bottom_half_fifo_witness:
  "\<exists>s'. history bottom_half_put bottom_half_take [Put (16, 1), Put (0, 2), Put (32, 3), Get] ex_ring = ([(16, 1), (32, 3)], [(16, 1)], s') \<and> pending s' = [(32, 3)]"
proof -
  have ok: "ring_ok ex_ring" by (simp add: ring_ok_def ex_ring_def slot_def)
  obtain s' where h: "history bottom_half_put bottom_half_take [Put (16, 1), Put (0, 2), Put (32, 3), Get] ex_ring = ([(16, 1), (32, 3)], [(16, 1)], s')"
  proof -
    have "\<not> 64 \<le> (1 :: u32)" by (simp add: word_le_nat_alt)
    then show thesis using that by (simp add: bottom_half_put_def bottom_half_enqueue_def bottom_half_take_def ex_ring_def BOTTOM_HALF_QUEUE_CAP_def)
  qed
  have "pending ex_ring = []" by (simp add: pending_def ex_ring_def)
  then show ?thesis using bottom_half_fifo [OF ok h] h by simp
qed

end
