(* ===== verification/Spec2Isabelle.thy ===== *)
theory Spec2Isabelle
  imports FsRead MmapProt CstdioThms SchedThms WaitRace BottomHalf
begin

text \<open>
  Verification of the Orthox-64 kernel. File names are relative to \<open>src/\<close>.

  \<^bold>\<open>The program.\<close> Orthox-64 is a small Unix-like kernel written in C. Its physical page allocator hands out
  4 KiB pages with reference counts; the page tables, copy-on-write and the memory system calls build address
  spaces from them. The file system reads and writes blocks through a block cache, and groups its writes into
  transactions of a write-ahead log. The scheduler keeps one run queue per processor; tasks block on wait
  queues and completions, on which \<open>exit\<close> and \<open>wait4\<close> rest. Interrupt handlers leave work to a queue of bottom
  halves. All of it uses the string routines and the formatter of the kernel's own C library.

  \<^bold>\<open>Conventions.\<close> Integers are words of their width where the code can wrap (\<open>u8\<close> to \<open>u64\<close> in \<open>Prelude\<close>), natural
  numbers where a bound is part of the state's invariant. A component's globals are a record that every
  operation takes and returns. A C function that does not return has the result \<open>None\<close>: a failed \<open>KASSERT\<close>,
  a wait for a lock that somebody else holds, an endless loop. Error codes are ordinary results. A spin lock
  that an operation holds from its first to its last access makes this operation one step, and is left out.
  The predicate \<open>ok m Q\<close> says that \<open>m\<close> returns and that its result satisfies \<open>Q\<close>.

  \<^bold>\<open>The theories.\<close>

  \<^item> \<open>Prelude\<close>: machine types, wrap-around arithmetic, \<open>ok\<close>, lemmas on lists and words.

  \<^item> \<open>Pmm\<close>: the page allocator, \<open>kernel/pmm_core.c\<close>. The bitmap, the counts and the cursor of the next-fit scan
    are the state; \<open>pmm_alloc\<close>, \<open>pmm_free\<close>, \<open>pmm_incref\<close> and their helpers are the operations. Allocation succeeds
    exactly when there is a run of free pages and changes nothing else; freeing undoes it; a page is released
    by its last reference only; the counter of used pages is right in all reachable states.

  \<^item> \<open>Bio\<close>: the block cache, \<open>kernel/xv6bio.c\<close>, with the transfers of \<open>kernel/storage.c\<close> to a disk of 512-byte
    sectors whose commands may fail and are recorded. Reading through the cache returns what the cache promises
    and reading past it, guarded by \<open>xv6bio_range_cached\<close>, returns the same.

  \<^item> \<open>Log\<close>, \<open>LogCommit\<close>, \<open>LogCrash\<close>, \<open>LogOps\<close>: the write-ahead log, \<open>kernel/xv6log.c\<close>: its operations, what each loop
    of a commit does, crash safety, and its use by transactions. A crash is a prefix of the recorded write
    commands, the last of them possibly in part; whatever the prefix, and however often the recovery is cut off
    as well, the next mount shows all of the old or all of the new contents. In every interleaving of
    transactions that keep to their reservation the log does not overflow.

  \<^item> \<open>Fs\<close>, \<open>FsPath\<close>, \<open>FsOps\<close>: the file system, \<open>kernel/xv6fs.c\<close>: superblock, block bitmap, inodes and block mapping;
    directories and paths; the operations on paths. \<open>FsRead\<close>: the contents of a file are defined on the blocks
    of the disk, and \<open>xv6fs_readi\<close> and \<open>xv6fs_dirlookup\<close> return exactly them. Of the operations that write there
    are definitions but no theorems.

  \<^item> \<open>RefCount\<close>: the locale \<open>ref_counted\<close>, the contract between a counting allocator and a client that accounts for
    its references. \<open>VmInv\<close> interprets it (as \<open>pc\<close>) on the operations of \<open>Pmm\<close>, and derives from it what the page
    tables need.

  \<^item> \<open>Vm\<close>: the x86-64 page tables, \<open>kernel/x86_64/vmm.c\<close> and \<open>include/x86_64/vm.h\<close>, and copy-on-write,
    \<open>kernel/vm_cow.c\<close>. \<open>Mmap\<close>: the memory system calls, \<open>kernel/sys_mmap.c\<close>. \<open>VmInv\<close>: the invariant, that page
    tables form trees that share nothing but user pages and that each page's count covers its mappings. \<open>VmCow\<close>,
    \<open>VmMap\<close>, \<open>MmapSafe\<close>, \<open>MmapProt\<close>: write faults, mapping and unmapping, anonymous \<open>mmap\<close>, \<open>munmap\<close>,
    \<open>mprotect\<close> and \<open>brk\<close> keep it and change only the pages they are asked to; of \<open>mremap\<close> it is shown that a length
    close to \<open>2 ^ 64\<close> wraps to zero.

  \<^item> \<open>CString\<close>: \<open>kernel/cstring.c\<close> on a byte-addressed memory. The routines that work a word at a time equal the
    bytewise definitions, for overlapping ranges too.

  \<^item> \<open>Sched\<close>: tasks, run queues, \<open>schedule\<close>, ticks, wake-up, signals, fork and reaping, from \<open>kernel/task.c\<close>,
    \<open>kernel/sched.c\<close>, \<open>kernel/task_fork.c\<close> and \<open>kernel/sys_proc.c\<close>. \<open>SchedInv\<close>: the linked run queues refine lists.
    \<open>SchedSafe\<close>, \<open>SchedThms\<close>: every operation keeps the invariant, whatever the processors interleave, and the
    run queues are served round robin.

  \<^item> \<open>Wait\<close>: wait queues and completions, \<open>kernel/wait.c\<close>, with \<open>sys_exit\<close> and \<open>sys_wait4\<close> of \<open>kernel/sys_task.c\<close>.
    \<open>WaitThms\<close>: wait queues are lists, each task on at most one. \<open>WaitRace\<close>: a waiter and a completer as a step
    relation in which each critical section is a step; no wake-up is lost.

  \<^item> \<open>Fifo\<close>: the locale \<open>bounded_fifo\<close>, a bounded queue, with the history of a mix of insertions and removals.
    \<open>BottomHalf\<close>: \<open>kernel/bottom_half.c\<close>, whose ring buffer interprets the locale (as \<open>bh\<close>).

  \<^item> \<open>Cstdio\<close>, \<open>CstdioThms\<close>: \<open>vsnprintf\<close> of \<open>kernel/cstdio.c\<close> and \<open>atoi\<close> of \<open>kernel/cstdlib.c\<close>. What is written is the
    text of the format as far as it fits; printed decimal numbers are read back.

  \<^bold>\<open>Loops and bounds.\<close> No definition uses fuel. A loop whose end depends on the data (a linked list that could be
  circular, a wait that could be endless, a text without terminator) is a \<open>partial_function\<close> with \<open>None\<close> for not
  returning, and the theorems about it show that it returns from states that satisfy the invariant; the other
  loops are structural or have a termination proof. Texts are shorter than \<open>2 ^ 64\<close> bytes and run queues shorter than
  \<open>2 ^ 32\<close> tasks where the C counters would otherwise wrap; the theorems state these bounds as hypotheses.

  \<^bold>\<open>Code outside the sources.\<close> What the boot loader provides (the memory map, the address of the kernel and of
  the frame buffer), what other tasks do while a task has yielded, the functions that bottom halves call, the
  clock and the contents that \<open>sys_pread64\<close> delivers to a mapping are arguments of the definitions.

  \<^bold>\<open>Not modelled.\<close> Device drivers, interrupt entry, the change of stacks and the start of the machine, which
  are accesses to registers of the hardware; the ports to aarch64 and riscv64, except for the code they share
  with x86-64; loading of programs, the virtual file system layer, pipes, sockets, terminals and the network
  stack; translation caches and the relaxed order of memory accesses between processors; printing.
\<close>

end
